(* ===== verification/GB_Prelude.thy ===== *)
theory GB_Prelude
  imports Complex_Main "HOL-Library.AList" "HOL-Library.Multiset" "HOL-Library.Sublist"
begin

text \<open>
  What the components share: the Python values the sources compute with and the facts about them that
  the component proofs use.

  \<^item> A Python \<open>float\<close> is a rational (\<open>pyfloat\<close>), and a decimal constant is that decimal.
    Comparisons are those of the code; the rounding of float arithmetic, infinities and NaN are not
    modelled.
  \<^item> A \<open>dict\<close> is an association list in insertion order (\<open>pydict\<close>): assignment to a present
    key keeps its position, a new key goes to the end, as in Python.
  \<^item> \<open>min(xs, key=f)\<close> is \<open>min_by\<close>: the first of the least elements, \<open>None\<close> where
    Python raises on an empty sequence.
  \<^item> A \<open>str\<close> is a list of characters (\<open>string\<close>); only ASCII letters change case.
\<close>

section \<open>Types\<close>

type_synonym pyfloat = rat
type_synonym ('k, 'v) pydict = "('k \<times> 'v) list"

named_theorems dict_simps

section \<open>Dictionaries\<close>

abbreviation dict_get :: "('k, 'v) pydict \<Rightarrow> 'k \<Rightarrow> 'v option" where
  "dict_get \<equiv> map_of"

abbreviation dict_set :: "'k \<Rightarrow> 'v \<Rightarrow> ('k, 'v) pydict \<Rightarrow> ('k, 'v) pydict" where
  "dict_set \<equiv> AList.update"

abbreviation dict_del :: "'k \<Rightarrow> ('k, 'v) pydict \<Rightarrow> ('k, 'v) pydict" where
  "dict_del \<equiv> AList.delete"

abbreviation dict_keys :: "('k, 'v) pydict \<Rightarrow> 'k list" where
  "dict_keys d \<equiv> map fst d"

abbreviation dict_values :: "('k, 'v) pydict \<Rightarrow> 'v list" where
  "dict_values d \<equiv> map snd d"

abbreviation dict_wf :: "('k, 'v) pydict \<Rightarrow> bool" where
  "dict_wf d \<equiv> distinct (dict_keys d)"

declare map_of_eq_Some_iff [simp del] Some_eq_map_of_iff [simp del]

text \<open>\<open>OrderedDict.move_to_end(k)\<close>, for a key that is present.\<close>

definition dict_move_to_end :: "'k \<Rightarrow> ('k, 'v) pydict \<Rightarrow> ('k, 'v) pydict" where
  "dict_move_to_end k d = (case dict_get d k of None \<Rightarrow> d | Some v \<Rightarrow> dict_del k d @ [(k, v)])"

lemma dict_get_set [simp, dict_simps]: "dict_get (dict_set k v d) = (dict_get d)(k \<mapsto> v)"
  by (rule update_conv')

lemma dict_get_del [simp, dict_simps]: "dict_get (dict_del k d) = (dict_get d)(k := None)"
  by (rule delete_conv')

lemma dict_keys_set_set [dict_simps]: "set (dict_keys (dict_set k v d)) = insert k (set (dict_keys d))"
  by (simp add: dom_update)

lemma dict_keys_del_set [dict_simps]: "set (dict_keys (dict_del k d)) = set (dict_keys d) - {k}"
  by (auto simp: delete_keys)

lemma dict_wf_set [simp, intro]: "dict_wf d \<Longrightarrow> dict_wf (dict_set k v d)"
  by (rule distinct_update)

lemma dict_wf_del [simp, intro]: "dict_wf d \<Longrightarrow> dict_wf (dict_del k d)"
  by (rule distinct_delete)

lemma dict_get_None_iff: "dict_get d k = None \<longleftrightarrow> k \<notin> set (dict_keys d)"
  by (simp add: map_of_eq_None_iff)

lemma dict_get_in_keys: "dict_get d k = Some v \<Longrightarrow> k \<in> set (dict_keys d)"
  by (metis dict_get_None_iff option.distinct(1))

lemma dict_set_append_new: "k \<notin> set (dict_keys d) \<Longrightarrow> dict_set k v d = d @ [(k, v)]"
  by (induction d) auto

lemma dict_set_same: "dict_get d k = Some v \<Longrightarrow> dict_set k v d = d"
  by (rule update_triv)

lemma dict_keys_set_present:
  "k \<in> set (dict_keys d) \<Longrightarrow> dict_keys (dict_set k v d) = dict_keys d"
  by (induction d) auto

lemma length_dict_set:
  "length (dict_set k v d) = (if k \<in> set (dict_keys d) then length d else Suc (length d))"
  by (induction d) auto

lemma length_dict_del:
  "dict_wf d \<Longrightarrow> length (dict_del k d) = (if k \<in> set (dict_keys d) then length d - 1 else length d)"
proof (induction d)
  case (Cons p d)
  show ?case
  proof (cases "fst p = k")
    case True
    with Cons.prems have "dict_del k d = d" by (intro delete_id) auto
    with True show ?thesis by simp
  next
    case False
    with Cons show ?thesis by (cases d) auto
  qed
qed simp

lemma dict_get_del_set_wf:
  "dict_wf d \<Longrightarrow> dict_get d k = Some v \<Longrightarrow> (k, v) \<in> set d"
  by (rule map_of_SomeD)

lemma dict_set_set_wf:
  assumes "dict_wf d"
  shows "set (dict_set k v d) = {p \<in> set d. fst p \<noteq> k} \<union> {(k, v)}"
  using assms by (induction d) (auto simp: image_iff)

lemma dict_del_set: "set (dict_del k d) = {p \<in> set d. fst p \<noteq> k}"
  by (auto simp: AList.delete_eq)

lemma dict_move_to_end_keys_set [dict_simps]:
  "set (dict_keys (dict_move_to_end k d)) = set (dict_keys d)"
proof (cases "dict_get d k")
  case None
  then show ?thesis by (simp add: dict_move_to_end_def)
next
  case (Some v)
  then have "k \<in> set (dict_keys d)" by (rule dict_get_in_keys)
  with Some show ?thesis by (auto simp: dict_move_to_end_def delete_keys)
qed

lemma dict_wf_move_to_end [intro]:
  assumes "dict_wf d"
  shows "dict_wf (dict_move_to_end k d)"
  using assms distinct_delete [OF assms, of k]
  by (auto simp: dict_move_to_end_def delete_keys split: option.splits)

lemma dict_get_move_to_end [dict_simps]: "dict_get (dict_move_to_end k d) = dict_get d"
  by (auto simp: dict_move_to_end_def map_add_def split: option.splits)

lemma length_dict_move_to_end [dict_simps]:
  assumes "dict_wf d"
  shows "length (dict_move_to_end k d) = length d"
proof (cases "dict_get d k")
  case (Some v)
  then have "k \<in> set (dict_keys d)" "d \<noteq> []" by (auto dest: dict_get_in_keys)
  with Some length_dict_del [OF assms, of k] show ?thesis by (cases d) (auto simp: dict_move_to_end_def)
qed (simp add: dict_move_to_end_def)

lemma dict_get_of_mem: "dict_wf d \<Longrightarrow> (k, v) \<in> set d \<Longrightarrow> dict_get d k = Some v"
  by (simp add: map_of_eq_Some_iff)

lemma dict_values_via_get:
  assumes "dict_wf d"
  shows "map (\<lambda>k. g (dict_get d k)) (dict_keys d) = map (\<lambda>v. g (Some v)) (dict_values d)"
  using assms by (auto simp: comp_def dict_get_of_mem intro!: map_cong)

lemma distinct_concat_map:
  assumes "distinct ks" and "\<And>k. k \<in> set ks \<Longrightarrow> distinct (f k)"
    and "\<And>j k. j \<in> set ks \<Longrightarrow> k \<in> set ks \<Longrightarrow> j \<noteq> k \<Longrightarrow> set (f j) \<inter> set (f k) = {}"
  shows "distinct (concat (map f ks))"
  using assms
proof (induction ks)
  case (Cons k ks)
  then have "distinct (concat (map f ks))" by (metis distinct.simps(2) list.set_intros(2))
  moreover have "set (f k) \<inter> set (f j) = {}" if "j \<in> set ks" for j
    using that Cons.prems(1) by (intro Cons.prems(3)) auto
  then have "set (f k) \<inter> set (concat (map f ks)) = {}" by auto
  ultimately show ?case using Cons.prems by auto
qed simp

lemma sum_list_map_sort: "sum_list (map f (sort ks)) = (sum_list (map f ks) :: 'a::comm_monoid_add)"
  by (metis mset_map mset_sort sum_mset_sum_list)

section \<open>Least element by a key\<close>

fun min_by :: "('a \<Rightarrow> 'b::linorder) \<Rightarrow> 'a list \<Rightarrow> 'a option" where
  "min_by f [] = None"
| "min_by f (x # xs) = Some (fold (\<lambda>y m. if f y < f m then y else m) xs x)"

lemma min_by_fold:
  "fold (\<lambda>y m. if f y < f m then y else m) xs x
     = (case min_by f xs of None \<Rightarrow> x | Some m \<Rightarrow> if f m < f x then m else x)"
proof (induction xs arbitrary: x)
  case (Cons y ys)
  show ?case
    by (cases "min_by f ys") (use Cons.IH in \<open>auto\<close>)
qed simp

lemma min_by_Cons:
  "min_by f (x # xs)
     = Some (case min_by f xs of None \<Rightarrow> x | Some m \<Rightarrow> if f m < f x then m else x)"
  by (simp add: min_by_fold)

lemma min_by_None [simp]: "min_by f xs = None \<longleftrightarrow> xs = []"
  by (cases xs) auto

lemma min_by_Some_iff_nonempty: "xs \<noteq> [] \<Longrightarrow> \<exists>m. min_by f xs = Some m"
  by (cases xs) auto

declare min_by.simps(2) [simp del]

lemma min_by_in: "min_by f xs = Some m \<Longrightarrow> m \<in> set xs"
  by (induction xs arbitrary: m) (auto simp: min_by_Cons split: option.splits if_splits)

lemma min_by_le: "min_by f xs = Some m \<Longrightarrow> x \<in> set xs \<Longrightarrow> f m \<le> f x"
proof (induction xs arbitrary: m)
  case (Cons y ys)
  show ?case
  proof (cases "min_by f ys")
    case None
    with Cons.prems show ?thesis by (auto simp: min_by_Cons)
  next
    case (Some m')
    with Cons show ?thesis by (fastforce simp: min_by_Cons split: if_splits)
  qed
qed simp

text \<open>The least element by a key is the head of the stable sort: \<open>sorted(xs, key=f)[0]\<close>.\<close>

lemma hd_sort_key: "xs \<noteq> [] \<Longrightarrow> min_by f xs = Some (hd (sort_key f xs))"
proof (induction xs)
  case (Cons x xs)
  show ?case
  proof (cases xs)
    case Nil
    then show ?thesis by (simp add: min_by_Cons)
  next
    case (Cons y ys)
    then have "xs \<noteq> []" by simp
    with Cons.IH have m: "min_by f xs = Some (hd (sort_key f xs))" by simp
    obtain z zs where "sort_key f xs = z # zs"
      using \<open>xs \<noteq> []\<close> by (metis length_0_conv length_sort neq_Nil_conv)
    with m show ?thesis by (auto simp: min_by_Cons)
  qed
qed simp

section \<open>Numbers\<close>

text \<open>\<open>int(x)\<close> truncates towards zero; \<open>round(x)\<close> takes the nearest integer and, half way,
  the even one; \<open>round(x, n)\<close> does so at the \<open>n\<close>-th decimal.\<close>

definition py_int :: "pyfloat \<Rightarrow> int" where
  "py_int x = (if 0 \<le> x then \<lfloor>x\<rfloor> else \<lceil>x\<rceil>)"

definition py_round :: "pyfloat \<Rightarrow> int" where
  "py_round x = (let f = \<lfloor>x\<rfloor>; d = x - of_int f in
     if d < 1 / 2 then f else if d > 1 / 2 then f + 1 else if even f then f else f + 1)"

definition py_round_n :: "nat \<Rightarrow> pyfloat \<Rightarrow> pyfloat" where
  "py_round_n n x = of_int (py_round (x * 10 ^ n)) / 10 ^ n"

lemma py_round_of_int [simp]: "py_round (of_int i) = i"
  by (simp add: py_round_def)

lemma py_round_near: "\<bar>of_int (py_round x) - x\<bar> \<le> 1 / 2"
proof -
  have lo: "of_int \<lfloor>x\<rfloor> \<le> x" and hi: "x < of_int \<lfloor>x\<rfloor> + 1"
    using floor_correct [of x] by simp_all
  then show ?thesis by (auto simp: py_round_def Let_def abs_le_iff)
qed

lemma py_int_nonneg: "0 \<le> x \<Longrightarrow> 0 \<le> py_int x"
  by (simp add: py_int_def)

section \<open>Strings\<close>

abbreviation starts_with :: "'a list \<Rightarrow> 'a list \<Rightarrow> bool" where
  "starts_with p s \<equiv> take (length p) s = p"

abbreviation ends_with :: "'a list \<Rightarrow> 'a list \<Rightarrow> bool" where
  "ends_with p s \<equiv> length p \<le> length s \<and> drop (length s - length p) s = p"

fun contains :: "'a list \<Rightarrow> 'a list \<Rightarrow> bool" where
  "contains p [] \<longleftrightarrow> p = []"
| "contains p (c # cs) \<longleftrightarrow> starts_with p (c # cs) \<or> contains p cs"

lemma starts_with_iff: "starts_with p s \<longleftrightarrow> (\<exists>t. s = p @ t)"
  by (metis append_eq_conv_conj)

lemma starts_with_trans: "starts_with p q \<Longrightarrow> starts_with q s \<Longrightarrow> starts_with p s"
  by (metis append_assoc starts_with_iff)

lemma starts_with_comparable:
  "starts_with p s \<Longrightarrow> starts_with q s \<Longrightarrow> length p \<le> length q \<Longrightarrow> starts_with p q"
  by (metis min.absorb1 take_take)

lemma contains_iff: "contains p s \<longleftrightarrow> (\<exists>a b. s = a @ p @ b)"
proof (induction s)
  case (Cons c cs)
  show ?case
  proof
    assume "contains p (c # cs)"
    then consider "starts_with p (c # cs)" | "contains p cs" by auto
    then show "\<exists>a b. c # cs = a @ p @ b"
    proof cases
      case 1
      then show ?thesis unfolding starts_with_iff by (metis append_Nil)
    next
      case 2
      with Cons.IH obtain a b where "cs = a @ p @ b" by auto
      then have "c # cs = (c # a) @ p @ b" by simp
      then show ?thesis by blast
    qed
  next
    assume "\<exists>a b. c # cs = a @ p @ b"
    then obtain a b where *: "c # cs = a @ p @ b" by blast
    show "contains p (c # cs)"
    proof (cases a)
      case Nil
      with * show ?thesis unfolding contains.simps starts_with_iff by auto
    next
      case (Cons d a')
      with * have "cs = a' @ p @ b" by simp
      with Cons.IH show ?thesis by auto
    qed
  qed
qed auto

definition ascii_lower :: "char \<Rightarrow> char" where
  "ascii_lower c = (let n = of_char c :: nat in if 65 \<le> n \<and> n \<le> 90 then char_of (n + 32) else c)"

definition str_lower :: "string \<Rightarrow> string" where
  "str_lower s = map ascii_lower s"

section \<open>Results\<close>

text \<open>A call that may raise returns \<open>Inl\<close> of the error or \<open>Inr\<close> of the value.\<close>

definition bind_result :: "'e + 'a \<Rightarrow> ('a \<Rightarrow> 'e + 'b) \<Rightarrow> 'e + 'b" where
  "bind_result r f = (case r of Inl e \<Rightarrow> Inl e | Inr x \<Rightarrow> f x)"

lemma bind_result_simps [simp]:
  "bind_result (Inl e) f = Inl e"
  "bind_result (Inr x) f = f x"
  by (simp_all add: bind_result_def)

lemma bind_result_Inr_iff: "bind_result r f = Inr y \<longleftrightarrow> (\<exists>x. r = Inr x \<and> f x = Inr y)"
  by (cases r) auto

end
