(* ===== verification/Lease.thy ===== *)
theory Lease
  imports GB_Prelude
begin

text \<open>
  The VRAM lease arbiter of \<^verbatim>\<open>gb_lease.py\<close>: the client table, effective priorities, the fit test,
  the admission pass, and every public operation of \<open>LeaseArbiter\<close> as a transaction over the state file.

  The state file is absent, damaged or holds a state (\<open>lfile\<close>). An operation reads its surroundings (clock,
  card, process table, block flag) from an \<open>env\<close>, sampled once per critical section. Texts that the source
  builds with f-strings (\<open>reason\<close>, event texts) are constructors that carry the interpolated values. An
  entry's sequence number stands for the identity of its dict.
\<close>

section \<open>The client table\<close>

datatype lclass = P0 | P1 | P2 | P3 | P4 | P9
datatype ltier = Interactive | Scheduled | Batch

definition CLIENTS :: "(string, lclass \<times> int \<times> ltier) pydict" where
  "CLIENTS =
    [(''owner.interactive'', P0, 100, Interactive),
     (''invest.engine.pass'', P1, 80, Scheduled),
     (''invest.engine.job'', P2, 50, Scheduled),
     (''invest.engine.embed'', P2, 50, Scheduled),
     (''invest.engine.reader'', P3, 40, Batch),
     (''optimal-claude.rag'', P3, 40, Batch),
     (''greenboost.cli'', P3, 40, Batch),
     (''optimal-claude.hook'', P4, 10, Batch),
     (''greenboost.mcp'', P4, 10, Batch),
     (''greenboost.bench'', P4, 10, Batch),
     (''greenboost.synapse.serve'', P0, 100, Interactive),
     (''greenboost.cli.prompt'', P0, 100, Interactive),
     (''greenboost.rag.query'', P0, 100, Interactive),
     (''greenboost.rag.index'', P2, 50, Scheduled),
     (''greenboost.rotator'', P2, 50, Scheduled),
     (''optimal-claude-history'', P4, 10, Batch)]"

definition UNKNOWN_CLIENT :: "lclass \<times> int \<times> ltier" where
  "UNKNOWN_CLIENT = (P9, 0, Batch)"

definition SOLO_CLASSES :: "lclass set" where
  "SOLO_CLASSES = {P0, P1}"

text \<open>\<open>sorted({...}, reverse=True)\<close> over the base priorities of the table and of the unknown client.\<close>

definition LEVELS :: "int list" where
  "LEVELS = rev (sort (remdups (map (\<lambda>(_, _, b, _). b) CLIENTS @ [fst (snd UNKNOWN_CLIENT)])))"

definition SETTLE_S :: pyfloat where
  "SETTLE_S = 120"

section \<open>State, surroundings, answers\<close>

datatype lstatus = Queued | Granted

datatype code = GRANTED | QUEUED | BUSY_HOLDER | NO_FIT | QUEUE_FULL | BLOCKED | UNKNOWN_CLIENT_CODE
  | CLIENT_BUDGET | BAD_REQUEST | STALE_TOKEN | STATE_UNREADABLE

datatype why =
    HolderReleasing
  | SoloHeld lclass string
  | ClientHolds string int int
  | NeedsTiering "string list"
  | TieringHeld string
  | CardUnreadable
  | NoRoom int int
  | NoFree int int
  | Behind string
  | NotPositive
  | NotRunning int
  | NotInTable string
  | BlockFlag
  | QueueIsFull int
  | AboveClientBudget int int "string option"
  | NeverFits int int int
  | InTheWay string "why option"
  | StateDamaged

record entry =
  le_id :: string
  le_seq :: int
  le_job :: string
  le_vram :: int
  le_ram :: int
  le_cpu :: int
  le_prio :: pyfloat
  le_key :: "string option"
  le_pid :: int
  le_start :: int
  le_ttl :: pyfloat
  le_tiering :: bool
  le_control :: "string option"
  le_state :: lstatus
  le_t_enq :: pyfloat
  le_t_grant :: "pyfloat option"
  le_seen :: pyfloat
  le_reason :: "why option"
  le_client :: "string option"
  le_class :: "(lclass \<times> int \<times> ltier) option"
  le_purpose :: "string option"
  le_model :: "string option"
  le_max_hold :: "pyfloat option"
  le_token :: "int option"
  le_releasing :: bool
  le_cancel :: "string option"

datatype event =
    Dropped string lstatus int
  | DroppedWaiting string pyfloat
  | LeftPaused "string list"
  | GrantedEv string int pyfloat
  | Rejected string code why
  | UnknownClient string
  | Asked string string

record lstate =
  st_entries :: "entry list"
  st_seq :: int
  st_paused :: "string list"
  st_events :: "(pyfloat \<times> event) list"
  st_rejects :: int
  st_token :: int
  st_last_wait :: "pyfloat option"
  st_queue_max :: int

datatype lfile = FAbsent | FDamaged | FState lstate

record card =
  physical_mib :: "int option"
  free_mib :: "int option"
  used_by_pid :: "(int, int) pydict option"

record config =
  cf_queue_max :: int
  cf_aging :: pyfloat
  cf_starve_s :: pyfloat
  cf_client_budgets :: "(string, int) pydict"
  cf_reserve_pct :: pyfloat
  cf_strict :: bool

record env =
  ev_now :: pyfloat
  ev_card :: card
  ev_starttime :: "int \<Rightarrow> int option"
  ev_block :: bool
  ev_control_ok :: "string \<Rightarrow> bool"

datatype exn = LeaseStateUnreadable | IndexError | ValueError | OSError

record response =
  r_granted :: bool
  r_rejected :: bool
  r_lease_id :: "string option"
  r_state :: "lstatus option"
  r_position :: nat
  r_reason :: "why option"
  r_code :: code
  r_token :: "int option"
  r_retry_after :: "pyfloat option"
  r_holder :: "(string \<times> string) option"

definition init_state :: "config \<Rightarrow> lstate" where
  "init_state cfg = \<lparr>st_entries = [], st_seq = 0, st_paused = [], st_events = [], st_rejects = 0,
     st_token = 0, st_last_wait = None, st_queue_max = cf_queue_max cfg\<rparr>"

section \<open>Helpers of the class\<close>

text \<open>The last 20 events are kept.\<close>

definition add_event :: "env \<Rightarrow> event \<Rightarrow> lstate \<Rightarrow> lstate" where
  "add_event env ev st =
     (let evs = st_events st @ [(py_round_n 1 (ev_now env), ev)]
      in st\<lparr>st_events := drop (length evs - 20) evs\<rparr>)"

definition alive :: "env \<Rightarrow> entry \<Rightarrow> bool" where
  "alive env e \<longleftrightarrow> ev_starttime env (le_pid e) = Some (le_start e)"

definition is_granted :: "entry \<Rightarrow> bool" where
  "is_granted e \<longleftrightarrow> le_state e = Granted"

abbreviation granted_of :: "lstate \<Rightarrow> entry list" where
  "granted_of st \<equiv> filter is_granted (st_entries st)"

abbreviation queued_of :: "lstate \<Rightarrow> entry list" where
  "queued_of st \<equiv> filter (\<lambda>e. \<not> is_granted e) (st_entries st)"

definition set_entry :: "entry \<Rightarrow> lstate \<Rightarrow> lstate" where
  "set_entry e st = st\<lparr>st_entries := map (\<lambda>x. if le_seq x = le_seq e then e else x) (st_entries st)\<rparr>"

fun prune_loop :: "env \<Rightarrow> entry list \<Rightarrow> entry list \<Rightarrow> lstate \<Rightarrow> entry list \<times> lstate" where
  "prune_loop env [] keep st = (keep, st)"
| "prune_loop env (e # es) keep st =
     (if \<not> alive env e then
        prune_loop env es keep (add_event env (Dropped (le_job e) (le_state e) (le_pid e)) st)
      else if le_state e = Queued \<and> ev_now env - le_seen e > le_ttl e then
        prune_loop env es keep (add_event env (DroppedWaiting (le_job e) (le_ttl e)) st)
      else prune_loop env es (keep @ [e]) st)"

definition prune :: "env \<Rightarrow> lstate \<Rightarrow> lstate" where
  "prune env st =
     (case prune_loop env (st_entries st) [] st of (keep, st1) \<Rightarrow>
        let st2 = st1\<lparr>st_entries := keep\<rparr> in
        if \<exists>e \<in> set keep. is_granted e then st2
        else let st3 = (if st_paused st2 \<noteq> [] then add_event env (LeftPaused (st_paused st2)) st2 else st2)
             in st3\<lparr>st_paused := []\<rparr>)"

definition reserve :: "config \<Rightarrow> int \<Rightarrow> int" where
  "reserve cfg physical = max 256 (py_int (of_int physical * cf_reserve_pct cfg / 100))"

fun index_of :: "'a \<Rightarrow> 'a list \<Rightarrow> nat option" where
  "index_of x [] = None"
| "index_of x (y # ys) = (if x = y then Some 0 else map_option Suc (index_of x ys))"

text \<open>
  The effective priority. \<open>None\<close> is an exception: a base outside the table (\<open>ValueError\<close>) or a level index
  past the end (\<open>IndexError\<close>), which a clock that went backwards gives, since \<open>waited // starve_s\<close> is
  then negative.
\<close>

definition eff :: "config \<Rightarrow> entry \<Rightarrow> pyfloat \<Rightarrow> pyfloat option" where
  "eff cfg e now =
     (let waited = now - le_t_enq e; aged = cf_aging cfg * waited / 60 in
      case le_class e of
        None \<Rightarrow> Some (le_prio e + aged)
      | Some (_, base, _) \<Rightarrow>
          (case index_of base LEVELS of
             None \<Rightarrow> None
           | Some i0 \<Rightarrow>
               let i = (if base < hd LEVELS
                        then max (int i0 - \<lfloor>waited / cf_starve_s cfg\<rfloor>) 1 else int i0) in
               if i \<ge> int (length LEVELS) then None
               else let v = of_int (LEVELS ! nat i) + aged in
                 Some (if i > 0 then min v (of_int (LEVELS ! (nat i - 1)) - 1 / 1000) else v)))"

abbreviation client_key :: "string option \<Rightarrow> string" where
  "client_key c \<equiv> (case c of None \<Rightarrow> [] | Some s \<Rightarrow> s)"

definition client_budget :: "config \<Rightarrow> string option \<Rightarrow> int option" where
  "client_budget cfg client = dict_get (cf_client_budgets cfg) (client_key client)"

abbreviation class_of :: "entry \<Rightarrow> lclass option" where
  "class_of e \<equiv> map_option fst (le_class e)"

text \<open>\<open>not phys\<close>: the card cannot be read, or reports 0.\<close>

definition readable :: "int option \<Rightarrow> bool" where
  "readable phys \<longleftrightarrow> phys \<noteq> None \<and> phys \<noteq> Some 0"

definition pending :: "card \<Rightarrow> pyfloat \<Rightarrow> entry list \<Rightarrow> int" where
  "pending cd now granted =
     sum_list (map (\<lambda>g. max 0 (le_vram g - (case used_by_pid cd of
                                              None \<Rightarrow> 0
                                            | Some by \<Rightarrow> (case dict_get by (le_pid g) of None \<Rightarrow> 0 | Some n \<Rightarrow> n))))
       (filter (\<lambda>g. used_by_pid cd \<noteq> None \<or>
                    (case le_t_grant g of None \<Rightarrow> False | Some t \<Rightarrow> now - t < SETTLE_S)) granted))"

text \<open>\<open>_fit\<close>: \<open>None\<close> when the entry may start now, else the reason it waits.\<close>

definition fit :: "config \<Rightarrow> entry list \<Rightarrow> entry \<Rightarrow> card \<Rightarrow> pyfloat \<Rightarrow> why option" where
  "fit cfg granted e cd now =
     (if \<exists>g \<in> set granted. le_releasing g then Some HolderReleasing
      else if granted = [] then None
      else case (case class_of e of
                   None \<Rightarrow> None
                 | Some c \<Rightarrow> if c \<in> SOLO_CLASSES
                            then map_option (SoloHeld c \<circ> le_job) (find (\<lambda>g. class_of g = Some c) granted)
                            else None) of
        Some w \<Rightarrow> Some w
      | None \<Rightarrow>
          let used = sum_list (map le_vram (filter (\<lambda>g. le_client g = le_client e) granted)) in
          case (case client_budget cfg (le_client e) of
                  None \<Rightarrow> None
                | Some cb \<Rightarrow> if used + le_vram e > cb then Some (ClientHolds (client_key (le_client e)) cb used)
                            else None) of
            Some w \<Rightarrow> Some w
          | None \<Rightarrow>
              if le_tiering e then Some (NeedsTiering (map le_job granted))
              else case find le_tiering granted of
                Some g \<Rightarrow> Some (TieringHeld (le_job g))
              | None \<Rightarrow>
                  if \<not> readable (physical_mib cd) then Some CardUnreadable
                  else let phys = the (physical_mib cd);
                           room = phys - reserve cfg phys - sum_list (map le_vram granted) in
                    if le_vram e > room then Some (NoRoom (le_vram e) (max room 0))
                    else case free_mib cd of
                        None \<Rightarrow> None
                      | Some free \<Rightarrow>
                          let p = pending cd now granted in
                          if le_vram e > free - p then Some (NoFree (le_vram e) (max (free - p) 0)) else None)"

section \<open>The admission pass\<close>

definition grant :: "env \<Rightarrow> entry \<Rightarrow> lstate \<Rightarrow> lstate" where
  "grant env e st =
     (let tok = st_token st + 1; wait = py_round_n 1 (ev_now env - le_t_enq e);
          e' = e\<lparr>le_state := Granted, le_t_grant := Some (ev_now env), le_reason := None, le_token := Some tok\<rparr>
      in add_event env (GrantedEv (le_job e) (le_vram e) wait)
           ((set_entry e' st)\<lparr>st_token := tok, st_last_wait := Some wait\<rparr>))"

fun admit_loop :: "config \<Rightarrow> env \<Rightarrow> card \<Rightarrow> string option \<Rightarrow> entry list \<Rightarrow> lstate \<Rightarrow> lstate" where
  "admit_loop cfg env cd blocked [] st = st"
| "admit_loop cfg env cd (Some job) (e # es) st =
     admit_loop cfg env cd (Some job) es (set_entry (e\<lparr>le_reason := Some (Behind job)\<rparr>) st)"
| "admit_loop cfg env cd None (e # es) st =
     (case fit cfg (granted_of st) e cd (ev_now env) of
        None \<Rightarrow> admit_loop cfg env (if le_tiering e then cd\<lparr>physical_mib := None\<rparr> else cd) None es
                  (grant env e st)
      | Some w \<Rightarrow> admit_loop cfg env cd (Some (le_job e)) es (set_entry (e\<lparr>le_reason := Some w\<rparr>) st))"

text \<open>\<open>sorted(queued, key=lambda e: (-eff(e), e["seq"]))\<close>; the keys are computed first, so an exception in
  any of them ends the operation.\<close>

definition queue_order :: "config \<Rightarrow> pyfloat \<Rightarrow> entry list \<Rightarrow> entry list option" where
  "queue_order cfg now es =
     (if \<exists>e \<in> set es. eff cfg e now = None then None
      else Some (sort_key (\<lambda>e. - the (eff cfg e now)) (sort_key le_seq es)))"

definition admit :: "config \<Rightarrow> env \<Rightarrow> lstate \<Rightarrow> lstate option" where
  "admit cfg env st =
     (case queue_order cfg (ev_now env) (queued_of st) of
        None \<Rightarrow> None
      | Some queued \<Rightarrow> Some (admit_loop cfg env (ev_card env) None queued st))"

section \<open>Transactions\<close>

text \<open>
  \<open>_txn\<close>: under the lock, read the file, prune, run the body, admit, write. A body or an admission pass that
  raises leaves the file as it was. A damaged file raises before anything is decided.
\<close>

definition txn_state ::
  "config \<Rightarrow> env \<Rightarrow> (lstate \<Rightarrow> exn + 'a \<times> lstate) \<Rightarrow> lstate \<Rightarrow> exn + 'a \<times> lstate" where
  "txn_state cfg env body st =
     bind_result (body (prune env (st\<lparr>st_queue_max := cf_queue_max cfg\<rparr>)))
       (\<lambda>(a, st'). case admit cfg env st' of None \<Rightarrow> Inl IndexError | Some st'' \<Rightarrow> Inr (a, st''))"

definition txn ::
  "config \<Rightarrow> env \<Rightarrow> (lstate \<Rightarrow> exn + 'a \<times> lstate) \<Rightarrow> lfile \<Rightarrow> (exn + 'a) \<times> lfile" where
  "txn cfg env body f =
     (let run = (\<lambda>st. case txn_state cfg env body st of
                        Inl x \<Rightarrow> (Inl x, f)
                      | Inr (a, st') \<Rightarrow> (Inr a, FState st')) in
      case f of
        FDamaged \<Rightarrow> (Inl LeaseStateUnreadable, f)
      | FAbsent \<Rightarrow> run (init_state cfg)
      | FState st \<Rightarrow> run st)"

text \<open>The \<open>_unknown_state\<close> decorator: an unreadable file becomes the operation's refusal, any other
  exception passes.\<close>

definition or_refuse :: "'a \<Rightarrow> (exn + 'a) \<times> lfile \<Rightarrow> (exn + 'a) \<times> lfile" where
  "or_refuse refusal r = (case r of (Inl LeaseStateUnreadable, f) \<Rightarrow> (Inr refusal, f) | _ \<Rightarrow> r)"

section \<open>Answers\<close>

text \<open>\<open>_view\<close>: the ticket as the client sees it; the position counts queued tickets in arrival order.\<close>

definition view_of :: "lstate \<Rightarrow> entry \<Rightarrow> response" where
  "view_of st e =
     (let queued = sort_key le_seq (queued_of st);
          pos = (if is_granted e then 0
                 else case index_of (le_id e) (map le_id queued) of None \<Rightarrow> 0 | Some i \<Rightarrow> Suc i)
      in \<lparr>r_granted = is_granted e, r_rejected = False, r_lease_id = Some (le_id e), r_state = Some (le_state e),
          r_position = pos, r_reason = le_reason e,
          r_code = (if is_granted e then GRANTED else QUEUED), r_token = le_token e,
          r_retry_after = None, r_holder = None\<rparr>)"

definition refusal :: "code \<Rightarrow> why \<Rightarrow> pyfloat option \<Rightarrow> (string \<times> string) option \<Rightarrow> response" where
  "refusal c w retry holder =
     \<lparr>r_granted = False, r_rejected = True, r_lease_id = None, r_state = None, r_position = 0,
      r_reason = Some w, r_code = c, r_token = None, r_retry_after = retry, r_holder = holder\<rparr>"

section \<open>acquire\<close>

record request =
  q_job :: string
  q_vram :: int
  q_ram :: int
  q_cpu :: int
  q_priority :: pyfloat
  q_key :: "string option"
  q_ttl :: pyfloat
  q_pid :: int
  q_tiering :: bool
  q_control :: "string option"
  q_client :: "string option"
  q_purpose :: "string option"
  q_model :: "string option"
  q_wait :: bool
  q_max_hold :: "pyfloat option"
  q_uuid :: string

text \<open>A falsy string argument (\<open>None\<close> or empty) is treated as absent by the guards.\<close>

definition given :: "string option \<Rightarrow> bool" where
  "given s \<longleftrightarrow> s \<noteq> None \<and> s \<noteq> Some []"

definition reject ::
  "env \<Rightarrow> request \<Rightarrow> code \<Rightarrow> why \<Rightarrow> pyfloat option \<Rightarrow> (string \<times> string) option \<Rightarrow> lstate \<Rightarrow> response \<times> lstate" where
  "reject env q c w retry holder st =
     (refusal c w retry holder,
      add_event env (Rejected (if given (q_client q) then client_key (q_client q) else q_job q) c w)
        (st\<lparr>st_rejects := st_rejects st + 1\<rparr>))"

definition entry_by_seq :: "int \<Rightarrow> lstate \<Rightarrow> entry option" where
  "entry_by_seq n st = find (\<lambda>e. le_seq e = n) (st_entries st)"

text \<open>The first half of \<open>acquire\<close>: the same key is the same ticket and counts as a poll.\<close>

definition poll_ticket :: "config \<Rightarrow> env \<Rightarrow> entry \<Rightarrow> lstate \<Rightarrow> exn + response \<times> lstate" where
  "poll_ticket cfg env e st =
     (case admit cfg env (set_entry (e\<lparr>le_seen := ev_now env\<rparr>) st) of
        None \<Rightarrow> Inl IndexError
      | Some st' \<Rightarrow> (case entry_by_seq (le_seq e) st' of
            None \<Rightarrow> Inl IndexError
          | Some e' \<Rightarrow> Inr (view_of st' e', st')))"

definition class_for :: "request \<Rightarrow> (lclass \<times> int \<times> ltier) option" where
  "class_for q = (if given (q_client q)
     then Some (case dict_get CLIENTS (client_key (q_client q)) of None \<Rightarrow> UNKNOWN_CLIENT | Some c \<Rightarrow> c)
     else None)"

definition new_entry :: "env \<Rightarrow> request \<Rightarrow> int \<Rightarrow> int \<Rightarrow> entry" where
  "new_entry env q start n =
     \<lparr>le_id = q_uuid q, le_seq = n, le_job = q_job q, le_vram = q_vram q, le_ram = q_ram q, le_cpu = q_cpu q,
      le_prio = (case class_for q of None \<Rightarrow> q_priority q | Some (_, base, _) \<Rightarrow> of_int base),
      le_key = q_key q, le_pid = q_pid q, le_start = start, le_ttl = q_ttl q, le_tiering = q_tiering q,
      le_control = q_control q, le_state = Queued, le_t_enq = ev_now env, le_t_grant = None,
      le_seen = ev_now env, le_reason = None, le_client = q_client q, le_class = class_for q,
      le_purpose = q_purpose q, le_model = q_model q, le_max_hold = q_max_hold q, le_token = None,
      le_releasing = False, le_cancel = None\<rparr>"

text \<open>The refusal of a caller that does not wait: it names the first holder, or nobody.\<close>

definition holder_name :: "entry \<Rightarrow> string" where
  "holder_name g = (if given (le_client g) then client_key (le_client g) else le_job g)"

definition busy_refusal :: "env \<Rightarrow> request \<Rightarrow> entry \<Rightarrow> lstate \<Rightarrow> response \<times> lstate" where
  "busy_refusal env q e st =
     (let held = find is_granted (st_entries st);
          left = (case held of
                    None \<Rightarrow> None
                  | Some g \<Rightarrow> (case le_max_hold g of
                        None \<Rightarrow> None
                      | Some m \<Rightarrow> if m = 0 then None
                                 else map_option (\<lambda>t. m - (ev_now env - t)) (le_t_grant g)));
          who = (case held of None \<Rightarrow> ''a holder''
                 | Some g \<Rightarrow> if holder_name g = [] then ''a holder'' else holder_name g)
      in reject env q BUSY_HOLDER (InTheWay who (le_reason e))
           (Some (case left of None \<Rightarrow> 60 | Some l \<Rightarrow> py_round_n 0 (max 30 l)))
           (map_option (\<lambda>g. (holder_name g, le_id g)) held) st)"

text \<open>The second half: a new ticket joins the queue; an unwilling waiter that was not granted leaves it.\<close>

definition enqueue :: "config \<Rightarrow> env \<Rightarrow> request \<Rightarrow> int \<Rightarrow> lstate \<Rightarrow> exn + response \<times> lstate" where
  "enqueue cfg env q start st =
     (let n = st_seq st + 1; e = new_entry env q start n in
      case admit cfg env (st\<lparr>st_seq := n, st_entries := st_entries st @ [e]\<rparr>) of
        None \<Rightarrow> Inl IndexError
      | Some st' \<Rightarrow> (case entry_by_seq n st' of
            None \<Rightarrow> Inl IndexError
          | Some e' \<Rightarrow>
              if \<not> is_granted e' \<and> \<not> q_wait q
              then Inr (busy_refusal env q e'
                          (st'\<lparr>st_entries := filter (\<lambda>x. le_seq x \<noteq> n) (st_entries st')\<rparr>))
              else Inr (view_of st' e', st')))"

text \<open>The checks between the two, in the order of the source.\<close>

definition admit_request :: "config \<Rightarrow> env \<Rightarrow> request \<Rightarrow> lstate \<Rightarrow> exn + response \<times> lstate" where
  "admit_request cfg env q st =
     (let no = (\<lambda>c w retry s. Inr (reject env q c w retry None s)) in
      if q_vram q < 0 \<or> q_ttl q \<le> 0 then no BAD_REQUEST NotPositive None st
      else case ev_starttime env (q_pid q) of
        None \<Rightarrow> no BAD_REQUEST (NotRunning (q_pid q)) None st
      | Some start \<Rightarrow>
          let unknown = given (q_client q) \<and> dict_get CLIENTS (client_key (q_client q)) = None in
          if unknown \<and> cf_strict cfg
          then no UNKNOWN_CLIENT_CODE (NotInTable (client_key (q_client q))) None st
          else
            let st1 = (if unknown then add_event env (UnknownClient (client_key (q_client q))) st else st) in
            if ev_block env \<and> q_client q \<noteq> Some ''owner.interactive'' then no BLOCKED BlockFlag (Some 300) st1
            else if int (length (queued_of st1)) \<ge> cf_queue_max cfg
              then no QUEUE_FULL (QueueIsFull (cf_queue_max cfg)) (Some 60) st1
            else case (case client_budget cfg (q_client q) of
                         None \<Rightarrow> None
                       | Some cb \<Rightarrow> if q_vram q > cb then Some (AboveClientBudget (q_vram q) cb (q_client q)) else None) of
              Some w \<Rightarrow> no CLIENT_BUDGET w None st1
            | None \<Rightarrow>
                (case physical_mib (ev_card env) of
                   Some phys \<Rightarrow>
                     if phys \<noteq> 0 \<and> \<not> q_tiering q \<and> q_vram q > phys - reserve cfg phys
                     then no NO_FIT (NeverFits (q_vram q) phys (reserve cfg phys)) None st1
                     else enqueue cfg env q start st1
                 | None \<Rightarrow> enqueue cfg env q start st1))"

definition acquire_body :: "config \<Rightarrow> env \<Rightarrow> request \<Rightarrow> lstate \<Rightarrow> exn + response \<times> lstate" where
  "acquire_body cfg env q st =
     (case (if given (q_key q) then find (\<lambda>e. le_key e = q_key q) (st_entries st) else None) of
        Some e \<Rightarrow> poll_ticket cfg env e st
      | None \<Rightarrow> admit_request cfg env q st)"

definition acquire :: "config \<Rightarrow> env \<Rightarrow> request \<Rightarrow> lfile \<Rightarrow> (exn + response) \<times> lfile" where
  "acquire cfg env q f =
     or_refuse (refusal STATE_UNREADABLE StateDamaged None None) (txn cfg env (acquire_body cfg env q) f)"

section \<open>The other operations\<close>

definition holds :: "string \<Rightarrow> int \<Rightarrow> lstate \<Rightarrow> bool" where
  "holds lid tok st \<longleftrightarrow> (\<exists>e \<in> set (st_entries st). le_id e = lid \<and> is_granted e \<and> le_token e = Some tok)"

definition check_lease :: "config \<Rightarrow> env \<Rightarrow> string \<Rightarrow> int \<Rightarrow> lfile \<Rightarrow> (exn + bool \<times> code) \<times> lfile" where
  "check_lease cfg env lid tok f =
     or_refuse (False, STATE_UNREADABLE)
       (txn cfg env (\<lambda>st. Inr (if holds lid tok st then (True, GRANTED) else (False, STALE_TOKEN), st)) f)"

definition renew_body :: "env \<Rightarrow> string \<Rightarrow> int option \<Rightarrow> lstate \<Rightarrow> (bool \<times> code) \<times> lstate" where
  "renew_body env lid tok st =
     (case find (\<lambda>e. le_id e = lid) (st_entries st) of
        None \<Rightarrow> ((False, STALE_TOKEN), st)
      | Some e \<Rightarrow>
          if tok \<noteq> None \<and> le_token e \<noteq> tok then ((False, STALE_TOKEN), st)
          else ((True, if is_granted e then GRANTED else QUEUED), set_entry (e\<lparr>le_seen := ev_now env\<rparr>) st))"

definition renew :: "config \<Rightarrow> env \<Rightarrow> string \<Rightarrow> int option \<Rightarrow> lfile \<Rightarrow> (exn + bool \<times> code) \<times> lfile" where
  "renew cfg env lid tok f =
     or_refuse (False, STATE_UNREADABLE) (txn cfg env (\<lambda>st. Inr (renew_body env lid tok st)) f)"

text \<open>\<open>begin_release\<close> answers the models to resume: all the paused ones for the last holder, else none.\<close>

definition begin_release_body :: "string \<Rightarrow> lstate \<Rightarrow> string list \<times> lstate" where
  "begin_release_body lid st =
     (case find (\<lambda>e. le_id e = lid \<and> is_granted e) (st_entries st) of
        None \<Rightarrow> ([], st)
      | Some me \<Rightarrow>
          let st1 = set_entry (me\<lparr>le_releasing := True\<rparr>) st;
              others = filter (\<lambda>e. \<not> le_releasing e) (granted_of st1) in
          if others \<noteq> [] then ([], st1) else (st_paused st1, st1\<lparr>st_paused := []\<rparr>))"

definition begin_release :: "config \<Rightarrow> env \<Rightarrow> string \<Rightarrow> lfile \<Rightarrow> (exn + string list) \<times> lfile" where
  "begin_release cfg env lid f =
     or_refuse [] (txn cfg env (\<lambda>st. Inr (begin_release_body lid st)) f)"

datatype release_answer = Released "string list" | ReleaseStale | ReleaseUnreadable

definition release_body :: "string \<Rightarrow> int option \<Rightarrow> lstate \<Rightarrow> release_answer \<times> lstate" where
  "release_body lid tok st =
     (case find (\<lambda>e. le_id e = lid) (st_entries st) of
        None \<Rightarrow> (Released [], st)
      | Some me \<Rightarrow>
          if tok \<noteq> None \<and> le_token me \<noteq> tok then (ReleaseStale, st)
          else let st1 = st\<lparr>st_entries := filter (\<lambda>e. le_id e \<noteq> lid) (st_entries st)\<rparr> in
            if is_granted me \<and> \<not> le_releasing me \<and> granted_of st1 = []
            then (Released (st_paused st1), st1\<lparr>st_paused := []\<rparr>)
            else (Released [], st1))"

definition release :: "config \<Rightarrow> env \<Rightarrow> string \<Rightarrow> int option \<Rightarrow> lfile \<Rightarrow> (exn + release_answer) \<times> lfile" where
  "release cfg env lid tok f =
     or_refuse ReleaseUnreadable (txn cfg env (\<lambda>st. Inr (release_body lid tok st)) f)"

text \<open>\<open>sorted(set(paused) | set(models))\<close>: strings are ordered by their character codes.\<close>

definition str_key :: "string \<Rightarrow> nat list" where
  "str_key s = map of_char s"

fun codes_le :: "nat list \<Rightarrow> nat list \<Rightarrow> bool" where
  "codes_le [] ys = True"
| "codes_le (x # xs) [] = False"
| "codes_le (x # xs) (y # ys) = (x < y \<or> x = y \<and> codes_le xs ys)"

fun insert_str :: "string \<Rightarrow> string list \<Rightarrow> string list" where
  "insert_str x [] = [x]"
| "insert_str x (y # ys) = (if codes_le (str_key x) (str_key y) then x # y # ys else y # insert_str x ys)"

definition sorted_strings :: "string list \<Rightarrow> string list" where
  "sorted_strings xs = foldr insert_str (remdups xs) []"

definition note_paused_body :: "string \<Rightarrow> string list \<Rightarrow> lstate \<Rightarrow> unit \<times> lstate" where
  "note_paused_body lid models st =
     ((), if \<exists>e \<in> set (st_entries st). le_id e = lid
          then st\<lparr>st_paused := sorted_strings (st_paused st @ models)\<rparr> else st)"

definition note_paused :: "config \<Rightarrow> env \<Rightarrow> string \<Rightarrow> string list \<Rightarrow> lfile \<Rightarrow> (exn + unit) \<times> lfile" where
  "note_paused cfg env lid models f =
     or_refuse () (txn cfg env (\<lambda>st. Inr (note_paused_body lid models st)) f)"

datatype cancel_answer = CancelUnknown | Cancelled | NoControlFile | Cancelling | ReleasedNow | CancelUnreadable

text \<open>The transaction of \<open>cancel\<close>; the second result is the control file written and its word.\<close>

definition cancel_body ::
  "env \<Rightarrow> string \<Rightarrow> string \<Rightarrow> lstate \<Rightarrow> exn + (cancel_answer \<times> (string \<times> string) option) \<times> lstate" where
  "cancel_body env lid kind st =
     (case find (\<lambda>e. le_id e = lid) (st_entries st) of
        None \<Rightarrow> Inr ((CancelUnknown, None), st)
      | Some me \<Rightarrow>
          if \<not> is_granted me
          then Inr ((Cancelled, None), st\<lparr>st_entries := filter (\<lambda>e. le_id e \<noteq> lid) (st_entries st)\<rparr>)
          else if \<not> given (le_control me) then Inr ((NoControlFile, None), st)
          else let cf = client_key (le_control me) in
            if \<not> ev_control_ok env cf then Inl OSError
            else Inr ((Cancelling, Some (cf, kind)),
                      add_event env (Asked (le_job me) kind) (set_entry (me\<lparr>le_cancel := Some kind\<rparr>) st)))"

definition cancel ::
  "config \<Rightarrow> env \<Rightarrow> string \<Rightarrow> string \<Rightarrow> lfile \<Rightarrow> (exn + cancel_answer \<times> (string \<times> string) option) \<times> lfile" where
  "cancel cfg env lid kind f =
     (if kind \<noteq> ''stop'' \<and> kind \<noteq> ''pause'' then (Inl ValueError, f)
      else or_refuse (CancelUnreadable, None) (txn cfg env (cancel_body env lid kind) f))"

text \<open>\<open>status\<close>: the ids of the holders are what \<open>cancel\<close> looks at; \<open>None\<close> for a damaged file.\<close>

record holder_row =
  h_id :: string
  h_job :: string
  h_pid :: int
  h_vram :: int
  h_since :: pyfloat
  h_token :: "int option"
  h_model :: "string option"
  h_overdue :: bool
  h_cancel :: "string option"

record status_row =
  s_held :: bool
  s_budget :: int
  s_holders :: "holder_row list"
  s_waiters :: "(string \<times> pyfloat) list"
  s_rejects :: int
  s_paused :: "string list"
  s_token :: int

definition overdue :: "pyfloat \<Rightarrow> entry \<Rightarrow> bool" where
  "overdue now e \<longleftrightarrow> now - le_seen e > le_ttl e"

definition holder_of :: "pyfloat \<Rightarrow> entry \<Rightarrow> holder_row" where
  "holder_of now e =
     \<lparr>h_id = le_id e, h_job = le_job e, h_pid = le_pid e, h_vram = le_vram e,
      h_since = py_round_n 1 (now - (case le_t_grant e of None \<Rightarrow> now | Some t \<Rightarrow> t)),
      h_token = le_token e, h_model = le_model e, h_overdue = overdue now e, h_cancel = le_cancel e\<rparr>"

definition status_body :: "config \<Rightarrow> env \<Rightarrow> lstate \<Rightarrow> exn + status_row option \<times> lstate" where
  "status_body cfg env st =
     (case queue_order cfg (ev_now env) (queued_of st) of
        None \<Rightarrow> Inl IndexError
      | Some queued \<Rightarrow>
          Inr (Some \<lparr>s_held = (granted_of st \<noteq> []), s_budget = sum_list (map le_vram (granted_of st)),
                 s_holders = map (holder_of (ev_now env)) (granted_of st),
                 s_waiters = map (\<lambda>e. (le_id e, py_round_n 3 (the (eff cfg e (ev_now env))))) queued,
                 s_rejects = st_rejects st, s_paused = st_paused st, s_token = st_token st\<rparr>, st))"

definition status :: "config \<Rightarrow> env \<Rightarrow> lfile \<Rightarrow> (exn + status_row option) \<times> lfile" where
  "status cfg env f = or_refuse None (txn cfg env (status_body cfg env) f)"

text \<open>
  The polling loop of \<open>cancel(wait_s)\<close> over what its calls of \<open>status\<close> answered, one per second until the
  wait is over: \<open>(self.status().get("holders") or [])\<close> is empty for an unreadable file.
\<close>

fun cancel_wait :: "string \<Rightarrow> status_row option list \<Rightarrow> cancel_answer" where
  "cancel_wait lid [] = Cancelling"
| "cancel_wait lid (s # ss) =
     (if \<exists>h \<in> set (case s of None \<Rightarrow> [] | Some r \<Rightarrow> s_holders r). h_id h = lid
      then cancel_wait lid ss else ReleasedNow)"

section \<open>read_block\<close>

text \<open>The lock-free read of the snapshot writer: dead records are filtered in memory, nothing is written.\<close>

record block_row =
  b_held :: bool
  b_budget :: int
  b_holders :: "holder_row list"
  b_waiters :: "(string \<times> int \<times> pyfloat \<times> pyfloat) list"
  b_rejects :: int

datatype block = NoArbiter | BlockUnknown | Block block_row

definition read_block :: "env \<Rightarrow> lfile \<Rightarrow> block" where
  "read_block env f =
     (case f of
        FAbsent \<Rightarrow> NoArbiter
      | FDamaged \<Rightarrow> BlockUnknown
      | FState st \<Rightarrow>
          let live = filter (alive env) (st_entries st);
              granted = filter is_granted live;
              queued = sort_key le_seq (filter (\<lambda>e. \<not> is_granted e) live) in
          Block \<lparr>b_held = (granted \<noteq> []), b_budget = sum_list (map le_vram granted),
                 b_holders = map (holder_of (ev_now env)) granted,
                 b_waiters = map (\<lambda>e. (le_job e, le_vram e, le_prio e, py_round_n 1 (ev_now env - le_t_enq e))) queued,
                 b_rejects = st_rejects st\<rparr>)"

end
