(* ===== verification/Lease_Steps.thy ===== *)
theory Lease_Steps
  imports Lease
begin

text \<open>
  The lease arbiter as a transition system. \<open>lease_step\<close> lists the moves an operation is made of: drop
  records, touch a record without changing its ticket, join the queue, grant, bookkeeping. Every operation
  of the arbiter is a sequence of them (\<open>exec_steps\<close>), so an invariant is shown once for the five moves.
  The locale \<open>holder_rule\<close> states what a sharing rule needs for the fit test to keep it.
\<close>

section \<open>Tickets and claims\<close>

text \<open>The part of a record that only the grant changes.\<close>

definition ticket :: "entry \<Rightarrow> entry" where
  "ticket e = e\<lparr>le_seen := 0, le_reason := None, le_releasing := False, le_cancel := None\<rparr>"

lemma ticket_eqD:
  assumes "ticket e = ticket e'"
  shows "le_id e = le_id e'" "le_seq e = le_seq e'" "le_vram e = le_vram e'" "le_class e = le_class e'"
    "le_client e = le_client e'" "le_tiering e = le_tiering e'" "le_state e = le_state e'"
    "le_token e = le_token e'" "le_pid e = le_pid e'" "le_start e = le_start e'" "le_key e = le_key e'"
    "le_t_enq e = le_t_enq e'" "le_prio e = le_prio e'" "le_job e = le_job e'" "le_t_grant e = le_t_grant e'"
  using assms by (cases e; cases e'; simp add: ticket_def)+

lemma ticket_updates [simp]:
  "ticket (e\<lparr>le_seen := a\<rparr>) = ticket e" "ticket (e\<lparr>le_reason := r\<rparr>) = ticket e"
  "ticket (e\<lparr>le_releasing := b\<rparr>) = ticket e" "ticket (e\<lparr>le_cancel := c\<rparr>) = ticket e"
  by (simp_all add: ticket_def)

record claim =
  c_class :: "lclass option"
  c_client :: "string option"
  c_vram :: int
  c_tiering :: bool

definition claim_of :: "entry \<Rightarrow> claim" where
  "claim_of e = \<lparr>c_class = class_of e, c_client = le_client e, c_vram = le_vram e, c_tiering = le_tiering e\<rparr>"

lemma claim_of_sel [simp]:
  "c_class (claim_of e) = class_of e" "c_client (claim_of e) = le_client e"
  "c_vram (claim_of e) = le_vram e" "c_tiering (claim_of e) = le_tiering e"
  by (simp_all add: claim_of_def)

lemma claim_of_ticket: "ticket e = ticket e' \<Longrightarrow> claim_of e = claim_of e'"
  using ticket_eqD [of e e'] by (simp add: claim_of_def)

definition claims :: "entry list \<Rightarrow> claim multiset" where
  "claims es = mset (map claim_of (filter is_granted es))"

section \<open>Well-formed states\<close>

text \<open>Sequence numbers and tokens are issued once; a waiting ticket has no token, a granted one has.\<close>

definition tokens :: "entry list \<Rightarrow> int list" where
  "tokens es = map (the \<circ> le_token) (filter is_granted es)"

definition wf_lease :: "lstate \<Rightarrow> bool" where
  "wf_lease st \<longleftrightarrow>
     distinct (map le_seq (st_entries st)) \<and> (\<forall>e \<in> set (st_entries st). le_seq e \<le> st_seq st) \<and>
     (\<forall>e \<in> set (st_entries st). if is_granted e then le_token e \<noteq> None \<and> the (le_token e) \<le> st_token st
                                else le_token e = None) \<and>
     distinct (tokens (st_entries st))"

lemma wf_init [simp]: "wf_lease (init_state cfg)"
  by (simp add: wf_lease_def init_state_def tokens_def)

section \<open>The moves\<close>

text \<open>\<open>L\<close> holds the lease ids the operation may free although their holder lives.\<close>

inductive lease_step :: "config \<Rightarrow> env \<Rightarrow> string set \<Rightarrow> lstate \<Rightarrow> lstate \<Rightarrow> bool" for cfg env L where
  Note: "st_entries st' = st_entries st \<Longrightarrow> st_seq st' = st_seq st \<Longrightarrow> st_token st' = st_token st \<Longrightarrow>
    lease_step cfg env L st st'"
| Drop: "st_entries st' = filter keep (st_entries st) \<Longrightarrow> st_seq st' = st_seq st \<Longrightarrow> st_token st' = st_token st \<Longrightarrow>
    (\<And>e. e \<in> set (st_entries st) \<Longrightarrow> is_granted e \<Longrightarrow> alive env e \<Longrightarrow> le_id e \<notin> L \<Longrightarrow> keep e) \<Longrightarrow>
    lease_step cfg env L st st'"
| Touch: "st_entries st' = map f (st_entries st) \<Longrightarrow> st_seq st' = st_seq st \<Longrightarrow> st_token st' = st_token st \<Longrightarrow>
    (\<And>e. e \<in> set (st_entries st) \<Longrightarrow> ticket (f e) = ticket e) \<Longrightarrow> lease_step cfg env L st st'"
| Join: "st_entries st' = st_entries st @ [new_entry env q start (st_seq st + 1)] \<Longrightarrow>
    st_seq st' = st_seq st + 1 \<Longrightarrow> st_token st' = st_token st \<Longrightarrow>
    int (length (queued_of st)) < cf_queue_max cfg \<Longrightarrow> 0 \<le> q_vram q \<Longrightarrow>
    (\<And>cb. client_budget cfg (q_client q) = Some cb \<Longrightarrow> q_vram q \<le> cb) \<Longrightarrow> lease_step cfg env L st st'"
| Grant: "e \<in> set (st_entries st) \<Longrightarrow> \<not> is_granted e \<Longrightarrow>
    cd = ev_card env \<or> cd = (ev_card env)\<lparr>physical_mib := None\<rparr> \<Longrightarrow>
    fit cfg (granted_of st) e cd (ev_now env) = None \<Longrightarrow> lease_step cfg env L st (grant env e st)"

abbreviation lease_steps :: "config \<Rightarrow> env \<Rightarrow> string set \<Rightarrow> lstate \<Rightarrow> lstate \<Rightarrow> bool" where
  "lease_steps cfg env L \<equiv> (lease_step cfg env L)\<^sup>*\<^sup>*"

named_theorems lease_defs

lemma add_event_sel [simp]:
  "st_entries (add_event env ev st) = st_entries st" "st_seq (add_event env ev st) = st_seq st"
  "st_token (add_event env ev st) = st_token st" "st_paused (add_event env ev st) = st_paused st"
  by (simp_all add: add_event_def Let_def)

lemma set_entry_sel [simp]:
  "st_seq (set_entry e st) = st_seq st" "st_token (set_entry e st) = st_token st"
  "st_paused (set_entry e st) = st_paused st"
  "st_entries (set_entry e st) = map (\<lambda>x. if le_seq x = le_seq e then e else x) (st_entries st)"
  by (simp_all add: set_entry_def)

definition granted_form :: "env \<Rightarrow> int \<Rightarrow> entry \<Rightarrow> entry" where
  "granted_form env tok e =
     e\<lparr>le_state := Granted, le_t_grant := Some (ev_now env), le_reason := None, le_token := Some tok\<rparr>"

lemma granted_form_sel [simp]:
  "is_granted (granted_form env tok e)" "le_token (granted_form env tok e) = Some tok"
  "le_seq (granted_form env tok e) = le_seq e" "le_id (granted_form env tok e) = le_id e"
  "claim_of (granted_form env tok e) = claim_of e" "le_releasing (granted_form env tok e) = le_releasing e"
  "le_key (granted_form env tok e) = le_key e" "le_class (granted_form env tok e) = le_class e"
  "le_client (granted_form env tok e) = le_client e" "le_pid (granted_form env tok e) = le_pid e"
  "le_start (granted_form env tok e) = le_start e" "le_vram (granted_form env tok e) = le_vram e"
  by (simp_all add: granted_form_def is_granted_def claim_of_def)

lemma grant_sel [simp]:
  "st_entries (grant env e st) =
     map (\<lambda>x. if le_seq x = le_seq e then granted_form env (st_token st + 1) e else x) (st_entries st)"
  "st_seq (grant env e st) = st_seq st" "st_token (grant env e st) = st_token st + 1"
  "st_paused (grant env e st) = st_paused st"
  by (simp_all add: grant_def Let_def granted_form_def set_entry_def)

lemma new_entry_sel [simp]:
  "\<not> is_granted (new_entry env q start n)" "le_token (new_entry env q start n) = None"
  "le_seq (new_entry env q start n) = n" "le_vram (new_entry env q start n) = q_vram q"
  "le_client (new_entry env q start n) = q_client q" "le_id (new_entry env q start n) = q_uuid q"
  "le_pid (new_entry env q start n) = q_pid q" "le_start (new_entry env q start n) = start"
  "le_key (new_entry env q start n) = q_key q" "le_tiering (new_entry env q start n) = q_tiering q"
  "le_class (new_entry env q start n) = class_for q" "\<not> le_releasing (new_entry env q start n)"
  by (simp_all add: new_entry_def is_granted_def)

lemma unique_seq:
  "distinct (map le_seq es) \<Longrightarrow> e \<in> set es \<Longrightarrow> x \<in> set es \<Longrightarrow> le_seq x = le_seq e \<longleftrightarrow> x = e"
  by (metis distinct_map inj_onD)

text \<open>The one record a grant changes, between the records it leaves.\<close>

lemma grant_split:
  assumes "distinct (map le_seq (st_entries st))" "e \<in> set (st_entries st)" "\<not> is_granted e"
  obtains xs ys where "st_entries st = xs @ e # ys"
    "st_entries (grant env e st) = xs @ granted_form env (st_token st + 1) e # ys"
    "granted_of st = filter is_granted xs @ filter is_granted ys"
    "granted_of (grant env e st) =
       filter is_granted xs @ granted_form env (st_token st + 1) e # filter is_granted ys"
proof -
  obtain xs ys where split: "st_entries st = xs @ e # ys" using assms(2) by (meson split_list)
  with assms(1) have "le_seq x \<noteq> le_seq e" if "x \<in> set xs \<or> x \<in> set ys" for x
    using that by (auto simp: image_iff)
  then have "st_entries (grant env e st) = xs @ granted_form env (st_token st + 1) e # ys"
    by (auto simp: split intro!: map_idI)
  with split assms(3) that show thesis by simp
qed

section \<open>Every move keeps the state well formed\<close>

lemma tokens_simps [simp]:
  "tokens [] = []" "tokens (xs @ ys) = tokens xs @ tokens ys"
  "tokens (e # es) = (if is_granted e then the (le_token e) # tokens es else tokens es)"
  by (simp_all add: tokens_def)

lemma tokens_bound:
  "wf_lease st \<Longrightarrow> t \<in> set (tokens (st_entries st)) \<Longrightarrow> t \<le> st_token st"
  by (auto simp: wf_lease_def tokens_def)

lemma is_granted_ticket: "ticket e = ticket e' \<Longrightarrow> is_granted e = is_granted e'"
  using ticket_eqD(7) [of e e'] by (simp add: is_granted_def)

lemma tokens_touch:
  "(\<And>e. e \<in> set es \<Longrightarrow> ticket (f e) = ticket e) \<Longrightarrow> tokens (map f es) = tokens es"
proof (induction es)
  case (Cons e es)
  then have "ticket (f e) = ticket e" by simp
  with Cons show ?case using is_granted_ticket [of "f e" e] ticket_eqD(8) [of "f e" e] by simp
qed simp

lemma tokens_filter: "distinct (tokens es) \<Longrightarrow> distinct (tokens (filter P es))"
proof (induction es)
  case (Cons e es)
  have "set (tokens (filter P es)) \<subseteq> set (tokens es)" by (auto simp: tokens_def)
  with Cons show ?case by (auto split: if_splits)
qed simp

lemma wf_grant:
  assumes "wf_lease st" "e \<in> set (st_entries st)" "\<not> is_granted e"
  shows "wf_lease (grant env e st)"
proof -
  from assms(1) have d: "distinct (map le_seq (st_entries st))" by (simp add: wf_lease_def)
  obtain xs ys where s: "st_entries st = xs @ e # ys"
      "st_entries (grant env e st) = xs @ granted_form env (st_token st + 1) e # ys"
    using grant_split [OF d assms(2,3)] by blast
  have b: "t \<le> st_token st" if "t \<in> set (tokens xs) \<union> set (tokens ys)" for t
    using tokens_bound [OF assms(1), of t] that by (auto simp: s(1))
  then have "st_token st + 1 \<notin> set (tokens xs) \<union> set (tokens ys)" by force
  then have "distinct (tokens (st_entries (grant env e st)))"
    using assms(1,3) by (auto simp: s wf_lease_def simp del: grant_sel(1))
  moreover have "distinct (map le_seq (st_entries (grant env e st)))" using d by (simp add: s del: grant_sel(1))
  moreover have "\<forall>x \<in> set (xs @ granted_form env (st_token st + 1) e # ys). le_seq x \<le> st_seq st"
    using assms(1) by (simp add: wf_lease_def s(1))
  moreover have "if is_granted x then le_token x \<noteq> None \<and> the (le_token x) \<le> st_token st + 1 else le_token x = None"
    if "x \<in> set xs \<or> x \<in> set ys \<or> x = granted_form env (st_token st + 1) e" for x
  proof -
    have "if is_granted x then le_token x \<noteq> None \<and> the (le_token x) \<le> st_token st else le_token x = None"
      if "x \<in> set xs \<or> x \<in> set ys" using assms(1) that unfolding wf_lease_def s(1) by auto
    with that show ?thesis by (cases "x \<in> set xs \<or> x \<in> set ys") (auto split: if_splits)
  qed
  ultimately show ?thesis
    unfolding wf_lease_def s(2) grant_sel(2,3) by auto
qed

lemma wf_step:
  assumes "lease_step cfg env L st st'" "wf_lease st"
  shows "wf_lease st'"
  using assms(1)
proof (cases rule: lease_step.cases)
  case Note
  with assms(2) show ?thesis by (simp add: wf_lease_def)
next
  case (Drop keep)
  with assms(2) show ?thesis by (auto simp: wf_lease_def distinct_map_filter tokens_filter)
next
  case (Touch f)
  have seqs: "map le_seq (map f (st_entries st)) = map le_seq (st_entries st)"
    using Touch(4) by (auto intro!: ticket_eqD(2))
  have "if is_granted (f e) then le_token (f e) \<noteq> None \<and> the (le_token (f e)) \<le> st_token st
        else le_token (f e) = None" if "e \<in> set (st_entries st)" for e
    using that assms(2) is_granted_ticket [OF Touch(4) [OF that]] ticket_eqD(8) [OF Touch(4) [OF that]]
    by (simp add: wf_lease_def)
  moreover have "le_seq (f e) = le_seq e" if "e \<in> set (st_entries st)" for e
    using Touch(4) [OF that] by (rule ticket_eqD(2))
  ultimately show ?thesis
    using assms(2) Touch(1-3) seqs tokens_touch [OF Touch(4)] unfolding wf_lease_def
    by (simp del: map_map)
next
  case (Join q start)
  with assms(2) show ?thesis by (auto simp: wf_lease_def)
next
  case (Grant e cd)
  with wf_grant [OF assms(2)] show ?thesis by simp
qed

lemma wf_steps: "lease_steps cfg env L st st' \<Longrightarrow> wf_lease st \<Longrightarrow> wf_lease st'"
  by (induction rule: rtranclp_induct) (auto intro: wf_step)

section \<open>Tokens only go out of use\<close>

definition held :: "lstate \<Rightarrow> (string \<times> int) set" where
  "held st = {(le_id e, the (le_token e)) | e. e \<in> set (st_entries st) \<and> is_granted e}"

lemma holds_iff_held: "wf_lease st \<Longrightarrow> holds lid tok st \<longleftrightarrow> (lid, tok) \<in> held st"
  by (fastforce simp: holds_def held_def wf_lease_def)

lemma held_step:
  assumes "lease_step cfg env L st st'" "wf_lease st"
  shows "st_token st \<le> st_token st' \<and> held st' \<subseteq> held st \<union> {p. st_token st < snd p}"
  using assms(1)
proof (cases rule: lease_step.cases)
  case (Touch f)
  then have "is_granted (f e) = is_granted e" "le_id (f e) = le_id e" "le_token (f e) = le_token e"
    if "e \<in> set (st_entries st)" for e
    using that is_granted_ticket ticket_eqD(1,8) by blast+
  with Touch show ?thesis by (fastforce simp: held_def)
next
  case (Grant e cd)
  then show ?thesis by (fastforce simp: held_def split: if_splits)
qed (auto simp: held_def)

lemma held_steps:
  assumes "lease_steps cfg env L st st'" "wf_lease st"
  shows "st_token st \<le> st_token st' \<and> held st' \<subseteq> held st \<union> {p. st_token st < snd p}"
  using assms
proof (induction rule: rtranclp_induct)
  case (step b c)
  with held_step [OF step.hyps(2)] wf_steps [OF step.hyps(1)] show ?case by fastforce
qed simp

section \<open>A live holder is not put out\<close>

lemma holder_step:
  assumes "lease_step cfg env L st st'" "wf_lease st"
    and "e \<in> set (st_entries st)" "is_granted e" "alive env e" "le_id e \<notin> L"
  shows "\<exists>e' \<in> set (st_entries st'). ticket e' = ticket e"
  using assms(1)
proof (cases rule: lease_step.cases)
  case (Grant x cd)
  then have "le_seq e \<noteq> le_seq x"
    using assms by (auto simp: wf_lease_def unique_seq)
  with assms(3) Grant show ?thesis by force
qed (use assms in \<open>auto intro: bexI [of _ e]\<close>)

lemma alive_ticket: "ticket e = ticket e' \<Longrightarrow> alive env e = alive env e'"
  using ticket_eqD(9,10) [of e e'] by (simp add: alive_def)

lemma holder_steps:
  assumes "lease_steps cfg env L st st'" "wf_lease st"
    and "e \<in> set (st_entries st)" "is_granted e" "alive env e" "le_id e \<notin> L"
  shows "\<exists>e' \<in> set (st_entries st'). ticket e' = ticket e"
  using assms(1)
proof (induction rule: rtranclp_induct)
  case base
  with assms(3) show ?case by blast
next
  case (step b c)
  then obtain e' where e': "e' \<in> set (st_entries b)" "ticket e' = ticket e" by blast
  with holder_step [OF step.hyps(2) wf_steps [OF step.hyps(1) assms(2)] e'(1)] assms
  show ?case by (metis alive_ticket is_granted_ticket ticket_eqD(1))
qed

section \<open>The queue is bounded\<close>

lemma queue_step:
  assumes "lease_step cfg env L st st'"
    and "int (length (queued_of st)) \<le> max 0 (cf_queue_max cfg)" "wf_lease st"
  shows "int (length (queued_of st')) \<le> max 0 (cf_queue_max cfg)"
  using assms(1)
proof (cases rule: lease_step.cases)
  case (Drop keep)
  have "length (filter (\<lambda>e. keep e \<and> \<not> is_granted e) es) \<le> length (filter (\<lambda>e. \<not> is_granted e) es)" for es
    by (induction es) auto
  from this [of "st_entries st"] Drop(1) assms(2) show ?thesis by (simp add: conj_commute)
next
  case (Touch f)
  have "length (filter (\<lambda>e. \<not> is_granted e) (map f (st_entries st))) = length (queued_of st)"
    using is_granted_ticket [OF Touch(4)] by (simp add: filter_map comp_def cong: filter_cong)
  with Touch assms(2) show ?thesis by simp
next
  case (Grant e cd)
  from assms(3) have "distinct (map le_seq (st_entries st))" by (simp add: wf_lease_def)
  from grant_split [OF this Grant(2,3)] obtain xs ys where "st_entries st = xs @ e # ys"
      "st_entries (grant env e st) = xs @ granted_form env (st_token st + 1) e # ys" by blast
  with Grant assms(2) show ?thesis by (simp del: grant_sel)
qed (use assms(2) in auto)

section \<open>Operations are sequences of moves\<close>

definition kept :: "env \<Rightarrow> entry \<Rightarrow> bool" where
  "kept env e \<longleftrightarrow> alive env e \<and> \<not> (le_state e = Queued \<and> ev_now env - le_seen e > le_ttl e)"

lemma prune_loop_spec:
  "fst (prune_loop env es keep st) = keep @ filter (kept env) es \<and>
   st_seq (snd (prune_loop env es keep st)) = st_seq st \<and>
   st_token (snd (prune_loop env es keep st)) = st_token st \<and>
   st_paused (snd (prune_loop env es keep st)) = st_paused st"
  by (induction env es keep st rule: prune_loop.induct) (auto simp: kept_def)

lemma prune_sel [simp]:
  "st_entries (prune env st) = filter (kept env) (st_entries st)"
  "st_seq (prune env st) = st_seq st" "st_token (prune env st) = st_token st"
  using prune_loop_spec [of env "st_entries st" "[]" st]
  by (auto simp: prune_def Let_def split: prod.splits)

lemma prune_paused:
  "st_paused (prune env st) =
     (if \<exists>e \<in> set (st_entries st). kept env e \<and> is_granted e then st_paused st else [])"
  using prune_loop_spec [of env "st_entries st" "[]" st]
  by (auto simp: prune_def Let_def split: prod.splits)

lemma kept_granted: "is_granted e \<Longrightarrow> kept env e \<longleftrightarrow> alive env e"
  by (simp add: kept_def is_granted_def)

lemma prune_steps: "lease_steps cfg env L st (prune env st)"
  by (rule r_into_rtranclp, rule Drop [where keep = "kept env"]) (simp_all add: kept_granted)

lemma touch_step:
  assumes "wf_lease st" "e \<in> set (st_entries st)" "ticket e' = ticket e"
  shows "lease_step cfg env L st (set_entry e' st)"
proof (rule Touch [where f = "\<lambda>x. if le_seq x = le_seq e' then e' else x"])
  fix x assume "x \<in> set (st_entries st)"
  with assms ticket_eqD(2) [OF assms(3)]
  show "ticket (if le_seq x = le_seq e' then e' else x) = ticket x"
    by (auto simp: wf_lease_def unique_seq)
qed simp_all

text \<open>The loop meets records that no earlier turn of it has changed.\<close>

definition untouched :: "entry list \<Rightarrow> lstate \<Rightarrow> bool" where
  "untouched es st \<longleftrightarrow> distinct es \<and> set es \<subseteq> set (queued_of st)"

lemma untouched_Cons:
  assumes "untouched (e # es) st" "wf_lease st" "le_seq e' = le_seq e"
  shows "untouched es (set_entry e' st)" "untouched es (grant env e st)"
proof -
  have "le_seq x \<noteq> le_seq e" if "x \<in> set es" for x
    using that assms(1,2) by (auto simp: untouched_def wf_lease_def dest: unique_seq)
  with assms(1,3) show "untouched es (set_entry e' st)" "untouched es (grant env e st)"
    unfolding untouched_def by (force simp: image_iff)+
qed

lemma admit_loop_steps:
  assumes "wf_lease st" "untouched es st" "cd = ev_card env \<or> cd = (ev_card env)\<lparr>physical_mib := None\<rparr>"
  shows "lease_steps cfg env L st (admit_loop cfg env cd blocked es st)"
  using assms
proof (induction cfg env cd blocked es st rule: admit_loop.induct)
  case (1 cfg env cd blocked st)
  then show ?case by simp
next
  case (2 cfg env cd job e es st)
  have e: "e \<in> set (st_entries st)" using "2.prems"(2) by (auto simp: untouched_def)
  have s: "lease_step cfg env L st (set_entry (e\<lparr>le_reason := Some (Behind job)\<rparr>) st)"
    by (rule touch_step [OF "2.prems"(1) e]) simp
  moreover have "untouched es (set_entry (e\<lparr>le_reason := Some (Behind job)\<rparr>) st)"
    using "2.prems"(2,1) by (rule untouched_Cons) simp
  ultimately show ?case
    using "2.IH" [OF wf_step [OF s "2.prems"(1)] _ "2.prems"(3)] by (simp add: converse_rtranclp_into_rtranclp)
next
  case (3 cfg env cd e es st)
  have e: "e \<in> set (st_entries st)" "\<not> is_granted e" using "3.prems"(2) by (auto simp: untouched_def)
  show ?case
  proof (cases "fit cfg (granted_of st) e cd (ev_now env)")
    case None
    have s: "lease_step cfg env L st (grant env e st)"
      by (rule Grant [OF e "3.prems"(3) None])
    have u: "untouched es (grant env e st)" using "3.prems"(2,1) by (rule untouched_Cons) simp
    have "(if le_tiering e then cd\<lparr>physical_mib := None\<rparr> else cd) = ev_card env \<or>
        (if le_tiering e then cd\<lparr>physical_mib := None\<rparr> else cd) = (ev_card env)\<lparr>physical_mib := None\<rparr>"
      using "3.prems"(3) by auto
    from "3.IH"(1) [OF None wf_step [OF s "3.prems"(1)] u this] s None show ?thesis
      by (simp add: converse_rtranclp_into_rtranclp)
  next
    case (Some w)
    have s: "lease_step cfg env L st (set_entry (e\<lparr>le_reason := Some w\<rparr>) st)"
      by (rule touch_step [OF "3.prems"(1) e(1)]) simp
    have u: "untouched es (set_entry (e\<lparr>le_reason := Some w\<rparr>) st)"
      using "3.prems"(2,1) by (rule untouched_Cons) simp
    from "3.IH"(2) [OF Some wf_step [OF s "3.prems"(1)] u "3.prems"(3)] s Some show ?thesis
      by (simp add: converse_rtranclp_into_rtranclp)
  qed
qed

lemma queue_order_set:
  "queue_order cfg now es = Some q \<Longrightarrow> set q = set es \<and> distinct q = distinct es"
  by (auto simp: queue_order_def split: if_splits)

lemma admit_steps:
  assumes "admit cfg env st = Some st'" "wf_lease st"
  shows "lease_steps cfg env L st st'"
proof -
  from assms(1) obtain q where q: "queue_order cfg (ev_now env) (queued_of st) = Some q"
      "st' = admit_loop cfg env (ev_card env) None q st"
    by (auto simp: admit_def split: option.splits)
  have "distinct (st_entries st)" using assms(2) by (simp add: wf_lease_def distinct_map)
  with queue_order_set [OF q(1)] have "untouched q st" by (simp add: untouched_def)
  with admit_loop_steps [OF assms(2)] q(2) show ?thesis by blast
qed

datatype op = Acquire request | Check string int | Renew string "int option" | BeginRelease string
  | Release string "int option" | NotePaused string "string list" | Cancel string string | Status

text \<open>The file an operation leaves.\<close>

definition exec :: "config \<Rightarrow> env \<Rightarrow> op \<Rightarrow> lfile \<Rightarrow> lfile" where
  "exec cfg env p f =
     (case p of
        Acquire q \<Rightarrow> snd (acquire cfg env q f)
      | Check lid tok \<Rightarrow> snd (check_lease cfg env lid tok f)
      | Renew lid tok \<Rightarrow> snd (renew cfg env lid tok f)
      | BeginRelease lid \<Rightarrow> snd (begin_release cfg env lid f)
      | Release lid tok \<Rightarrow> snd (release cfg env lid tok f)
      | NotePaused lid models \<Rightarrow> snd (note_paused cfg env lid models f)
      | Cancel lid kind \<Rightarrow> snd (cancel cfg env lid kind f)
      | Status \<Rightarrow> snd (status cfg env f))"

definition load :: "config \<Rightarrow> lfile \<Rightarrow> lstate" where
  "load cfg f = (case f of FState st \<Rightarrow> st | _ \<Rightarrow> init_state cfg)"

text \<open>The ids whose records an operation may remove although their process lives.\<close>

fun freed :: "op \<Rightarrow> string set" where
  "freed (Release lid tok) = {lid}"
| "freed (Cancel lid kind) = {lid}"
| "freed _ = {}"

definition body_moves :: "config \<Rightarrow> env \<Rightarrow> string set \<Rightarrow> (lstate \<Rightarrow> exn + 'a \<times> lstate) \<Rightarrow> bool" where
  "body_moves cfg env L body \<longleftrightarrow>
     (\<forall>st a st'. wf_lease st \<longrightarrow> body st = Inr (a, st') \<longrightarrow> lease_steps cfg env L st st')"

lemma snd_or_refuse [simp]: "snd (or_refuse r x) = snd x"
  by (auto simp: or_refuse_def split: prod.splits sum.splits exn.splits)

lemma txn_moves:
  assumes "snd (txn cfg env body f) = FState st'" "body_moves cfg env L body" "wf_lease (load cfg f)"
  shows "lease_steps cfg env L (load cfg f) st'"
proof -
  have run: "lease_steps cfg env L st st'"
    if "txn_state cfg env body st = Inr (a, st')" "wf_lease st" for st a st'
  proof -
    let ?p = "prune env (st\<lparr>st_queue_max := cf_queue_max cfg\<rparr>)"
    have n: "lease_steps cfg env L st (st\<lparr>st_queue_max := cf_queue_max cfg\<rparr>)"
      by (rule r_into_rtranclp, rule Note) simp_all
    have p: "lease_steps cfg env L st ?p" using n prune_steps by (rule rtranclp_trans)
    from that(1) obtain m where m: "body ?p = Inr (a, m)" "admit cfg env m = Some st'"
      by (auto simp: txn_state_def bind_result_Inr_iff split: option.splits)
    have "lease_steps cfg env L ?p m"
      using assms(2) m(1) wf_steps [OF p that(2)] by (auto simp: body_moves_def)
    with p have "lease_steps cfg env L st m" by (rule rtranclp_trans)
    moreover from this have "lease_steps cfg env L m st'"
      using admit_steps [OF m(2)] wf_steps that(2) by blast
    ultimately show ?thesis by (rule rtranclp_trans)
  qed
  show ?thesis
  proof (cases "txn_state cfg env body (load cfg f)")
    case (Inl x)
    with assms(1) show ?thesis by (cases f) (auto simp: txn_def load_def split: sum.splits)
  next
    case (Inr b)
    with assms(1,3) run [of "load cfg f"] show ?thesis
      by (cases b; cases f) (auto simp: txn_def load_def split: sum.splits)
  qed
qed

lemma body_moves_refl: "(\<And>st a st'. body st = Inr (a, st') \<Longrightarrow> st' = st) \<Longrightarrow> body_moves cfg env L body"
  by (auto simp: body_moves_def)

lemma note_step: "st_entries st' = st_entries st \<Longrightarrow> st_seq st' = st_seq st \<Longrightarrow> st_token st' = st_token st \<Longrightarrow>
    lease_steps cfg env L st st'"
  by (rule r_into_rtranclp, rule Note)

lemma find_in: "find P xs = Some x \<Longrightarrow> x \<in> set xs \<and> P x"
  by (auto simp: find_Some_iff)

lemma reject_steps: "reject env q c w retry h st = (r, st') \<Longrightarrow> lease_steps cfg env L st st'"
  by (rule note_step) (auto simp: reject_def)

lemma entry_by_seq_Some:
  "entry_by_seq n st = Some e \<Longrightarrow> e \<in> set (st_entries st) \<and> le_seq e = n"
  by (auto simp: entry_by_seq_def dest: find_in)

lemma busy_refusal_sel [simp]:
  "st_entries (snd (busy_refusal env q e st)) = st_entries st"
  "st_seq (snd (busy_refusal env q e st)) = st_seq st"
  "st_token (snd (busy_refusal env q e st)) = st_token st"
  by (simp_all add: busy_refusal_def reject_def Let_def)

lemma enqueue_steps:
  assumes "enqueue cfg env q start st = Inr (r, st')" "wf_lease st"
    and "int (length (queued_of st)) < cf_queue_max cfg" "0 \<le> q_vram q"
    and "\<And>cb. client_budget cfg (q_client q) = Some cb \<Longrightarrow> q_vram q \<le> cb"
  shows "lease_steps cfg env L st st'"
proof -
  let ?n = "st_seq st + 1"
  let ?s = "st\<lparr>st_seq := ?n, st_entries := st_entries st @ [new_entry env q start ?n]\<rparr>"
  have j: "lease_step cfg env L st ?s" by (rule Join) (use assms in simp_all)
  from assms(1) obtain m e where m: "admit cfg env ?s = Some m" "entry_by_seq ?n m = Some e"
      and out: "if \<not> is_granted e \<and> \<not> q_wait q
        then st' = snd (busy_refusal env q e (m\<lparr>st_entries := filter (\<lambda>x. le_seq x \<noteq> ?n) (st_entries m)\<rparr>))
        else st' = m"
    by (auto simp: enqueue_def Let_def split: option.splits if_splits prod.splits)
  have wm: "wf_lease m" and jm: "lease_steps cfg env L st m"
    using admit_steps [OF m(1) wf_step [OF j assms(2)]] wf_step [OF j assms(2)] j
    by (auto intro: wf_steps converse_rtranclp_into_rtranclp)
  show ?thesis
  proof (cases "\<not> is_granted e \<and> \<not> q_wait q")
    case True
    have "lease_step cfg env L m st'"
    proof (rule Drop [where keep = "\<lambda>x. le_seq x \<noteq> ?n"])
      fix x assume "x \<in> set (st_entries m)" "is_granted x"
      with True wm entry_by_seq_Some [OF m(2)] show "le_seq x \<noteq> ?n"
        by (metis unique_seq wf_lease_def)
    qed (use out True in simp_all)
    with jm show ?thesis by simp
  next
    case False
    with out jm show ?thesis by simp
  qed
qed

text \<open>\<open>admit_request\<close> refuses, or joins the queue with the guards behind it.\<close>

definition same_core :: "lstate \<Rightarrow> lstate \<Rightarrow> bool" where
  "same_core st st1 \<longleftrightarrow>
     st_entries st1 = st_entries st \<and> st_seq st1 = st_seq st \<and> st_token st1 = st_token st"

definition may_join :: "config \<Rightarrow> env \<Rightarrow> request \<Rightarrow> lstate \<Rightarrow> bool" where
  "may_join cfg env q st \<longleftrightarrow>
     int (length (queued_of st)) < cf_queue_max cfg \<and> 0 \<le> q_vram q \<and>
     (ev_block env \<longrightarrow> q_client q = Some ''owner.interactive'') \<and>
     (\<forall>cb. client_budget cfg (q_client q) = Some cb \<longrightarrow> q_vram q \<le> cb) \<and>
     (\<forall>phys. physical_mib (ev_card env) = Some phys \<longrightarrow> phys \<noteq> 0 \<longrightarrow> \<not> q_tiering q \<longrightarrow>
        q_vram q \<le> phys - reserve cfg phys)"

definition request_outcome :: "config \<Rightarrow> env \<Rightarrow> request \<Rightarrow> lstate \<Rightarrow> (exn + response \<times> lstate) \<Rightarrow> bool" where
  "request_outcome cfg env q st x \<longleftrightarrow>
     (\<exists>c w retry st1. same_core st st1 \<and> x = Inr (reject env q c w retry None st1)) \<or>
     (\<exists>start st1. same_core st st1 \<and> may_join cfg env q st1 \<and> ev_starttime env (q_pid q) = Some start \<and>
        x = enqueue cfg env q start st1)"

lemma outcome_reject: "same_core st st1 \<Longrightarrow> request_outcome cfg env q st (Inr (reject env q c w retry None st1))"
  unfolding request_outcome_def by blast

lemma outcome_join:
  "same_core st st1 \<Longrightarrow> may_join cfg env q st1 \<Longrightarrow> ev_starttime env (q_pid q) = Some start \<Longrightarrow>
   request_outcome cfg env q st (enqueue cfg env q start st1)"
  unfolding request_outcome_def by blast

lemma admit_request_outcome: "request_outcome cfg env q st (admit_request cfg env q st)"
proof -
  define st1 where "st1 = (if given (q_client q) \<and> dict_get CLIENTS (client_key (q_client q)) = None
    then add_event env (UnknownClient (client_key (q_client q))) st else st)"
  have c: "same_core st st" "same_core st st1" by (simp_all add: same_core_def st1_def)
  note r = outcome_reject [OF c(1)] outcome_reject [OF c(2)]
  show ?thesis
    unfolding admit_request_def Let_def st1_def [symmetric]
    by (auto simp: r may_join_def not_less split: option.split intro!: outcome_join [OF c(2)])
qed

lemma admit_request_steps:
  assumes "admit_request cfg env q st = Inr (r, st')" "wf_lease st"
  shows "lease_steps cfg env L st st'"
  using admit_request_outcome [of cfg env q st] unfolding request_outcome_def assms(1)
proof (elim disjE exE conjE)
  fix c w retry st1
  assume "same_core st st1" "Inr (r, st') = Inr (reject env q c w retry None st1)"
  then show ?thesis by (intro note_step) (auto simp: reject_def same_core_def)
next
  fix start st1
  assume c: "same_core st st1" "may_join cfg env q st1" "Inr (r, st') = enqueue cfg env q start st1"
  have n: "lease_step cfg env L st st1" by (rule Note) (use c(1) in \<open>simp_all add: same_core_def\<close>)
  have "lease_steps cfg env L st1 st'"
    by (rule enqueue_steps [OF c(3) [symmetric] wf_step [OF n assms(2)]])
      (use c(2) in \<open>simp_all add: may_join_def\<close>)
  with n show ?thesis by (rule converse_rtranclp_into_rtranclp)
qed

lemma acquire_moves: "body_moves cfg env L (acquire_body cfg env q)"
  unfolding body_moves_def
proof (intro allI impI)
  fix st r st' assume w: "wf_lease st" and b: "acquire_body cfg env q st = Inr (r, st')"
  show "lease_steps cfg env L st st'"
  proof (cases "if given (q_key q) then find (\<lambda>e. le_key e = q_key q) (st_entries st) else None")
    case None
    with b have "admit_request cfg env q st = Inr (r, st')" by (simp add: acquire_body_def)
    then show ?thesis using w by (rule admit_request_steps)
  next
    case (Some e)
    then have e: "e \<in> set (st_entries st)" by (auto split: if_splits dest: find_in)
    have t: "lease_step cfg env L st (set_entry (e\<lparr>le_seen := ev_now env\<rparr>) st)"
      by (rule touch_step [OF w e]) simp
    from b Some have "admit cfg env (set_entry (e\<lparr>le_seen := ev_now env\<rparr>) st) = Some st'"
      by (auto simp: acquire_body_def poll_ticket_def split: option.splits)
    from t admit_steps [OF this wf_step [OF t w]] show ?thesis by (rule converse_rtranclp_into_rtranclp)
  qed
qed

lemma touch_steps:
  "wf_lease st \<Longrightarrow> e \<in> set (st_entries st) \<Longrightarrow> ticket e' = ticket e \<Longrightarrow> lease_steps cfg env L st (set_entry e' st)"
  by (rule r_into_rtranclp) (rule touch_step)

lemma drop_id_steps:
  "st_entries st' = filter (\<lambda>e. le_id e \<noteq> lid) (st_entries st) \<Longrightarrow> st_seq st' = st_seq st \<Longrightarrow>
   st_token st' = st_token st \<Longrightarrow> lid \<in> L \<Longrightarrow> lease_steps cfg env L st st'"
  by (rule r_into_rtranclp, rule Drop [where keep = "\<lambda>e. le_id e \<noteq> lid"]) auto

lemma renew_moves: "body_moves cfg env L (\<lambda>st. Inr (renew_body env lid tok st))"
  unfolding body_moves_def
  by (auto simp: renew_body_def Let_def split: option.splits if_splits
      dest!: find_in intro!: touch_steps)

lemma release_moves: "body_moves cfg env {lid} (\<lambda>st. Inr (release_body lid tok st))"
  unfolding body_moves_def
  by (auto simp: release_body_def Let_def split: option.splits if_splits
      intro!: drop_id_steps)

lemma begin_release_moves: "body_moves cfg env L (\<lambda>st. Inr (begin_release_body lid st))"
  unfolding body_moves_def
proof (intro allI impI)
  fix st a st' assume w: "wf_lease st" and b: "Inr (begin_release_body lid st) = Inr (a, st')"
  show "lease_steps cfg env L st st'"
  proof (cases "find (\<lambda>e. le_id e = lid \<and> is_granted e) (st_entries st)")
    case None
    with b show ?thesis by (simp add: begin_release_body_def)
  next
    case (Some me)
    then have me: "me \<in> set (st_entries st)" by (auto dest: find_in)
    have t: "lease_step cfg env L st (set_entry (me\<lparr>le_releasing := True\<rparr>) st)"
      by (rule touch_step [OF w me]) simp
    moreover have "lease_steps cfg env L (set_entry (me\<lparr>le_releasing := True\<rparr>) st) st'"
      by (rule note_step) (use b Some in \<open>auto simp: begin_release_body_def Let_def split: if_splits\<close>)
    ultimately show ?thesis by (rule converse_rtranclp_into_rtranclp)
  qed
qed

lemma note_paused_moves: "body_moves cfg env L (\<lambda>st. Inr (note_paused_body lid models st))"
  unfolding body_moves_def by (auto simp: note_paused_body_def intro!: note_step)

lemma cancel_moves_at:
  assumes "cancel_body env lid kind st = Inr (a, st')" "wf_lease st"
    and "\<And>e. e \<in> set (st_entries st) \<Longrightarrow> is_granted e \<Longrightarrow> le_id e = lid \<Longrightarrow> le_id e \<notin> L \<Longrightarrow>
      \<exists>me. find (\<lambda>e. le_id e = lid) (st_entries st) = Some me \<and> is_granted me"
  shows "lease_steps cfg env L st st'"
proof (cases "find (\<lambda>e. le_id e = lid) (st_entries st)")
  case None
  with assms(1) show ?thesis by (simp add: cancel_body_def)
next
  case (Some me)
  then have me: "me \<in> set (st_entries st)" by (auto dest: find_in)
  show ?thesis
  proof (cases "is_granted me")
    case True
    have t: "lease_step cfg env L st (set_entry (me\<lparr>le_cancel := Some kind\<rparr>) st)"
      by (rule touch_step [OF assms(2) me]) simp
    have "lease_steps cfg env L (set_entry (me\<lparr>le_cancel := Some kind\<rparr>) st) st' \<or> st' = st"
      using assms(1) Some True by (auto simp: cancel_body_def Let_def split: if_splits intro!: note_step)
    with t show ?thesis by (auto intro: converse_rtranclp_into_rtranclp)
  next
    case False
    with assms(1) Some have st': "st' = st\<lparr>st_entries := filter (\<lambda>e. le_id e \<noteq> lid) (st_entries st)\<rparr>"
      by (simp add: cancel_body_def)
    show ?thesis
      by (rule r_into_rtranclp, rule Drop [where keep = "\<lambda>e. le_id e \<noteq> lid"])
        (use st' assms(3) Some False in auto)
  qed
qed

lemma status_moves: "body_moves cfg env L (status_body cfg env)"
  by (rule body_moves_refl) (auto simp: status_body_def split: option.splits)

text \<open>The critical section of an operation, its answer left out.\<close>

definition forget_answer :: "(lstate \<Rightarrow> exn + 'a \<times> lstate) \<Rightarrow> lstate \<Rightarrow> exn + unit \<times> lstate" where
  "forget_answer body st = bind_result (body st) (\<lambda>(a, st'). Inr ((), st'))"

definition body_of :: "config \<Rightarrow> env \<Rightarrow> op \<Rightarrow> lstate \<Rightarrow> exn + unit \<times> lstate" where
  "body_of cfg env p =
     (case p of
        Acquire q \<Rightarrow> forget_answer (acquire_body cfg env q)
      | Renew lid tok \<Rightarrow> forget_answer (\<lambda>st. Inr (renew_body env lid tok st))
      | BeginRelease lid \<Rightarrow> forget_answer (\<lambda>st. Inr (begin_release_body lid st))
      | Release lid tok \<Rightarrow> forget_answer (\<lambda>st. Inr (release_body lid tok st))
      | NotePaused lid models \<Rightarrow> forget_answer (\<lambda>st. Inr (note_paused_body lid models st))
      | Cancel lid kind \<Rightarrow> forget_answer (cancel_body env lid kind)
      | Check lid tok \<Rightarrow> (\<lambda>st. Inr ((), st))
      | Status \<Rightarrow> forget_answer (status_body cfg env))"

lemma txn_forget [simp]: "snd (txn cfg env (forget_answer body) f) = snd (txn cfg env body f)"
  by (cases f) (auto simp: txn_def txn_state_def forget_answer_def bind_result_def Let_def
      split: sum.splits option.splits)

lemma forget_moves: "body_moves cfg env L body \<Longrightarrow> body_moves cfg env L (forget_answer body)"
  by (fastforce simp: body_moves_def forget_answer_def bind_result_Inr_iff)

lemma body_of_moves: "body_moves cfg env (freed p) (body_of cfg env p)"
proof (cases p)
  case (Check lid tok)
  then show ?thesis by (auto simp: body_of_def intro: body_moves_refl)
next
  case (Cancel lid kind)
  have "body_moves cfg env {lid} (cancel_body env lid kind)"
    unfolding body_moves_def by (auto intro: cancel_moves_at)
  with Cancel forget_moves show ?thesis by (simp add: body_of_def)
qed (simp_all add: body_of_def forget_moves acquire_moves renew_moves begin_release_moves release_moves
    note_paused_moves status_moves)

lemma exec_txn: "exec cfg env p f = f \<or> exec cfg env p f = snd (txn cfg env (body_of cfg env p) f)"
proof (cases p)
  case (Check lid tok)
  have "snd (txn cfg env (\<lambda>st. Inr (g st, st)) f) = snd (txn cfg env (\<lambda>st. Inr ((), st)) f)" for g :: "lstate \<Rightarrow> bool \<times> code"
    by (cases f) (auto simp: txn_def txn_state_def Let_def split: sum.splits option.splits)
  from this [of "\<lambda>st. if holds lid tok st then (True, GRANTED) else (False, STALE_TOKEN)"] Check
  show ?thesis by (simp add: exec_def body_of_def check_lease_def)
qed (simp_all add: exec_def body_of_def acquire_def renew_def begin_release_def release_def note_paused_def
    cancel_def status_def)

text \<open>The simulation: what an operation does to the file is a sequence of moves.\<close>

theorem exec_steps:
  assumes "exec cfg env p f = FState st'" "wf_lease (load cfg f)"
  shows "lease_steps cfg env (freed p) (load cfg f) st'"
  using exec_txn [of cfg env p f]
proof
  assume "exec cfg env p f = f"
  with assms(1) show ?thesis by (simp add: load_def)
next
  assume "exec cfg env p f = snd (txn cfg env (body_of cfg env p) f)"
  with assms(1) have "snd (txn cfg env (body_of cfg env p) f) = FState st'" by simp
  then show ?thesis using body_of_moves assms(2) by (rule txn_moves)
qed

section \<open>Histories\<close>

text \<open>The files that operations in surroundings of \<open>E\<close> can leave, starting from no file.\<close>

inductive reachable :: "config \<Rightarrow> (env \<Rightarrow> bool) \<Rightarrow> lfile \<Rightarrow> bool" for cfg E where
  start: "reachable cfg E FAbsent"
| op: "reachable cfg E f \<Longrightarrow> E env \<Longrightarrow> reachable cfg E (exec cfg env p f)"

inductive_cases reachable_stateE: "reachable cfg E (FState st)"

text \<open>Files that follow one another, by operations in surroundings that \<open>R\<close> allows.\<close>

inductive later :: "config \<Rightarrow> (env \<Rightarrow> op \<Rightarrow> bool) \<Rightarrow> lfile \<Rightarrow> lfile \<Rightarrow> bool" for cfg R f where
  same: "later cfg R f f"
| op: "later cfg R f g \<Longrightarrow> R env p \<Longrightarrow> later cfg R f (exec cfg env p g)"

lemma txn_damaged: "snd (txn cfg env body FDamaged) = FDamaged"
  by (simp add: txn_def)

lemma txn_file:
  "snd (txn cfg env body f) = f \<or> (\<exists>st. snd (txn cfg env body f) = FState st)"
  by (cases f) (auto simp: txn_def split: sum.splits)

lemma exec_file: "exec cfg env p f = f \<or> (\<exists>st. exec cfg env p f = FState st)"
  using exec_txn [of cfg env p f] txn_file [of cfg env "body_of cfg env p" f] by auto

lemma exec_file_cases:
  obtains "exec cfg env p f = f" | st where "exec cfg env p f = FState st"
  using exec_file by blast

text \<open>An invariant of the moves holds in every reachable file.\<close>

lemma reachable_invariant:
  assumes "reachable cfg E f" and start: "I (init_state cfg)"
    and move: "\<And>env L st st'. E env \<Longrightarrow> wf_lease st \<Longrightarrow> I st \<Longrightarrow> lease_step cfg env L st st' \<Longrightarrow> I st'"
  shows "f \<noteq> FDamaged \<and> wf_lease (load cfg f) \<and> I (load cfg f)"
  using assms(1)
proof (induction rule: reachable.induct)
  case start
  with \<open>I (init_state cfg)\<close> show ?case by (simp add: load_def)
next
  case (op f env p)
  have steps: "I st'" if "lease_steps cfg env L st st'" "wf_lease st" "I st" for L st st'
    using that
  proof (induction rule: rtranclp_induct)
    case (step b c)
    with move [OF op.hyps(2) wf_steps [OF step.hyps(1)]] show ?case by blast
  qed
  show ?case
  proof (cases rule: exec_file_cases [of cfg env p f])
    case 1
    with op.IH show ?thesis by simp
  next
    case (2 st)
    from exec_steps [OF 2] op.IH have s: "lease_steps cfg env (freed p) (load cfg f) st" by blast
    with op.IH steps wf_steps 2 show ?thesis by (auto simp: load_def)
  qed
qed

lemma reachable_wf: "reachable cfg E (FState st) \<Longrightarrow> wf_lease st"
  using reachable_invariant [of cfg E "FState st" "\<lambda>_. True"] by (simp add: load_def)

text \<open>A relation that every operation keeps relates a file and every later one.\<close>

lemma later_invariant:
  assumes "later cfg R (FState st) g" "wf_lease st" and "I st"
    and steps: "\<And>env p a b. R env p \<Longrightarrow> wf_lease a \<Longrightarrow> I a \<Longrightarrow> lease_steps cfg env (freed p) a b \<Longrightarrow> I b"
  shows "\<exists>st'. g = FState st' \<and> wf_lease st' \<and> I st'"
  using assms(1)
proof (induction rule: later.induct)
  case same
  with assms(2,3) show ?case by blast
next
  case (op g env p)
  then obtain s where s: "g = FState s" "wf_lease s" "I s" by blast
  show ?case
  proof (cases rule: exec_file_cases [of cfg env p g])
    case 1
    with s show ?thesis by simp
  next
    case (2 st')
    have l: "load cfg g = s" by (simp add: load_def s(1))
    have "lease_steps cfg env (freed p) s st'"
      using exec_steps [OF 2] s(2) unfolding l .
    from steps [OF op.hyps(2) s(2,3) this] wf_steps [OF this s(2)] 2 show ?thesis by simp
  qed
qed

section \<open>What an admission pass does\<close>

definition granted_seqs :: "lstate \<Rightarrow> int set" where
  "granted_seqs st = le_seq ` set (granted_of st)"

text \<open>Once somebody is blocked, nobody else is granted in the pass.\<close>

lemma blocked_pass:
  assumes "untouched es st" "wf_lease st"
  shows "granted_of (admit_loop cfg env cd (Some job) es st) = granted_of st \<and>
    (\<forall>e \<in> set (st_entries st). e \<notin> set es \<longrightarrow> e \<in> set (st_entries (admit_loop cfg env cd (Some job) es st)))"
  using assms
proof (induction es arbitrary: st)
  case (Cons e es)
  let ?e = "e\<lparr>le_reason := Some (Behind job)\<rparr>"
  let ?st = "set_entry ?e st"
  have e: "e \<in> set (st_entries st)" "\<not> is_granted e" using Cons.prems(1) by (auto simp: untouched_def)
  have w: "wf_lease ?st" by (rule wf_step [OF touch_step [OF Cons.prems(2) e(1)] Cons.prems(2)]) simp
  have u: "untouched es ?st" using Cons.prems by (intro untouched_Cons) simp_all
  have q: "\<not> is_granted ?e" using e(2) by (simp add: is_granted_def)
  have same: "x = e" if "x \<in> set (st_entries st)" "le_seq x = le_seq e" for x
    using that e(1) Cons.prems(2) by (auto simp: wf_lease_def unique_seq)
  have "filter is_granted (map (\<lambda>x. if le_seq x = le_seq e then ?e else x) xs) = filter is_granted xs"
    if "set xs \<subseteq> set (st_entries st)" for xs
    using that
  proof (induction xs)
    case (Cons x xs)
    then show ?case using same [of x] q e(2) by auto
  qed simp
  from this [of "st_entries st"] have "granted_of ?st = granted_of st" by simp
  moreover have "x \<in> set (st_entries ?st)" if "x \<in> set (st_entries st)" "x \<noteq> e" for x
    using that same by force
  ultimately show ?case using Cons.IH [OF u w] by auto
qed simp

text \<open>
  An admission pass grants a prefix of its list and stops at the first record that does not fit among those
  then granted.
\<close>

lemma admit_pass:
  assumes "untouched es st" "wf_lease st"
  shows "\<exists>k \<le> length es. \<exists>cd'.
    granted_seqs (admit_loop cfg env cd None es st) = granted_seqs st \<union> le_seq ` set (take k es) \<and>
    (cd' = cd \<or> cd' = cd\<lparr>physical_mib := None\<rparr>) \<and>
    (k < length es \<longrightarrow>
       fit cfg (granted_of (admit_loop cfg env cd None es st)) (es ! k) cd' (ev_now env) \<noteq> None)"
  using assms
proof (induction es arbitrary: st cd)
  case Nil
  then show ?case by (auto intro: exI [of _ cd])
next
  case (Cons e es)
  have e: "e \<in> set (st_entries st)" "\<not> is_granted e" using Cons.prems(1) by (auto simp: untouched_def)
  show ?case
  proof (cases "fit cfg (granted_of st) e cd (ev_now env)")
    case None
    let ?st = "grant env e st"
    let ?cd = "if le_tiering e then cd\<lparr>physical_mib := None\<rparr> else cd"
    have d: "distinct (map le_seq (st_entries st))" using Cons.prems(2) by (simp add: wf_lease_def)
    have g: "granted_seqs ?st = insert (le_seq e) (granted_seqs st)"
      by (rule grant_split [OF d e, of env]) (simp add: granted_seqs_def del: grant_sel)
    have w: "wf_lease ?st" using Cons.prems(2) e by (rule wf_grant)
    have u: "untouched es ?st" using Cons.prems by (rule untouched_Cons) simp
    obtain k cd' where k: "k \<le> length es" "cd' = ?cd \<or> cd' = ?cd\<lparr>physical_mib := None\<rparr>"
        "granted_seqs (admit_loop cfg env ?cd None es ?st) = granted_seqs ?st \<union> le_seq ` set (take k es)"
        "k < length es \<longrightarrow> fit cfg (granted_of (admit_loop cfg env ?cd None es ?st)) (es ! k) cd' (ev_now env) \<noteq> None"
      using Cons.IH [OF u w, of ?cd] by blast
    show ?thesis
      by (rule exI [of _ "Suc k"], intro conjI exI [of _ cd'])
        (use k g None in \<open>auto split: if_splits\<close>)
  next
    case (Some x)
    let ?e = "e\<lparr>le_reason := Some x\<rparr>"
    let ?st = "set_entry ?e st"
    have w: "wf_lease ?st" by (rule wf_step [OF touch_step [OF Cons.prems(2) e(1)] Cons.prems(2)]) simp
    have u: "untouched es ?st" using Cons.prems by (intro untouched_Cons) simp_all
    have same: "y = e" if "y \<in> set (st_entries st)" "le_seq y = le_seq e" for y
      using that e(1) Cons.prems(2) by (auto simp: wf_lease_def unique_seq)
    have "filter is_granted (map (\<lambda>y. if le_seq y = le_seq e then ?e else y) xs) = filter is_granted xs"
      if "set xs \<subseteq> set (st_entries st)" for xs
      using that
    proof (induction xs)
      case (Cons y xs)
      then show ?case using same [of y] e(2) by (auto simp: is_granted_def)
    qed simp
    from this [of "st_entries st"] have "granted_of ?st = granted_of st" by simp
    with blocked_pass [OF u w] Some show ?thesis
      by (intro exI [of _ 0]) (auto simp: granted_seqs_def)
  qed
qed

lemma untouched_queue:
  "wf_lease st \<Longrightarrow> queue_order cfg now (queued_of st) = Some q \<Longrightarrow> untouched q st"
  using queue_order_set [of cfg now "queued_of st" q] by (simp add: untouched_def wf_lease_def distinct_map)

text \<open>After an admission pass nobody waits at an empty card.\<close>

lemma admit_serves:
  assumes "admit cfg env st = Some st'" "wf_lease st" "granted_of st' = []"
  shows "queued_of st' = []"
proof -
  from assms(1) obtain q where q: "queue_order cfg (ev_now env) (queued_of st) = Some q"
      "st' = admit_loop cfg env (ev_card env) None q st"
    by (auto simp: admit_def split: option.splits)
  obtain k cd' where k: "k \<le> length q" "granted_seqs st' = granted_seqs st \<union> le_seq ` set (take k q)"
      "k < length q \<longrightarrow> fit cfg (granted_of st') (q ! k) cd' (ev_now env) \<noteq> None"
    using admit_pass [OF untouched_queue [OF assms(2) q(1)] assms(2), of cfg env "ev_card env"] q(2) by blast
  have none: "fit cfg [] e cd now = None" for e cd now by (simp add: fit_def)
  have "granted_seqs st' = {}" using assms(3) by (simp add: granted_seqs_def)
  with k none assms(3) have "q = []" by (cases q; cases k) auto
  with queue_order_set [OF q(1)] q(2) show ?thesis by simp
qed

text \<open>A file written by an operation was left by an admission pass.\<close>

definition admitted :: "config \<Rightarrow> env \<Rightarrow> lstate \<Rightarrow> bool" where
  "admitted cfg env st' \<longleftrightarrow> (\<exists>st. wf_lease st \<and> admit cfg env st = Some st')"

lemma txn_admitted:
  assumes "snd (txn cfg env body f) = FState st'" "body_moves cfg env L body" "wf_lease (load cfg f)"
  shows "f = FState st' \<or> admitted cfg env st'"
proof -
  have run: "admitted cfg env st'" if t: "txn_state cfg env body st = Inr (a, st')" "wf_lease st" for st a
  proof -
    let ?p = "prune env (st\<lparr>st_queue_max := cf_queue_max cfg\<rparr>)"
    have "wf_lease (st\<lparr>st_queue_max := cf_queue_max cfg\<rparr>)" using t(2) by (simp add: wf_lease_def)
    from wf_steps [OF prune_steps this] have w: "wf_lease ?p" .
    from t(1) obtain m where m: "body ?p = Inr (a, m)" "admit cfg env m = Some st'"
      by (auto simp: txn_state_def bind_result_Inr_iff split: option.splits)
    have "lease_steps cfg env L ?p m" using assms(2) m(1) w by (auto simp: body_moves_def)
    then have "wf_lease m" using w by (rule wf_steps)
    with m(2) show ?thesis by (auto simp: admitted_def)
  qed
  show ?thesis
  proof (cases "txn_state cfg env body (load cfg f)")
    case (Inl x)
    with assms(1) show ?thesis by (cases f) (auto simp: txn_def load_def split: sum.splits)
  next
    case (Inr b)
    with assms(1,3) run [of "load cfg f"] show ?thesis
      by (cases b; cases f) (auto simp: txn_def load_def split: sum.splits)
  qed
qed

lemma exec_admitted:
  assumes "exec cfg env p f = FState st'" "wf_lease (load cfg f)"
  shows "f = FState st' \<or> admitted cfg env st'"
  using exec_txn [of cfg env p f]
proof
  assume "exec cfg env p f = snd (txn cfg env (body_of cfg env p) f)"
  with assms(1) have "snd (txn cfg env (body_of cfg env p) f) = FState st'" by simp
  then show ?thesis using body_of_moves assms(2) by (rule txn_admitted)
qed (use assms(1) in simp)

section \<open>An admission pass keeps the tickets\<close>

definition idents :: "lstate \<Rightarrow> (int \<times> string \<times> string option) list" where
  "idents st = map (\<lambda>e. (le_seq e, le_id e, le_key e)) (st_entries st)"

lemma idents_replace:
  assumes "wf_lease st" "e \<in> set (st_entries st)" "le_seq e' = le_seq e" "le_id e' = le_id e" "le_key e' = le_key e"
  shows "map (\<lambda>x. (le_seq x, le_id x, le_key x)) (map (\<lambda>x. if le_seq x = le_seq e then e' else x) (st_entries st)) = idents st"
proof -
  have "x = e" if "x \<in> set (st_entries st)" "le_seq x = le_seq e" for x
    using that assms(1,2) by (auto simp: wf_lease_def unique_seq)
  with assms(3-5) show ?thesis by (auto simp: idents_def)
qed

lemma admit_loop_idents:
  assumes "wf_lease st" "untouched es st"
  shows "idents (admit_loop cfg env cd b es st) = idents st \<and> st_seq (admit_loop cfg env cd b es st) = st_seq st \<and>
    st_paused (admit_loop cfg env cd b es st) = st_paused st"
  using assms
proof (induction cfg env cd b es st rule: admit_loop.induct)
  case (2 cfg env cd job e es st)
  have e: "e \<in> set (st_entries st)" using "2.prems"(2) by (auto simp: untouched_def)
  let ?st = "set_entry (e\<lparr>le_reason := Some (Behind job)\<rparr>) st"
  have w: "wf_lease ?st" by (rule wf_step [OF touch_step [OF "2.prems"(1) e] "2.prems"(1)]) simp
  have u: "untouched es ?st" using "2.prems"(2,1) by (rule untouched_Cons) simp
  have "idents ?st = idents st"
    using idents_replace [OF "2.prems"(1) e, of "e\<lparr>le_reason := Some (Behind job)\<rparr>"] by (simp add: idents_def)
  with "2.IH" [OF w u] show ?case by simp
next
  case (3 cfg env cd e es st)
  have e: "e \<in> set (st_entries st)" "\<not> is_granted e" using "3.prems"(2) by (auto simp: untouched_def)
  show ?case
  proof (cases "fit cfg (granted_of st) e cd (ev_now env)")
    case None
    have u: "untouched es (grant env e st)" using "3.prems"(2,1) by (rule untouched_Cons) simp
    have "idents (grant env e st) = idents st"
      using idents_replace [OF "3.prems"(1) e(1), of "granted_form env (st_token st + 1) e"]
      by (simp add: idents_def)
    with "3.IH"(1) [OF None wf_grant [OF "3.prems"(1) e] u] None show ?thesis by simp
  next
    case (Some w)
    let ?st = "set_entry (e\<lparr>le_reason := Some w\<rparr>) st"
    have wf: "wf_lease ?st" by (rule wf_step [OF touch_step [OF "3.prems"(1) e(1)] "3.prems"(1)]) simp
    have u: "untouched es ?st" using "3.prems"(2,1) by (rule untouched_Cons) simp
    have "idents ?st = idents st"
      using idents_replace [OF "3.prems"(1) e(1), of "e\<lparr>le_reason := Some w\<rparr>"] by (simp add: idents_def)
    with "3.IH"(2) [OF Some wf u] Some show ?thesis by simp
  qed
qed simp

lemma admit_idents:
  assumes "admit cfg env st = Some st'" "wf_lease st"
  shows "idents st' = idents st \<and> st_seq st' = st_seq st \<and> st_paused st' = st_paused st \<and> wf_lease st'"
proof -
  from assms(1) obtain q where q: "queue_order cfg (ev_now env) (queued_of st) = Some q"
      "st' = admit_loop cfg env (ev_card env) None q st"
    by (auto simp: admit_def split: option.splits)
  with admit_loop_idents [OF assms(2) untouched_queue [OF assms(2) q(1)]] wf_steps [OF admit_steps [OF assms] assms(2)]
  show ?thesis by blast
qed

lemma wf_pruned: "wf_lease st \<Longrightarrow> wf_lease (prune env (st\<lparr>st_queue_max := n\<rparr>))"
  by (rule wf_steps [OF prune_steps]) (simp add: wf_lease_def)

end
