(* ===== verification/Lease_Safety.thy ===== *)
theory Lease_Safety
  imports Lease_Steps
begin

text \<open>
  What the lease arbiter promises in every reachable state: the sharing rules (solo classes, tiering alone,
  the card's budget, client budgets), the bounded queue, fencing tokens, the safety of a live holder, and
  the answers on a damaged file.
\<close>

section \<open>Sharing rules\<close>

lemma claims_Nil [simp]: "claims [] = {#}"
  by (simp add: claims_def)

lemma claims_filter: "claims (filter keep es) \<subseteq># claims es"
  unfolding claims_def mset_map mset_filter
  by (intro image_mset_subseteq_mono multiset_filter_mono) simp

text \<open>
  A rule over the multiset of granted claims. \<open>admits\<close> is the law of the fit test, \<open>at_door\<close> of the checks
  before the queue, \<open>fewer\<close> of releases and drops.
\<close>

locale holder_rule =
  fixes cfg :: config and card_ok :: "card \<Rightarrow> bool" and door :: "claim \<Rightarrow> bool" and rule :: "claim multiset \<Rightarrow> bool"
  assumes none: "rule {#}"
    and fewer: "rule M \<Longrightarrow> (\<forall>c \<in># M. door c) \<Longrightarrow> N \<subseteq># M \<Longrightarrow> rule N"
    and blind: "card_ok cd \<Longrightarrow> card_ok (cd\<lparr>physical_mib := None\<rparr>)"
    and admits: "rule (claims gs) \<Longrightarrow> (\<forall>g \<in> set gs. is_granted g \<and> door (claim_of g)) \<Longrightarrow> door (claim_of e) \<Longrightarrow>
      card_ok cd \<Longrightarrow> fit cfg gs e cd now = None \<Longrightarrow> rule (add_mset (claim_of e) (claims gs))"
    and at_door: "0 \<le> q_vram q \<Longrightarrow> (\<And>cb. client_budget cfg (q_client q) = Some cb \<Longrightarrow> q_vram q \<le> cb) \<Longrightarrow>
      door (claim_of (new_entry env q start n))"
begin

definition kept_rule :: "lstate \<Rightarrow> bool" where
  "kept_rule st \<longleftrightarrow> rule (claims (st_entries st)) \<and> (\<forall>e \<in> set (st_entries st). door (claim_of e))"

lemma kept_init: "kept_rule (init_state cfg)"
  by (simp add: kept_rule_def init_state_def claims_def none)

lemma kept_step:
  assumes "lease_step cfg env L st st'" "wf_lease st" "kept_rule st" "card_ok (ev_card env)"
  shows "kept_rule st'"
  using assms(1)
proof (cases rule: lease_step.cases)
  case Note
  with assms(3) show ?thesis by (simp add: kept_rule_def)
next
  case (Drop keep)
  have "claims (filter keep (st_entries st)) \<subseteq># claims (st_entries st)" by (rule claims_filter)
  moreover have "\<forall>c \<in># claims (st_entries st). door c" using assms(3) by (auto simp: kept_rule_def claims_def)
  ultimately have "rule (claims (filter keep (st_entries st)))"
    using assms(3) fewer unfolding kept_rule_def by blast
  with assms(3) Drop(1) show ?thesis by (simp add: kept_rule_def)
next
  case (Touch f)
  have "claims (map f es) = claims es" if "set es \<subseteq> set (st_entries st)" for es
    using that
  proof (induction es)
    case (Cons e es)
    then have "ticket (f e) = ticket e" using Touch(4) by simp
    with Cons show ?case using is_granted_ticket [of "f e" e] claim_of_ticket [of "f e" e] by (simp add: claims_def)
  qed simp
  from this [of "st_entries st"] assms(3) Touch show ?thesis
    using claim_of_ticket [OF Touch(4)] by (auto simp: kept_rule_def)
next
  case (Join q start)
  with assms(3) at_door show ?thesis by (auto simp: kept_rule_def claims_def)
next
  case (Grant e cd)
  from assms(2) have "distinct (map le_seq (st_entries st))" by (simp add: wf_lease_def)
  from grant_split [OF this Grant(2,3)] obtain xs ys where s: "st_entries st = xs @ e # ys"
      "st_entries (grant env e st) = xs @ granted_form env (st_token st + 1) e # ys" by blast
  have gs: "claims (granted_of st) = claims (st_entries st)" by (simp add: claims_def)
  have "card_ok cd" using Grant(4) assms(4) blind by auto
  moreover have "rule (claims (granted_of st))" unfolding gs using assms(3) by (simp add: kept_rule_def)
  moreover have "\<forall>g \<in> set (granted_of st). is_granted g \<and> door (claim_of g)" "door (claim_of e)"
    using assms(3) Grant(2) by (simp_all add: kept_rule_def)
  ultimately have "rule (add_mset (claim_of e) (claims (granted_of st)))"
    using Grant(5) by (intro admits)
  then have "rule (add_mset (claim_of e) (claims (st_entries st)))" unfolding gs .
  moreover have "claims (st_entries st') = add_mset (claim_of e) (claims (st_entries st))"
    using Grant(3) by (simp add: Grant(1) s claims_def del: grant_sel)
  ultimately show ?thesis using assms(3) s by (auto simp: kept_rule_def Grant(1) simp del: grant_sel)
qed

lemma always:
  assumes "reachable cfg E (FState st)" "\<And>env. E env \<Longrightarrow> card_ok (ev_card env)"
  shows "rule (claims (st_entries st))"
proof -
  have k: "kept_rule st'" if "E env" "wf_lease s" "kept_rule s" "lease_step cfg env L s st'" for env L s st'
    by (rule kept_step [OF that(4,2,3) assms(2) [OF that(1)]])
  have "kept_rule (load cfg (FState st))"
    using reachable_invariant [of cfg E "FState st" kept_rule, OF assms(1) kept_init] k by blast
  then show ?thesis by (simp add: load_def kept_rule_def)
qed

end

section \<open>The rules of the arbiter\<close>

definition solo_rule :: "claim multiset \<Rightarrow> bool" where
  "solo_rule M \<longleftrightarrow> (\<forall>c \<in> SOLO_CLASSES. size {#x \<in># M. c_class x = Some c#} \<le> 1)"

definition alone_rule :: "claim multiset \<Rightarrow> bool" where
  "alone_rule M \<longleftrightarrow> (\<forall>x \<in># M. c_tiering x \<longrightarrow> size M = 1)"

definition vram_sum :: "claim multiset \<Rightarrow> int" where
  "vram_sum M = sum_mset (image_mset c_vram M)"

definition card_rule :: "config \<Rightarrow> int \<Rightarrow> claim multiset \<Rightarrow> bool" where
  "card_rule cfg phys M \<longleftrightarrow> (2 \<le> size M \<longrightarrow> vram_sum M \<le> phys - reserve cfg phys)"

definition client_rule :: "config \<Rightarrow> claim multiset \<Rightarrow> bool" where
  "client_rule cfg M \<longleftrightarrow>
     (\<forall>x \<in># M. \<forall>cb. client_budget cfg (c_client x) = Some cb \<longrightarrow>
        vram_sum {#y \<in># M. c_client y = c_client x#} \<le> cb)"

lemma claims_granted: "(\<forall>g \<in> set gs. is_granted g) \<Longrightarrow> claims gs = mset (map claim_of gs)"
  by (simp add: claims_def filter_True)

lemma vram_sum_simps [simp]:
  "vram_sum {#} = 0" "vram_sum (add_mset c M) = c_vram c + vram_sum M" "vram_sum (M + N) = vram_sum M + vram_sum N"
  by (simp_all add: vram_sum_def)

lemma vram_sum_mset: "vram_sum (mset (map claim_of gs)) = sum_list (map le_vram gs)"
  by (induction gs) auto

lemma vram_sum_mono:
  assumes "N \<subseteq># M" "\<forall>c \<in># M. 0 \<le> c_vram c"
  shows "vram_sum N \<le> vram_sum M"
proof -
  from assms(1) obtain K where K: "M = N + K" by (auto simp: mset_subset_eq_exists_conv)
  have "0 \<le> vram_sum K" using assms(2) unfolding K by (induction K) auto
  with K show ?thesis by simp
qed

text \<open>What an admitting answer of \<open>fit\<close> tells beside an earlier holder.\<close>

lemma fit_None:
  assumes "fit cfg gs e cd now = None" "gs \<noteq> []"
  shows "\<not> le_tiering e" "\<forall>g \<in> set gs. \<not> le_tiering g"
    "readable (physical_mib cd)"
    "sum_list (map le_vram gs) + le_vram e \<le> the (physical_mib cd) - reserve cfg (the (physical_mib cd))"
    "class_of e = Some c \<Longrightarrow> c \<in> SOLO_CLASSES \<Longrightarrow> \<forall>g \<in> set gs. class_of g \<noteq> Some c"
    "client_budget cfg (le_client e) = Some cb \<Longrightarrow>
       sum_list (map le_vram (filter (\<lambda>g. le_client g = le_client e) gs)) + le_vram e \<le> cb"
    "\<forall>g \<in> set gs. \<not> le_releasing g"
  using assms
  by (auto simp: fit_def Let_def find_None_iff split: if_splits option.splits)

lemma size_claims: "(\<forall>g \<in> set gs. is_granted g) \<Longrightarrow> size (claims gs) = length gs"
  by (simp add: claims_granted)

interpretation solo: holder_rule cfg "\<lambda>_. True" "\<lambda>_. True" solo_rule for cfg
proof (unfold_locales, goal_cases)
  case (2 M N)
  then have "size {#x \<in># N. c_class x = Some c#} \<le> size {#x \<in># M. c_class x = Some c#}" for c
    by (intro size_mset_mono multiset_filter_mono)
  with 2(1) show ?case unfolding solo_rule_def by (meson le_trans)
next
  case (4 gs e cd now)
  then have m: "claims gs = mset (map claim_of gs)" by (simp add: claims_granted)
  have "size {#x \<in># add_mset (claim_of e) (claims gs). c_class x = Some c#} \<le> 1" if "c \<in> SOLO_CLASSES" for c
  proof (cases "class_of e = Some c \<and> gs \<noteq> []")
    case True
    with fit_None(5) [OF 4(5)] that have "\<forall>g \<in> set gs. class_of g \<noteq> Some c" by blast
    then have "{#x \<in># claims gs. c_class x = Some c#} = {#}" unfolding m by (auto simp: filter_mset_eq_conv)
    then show ?thesis by (simp only: filter_mset_add_mset) simp
  next
    case False
    with 4(1) that show ?thesis by (auto simp: solo_rule_def m)
  qed
  then show ?case by (simp add: solo_rule_def)
qed (simp_all add: solo_rule_def)

interpretation alone: holder_rule cfg "\<lambda>_. True" "\<lambda>_. True" alone_rule for cfg
proof (unfold_locales, goal_cases)
  case (2 M N)
  show ?case unfolding alone_rule_def
  proof (intro ballI impI)
    fix x assume x: "x \<in># N" "c_tiering x"
    with 2 have "size M = 1" by (auto simp: alone_rule_def dest: mset_subset_eqD)
    with x(1) size_mset_mono [OF 2(3)] show "size N = 1" by (cases N) auto
  qed
next
  case (4 gs e cd now)
  then have m: "claims gs = mset (map claim_of gs)" by (simp add: claims_granted)
  show ?case
  proof (cases "gs = []")
    case False
    from fit_None(1,2) [OF 4(5) False] show ?thesis by (auto simp: alone_rule_def m)
  qed (simp add: alone_rule_def m)
qed (simp_all add: alone_rule_def)

definition card_known :: "int \<Rightarrow> card \<Rightarrow> bool" where
  "card_known phys cd \<longleftrightarrow> (readable (physical_mib cd) \<longrightarrow> physical_mib cd = Some phys)"

interpretation card: holder_rule cfg "card_known phys" "\<lambda>c. 0 \<le> c_vram c" "card_rule cfg phys" for cfg phys
proof (unfold_locales, goal_cases)
  case (2 M N)
  with vram_sum_mono [OF 2(3,2)] size_mset_mono [OF 2(3)] show ?case by (auto simp: card_rule_def)
next
  case (4 gs e cd now)
  then have m: "claims gs = mset (map claim_of gs)" by (simp add: claims_granted)
  show ?case
  proof (cases "gs = []")
    case False
    have "physical_mib cd = Some phys" using 4(4) fit_None(3) [OF 4(5) False] by (simp add: card_known_def)
    with fit_None(4) [OF 4(5) False] show ?thesis
      unfolding card_rule_def m by (simp add: vram_sum_mset add.commute del: mset_map)
  qed (simp add: card_rule_def m)
qed (simp_all add: card_rule_def card_known_def readable_def)

definition within_budget :: "config \<Rightarrow> claim \<Rightarrow> bool" where
  "within_budget cfg c \<longleftrightarrow>
     0 \<le> c_vram c \<and> (\<forall>cb. client_budget cfg (c_client c) = Some cb \<longrightarrow> c_vram c \<le> cb)"

interpretation client: holder_rule cfg "\<lambda>_. True" "within_budget cfg" "client_rule cfg" for cfg
proof (unfold_locales, goal_cases)
  case (2 M N)
  show ?case unfolding client_rule_def
  proof (intro ballI allI impI)
    fix x cb assume x: "x \<in># N" "client_budget cfg (c_client x) = Some cb"
    have "vram_sum {#y \<in># N. c_client y = c_client x#} \<le> vram_sum {#y \<in># M. c_client y = c_client x#}"
      using 2(2,3) by (intro vram_sum_mono multiset_filter_mono) (auto simp: within_budget_def)
    also have "\<dots> \<le> cb" using 2(1,3) x by (auto simp: client_rule_def dest: mset_subset_eqD)
    finally show "vram_sum {#y \<in># N. c_client y = c_client x#} \<le> cb" .
  qed
next
  case (4 gs e cd now)
  then have m: "claims gs = mset (map claim_of gs)" by (simp add: claims_granted)
  have s: "vram_sum {#y \<in># claims gs. c_client y = cl#} =
      sum_list (map le_vram (filter (\<lambda>g. le_client g = cl) gs))" for cl
    unfolding m by (induction gs) auto
  have new: "vram_sum {#y \<in># claims gs. c_client y = le_client e#} + le_vram e \<le> cb"
    if "client_budget cfg (le_client e) = Some cb" for cb
    using fit_None(6) [OF 4(5) _ that] 4(3) that unfolding s by (cases "gs = []") (auto simp: within_budget_def)
  show ?case unfolding client_rule_def
  proof (intro ballI allI impI)
    fix x cb assume x: "x \<in># add_mset (claim_of e) (claims gs)" "client_budget cfg (c_client x) = Some cb"
    show "vram_sum {#y \<in># add_mset (claim_of e) (claims gs). c_client y = c_client x#} \<le> cb"
      using x 4(1) new by (cases "c_client x = le_client e") (auto simp: client_rule_def add.commute)
  qed
next
  case (5 q env start n)
  then show ?case by (simp add: within_budget_def)
qed (simp_all add: client_rule_def)

section \<open>A small history for the witnesses\<close>

definition demo_cfg :: config where
  "demo_cfg = \<lparr>cf_queue_max = 2, cf_aging = 1, cf_starve_s = 1800, cf_client_budgets = [(''greenboost.cli'', 4000)],
     cf_reserve_pct = 5, cf_strict = False\<rparr>"

definition demo_env :: "pyfloat \<Rightarrow> env" where
  "demo_env t = \<lparr>ev_now = t, ev_card = \<lparr>physical_mib = Some 12282, free_mib = Some 11000, used_by_pid = None\<rparr>,
     ev_starttime = (\<lambda>pid. if pid < 100 then Some (pid + 7) else None), ev_block = False,
     ev_control_ok = (\<lambda>_. True)\<rparr>"

definition demo_request :: "string \<Rightarrow> int \<Rightarrow> int \<Rightarrow> string \<Rightarrow> request" where
  "demo_request client vram pid uuid =
     \<lparr>q_job = uuid, q_vram = vram, q_ram = 0, q_cpu = 1, q_priority = 0, q_key = Some uuid, q_ttl = 300,
      q_pid = pid, q_tiering = False, q_control = None, q_client = Some client, q_purpose = None, q_model = None,
      q_wait = True, q_max_hold = None, q_uuid = uuid\<rparr>"

definition demo1 :: lfile where
  "demo1 = exec demo_cfg (demo_env 10) (Acquire (demo_request ''owner.interactive'' 8000 1 ''a'')) FAbsent"

definition demo2 :: lfile where
  "demo2 = exec demo_cfg (demo_env 20) (Acquire (demo_request ''invest.engine.embed'' 2000 2 ''b'')) demo1"

definition demo3 :: lfile where
  "demo3 = exec demo_cfg (demo_env 30) (Acquire (demo_request ''greenboost.cli'' 4000 3 ''c'')) demo2"

lemma demo_files:
  "demo1 = FState (load demo_cfg demo1)" "demo2 = FState (load demo_cfg demo2)"
  "demo3 = FState (load demo_cfg demo3)"
  by code_simp+

abbreviation demo_card :: "env \<Rightarrow> bool" where
  "demo_card env \<equiv> ev_card env = ev_card (demo_env 0)"

lemma demo_reachable:
  "reachable demo_cfg demo_card (FState (load demo_cfg demo1))"
  "reachable demo_cfg demo_card (FState (load demo_cfg demo2))"
  "reachable demo_cfg demo_card (FState (load demo_cfg demo3))"
proof -
  have card: "demo_card (demo_env t)" for t by (simp add: demo_env_def)
  have r1: "reachable demo_cfg demo_card demo1"
    unfolding demo1_def by (intro reachable.op reachable.start card)
  have r2: "reachable demo_cfg demo_card demo2" unfolding demo2_def by (intro reachable.op r1 card)
  have r3: "reachable demo_cfg demo_card demo3" unfolding demo3_def by (intro reachable.op r2 card)
  from r1 r2 r3 show "reachable demo_cfg demo_card (FState (load demo_cfg demo1))"
    "reachable demo_cfg demo_card (FState (load demo_cfg demo2))"
    "reachable demo_cfg demo_card (FState (load demo_cfg demo3))"
    using demo_files by simp_all
qed

section \<open>Properties\<close>

lemma size_filter_claims:
  "size {#x \<in># claims es. P x#} = length (filter (\<lambda>e. P (claim_of e)) (filter is_granted es))"
  by (induction es) (auto simp: claims_def)

lemma claims_of_granted: "claims es = mset (map claim_of (filter is_granted es))"
  by (simp add: claims_def)

text \<open>
  C1. In every state the arbiter can reach, whatever operations ran in whatever surroundings: at most one
  holder of each solo class (the interactive and the engine-pass class), and a holder that declared tiering
  is the only holder.
\<close>

theorem solo_and_tiering_run_alone:
  assumes "reachable cfg E (FState st)"
  shows "(\<forall>c \<in> SOLO_CLASSES. length (filter (\<lambda>e. class_of e = Some c) (granted_of st)) \<le> 1) \<and>
    (\<forall>g \<in> set (granted_of st). le_tiering g \<longrightarrow> granted_of st = [g])"
proof
  show "\<forall>c \<in> SOLO_CLASSES. length (filter (\<lambda>e. class_of e = Some c) (granted_of st)) \<le> 1"
    using solo.always [OF assms] by (simp add: solo_rule_def size_filter_claims)
  show "\<forall>g \<in> set (granted_of st). le_tiering g \<longrightarrow> granted_of st = [g]"
  proof (intro ballI impI)
    fix g assume g: "g \<in> set (granted_of st)" "le_tiering g"
    then have "claim_of g \<in># claims (st_entries st)" by (simp add: claims_of_granted)
    with alone.always [OF assms] g(2) have "size (claims (st_entries st)) = 1"
      unfolding alone_rule_def by (metis claim_of_sel(4))
    then have "length (granted_of st) = 1" unfolding claims_of_granted by (simp flip: mset_filter)
    with g(1) show "granted_of st = [g]" by (cases "granted_of st") auto
  qed
qed

theorem solo_and_tiering_run_alone_witness:
  "length (filter (\<lambda>e. class_of e = Some P0) (granted_of (load demo_cfg demo2))) \<le> 1 \<and>
   length (granted_of (load demo_cfg demo2)) = 2"
proof -
  have "P0 \<in> SOLO_CLASSES" "length (granted_of (load demo_cfg demo2)) = 2" by code_simp+
  with solo_and_tiering_run_alone [OF demo_reachable(2)] show ?thesis by blast
qed

text \<open>
  C6. The card is never promised twice: on one card of \<open>phys\<close> MiB (which a reading may fail to show), the
  budgets of two or more simultaneous holders together fit in the card less the reserve.
\<close>

theorem shared_card_never_overcommitted:
  assumes "reachable cfg E (FState st)" and "\<And>env. E env \<Longrightarrow> card_known phys (ev_card env)"
    and "2 \<le> length (granted_of st)"
  shows "sum_list (map le_vram (granted_of st)) \<le> phys - reserve cfg phys"
  using card.always [OF assms(1,2)] assms(3)
  by (simp add: card_rule_def claims_of_granted vram_sum_mset flip: mset_map mset_filter)

theorem shared_card_never_overcommitted_witness:
  "sum_list (map le_vram (granted_of (load demo_cfg demo2))) \<le> 12282 - reserve demo_cfg 12282"
proof (rule shared_card_never_overcommitted [OF demo_reachable(2)])
  show "card_known 12282 (ev_card env)" if "ev_card env = ev_card (demo_env 0)" for env
    using that by (simp add: card_known_def demo_env_def)
  show "2 \<le> length (granted_of (load demo_cfg demo2))" by code_simp
qed

text \<open>
  C9. A client with a memory budget of its own never holds more than it: in every reachable state the holders
  of one client name together stay within that client's budget.
\<close>

theorem client_budget_respected:
  assumes "reachable cfg E (FState st)" and "client_budget cfg cl = Some cb"
    and "filter (\<lambda>e. le_client e = cl) (granted_of st) \<noteq> []"
  shows "sum_list (map le_vram (filter (\<lambda>e. le_client e = cl) (granted_of st))) \<le> cb"
proof -
  from assms(3) obtain e where e: "e \<in> set (granted_of st)" "le_client e = cl" by (auto simp: filter_empty_conv)
  have s: "vram_sum {#y \<in># mset (map claim_of gs). c_client y = cl#} =
      sum_list (map le_vram (filter (\<lambda>g. le_client g = cl) gs))" for gs
    by (induction gs) auto
  have "claim_of e \<in># claims (st_entries st)" using e(1) by (simp add: claims_of_granted)
  with client.always [OF assms(1), of ] e(2) assms(2)
  have "vram_sum {#y \<in># claims (st_entries st). c_client y = cl#} \<le> cb"
    by (auto simp: client_rule_def)
  then show ?thesis unfolding claims_of_granted s .
qed

theorem client_budget_respected_witness:
  "sum_list (map le_vram (filter (\<lambda>e. le_client e = Some ''greenboost.cli'')
     (granted_of (load demo_cfg (exec demo_cfg (demo_env 1)
        (Acquire (demo_request ''greenboost.cli'' 3000 3 ''c'')) FAbsent))))) \<le> 4000"
proof (rule client_budget_respected)
  let ?f = "exec demo_cfg (demo_env 1) (Acquire (demo_request ''greenboost.cli'' 3000 3 ''c'')) FAbsent"
  have "?f = FState (load demo_cfg ?f)" by code_simp
  then show "reachable demo_cfg (\<lambda>_. True) (FState (load demo_cfg ?f))"
    by (metis reachable.start reachable.op)
qed code_simp+

lemma reachable_admitted:
  "reachable cfg E f \<Longrightarrow> f = FState st \<Longrightarrow> \<exists>env. admitted cfg env st"
proof (induction arbitrary: st rule: reachable.induct)
  case (op f env p)
  have "wf_lease (load cfg f)"
    using reachable_wf [of cfg E] op.hyps(1) wf_init by (cases f) (auto simp: load_def)
  from exec_admitted [OF op.prems this] op.IH show ?case by blast
qed simp

text \<open>
  C19. The queue is bounded and served: in every reachable state at most \<open>queue_max\<close> tickets wait, and when
  somebody waits, somebody holds the card.
\<close>

theorem queue_bounded_and_served:
  assumes "reachable cfg E (FState st)"
  shows "int (length (queued_of st)) \<le> max 0 (cf_queue_max cfg) \<and> (queued_of st \<noteq> [] \<longrightarrow> granted_of st \<noteq> [])"
proof
  let ?I = "\<lambda>st. int (length (queued_of st)) \<le> max 0 (cf_queue_max cfg)"
  have "?I (init_state cfg)" by (simp add: init_state_def)
  from reachable_invariant [of cfg E "FState st" ?I, OF assms this] queue_step
  show "?I st" by (simp add: load_def)
  from reachable_admitted [OF assms refl] show "queued_of st \<noteq> [] \<longrightarrow> granted_of st \<noteq> []"
    unfolding admitted_def using admit_serves by blast
qed

theorem queue_bounded_and_served_witness:
  "int (length (queued_of (load demo_cfg demo3))) \<le> 2 \<and> queued_of (load demo_cfg demo3) \<noteq> []"
proof -
  have "queued_of (load demo_cfg demo3) \<noteq> []" "max 0 (cf_queue_max demo_cfg) = 2" by code_simp+
  with queue_bounded_and_served [OF demo_reachable(3)] show ?thesis by simp
qed

lemma held_filter: "held (st\<lparr>st_entries := filter P (st_entries st)\<rparr>) \<subseteq> held st"
  by (auto simp: held_def)

lemma check_answer:
  "fst (check_lease cfg env lid tok (FState st)) = Inl IndexError \<or>
   fst (check_lease cfg env lid tok (FState st)) =
     Inr (if \<exists>e \<in> set (st_entries st). kept env e \<and> le_id e = lid \<and> is_granted e \<and> le_token e = Some tok
          then (True, GRANTED) else (False, STALE_TOKEN))"
  by (auto simp: check_lease_def txn_def txn_state_def or_refuse_def holds_def Let_def
      split: option.splits sum.splits)

text \<open>
  C12. Fencing: a token that was already issued and is not the holder's now is never accepted again, whatever
  the arbiter does from then on (a worker whose lease was dropped, released or replaced learns it).
\<close>

theorem stale_token_stays_stale:
  assumes "reachable cfg E (FState st)" and "later cfg R (FState st) g"
    and "tok \<le> st_token st" and "\<not> holds lid tok st"
  shows "fst (check_lease cfg env lid tok g) \<noteq> Inr (True, GRANTED)"
proof -
  note w = reachable_wf [OF assms(1)]
  let ?I = "\<lambda>a. tok \<le> st_token a \<and> (lid, tok) \<notin> held a"
  have "\<exists>st'. g = FState st' \<and> wf_lease st' \<and> ?I st'"
  proof (rule later_invariant [OF assms(2) w])
    show "?I st" using assms(3,4) holds_iff_held [OF w] by blast
    fix env p a b assume "wf_lease a" "?I a" "lease_steps cfg env (freed p) a b"
    with held_steps [OF this(3,1)] show "?I b" by auto
  qed
  then obtain st' where st': "g = FState st'" "wf_lease st'" "(lid, tok) \<notin> held st'" by blast
  then have "\<not> (\<exists>e \<in> set (st_entries st'). kept env e \<and> le_id e = lid \<and> is_granted e \<and> le_token e = Some tok)"
    using holds_iff_held [OF st'(2), of lid tok] by (auto simp: holds_def)
  then show ?thesis using check_answer [of cfg env lid tok st'] st'(1) by (auto split: if_splits)
qed

theorem stale_token_stays_stale_witness:
  "fst (check_lease demo_cfg (demo_env 60) ''a'' 2 (exec demo_cfg (demo_env 50) (Release ''b'' None) demo2)) \<noteq>
     Inr (True, GRANTED)"
proof (rule stale_token_stays_stale [OF demo_reachable(2)])
  show "later demo_cfg (\<lambda>_ _. True) (FState (load demo_cfg demo2))
      (exec demo_cfg (demo_env 50) (Release ''b'' None) demo2)"
    unfolding demo_files(2) [symmetric] by (intro later.op later.same) simp
qed code_simp+

text \<open>
  C16. A live holder keeps its lease: as long as its process is the one that asked and nobody releases or
  cancels that ticket, every later check of its token succeeds (or the operation raises; it is never told
  that it is stale). Renewals, other clients, deadlines and full queues do not evict it.
\<close>

theorem live_holder_keeps_its_lease:
  assumes "reachable cfg E (FState st)" and "e \<in> set (granted_of st)" and "le_token e = Some tok"
    and "later cfg (\<lambda>env p. alive env e \<and> le_id e \<notin> freed p) (FState st) g" and "alive env e"
  shows "fst (check_lease cfg env (le_id e) tok g) \<in> {Inr (True, GRANTED), Inl IndexError}"
proof -
  note w = reachable_wf [OF assms(1)]
  let ?I = "\<lambda>a. \<exists>e' \<in> set (st_entries a). ticket e' = ticket e"
  have "\<exists>st'. g = FState st' \<and> wf_lease st' \<and> ?I st'"
  proof (rule later_invariant [OF assms(4) w])
    show "?I st" using assms(2) by auto
    fix env p a b
    assume R: "alive env e \<and> le_id e \<notin> freed p" and a: "wf_lease a" "?I a" "lease_steps cfg env (freed p) a b"
    then obtain e' where e': "e' \<in> set (st_entries a)" "ticket e' = ticket e" by blast
    have "is_granted e'" "alive env e'" "le_id e' \<notin> freed p"
      using R assms(2) is_granted_ticket [OF e'(2)] alive_ticket [OF e'(2)] ticket_eqD(1) [OF e'(2)] by simp_all
    from holder_steps [OF a(3,1) e'(1) this] e'(2) show "?I b" by auto
  qed
  then obtain st' e' where st': "g = FState st'" "e' \<in> set (st_entries st')" "ticket e' = ticket e" by blast
  have g: "is_granted e'" "le_id e' = le_id e" "le_token e' = Some tok" "alive env e'"
    using assms(2,3,5) is_granted_ticket [OF st'(3)] alive_ticket [OF st'(3)] ticket_eqD(1,8) [OF st'(3)] by simp_all
  with st'(2) kept_granted have
    "\<exists>e \<in> set (st_entries st'). kept env e \<and> le_id e = le_id e' \<and> is_granted e \<and> le_token e = Some tok" by blast
  with check_answer [of cfg env "le_id e" tok st'] st'(1) g(2) show ?thesis by auto
qed

theorem live_holder_keeps_its_lease_witness:
  "fst (check_lease demo_cfg (demo_env 9000) ''a'' 1 (exec demo_cfg (demo_env 8000) (Release ''b'' None) demo2)) \<in>
     {Inr (True, GRANTED), Inl IndexError}"
proof -
  let ?e = "hd (granted_of (load demo_cfg demo2))"
  have e: "?e \<in> set (granted_of (load demo_cfg demo2))" "le_token ?e = Some 1" "le_id ?e = ''a''"
    "alive (demo_env 8000) ?e" "alive (demo_env 9000) ?e"
    by code_simp+
  have "later demo_cfg (\<lambda>env p. alive env ?e \<and> le_id ?e \<notin> freed p) (FState (load demo_cfg demo2))
      (exec demo_cfg (demo_env 8000) (Release ''b'' None) demo2)"
    unfolding demo_files(2) [symmetric] by (rule later.op [OF later.same]) (use e in simp)
  from live_holder_keeps_its_lease [OF demo_reachable(2) e(1,2) this e(5)] e(3) show ?thesis by simp
qed



lemma LEVELS_eval: "LEVELS = [100, 80, 50, 40, 10, 0]"
  by code_simp

lemma levels_index: "i < length LEVELS \<Longrightarrow> index_of (LEVELS ! i) LEVELS = Some i"
proof -
  have "\<forall>i \<in> set [0..<6]. index_of (LEVELS ! i) LEVELS = Some i" unfolding LEVELS_eval by (simp add: upt_rec)
  then show "i < length LEVELS \<Longrightarrow> ?thesis" by (auto simp: LEVELS_eval)
qed

lemma levels_gap:
  assumes "0 < j" "j < length LEVELS"
  shows "LEVELS ! j + 1 \<le> LEVELS ! (j - 1)"
proof -
  have "\<forall>j \<in> set [1..<6]. LEVELS ! j + 1 \<le> LEVELS ! (j - 1)" unfolding LEVELS_eval by (simp add: upt_rec)
  with assms show ?thesis by (auto simp: LEVELS_eval)
qed

definition ranked :: "config \<Rightarrow> int \<Rightarrow> pyfloat \<Rightarrow> pyfloat option" where
  "ranked cfg ii aged =
     (if ii \<ge> int (length LEVELS) then None
      else let v = of_int (LEVELS ! nat ii) + aged in
        Some (if ii > 0 then min v (of_int (LEVELS ! (nat ii - 1)) - 1 / 1000) else v))"

lemma eff_ranked:
  assumes "le_class e = Some (c, LEVELS ! i, t)" "i < length LEVELS"
  shows "eff cfg e now = ranked cfg
    (if LEVELS ! i < hd LEVELS then max (int i - \<lfloor>(now - le_t_enq e) / cf_starve_s cfg\<rfloor>) 1 else int i)
    (cf_aging cfg * (now - le_t_enq e) / 60)"
  unfolding eff_def ranked_def Let_def assms(1) by (simp add: levels_index [OF assms(2)])

lemma ranked_at:
  "0 < j \<Longrightarrow> j < length LEVELS \<Longrightarrow>
   ranked cfg (int j) aged = Some (min (of_int (LEVELS ! j) + aged) (of_int (LEVELS ! (j - 1)) - 1 / 1000))"
  by (simp add: ranked_def Let_def)

text \<open>
  Aging and promotion: a ticket of the interactive class keeps at least its level; a ticket of another
  class that has waited \<open>k\<close> whole starvation periods ranks \<open>k\<close> classes higher, at least that class's level
  and strictly below the next one, so no wait ever lifts it into the interactive class.
\<close>

theorem effective_priority_bounds:
  assumes "le_class e = Some (c, LEVELS ! i, t)" and "i < length LEVELS"
    and "le_t_enq e \<le> now" and "0 < cf_starve_s cfg" and "0 \<le> cf_aging cfg"
  shows "\<exists>v. eff cfg e now = Some v \<and>
    (if i = 0 then of_int (LEVELS ! 0) \<le> v
     else let j = max (i - nat \<lfloor>(now - le_t_enq e) / cf_starve_s cfg\<rfloor>) 1 in
       of_int (LEVELS ! j) \<le> v \<and> v \<le> of_int (LEVELS ! (j - 1)) - 1 / 1000)"
proof -
  define k where "k = \<lfloor>(now - le_t_enq e) / cf_starve_s cfg\<rfloor>"
  define aged where "aged = cf_aging cfg * (now - le_t_enq e) / 60"
  have k: "0 \<le> k" using assms(3,4) by (simp add: k_def)
  have aged: "0 \<le> aged" using assms(3,5) by (simp add: aged_def)
  show ?thesis
  proof (cases "i = 0")
    case True
    with eff_ranked [OF assms(1,2)] have "eff cfg e now = ranked cfg 0 aged"
      unfolding aged_def by (simp add: LEVELS_eval)
    with True aged show ?thesis by (simp add: ranked_def LEVELS_eval)
  next
    case False
    let ?j = "max (i - nat k) 1"
    have j: "0 < ?j" "?j < length LEVELS" using assms(2) False by auto
    have m: "max (int i - k) 1 = int ?j" using k by auto
    have "LEVELS ! i < hd LEVELS"
    proof -
      have "\<forall>i \<in> set [1..<6]. LEVELS ! i < hd LEVELS" unfolding LEVELS_eval by (simp add: upt_rec)
      with False assms(2) show ?thesis by (auto simp: LEVELS_eval)
    qed
    with eff_ranked [OF assms(1,2), of cfg now] m have "eff cfg e now = ranked cfg (int ?j) aged"
      unfolding aged_def [symmetric] k_def [symmetric] by simp
    then have "eff cfg e now = Some (min (of_int (LEVELS ! ?j) + aged) (of_int (LEVELS ! (?j - 1)) - 1 / 1000))"
      unfolding ranked_at [OF j] .
    moreover have "of_int (LEVELS ! ?j) + (1 :: pyfloat) \<le> of_int (LEVELS ! (?j - 1))"
      using levels_gap [OF j] by (metis of_int_1 of_int_add of_int_le_iff)
    ultimately show ?thesis using False aged unfolding k_def Let_def by auto
  qed
qed

theorem effective_priority_bounds_witness:
  "\<exists>v. eff demo_cfg (hd (st_entries (load demo_cfg demo3))) 5000 = Some v \<and> 100 \<le> v"
proof -
  have "le_class (hd (st_entries (load demo_cfg demo3))) = Some (P0, LEVELS ! 0, Interactive)"
    "0 < length LEVELS" "le_t_enq (hd (st_entries (load demo_cfg demo3))) \<le> 5000" "0 < cf_starve_s demo_cfg"
    "0 \<le> cf_aging demo_cfg"
    by code_simp+
  from effective_priority_bounds [OF this] show ?thesis by (simp add: LEVELS_eval)
qed

text \<open>
  A damaged state file is never read as an empty one: every operation leaves it as it is and answers a
  refusal, and the lock-free reader says that the state is unknown.
\<close>

theorem damaged_file_refuses:
  "exec cfg env p FDamaged = FDamaged \<and>
   fst (acquire cfg env q FDamaged) = Inr (refusal STATE_UNREADABLE StateDamaged None None) \<and>
   fst (check_lease cfg env lid tok FDamaged) = Inr (False, STATE_UNREADABLE) \<and>
   fst (renew cfg env lid mtok FDamaged) = Inr (False, STATE_UNREADABLE) \<and>
   fst (begin_release cfg env lid FDamaged) = Inr [] \<and>
   fst (release cfg env lid mtok FDamaged) = Inr ReleaseUnreadable \<and>
   fst (status cfg env FDamaged) = Inr None \<and> read_block env FDamaged = BlockUnknown"
  using exec_txn [of cfg env p FDamaged]
  by (auto simp: txn_damaged acquire_def check_lease_def renew_def begin_release_def release_def status_def
      or_refuse_def txn_def read_block_def)

end
