(* ===== verification/Lease_Resume.thy ===== *)
theory Lease_Resume
  imports Lease_Safety
begin

text \<open>
  Tickets and paused models: polling with an idempotency key, the hand-over of the models that holders
  paused, and the runs in which a hand-over or an answer of the arbiter goes wrong.
\<close>

section \<open>Tickets\<close>

text \<open>
  The same idempotency key is the same ticket: while a ticket with the key is on file, asking again
  answers for that ticket and creates none.
\<close>

theorem same_key_same_ticket:
  assumes "reachable cfg E (FState st)" and "given (q_key q)"
    and "find (\<lambda>x. le_key x = q_key q) (filter (kept env) (st_entries st)) = Some e"
    and "acquire cfg env q (FState st) = (Inr r, g)"
  shows "r_lease_id r = Some (le_id e) \<and> \<not> r_rejected r \<and>
    (\<exists>st'. g = FState st' \<and> st_seq st' = st_seq st \<and>
       map le_id (st_entries st') = map le_id (filter (kept env) (st_entries st)))"
proof -
  let ?p = "prune env (st\<lparr>st_queue_max := cf_queue_max cfg\<rparr>)"
  note w = wf_pruned [OF reachable_wf [OF assms(1)], of env "cf_queue_max cfg"]
  have e: "e \<in> set (st_entries ?p)" using find_in [OF assms(3)] by simp
  let ?t = "set_entry (e\<lparr>le_seen := ev_now env\<rparr>) ?p"
  have wt: "wf_lease ?t" by (rule wf_step [OF touch_step [OF w e] w]) simp
  have it: "idents ?t = idents ?p"
    using idents_replace [OF w e, of "e\<lparr>le_seen := ev_now env\<rparr>"] by (simp add: idents_def)
  from assms(2-4) obtain m st' e' where m: "admit cfg env ?t = Some m" "entry_by_seq (le_seq e) m = Some e'"
      "r = view_of m e'" "admit cfg env m = Some st'" "g = FState st'"
    by (auto simp: acquire_def or_refuse_def txn_def txn_state_def acquire_body_def poll_ticket_def Let_def
        bind_result_def split: sum.splits option.splits exn.splits)
  note im = admit_idents [OF m(1) wt]
  note it2 = admit_idents [OF m(4)] im
  have "(le_seq e, le_id e', le_key e') \<in> set (idents m)"
    using entry_by_seq_Some [OF m(2)] by (auto simp: idents_def intro!: rev_image_eqI [of e'])
  then have "(le_seq e, le_id e', le_key e') \<in> set (idents ?p)" using im it by simp
  then obtain x where x: "x \<in> set (st_entries ?p)" "le_seq x = le_seq e" "le_id x = le_id e'"
    unfolding idents_def by auto
  from w have d: "distinct (map le_seq (st_entries ?p))" by (simp add: wf_lease_def)
  from unique_seq [OF d e x(1)] x(2,3) have "le_id e' = le_id e" by simp
  moreover have "map (fst \<circ> snd) (idents st') = map (fst \<circ> snd) (idents ?p)" using it2 it by simp
  moreover have "st_seq st' = st_seq st" using it2 by simp
  ultimately show ?thesis using m(3,5) by (simp add: view_of_def idents_def comp_def)
qed

theorem same_key_same_ticket_witness:
  "\<exists>r g. acquire demo_cfg (demo_env 35) (demo_request ''greenboost.cli'' 4000 3 ''c'') (FState (load demo_cfg demo3)) = (Inr r, g) \<and>
     r_lease_id r = Some ''c'' \<and> \<not> r_granted r"
proof -
  let ?q = "demo_request ''greenboost.cli'' 4000 3 ''c''"
  let ?a = "acquire demo_cfg (demo_env 35) ?q (FState (load demo_cfg demo3))"
  let ?r = "projr (fst ?a)"
  let ?e = "hd (queued_of (load demo_cfg demo3))"
  have p: "given (q_key ?q)" "find (\<lambda>x. le_key x = q_key ?q) (filter (kept (demo_env 35)) (st_entries (load demo_cfg demo3))) = Some ?e"
    "le_id ?e = ''c''" "\<not> r_granted ?r" "isl (fst ?a) = False"
    by code_simp+
  from p(5) have a: "?a = (Inr ?r, snd ?a)" by (metis prod.collapse sum.collapse(2))
  from same_key_same_ticket [OF demo_reachable(3) p(1,2) a] p(3,4) a show ?thesis by metis
qed

section \<open>Handing paused models over\<close>

lemma release_body_cases:
  assumes "release_body lid tok st = (Released ms, st1)" and "distinct (map le_id (st_entries st))"
  shows "(ms = [] \<and> st_paused st1 = st_paused st \<and> granted_of st1 = granted_of st) \<or>
    (\<exists>me \<in> set (granted_of st). granted_of st1 = filter (\<lambda>e. le_id e \<noteq> le_id me) (granted_of st) \<and>
       (if \<not> le_releasing me \<and> granted_of st1 = [] then ms = st_paused st \<and> st_paused st1 = []
        else ms = [] \<and> st_paused st1 = st_paused st))"
proof (cases "find (\<lambda>e. le_id e = lid) (st_entries st)")
  case None
  with assms(1) show ?thesis by (simp add: release_body_def)
next
  case (Some me)
  note me = find_in [OF Some]
  show ?thesis
  proof (cases "is_granted me")
    case True
    let ?st = "st\<lparr>st_entries := filter (\<lambda>e. le_id e \<noteq> le_id me) (st_entries st)\<rparr>"
    have g: "granted_of ?st = filter (\<lambda>e. le_id e \<noteq> le_id me) (granted_of st)" by (simp add: conj_commute)
    have "me \<in> set (granted_of st)" "lid = le_id me" using True me by auto
    with assms(1) Some True g show ?thesis
      by (intro disjI2 bexI [of _ me])
        (auto simp: release_body_def Let_def simp del: filter_filter split: if_splits)
  next
    case False
    have "e = me" if "e \<in> set (st_entries st)" "le_id e = lid" for e
      using that me assms(2) by (metis distinct_map inj_onD)
    with False have "filter is_granted (filter (\<lambda>e. le_id e \<noteq> lid) (st_entries st)) = granted_of st"
      by (auto intro!: filter_cong)
    with False assms(1) Some show ?thesis by (auto simp: release_body_def Let_def split: if_splits)
  qed
qed

lemma admit_keeps_holder:
  assumes "admit cfg env m = Some st'" "wf_lease m" "alive env g" "g \<in> set (granted_of m)"
  shows "\<exists>g' \<in> set (granted_of st'). ticket g' = ticket g"
proof -
  obtain g' where "g' \<in> set (st_entries st')" "ticket g' = ticket g"
    using holder_steps [OF admit_steps [OF assms(1,2), of "{}"] assms(2), of g] assms(3,4) by auto
  with assms(4) is_granted_ticket [of g' g] show ?thesis by auto
qed

text \<open>
  C32. Paused models are handed over by releases: as long as every holder lives and none has begun a
  two-phase release, a release either answers the paused models to the caller (the last holder, who resumes
  them) or keeps them on file together with a holder that still has the card and will answer for them.
\<close>

theorem release_hands_over_paused_models:
  assumes "reachable cfg E (FState st)" and "granted_of st \<noteq> []"
    and "\<forall>g \<in> set (granted_of st). alive env g \<and> \<not> le_releasing g"
    and "distinct (map le_id (st_entries st))"
    and "release cfg env lid tok (FState st) = (Inr (Released ms), FState st')"
  shows "set ms \<union> set (st_paused st') = set (st_paused st) \<and>
    (st_paused st' \<noteq> [] \<longrightarrow>
       (\<exists>g \<in> set (granted_of st). \<exists>g' \<in> set (granted_of st'). ticket g' = ticket g))"
proof -
  let ?p = "prune env (st\<lparr>st_queue_max := cf_queue_max cfg\<rparr>)"
  note w = wf_pruned [OF reachable_wf [OF assms(1)], of env "cf_queue_max cfg"]
  have gp: "granted_of ?p = granted_of st"
    using assms(3) kept_granted by (auto intro!: filter_cong)
  have "\<exists>e \<in> set (st_entries st). kept env e \<and> is_granted e"
    using assms(2,3) kept_granted by (fastforce simp: filter_empty_conv)
  then have pp: "st_paused ?p = st_paused st" by (simp add: prune_paused)
  from assms(5) obtain m where m: "release_body lid tok ?p = (Released ms, m)" "admit cfg env m = Some st'"
    by (auto simp: release_def or_refuse_def txn_def txn_state_def Let_def bind_result_def
        split: sum.splits option.splits exn.splits prod.splits)
  have "body_moves cfg env {lid} (\<lambda>st. Inr (release_body lid tok st))" by (rule release_moves)
  with w m(1) have "lease_steps cfg env {lid} ?p m" unfolding body_moves_def by blast
  then have wm: "wf_lease m" using w by (rule wf_steps)
  have d: "distinct (map le_id (st_entries ?p))" using assms(4) by (simp add: distinct_map_filter)
  have pm: "st_paused st' = st_paused m" using admit_idents [OF m(2) wm] by blast
  have stays: "\<exists>g' \<in> set (granted_of st'). ticket g' = ticket g" if "g \<in> set (granted_of m)" "g \<in> set (granted_of st)" for g
    using admit_keeps_holder [OF m(2) wm _ that(1)] assms(3) that(2) by blast
  from release_body_cases [OF m(1) d] show ?thesis
  proof (elim disjE bexE conjE)
    assume "ms = []" "st_paused m = st_paused ?p" "granted_of m = granted_of ?p"
    with pm pp gp stays assms(2) show ?thesis by (metis UnCI empty_set last_in_set sup_bot_left)
  next
    fix me
    assume me: "me \<in> set (granted_of ?p)" "granted_of m = filter (\<lambda>e. le_id e \<noteq> le_id me) (granted_of ?p)"
      and r: "if \<not> le_releasing me \<and> granted_of m = [] then ms = st_paused ?p \<and> st_paused m = []
              else ms = [] \<and> st_paused m = st_paused ?p"
    have "\<not> le_releasing me" using me(1) assms(3) unfolding gp by blast
    show ?thesis
    proof (cases "granted_of m = []")
      case True
      with r \<open>\<not> le_releasing me\<close> pp pm show ?thesis by simp
    next
      case False
      then obtain g where g: "g \<in> set (granted_of m)" by (meson last_in_set)
      then have "g \<in> set (granted_of st)" using me(2) gp by (metis filter_is_subset subsetD)
      with stays g r False pp pm show ?thesis by auto
    qed
  qed
qed

definition demo_paused :: lfile where
  "demo_paused = exec demo_cfg (demo_env 40) (NotePaused ''a'' [''qwen'']) demo2"

lemma demo_paused_file: "demo_paused = FState (load demo_cfg demo_paused)"
  by code_simp

lemma demo_paused_reachable: "reachable demo_cfg demo_card (FState (load demo_cfg demo_paused))"
proof -
  have "reachable demo_cfg demo_card demo2" using demo_reachable(2) demo_files(2) by simp
  then have "reachable demo_cfg demo_card demo_paused"
    unfolding demo_paused_def by (rule reachable.op) (simp add: demo_env_def)
  then show ?thesis using demo_paused_file by simp
qed

theorem release_hands_over_paused_models_witness:
  "\<exists>st'. snd (release demo_cfg (demo_env 50) ''b'' None demo_paused) = FState st' \<and>
     set (st_paused st') = {''qwen''} \<and> granted_of st' \<noteq> []"
proof -
  let ?st = "load demo_cfg demo_paused"
  let ?r = "release demo_cfg (demo_env 50) ''b'' None (FState ?st)"
  let ?st' = "load demo_cfg (snd ?r)"
  have h: "granted_of ?st \<noteq> []" "\<forall>g \<in> set (granted_of ?st). alive (demo_env 50) g \<and> \<not> le_releasing g"
    "distinct (map le_id (st_entries ?st))" "?r = (Inr (Released []), FState ?st')" "st_paused ?st = [''qwen'']"
    by code_simp+
  have r: "release demo_cfg (demo_env 50) ''b'' None demo_paused = ?r" using demo_paused_file by simp
  note t = release_hands_over_paused_models [OF demo_paused_reachable h(1-4)]
  have s: "set (st_paused ?st') = {''qwen''}" using conjunct1 [OF t] unfolding h(5) by simp
  then have "st_paused ?st' \<noteq> []" by (metis empty_set insert_not_empty)
  from mp [OF conjunct2 [OF t] this] have "granted_of ?st' \<noteq> []" by (metis empty_iff empty_set)
  moreover have "snd ?r = FState ?st'" by (subst h(4)) (rule snd_conv)
  ultimately show ?thesis unfolding r using s by blast
qed

section \<open>Runs in which the arbiter falls short\<close>

text \<open>
  A two-phase release that overlaps a plain one. Holders \<open>a\<close> and \<open>b\<close> share the card and the model
  \<open>qwen\<close> is paused. \<open>a\<close> begins its release and is told to resume nothing, since \<open>b\<close> is there; \<open>b\<close> releases
  and is told the same, since \<open>a\<close> is still on file; \<open>a\<close> releases and is told nothing, since it is
  releasing. Nobody resumes the model, and the next operation forgets it.
\<close>

definition lost1 :: lfile where
  "lost1 = snd (begin_release demo_cfg (demo_env 50) ''a'' demo_paused)"

definition lost2 :: lfile where
  "lost2 = snd (release demo_cfg (demo_env 51) ''b'' None lost1)"

definition lost3 :: lfile where
  "lost3 = snd (release demo_cfg (demo_env 52) ''a'' None lost2)"

lemma paused_models_lost:
  "fst (begin_release demo_cfg (demo_env 50) ''a'' demo_paused) = Inr []"
  "fst (release demo_cfg (demo_env 51) ''b'' None lost1) = Inr (Released [])"
  "fst (release demo_cfg (demo_env 52) ''a'' None lost2) = Inr (Released [])"
  "st_paused (load demo_cfg lost3) = [''qwen'']"
  "st_paused (load demo_cfg (snd (status demo_cfg (demo_env 53) lost3))) = []"
  by code_simp+

text \<open>
  \<open>cancel(wait_s)\<close> takes an unreadable state file for the release of the holder.
\<close>

lemma cancel_wait_takes_damage_for_release:
  "fst (status cfg env FDamaged) = Inr None \<and> cancel_wait lid [None] = ReleasedNow"
  by (simp add: status_def txn_def or_refuse_def)

text \<open>
  A clock that steps back makes the number of starvation periods negative, which runs past the level table
  for a ticket of the lowest class: every operation then raises.
\<close>

lemma backward_clock_raises:
  assumes "le_class e = Some UNKNOWN_CLIENT" and "now < le_t_enq e" and "0 < cf_starve_s cfg"
  shows "eff cfg e now = None"
proof -
  have "\<lfloor>(now - le_t_enq e) / cf_starve_s cfg\<rfloor> \<le> - 1"
    using assms(2,3) by (simp add: floor_le_iff divide_less_0_iff)
  then have "6 \<le> max (5 - \<lfloor>(now - le_t_enq e) / cf_starve_s cfg\<rfloor>) 1" by linarith
  moreover have "le_class e = Some (P9, LEVELS ! 5, Batch)" "5 < length LEVELS"
    using assms(1) by (simp_all add: UNKNOWN_CLIENT_def LEVELS_eval)
  ultimately show ?thesis using eff_ranked [of e P9 5 Batch cfg now] by (simp add: ranked_def LEVELS_eval)
qed

end
