(* ===== verification/Evict_Policy.thy ===== *)
theory Evict_Policy
  imports GB_Prelude
begin

text \<open>
  The eviction policies of \<^verbatim>\<open>gb_evict_policy.py\<close>: \<open>LRUEvictionPolicy\<close>, the bucketed
  \<open>PrioritizedEvictionPolicy\<close> over any policy, and the per-tier controller.

  The source compares items by identity and reads \<open>last_used\<close> and \<open>priority\<close> from the live item at
  the moment it decides, so an item is a reference (\<open>oid\<close>) into a store of records (\<open>heap\<close>) that
  every operation reads. The \<open>EvictionPolicy\<close> protocol of the source is the record \<open>policy_ops\<close>
  of operations (dynamic dispatch) and its contract is the locale \<open>eviction_policy\<close>, interpreted
  on both classes; the controller is proved from that contract alone.
\<close>

section \<open>Items, operations and errors\<close>

type_synonym oid = nat

record evictable =
  ev_name :: string
  ev_tier :: string
  ev_last_used :: pyfloat
  ev_priority :: int

type_synonym heap = "oid \<Rightarrow> evictable"

datatype evict_error = EvIndexError | EvKeyError

definition PRIORITY_MIN :: int where "PRIORITY_MIN = 0"
definition PRIORITY_MAX :: int where "PRIORITY_MAX = 100"
definition PRIORITY_DEFAULT :: int where "PRIORITY_DEFAULT = 35"

text \<open>The methods of the protocol, as the class of the object provides them.\<close>

record 'p policy_ops =
  pol_push :: "heap \<Rightarrow> 'p \<Rightarrow> oid \<Rightarrow> bool \<Rightarrow> 'p"
  pol_peek :: "heap \<Rightarrow> 'p \<Rightarrow> oid option"
  pol_remove :: "heap \<Rightarrow> 'p \<Rightarrow> oid \<Rightarrow> evict_error + oid \<times> 'p"
  pol_len :: "'p \<Rightarrow> nat"
  pol_iter :: "'p \<Rightarrow> oid list"

text \<open>\<open>pop\<close> has the same body in both classes: peek, raise on nothing, else remove the victim.\<close>

definition pop_with :: "'p policy_ops \<Rightarrow> heap \<Rightarrow> 'p \<Rightarrow> evict_error + oid \<times> 'p" where
  "pop_with ops h p = (case pol_peek ops h p of
      None \<Rightarrow> Inl EvIndexError
    | Some victim \<Rightarrow> pol_remove ops h p victim)"

definition clamp_priority :: "int option \<Rightarrow> int" where
  "clamp_priority priority = (case priority of
      None \<Rightarrow> PRIORITY_DEFAULT
    | Some p \<Rightarrow> max PRIORITY_MIN (min PRIORITY_MAX p))"

section \<open>LRUEvictionPolicy\<close>

record lru_policy =
  lru_items :: "oid list"
  lru_evict_first :: "oid list"

definition lru_empty :: lru_policy where
  "lru_empty = \<lparr>lru_items = [], lru_evict_first = []\<rparr>"

definition lru_push :: "heap \<Rightarrow> lru_policy \<Rightarrow> oid \<Rightarrow> bool \<Rightarrow> lru_policy" where
  "lru_push h p item evict_first =
     (if item \<in> set (lru_items p) \<or> item \<in> set (lru_evict_first p) then p
      else if evict_first then p\<lparr>lru_evict_first := lru_evict_first p @ [item]\<rparr>
      else p\<lparr>lru_items := lru_items p @ [item]\<rparr>)"

definition lru_peek :: "heap \<Rightarrow> lru_policy \<Rightarrow> oid option" where
  "lru_peek h p =
     (if lru_evict_first p \<noteq> [] then min_by (\<lambda>i. ev_last_used (h i)) (lru_evict_first p)
      else if lru_items p = [] then None
      else min_by (\<lambda>i. ev_last_used (h i)) (lru_items p))"

text \<open>\<open>bucket.pop(idx)\<close> at the first index whose element is the item is \<open>remove1\<close>.\<close>

definition lru_remove :: "heap \<Rightarrow> lru_policy \<Rightarrow> oid \<Rightarrow> evict_error + oid \<times> lru_policy" where
  "lru_remove h p item =
     (if item \<in> set (lru_evict_first p)
      then Inr (item, p\<lparr>lru_evict_first := remove1 item (lru_evict_first p)\<rparr>)
      else if item \<in> set (lru_items p)
      then Inr (item, p\<lparr>lru_items := remove1 item (lru_items p)\<rparr>)
      else Inl EvKeyError)"

definition lru_len :: "lru_policy \<Rightarrow> nat" where
  "lru_len p = length (lru_items p) + length (lru_evict_first p)"

definition lru_iter :: "lru_policy \<Rightarrow> oid list" where
  "lru_iter p = lru_evict_first p @ lru_items p"

definition lru_ops :: "lru_policy policy_ops" where
  "lru_ops = \<lparr>pol_push = lru_push, pol_peek = lru_peek, pol_remove = lru_remove,
              pol_len = lru_len, pol_iter = lru_iter\<rparr>"

definition lru_pop :: "heap \<Rightarrow> lru_policy \<Rightarrow> evict_error + oid \<times> lru_policy" where
  "lru_pop h p = pop_with lru_ops h p"

section \<open>PrioritizedEvictionPolicy\<close>

text \<open>
  The state is the dictionary from priority to the policy of that bucket. \<open>creator\<close> is the
  \<open>policy_creator\<close> given to the constructor.
\<close>

type_synonym 'p prio_policy = "(int, 'p) pydict"

definition get_policy :: "(int \<Rightarrow> 'p) \<Rightarrow> 'p prio_policy \<Rightarrow> int \<Rightarrow> 'p \<times> 'p prio_policy" where
  "get_policy creator ps priority = (case dict_get ps priority of
      Some p \<Rightarrow> (p, ps)
    | None \<Rightarrow> (creator priority, dict_set priority (creator priority) ps))"

definition prio_ordered :: "'p prio_policy \<Rightarrow> int list" where
  "prio_ordered ps = sort (dict_keys ps)"

definition prio_push ::
  "'p policy_ops \<Rightarrow> (int \<Rightarrow> 'p) \<Rightarrow> heap \<Rightarrow> 'p prio_policy \<Rightarrow> oid \<Rightarrow> bool \<Rightarrow> 'p prio_policy" where
  "prio_push ops creator h ps item evict_first =
     (case get_policy creator ps (ev_priority (h item)) of
        (p, ps') \<Rightarrow> dict_set (ev_priority (h item)) (pol_push ops h p item evict_first) ps')"

fun peek_keys :: "'p policy_ops \<Rightarrow> heap \<Rightarrow> 'p prio_policy \<Rightarrow> int list \<Rightarrow> oid option" where
  "peek_keys ops h ps [] = None"
| "peek_keys ops h ps (k # ks) =
     (case dict_get ps k of
        None \<Rightarrow> peek_keys ops h ps ks
      | Some p \<Rightarrow> (case pol_peek ops h p of
            Some candidate \<Rightarrow> Some candidate
          | None \<Rightarrow> peek_keys ops h ps ks))"

definition prio_peek :: "'p policy_ops \<Rightarrow> heap \<Rightarrow> 'p prio_policy \<Rightarrow> oid option" where
  "prio_peek ops h ps = peek_keys ops h ps (prio_ordered ps)"

definition prio_remove ::
  "'p policy_ops \<Rightarrow> heap \<Rightarrow> 'p prio_policy \<Rightarrow> oid \<Rightarrow> evict_error + oid \<times> 'p prio_policy" where
  "prio_remove ops h ps item =
     (case dict_get ps (ev_priority (h item)) of
        None \<Rightarrow> Inl EvKeyError
      | Some p \<Rightarrow> (case pol_remove ops h p item of
            Inl e \<Rightarrow> Inl e
          | Inr (removed, p') \<Rightarrow>
              Inr (removed,
                   if pol_len ops p' = 0 then dict_del (ev_priority (h item)) ps
                   else dict_set (ev_priority (h item)) p' ps)))"

definition prio_len :: "'p policy_ops \<Rightarrow> 'p prio_policy \<Rightarrow> nat" where
  "prio_len ops ps = sum_list (map (pol_len ops) (dict_values ps))"

definition prio_iter :: "'p policy_ops \<Rightarrow> 'p prio_policy \<Rightarrow> oid list" where
  "prio_iter ops ps =
     concat (map (\<lambda>k. case dict_get ps k of None \<Rightarrow> [] | Some p \<Rightarrow> pol_iter ops p) (prio_ordered ps))"

definition prio_ops :: "'p policy_ops \<Rightarrow> (int \<Rightarrow> 'p) \<Rightarrow> 'p prio_policy policy_ops" where
  "prio_ops ops creator =
     \<lparr>pol_push = prio_push ops creator, pol_peek = prio_peek ops, pol_remove = prio_remove ops,
      pol_len = prio_len ops, pol_iter = prio_iter ops\<rparr>"

definition prio_pop :: "'p policy_ops \<Rightarrow> (int \<Rightarrow> 'p) \<Rightarrow> heap \<Rightarrow> 'p prio_policy
    \<Rightarrow> evict_error + oid \<times> 'p prio_policy" where
  "prio_pop ops creator h ps = pop_with (prio_ops ops creator) h ps"

text \<open>\<open>PrioritizedLRUEvictionPolicy\<close>: the prioritized policy over fresh LRU buckets.\<close>

definition plru_ops :: "lru_policy prio_policy policy_ops" where
  "plru_ops = prio_ops lru_ops (\<lambda>_. lru_empty)"

section \<open>PerTierEvictionController\<close>

type_synonym 'p controller = "(string, 'p) pydict"

text \<open>
  \<open>policy_for\<close> creates the tier's policy on first use, so even a query changes the state. The factory
  is a parameter, as in the source.
\<close>

definition policy_for :: "'p \<Rightarrow> 'p controller \<Rightarrow> string \<Rightarrow> 'p \<times> 'p controller" where
  "policy_for fresh c tier = (case dict_get c tier of
      Some p \<Rightarrow> (p, c)
    | None \<Rightarrow> (fresh, dict_set tier fresh c))"

definition schedule_for_eviction ::
  "'p policy_ops \<Rightarrow> 'p \<Rightarrow> heap \<Rightarrow> 'p controller \<Rightarrow> oid \<Rightarrow> bool \<Rightarrow> 'p controller" where
  "schedule_for_eviction ops fresh h c item evict_first =
     (case policy_for fresh c (ev_tier (h item)) of
        (p, c') \<Rightarrow> dict_set (ev_tier (h item)) (pol_push ops h p item evict_first) c')"

definition victim :: "'p policy_ops \<Rightarrow> 'p \<Rightarrow> heap \<Rightarrow> 'p controller \<Rightarrow> string \<Rightarrow> oid option \<times> 'p controller" where
  "victim ops fresh h c tier =
     (case policy_for fresh c tier of (p, c') \<Rightarrow> (pol_peek ops h p, c'))"

definition controller_evict ::
  "'p policy_ops \<Rightarrow> 'p \<Rightarrow> heap \<Rightarrow> 'p controller \<Rightarrow> string \<Rightarrow> (evict_error + oid) \<times> 'p controller" where
  "controller_evict ops fresh h c tier =
     (case policy_for fresh c tier of (p, c') \<Rightarrow>
        (case pop_with ops h p of
           Inl e \<Rightarrow> (Inl e, c')
         | Inr (item, p') \<Rightarrow> (Inr item, dict_set tier p' c')))"

text \<open>\<open>forget\<close> swallows the KeyError of an untracked item. \<open>tier or item.tier\<close>: an absent tier means
  the item's own; the empty string, being falsy, does so too.\<close>

definition forget ::
  "'p policy_ops \<Rightarrow> 'p \<Rightarrow> heap \<Rightarrow> 'p controller \<Rightarrow> oid \<Rightarrow> string option \<Rightarrow> 'p controller" where
  "forget ops fresh h c item tier =
     (let t = (case tier of None \<Rightarrow> ev_tier (h item)
                          | Some s \<Rightarrow> if s = [] then ev_tier (h item) else s) in
      case policy_for fresh c t of (p, c') \<Rightarrow>
        (case pol_remove ops h p item of
           Inl _ \<Rightarrow> c'
         | Inr (_, p') \<Rightarrow> dict_set t p' c'))"

definition retier ::
  "'p policy_ops \<Rightarrow> 'p \<Rightarrow> heap \<Rightarrow> 'p controller \<Rightarrow> oid \<Rightarrow> string \<Rightarrow> string \<Rightarrow> bool \<Rightarrow> 'p controller" where
  "retier ops fresh h c item old_tier new_tier evict_first =
     (let c1 = forget ops fresh h c item (Some old_tier) in
      case policy_for fresh c1 new_tier of
        (p, c2) \<Rightarrow> dict_set new_tier (pol_push ops h p item evict_first) c2)"

definition counts :: "'p policy_ops \<Rightarrow> 'p controller \<Rightarrow> (string, nat) pydict" where
  "counts ops c = map (\<lambda>(tier, p). (tier, pol_len ops p)) c"

definition controller_len :: "'p policy_ops \<Rightarrow> 'p controller \<Rightarrow> nat" where
  "controller_len ops c = sum_list (map (pol_len ops) (dict_values c))"

text \<open>The items in the order repeated eviction takes them: at most \<open>n\<close> calls of \<open>pop\<close>.\<close>

fun evict_order :: "'p policy_ops \<Rightarrow> heap \<Rightarrow> nat \<Rightarrow> 'p \<Rightarrow> oid list" where
  "evict_order ops h 0 p = []"
| "evict_order ops h (Suc n) p = (case pop_with ops h p of
     Inl _ \<Rightarrow> [] | Inr (v, p') \<Rightarrow> v # evict_order ops h n p')"

section \<open>The contract of a policy\<close>

text \<open>
  What the controller and the prioritized policy rely on. \<open>pinv\<close> is the invariant of a policy in a
  store; the last law says that only a change of priority can break it, which is what lets callers
  update \<open>last_used\<close> directly on the item.
\<close>

locale eviction_policy =
  fixes ops :: "'p policy_ops" and pinv :: "heap \<Rightarrow> 'p \<Rightarrow> bool"
  assumes len_iter: "pinv h p \<Longrightarrow> pol_len ops p = length (pol_iter ops p)"
    and iter_distinct: "pinv h p \<Longrightarrow> distinct (pol_iter ops p)"
    and push_inv: "pinv h p \<Longrightarrow> pinv h (pol_push ops h p x b)"
    and push_iter: "pinv h p \<Longrightarrow>
      set (pol_iter ops (pol_push ops h p x b)) = insert x (set (pol_iter ops p))"
    and peek_None: "pinv h p \<Longrightarrow> pol_peek ops h p = None \<longleftrightarrow> pol_iter ops p = []"
    and peek_in: "pinv h p \<Longrightarrow> pol_peek ops h p = Some v \<Longrightarrow> v \<in> set (pol_iter ops p)"
    and remove_tracked: "pinv h p \<Longrightarrow> x \<in> set (pol_iter ops p) \<Longrightarrow>
      \<exists>p'. pol_remove ops h p x = Inr (x, p') \<and> pinv h p'
         \<and> set (pol_iter ops p') = set (pol_iter ops p) - {x}"
    and remove_untracked: "pinv h p \<Longrightarrow> x \<notin> set (pol_iter ops p) \<Longrightarrow>
      pol_remove ops h p x = Inl EvKeyError"
    and inv_heap: "pinv h p \<Longrightarrow> (\<And>x. x \<in> set (pol_iter ops p) \<Longrightarrow> ev_priority (h' x) = ev_priority (h x))
      \<Longrightarrow> pinv h' p"
begin

lemma pop_empty: "pinv h p \<Longrightarrow> pol_iter ops p = [] \<Longrightarrow> pop_with ops h p = Inl EvIndexError"
  using peek_None [of h p] by (simp add: pop_with_def)

lemma pop_nonempty:
  assumes "pinv h p" and "pol_iter ops p \<noteq> []"
  obtains v p' where "pol_peek ops h p = Some v" and "pop_with ops h p = Inr (v, p')" and "pinv h p'"
    and "v \<in> set (pol_iter ops p)" and "set (pol_iter ops p') = set (pol_iter ops p) - {v}"
proof -
  from assms obtain v where v: "pol_peek ops h p = Some v" by (metis not_None_eq peek_None)
  with assms have "v \<in> set (pol_iter ops p)" by (blast intro: peek_in)
  with assms v remove_tracked [of h p v] that show ?thesis by (auto simp: pop_with_def)
qed

lemma pop_len:
  assumes "pinv h p" and "pop_with ops h p = Inr (v, p')"
  shows "pinv h p' \<and> pol_len ops p = Suc (pol_len ops p')"
proof -
  have ne: "pol_iter ops p \<noteq> []" using assms pop_empty by force
  with assms obtain i: "pinv h p'" and mem: "v \<in> set (pol_iter ops p)"
    and eq: "set (pol_iter ops p') = set (pol_iter ops p) - {v}"
    by (metis (no_types, lifting) Inr_inject pop_nonempty prod.inject)
  have "card (set (pol_iter ops p)) = Suc (card (set (pol_iter ops p')))"
    unfolding eq using mem by (metis List.finite_set card_Suc_Diff1)
  with i assms(1) show ?thesis
    by (simp add: len_iter distinct_card iter_distinct)
qed

lemma evict_order_all:
  "pinv h p \<Longrightarrow> pol_len ops p \<le> n \<Longrightarrow>
     distinct (evict_order ops h n p) \<and> set (evict_order ops h n p) = set (pol_iter ops p)"
proof (induction n arbitrary: p)
  case 0
  then show ?case using len_iter [of h p] by simp
next
  case (Suc n)
  show ?case
  proof (cases "pol_iter ops p = []")
    case True
    with Suc.prems show ?thesis by (simp add: pop_empty)
  next
    case False
    with Suc.prems obtain v p' where v: "pop_with ops h p = Inr (v, p')" "pinv h p'"
      "v \<in> set (pol_iter ops p)" "set (pol_iter ops p') = set (pol_iter ops p) - {v}"
      by (meson pop_nonempty)
    moreover have "pol_len ops p' \<le> n" using pop_len [OF Suc.prems(1) v(1)] Suc.prems(2) by simp
    ultimately show ?thesis using Suc.IH [of p'] by auto
  qed
qed

lemma evict_order_sorted:
  assumes least: "\<And>p v x. Q p \<Longrightarrow> pinv h p \<Longrightarrow> pol_peek ops h p = Some v \<Longrightarrow> x \<in> set (pol_iter ops p) \<Longrightarrow> R v x"
    and keep: "\<And>p v p'. Q p \<Longrightarrow> pinv h p \<Longrightarrow> pol_remove ops h p v = Inr (v, p') \<Longrightarrow> Q p'"
  shows "pinv h p \<Longrightarrow> Q p \<Longrightarrow> sorted_wrt R (evict_order ops h n p)"
proof (induction n arbitrary: p)
  case (Suc n)
  show ?case
  proof (cases "pol_iter ops p = []")
    case True
    with Suc.prems show ?thesis by (simp add: pop_empty)
  next
    case False
    with Suc.prems obtain v p' where v: "pol_peek ops h p = Some v" "pop_with ops h p = Inr (v, p')"
      "pinv h p'" "set (pol_iter ops p') = set (pol_iter ops p) - {v}" by (meson pop_nonempty)
    then have "Q p'" using Suc.prems keep [of p v p'] by (simp add: pop_with_def)
    moreover have "set (evict_order ops h n p') \<subseteq> set (pol_iter ops p')"
    proof -
      have "set (evict_order ops h m q) \<subseteq> set (pol_iter ops q)" if "pinv h q" for m q
        using that
      proof (induction m arbitrary: q)
        case (Suc m)
        show ?case
        proof (cases "pol_iter ops q = []")
          case True
          with Suc.prems show ?thesis by (simp add: pop_empty)
        next
          case False
          with Suc.prems obtain w q' where "pop_with ops h q = Inr (w, q')" "pinv h q'"
            "w \<in> set (pol_iter ops q)" "set (pol_iter ops q') = set (pol_iter ops q) - {w}"
            by (meson pop_nonempty)
          then show ?thesis using Suc.IH [of q'] by auto
        qed
      qed simp
      then show ?thesis using v(3) by blast
    qed
    moreover have "sorted_wrt R (evict_order ops h n p')" using Suc.IH v(3) \<open>Q p'\<close> by blast
    ultimately show ?thesis
      using v least [OF Suc.prems(2,1) v(1)] by auto
  qed
qed simp

end

text \<open>The LRU policy satisfies it whenever no item is in it twice.\<close>

definition lru_inv :: "heap \<Rightarrow> lru_policy \<Rightarrow> bool" where
  "lru_inv h p \<longleftrightarrow> distinct (lru_evict_first p @ lru_items p)"

lemmas lru_defs = lru_ops_def lru_inv_def lru_iter_def lru_push_def lru_remove_def lru_len_def

lemma lru_peek_None: "lru_peek h p = None \<longleftrightarrow> lru_iter p = []"
  by (auto simp: lru_peek_def lru_iter_def)

lemma lru_peek_in: "lru_peek h p = Some v \<Longrightarrow> v \<in> set (lru_iter p)"
  by (auto simp: lru_peek_def lru_iter_def dest: min_by_in split: if_splits)

lemma lru_remove_tracked:
  assumes "lru_inv h p" and "x \<in> set (lru_iter p)"
  shows "\<exists>p'. lru_remove h p x = Inr (x, p') \<and> lru_inv h p'
           \<and> set (lru_iter p') = set (lru_iter p) - {x}"
  using assms by (auto simp: lru_defs set_remove1_eq notin_set_remove1)

interpretation lru: eviction_policy lru_ops lru_inv
proof (unfold_locales, goal_cases)
  case (5 h p)
  show ?case by (simp add: lru_ops_def lru_peek_None)
next
  case (6 h p v)
  then show ?case by (simp add: lru_ops_def lru_peek_in)
next
  case (7 h p x)
  then show ?case using lru_remove_tracked [of h p x] by (simp add: lru_ops_def)
qed (auto simp: lru_defs)

section \<open>Policies made by a factory, and the prioritized policy over them\<close>

locale eviction_policy_factory = eviction_policy ops pinv
  for ops :: "'p policy_ops" and pinv :: "heap \<Rightarrow> 'p \<Rightarrow> bool" +
  fixes creator :: "int \<Rightarrow> 'p"
  assumes creator_inv: "pinv h (creator k)"
    and creator_iter: "pol_iter ops (creator k) = []"

definition prio_inv ::
  "'p policy_ops \<Rightarrow> (heap \<Rightarrow> 'p \<Rightarrow> bool) \<Rightarrow> heap \<Rightarrow> 'p prio_policy \<Rightarrow> bool" where
  "prio_inv ops pinv h ps \<longleftrightarrow> dict_wf ps \<and>
     (\<forall>k p. dict_get ps k = Some p \<longrightarrow>
        pinv h p \<and> (\<forall>x \<in> set (pol_iter ops p). ev_priority (h x) = k))"

lemma prio_inv_wf: "prio_inv ops pinv h ps \<Longrightarrow> dict_wf ps"
  by (simp add: prio_inv_def)

lemma prio_inv_bucket: "prio_inv ops pinv h ps \<Longrightarrow> dict_get ps k = Some p \<Longrightarrow> pinv h p"
  by (simp add: prio_inv_def)

lemma prio_inv_priority:
  "prio_inv ops pinv h ps \<Longrightarrow> dict_get ps k = Some p \<Longrightarrow> x \<in> set (pol_iter ops p) \<Longrightarrow> ev_priority (h x) = k"
  by (simp add: prio_inv_def)

lemma prio_iter_mem:
  "x \<in> set (prio_iter ops ps) \<longleftrightarrow> (\<exists>k p. dict_get ps k = Some p \<and> x \<in> set (pol_iter ops p))"
proof
  assume "x \<in> set (prio_iter ops ps)"
  then obtain k where "x \<in> set (case dict_get ps k of None \<Rightarrow> [] | Some p \<Rightarrow> pol_iter ops p)"
    by (auto simp: prio_iter_def)
  then show "\<exists>k p. dict_get ps k = Some p \<and> x \<in> set (pol_iter ops p)"
    by (cases "dict_get ps k") auto
next
  assume "\<exists>k p. dict_get ps k = Some p \<and> x \<in> set (pol_iter ops p)"
  then obtain k p where kp: "dict_get ps k = Some p" "x \<in> set (pol_iter ops p)" by blast
  from kp(1) have "k \<in> set (prio_ordered ps)" unfolding prio_ordered_def set_sort by (rule dict_get_in_keys)
  with kp show "x \<in> set (prio_iter ops ps)" by (force simp: prio_iter_def)
qed

lemma prio_iter_bucket:
  assumes "prio_inv ops pinv h ps"
  shows "x \<in> set (prio_iter ops ps) \<longleftrightarrow>
    (\<exists>p. dict_get ps (ev_priority (h x)) = Some p \<and> x \<in> set (pol_iter ops p))"
  unfolding prio_iter_mem using prio_inv_priority [OF assms] by metis

lemma prio_inv_set:
  assumes "prio_inv ops pinv h ps" and "pinv h p" and "\<forall>x \<in> set (pol_iter ops p). ev_priority (h x) = k"
  shows "prio_inv ops pinv h (dict_set k p ps)"
  using assms by (simp add: prio_inv_def)

lemma prio_inv_del: "prio_inv ops pinv h ps \<Longrightarrow> prio_inv ops pinv h (dict_del k ps)"
  by (simp add: prio_inv_def)

lemma prio_iter_set:
  assumes "prio_inv ops pinv h ps" and "prio_inv ops pinv h (dict_set k p ps)"
  shows "set (prio_iter ops (dict_set k p ps))
    = {x \<in> set (prio_iter ops ps). ev_priority (h x) \<noteq> k} \<union> set (pol_iter ops p)"
proof -
  have "dict_get (dict_set k p ps) k = Some p" by simp
  then have "x \<in> set (pol_iter ops p) \<Longrightarrow> ev_priority (h x) = k" for x
    by (rule prio_inv_priority [OF assms(2)])
  then have "x \<in> set (prio_iter ops (dict_set k p ps)) \<longleftrightarrow>
    (x \<in> set (prio_iter ops ps) \<and> ev_priority (h x) \<noteq> k) \<or> x \<in> set (pol_iter ops p)" for x
    unfolding prio_iter_bucket [OF assms(1)] prio_iter_bucket [OF assms(2)]
    by (cases "ev_priority (h x) = k") auto
  then show ?thesis by auto
qed

lemma prio_iter_del:
  assumes "prio_inv ops pinv h ps"
  shows "set (prio_iter ops (dict_del k ps)) = {x \<in> set (prio_iter ops ps). ev_priority (h x) \<noteq> k}"
proof -
  have "x \<in> set (prio_iter ops (dict_del k ps)) \<longleftrightarrow>
    x \<in> set (prio_iter ops ps) \<and> ev_priority (h x) \<noteq> k" for x
    unfolding prio_iter_bucket [OF assms(1)] prio_iter_bucket [OF prio_inv_del [OF assms(1)]]
    by (cases "ev_priority (h x) = k") auto
  then show ?thesis by auto
qed

lemma prio_push_eq:
  "prio_push ops creator h ps x b = dict_set (ev_priority (h x))
     (pol_push ops h (case dict_get ps (ev_priority (h x)) of Some p \<Rightarrow> p | None \<Rightarrow> creator (ev_priority (h x))) x b) ps"
  by (simp add: prio_push_def get_policy_def split: option.split)

lemma peek_keys_None:
  "peek_keys ops h ps ks = None \<longleftrightarrow>
     (\<forall>k \<in> set ks. \<forall>p. dict_get ps k = Some p \<longrightarrow> pol_peek ops h p = None)"
  by (induction ks) (auto split: option.splits)

lemma peek_keys_Some:
  assumes "peek_keys ops h ps ks = Some v" and "sorted ks"
  shows "\<exists>k p. k \<in> set ks \<and> dict_get ps k = Some p \<and> pol_peek ops h p = Some v \<and>
    (\<forall>j \<in> set ks. j < k \<longrightarrow> (\<forall>q. dict_get ps j = Some q \<longrightarrow> pol_peek ops h q = None))"
  using assms
proof (induction ks)
  case (Cons a ks)
  show ?case
  proof (cases "\<exists>p w. dict_get ps a = Some p \<and> pol_peek ops h p = Some w")
    case True
    with Cons.prems show ?thesis by (fastforce simp: not_less)
  next
    case False
    with Cons.prems have "peek_keys ops h ps ks = Some v" by (auto split: option.splits)
    with Cons obtain k p where "k \<in> set ks" "dict_get ps k = Some p" "pol_peek ops h p = Some v"
      "\<forall>j \<in> set ks. j < k \<longrightarrow> (\<forall>q. dict_get ps j = Some q \<longrightarrow> pol_peek ops h q = None)" by auto
    with False show ?thesis by (intro exI [of _ k] exI [of _ p]) auto
  qed
qed simp

context eviction_policy_factory
begin

lemma bucket_or_fresh:
  fixes k :: int
  assumes i: "prio_inv ops pinv h ps"
  defines "p \<equiv> case dict_get ps k of Some p \<Rightarrow> p | None \<Rightarrow> creator k"
  shows "pinv h p" and "set (pol_iter ops p) = {x \<in> set (prio_iter ops ps). ev_priority (h x) = k}"
proof -
  show "pinv h p"
    using prio_inv_bucket [OF i] creator_inv by (simp add: p_def split: option.split)
  have "x \<in> set (pol_iter ops p) \<longleftrightarrow> x \<in> set (prio_iter ops ps) \<and> ev_priority (h x) = k" for x
    unfolding prio_iter_bucket [OF i]
    using prio_inv_priority [OF i, of k _ x]
    by (cases "dict_get ps k") (auto simp: p_def creator_iter)
  then show "set (pol_iter ops p) = {x \<in> set (prio_iter ops ps). ev_priority (h x) = k}" by auto
qed

lemma prio_push_inv:
  assumes i: "prio_inv ops pinv h ps"
  shows "prio_inv ops pinv h (prio_push ops creator h ps x b)"
  unfolding prio_push_eq
  by (rule prio_inv_set [OF i])
     (use bucket_or_fresh [OF i, of "ev_priority (h x)"] in \<open>simp_all add: push_inv push_iter\<close>)

lemma prio_push_iter:
  assumes i: "prio_inv ops pinv h ps"
  shows "set (prio_iter ops (prio_push ops creator h ps x b)) = insert x (set (prio_iter ops ps))"
  unfolding prio_push_eq prio_iter_set [OF i prio_push_inv [OF i, unfolded prio_push_eq]]
    push_iter [OF bucket_or_fresh(1) [OF i]] bucket_or_fresh(2) [OF i]
  by auto

lemma prio_iter_distinct:
  assumes i: "prio_inv ops pinv h ps"
  shows "distinct (prio_iter ops ps)"
  unfolding prio_iter_def prio_ordered_def
proof (rule distinct_concat_map, goal_cases)
  case 1
  then show ?case using prio_inv_wf [OF i] by simp
next
  case (2 k)
  then show ?case
    using iter_distinct [OF prio_inv_bucket [OF i]] by (simp split: option.split)
next
  case (3 j k)
  then show ?case
    using prio_inv_priority [OF i] by (auto split: option.splits) metis
qed

lemma prio_len_iter:
  assumes i: "prio_inv ops pinv h ps"
  shows "prio_len ops ps = length (prio_iter ops ps)"
proof -
  let ?g = "\<lambda>q. case q of None \<Rightarrow> [] | Some p \<Rightarrow> pol_iter ops p"
  have "length (prio_iter ops ps) = sum_list (map (\<lambda>k. length (?g (dict_get ps k))) (dict_keys ps))"
    unfolding prio_iter_def prio_ordered_def length_concat
    using sum_list_map_sort [of "\<lambda>k. length (?g (dict_get ps k))" "dict_keys ps"]
    by (simp add: comp_def)
  also have "\<dots> = sum_list (map (\<lambda>p. length (pol_iter ops p)) (dict_values ps))"
    unfolding dict_values_via_get [OF prio_inv_wf [OF i], of "\<lambda>q. length (?g q)"] by simp
  also have "\<dots> = prio_len ops ps"
  proof -
    have "pol_len ops p = length (pol_iter ops p)" if "p \<in> set (dict_values ps)" for p
    proof -
      from that obtain k where "(k, p) \<in> set ps" by auto
      then have "dict_get ps k = Some p" by (rule dict_get_of_mem [OF prio_inv_wf [OF i]])
      then show ?thesis using len_iter prio_inv_bucket [OF i] by blast
    qed
    then show ?thesis unfolding prio_len_def by (metis (mono_tags, lifting) map_eq_conv)
  qed
  finally show ?thesis by simp
qed

lemma prio_peek_None:
  assumes i: "prio_inv ops pinv h ps"
  shows "prio_peek ops h ps = None \<longleftrightarrow> prio_iter ops ps = []"
proof -
  have "prio_iter ops ps = [] \<longleftrightarrow> (\<forall>k p. dict_get ps k = Some p \<longrightarrow> pol_iter ops p = [])"
    using prio_iter_mem [of _ ops ps] by (metis last_in_set list.set_cases empty_iff list.set(1))
  also have "\<dots> \<longleftrightarrow> (\<forall>k p. dict_get ps k = Some p \<longrightarrow> pol_peek ops h p = None)"
    using peek_None prio_inv_bucket [OF i] by blast
  also have "\<dots> \<longleftrightarrow> prio_peek ops h ps = None"
    unfolding prio_peek_def peek_keys_None prio_ordered_def set_sort using dict_get_in_keys by metis
  finally show ?thesis by simp
qed

lemma prio_peek_bucket:
  assumes "prio_peek ops h ps = Some v"
  obtains k p where "dict_get ps k = Some p" and "pol_peek ops h p = Some v"
    and "\<And>j q. j < k \<Longrightarrow> dict_get ps j = Some q \<Longrightarrow> pol_peek ops h q = None"
proof -
  have "sorted (prio_ordered ps)" by (simp add: prio_ordered_def)
  from peek_keys_Some [OF assms [unfolded prio_peek_def] this]
  show ?thesis unfolding prio_ordered_def set_sort using that dict_get_in_keys by metis
qed

lemma prio_peek_in:
  assumes i: "prio_inv ops pinv h ps" and "prio_peek ops h ps = Some v"
  shows "v \<in> set (prio_iter ops ps)"
  using assms(2) by (rule prio_peek_bucket) (use peek_in prio_inv_bucket [OF i] prio_iter_mem in metis)

lemma prio_remove_tracked:
  assumes i: "prio_inv ops pinv h ps" and x: "x \<in> set (prio_iter ops ps)"
  shows "\<exists>ps'. prio_remove ops h ps x = Inr (x, ps') \<and> prio_inv ops pinv h ps'
    \<and> set (prio_iter ops ps') = set (prio_iter ops ps) - {x}"
proof -
  let ?k = "ev_priority (h x)"
  from x obtain p where p: "dict_get ps ?k = Some p" "x \<in> set (pol_iter ops p)"
    unfolding prio_iter_bucket [OF i] by blast
  have pi: "pinv h p" by (rule prio_inv_bucket [OF i p(1)])
  have pk: "set (pol_iter ops p) = {y \<in> set (prio_iter ops ps). ev_priority (h y) = ?k}"
    using bucket_or_fresh(2) [OF i, of ?k] p(1) by simp
  from remove_tracked [OF pi p(2)] obtain p' where p': "pol_remove ops h p x = Inr (x, p')"
    "pinv h p'" "set (pol_iter ops p') = set (pol_iter ops p) - {x}" by blast
  have i': "prio_inv ops pinv h (dict_set ?k p' ps)"
    by (rule prio_inv_set [OF i p'(2)]) (auto simp: p'(3) pk)
  show ?thesis
  proof (cases "pol_len ops p' = 0")
    case True
    then have "set (pol_iter ops p) = {x}" using p'(3) p(2) len_iter [OF p'(2)] by auto
    with True show ?thesis
      using prio_inv_del [OF i, of ?k] pk
      by (auto simp: prio_remove_def p(1) p'(1) prio_iter_del [OF i])
  next
    case False
    then show ?thesis
      using i' pk by (auto simp: prio_remove_def p(1) p'(1) prio_iter_set [OF i i'] p'(3))
  qed
qed

lemma prio_remove_untracked:
  assumes i: "prio_inv ops pinv h ps" and x: "x \<notin> set (prio_iter ops ps)"
  shows "prio_remove ops h ps x = Inl EvKeyError"
proof (cases "dict_get ps (ev_priority (h x))")
  case None
  then show ?thesis by (simp add: prio_remove_def)
next
  case (Some p)
  with x have "x \<notin> set (pol_iter ops p)" unfolding prio_iter_mem by blast
  with Some show ?thesis
    using remove_untracked [OF prio_inv_bucket [OF i Some]] by (simp add: prio_remove_def)
qed

lemma prio_inv_heap:
  assumes i: "prio_inv ops pinv h ps"
    and same: "\<And>x. x \<in> set (prio_iter ops ps) \<Longrightarrow> ev_priority (h' x) = ev_priority (h x)"
  shows "prio_inv ops pinv h' ps"
  unfolding prio_inv_def
proof (intro conjI allI impI)
  show "dict_wf ps" by (rule prio_inv_wf [OF i])
  fix k p
  assume kp: "dict_get ps k = Some p"
  then have sub: "x \<in> set (pol_iter ops p) \<Longrightarrow> x \<in> set (prio_iter ops ps)" for x
    unfolding prio_iter_mem by blast
  with same show "pinv h' p" by (intro inv_heap [OF prio_inv_bucket [OF i kp]]) blast
  show "\<forall>x \<in> set (pol_iter ops p). ev_priority (h' x) = k"
    using same sub prio_inv_priority [OF i kp] by metis
qed

theorem prio_is_policy: "eviction_policy (prio_ops ops creator) (prio_inv ops pinv)"
  by (unfold_locales, unfold prio_ops_def policy_ops.simps)
     (fact prio_len_iter prio_iter_distinct prio_push_inv prio_push_iter prio_peek_None prio_peek_in
        prio_remove_tracked prio_remove_untracked prio_inv_heap)+

end

interpretation lru_buckets: eviction_policy_factory lru_ops lru_inv "\<lambda>_. lru_empty"
  by unfold_locales (simp_all add: lru_defs lru_empty_def)

lemma plru_is_policy: "eviction_policy plru_ops (prio_inv lru_ops lru_inv)"
  unfolding plru_ops_def by (rule lru_buckets.prio_is_policy)

interpretation plru: eviction_policy plru_ops "prio_inv lru_ops lru_inv"
  by (rule plru_is_policy)

section \<open>The controller, for any policy that keeps the contract\<close>

definition tracked :: "'p policy_ops \<Rightarrow> 'p controller \<Rightarrow> string \<Rightarrow> oid set" where
  "tracked ops c tier = (case dict_get c tier of None \<Rightarrow> {} | Some p \<Rightarrow> set (pol_iter ops p))"

definition controller_inv :: "(heap \<Rightarrow> 'p \<Rightarrow> bool) \<Rightarrow> heap \<Rightarrow> 'p controller \<Rightarrow> bool" where
  "controller_inv pinv h c \<longleftrightarrow> dict_wf c \<and> (\<forall>t p. dict_get c t = Some p \<longrightarrow> pinv h p)"

locale eviction_controller = eviction_policy ops pinv
  for ops :: "'p policy_ops" and pinv :: "heap \<Rightarrow> 'p \<Rightarrow> bool" +
  fixes fresh :: 'p
  assumes fresh_inv: "pinv h fresh" and fresh_iter: "pol_iter ops fresh = []"
begin

lemma tracked_set: "tracked ops (dict_set t p c) = (tracked ops c)(t := set (pol_iter ops p))"
  by (simp add: tracked_def fun_eq_iff)

lemma controller_inv_set:
  "controller_inv pinv h c \<Longrightarrow> pinv h p \<Longrightarrow> controller_inv pinv h (dict_set t p c)"
  by (simp add: controller_inv_def)

lemma policy_for_spec:
  assumes "controller_inv pinv h c" and "policy_for fresh c t = (p, c')"
  shows "pinv h p" and "set (pol_iter ops p) = tracked ops c t" and "controller_inv pinv h c'"
    and "tracked ops c' = tracked ops c"
proof -
  have "pinv h p \<and> set (pol_iter ops p) = tracked ops c t \<and> controller_inv pinv h c'
    \<and> tracked ops c' = tracked ops c"
  proof (cases "dict_get c t")
    case None
    with assms(2) have e: "fresh = p" "c' = dict_set t fresh c" by (auto simp: policy_for_def)
    with None have "tracked ops c t = set (pol_iter ops p)"
      using fresh_iter by (simp add: tracked_def)
    with e show ?thesis
      using fresh_inv controller_inv_set [OF assms(1)] fresh_iter by (simp add: tracked_set fun_upd_idem)
  next
    case (Some q)
    with assms(2) have "q = p" "c' = c" by (auto simp: policy_for_def)
    with Some assms(1) show ?thesis by (simp add: controller_inv_def tracked_def)
  qed
  then show "pinv h p" and "set (pol_iter ops p) = tracked ops c t" and "controller_inv pinv h c'"
    and "tracked ops c' = tracked ops c" by blast+
qed

lemma schedule_spec:
  assumes "controller_inv pinv h c"
  shows "controller_inv pinv h (schedule_for_eviction ops fresh h c x b)"
    and "tracked ops (schedule_for_eviction ops fresh h c x b)
      = (tracked ops c)(ev_tier (h x) := insert x (tracked ops c (ev_tier (h x))))"
proof -
  obtain p c' where pf: "policy_for fresh c (ev_tier (h x)) = (p, c')" by fastforce
  note * = policy_for_spec [OF assms pf]
  show "controller_inv pinv h (schedule_for_eviction ops fresh h c x b)"
    using * by (simp add: schedule_for_eviction_def pf controller_inv_set push_inv)
  show "tracked ops (schedule_for_eviction ops fresh h c x b)
      = (tracked ops c)(ev_tier (h x) := insert x (tracked ops c (ev_tier (h x))))"
    using * by (simp add: schedule_for_eviction_def pf tracked_set push_iter)
qed

lemma forget_spec:
  assumes "controller_inv pinv h c" and "t \<noteq> []"
  shows "controller_inv pinv h (forget ops fresh h c x (Some t))"
    and "tracked ops (forget ops fresh h c x (Some t)) = (tracked ops c)(t := tracked ops c t - {x})"
proof -
  obtain p c' where pf: "policy_for fresh c t = (p, c')" by fastforce
  note * = policy_for_spec [OF assms(1) pf]
  have "controller_inv pinv h (forget ops fresh h c x (Some t))
    \<and> tracked ops (forget ops fresh h c x (Some t)) = (tracked ops c)(t := tracked ops c t - {x})"
  proof (cases "x \<in> set (pol_iter ops p)")
    case True
    from remove_tracked [OF *(1) this] obtain p' where "pol_remove ops h p x = Inr (x, p')" "pinv h p'"
      "set (pol_iter ops p') = set (pol_iter ops p) - {x}" by blast
    with * assms(2) show ?thesis by (simp add: forget_def pf controller_inv_set tracked_set)
  next
    case False
    with * assms(2) remove_untracked [OF *(1) False] show ?thesis
      by (simp add: forget_def pf fun_upd_idem)
  qed
  then show "controller_inv pinv h (forget ops fresh h c x (Some t))"
    and "tracked ops (forget ops fresh h c x (Some t)) = (tracked ops c)(t := tracked ops c t - {x})"
    by blast+
qed

lemma forget_own_tier: "ev_tier (h x) \<noteq> [] \<Longrightarrow>
  forget ops fresh h c x None = forget ops fresh h c x (Some (ev_tier (h x)))"
  by (simp add: forget_def)

lemma retier_spec:
  assumes "controller_inv pinv h c" and "t \<noteq> []"
  shows "controller_inv pinv h (retier ops fresh h c x t t' b)"
    and "tracked ops (retier ops fresh h c x t t' b)
      = (let f = (tracked ops c)(t := tracked ops c t - {x}) in f(t' := insert x (f t')))"
proof -
  obtain p c' where pf: "policy_for fresh (forget ops fresh h c x (Some t)) t' = (p, c')" by fastforce
  note * = policy_for_spec [OF forget_spec(1) [OF assms] pf]
  show "controller_inv pinv h (retier ops fresh h c x t t' b)"
    using * by (simp add: retier_def pf controller_inv_set push_inv)
  show "tracked ops (retier ops fresh h c x t t' b)
      = (let f = (tracked ops c)(t := tracked ops c t - {x}) in f(t' := insert x (f t')))"
    using * by (simp add: retier_def pf tracked_set push_iter forget_spec(2) [OF assms] Let_def)
qed

lemma victim_spec:
  assumes "controller_inv pinv h c" and "victim ops fresh h c t = (v, c')"
  shows "controller_inv pinv h c'" and "tracked ops c' = tracked ops c"
    and "v = None \<longleftrightarrow> tracked ops c t = {}" and "v = Some x \<Longrightarrow> x \<in> tracked ops c t"
proof -
  obtain p c'' where pf: "policy_for fresh c t = (p, c'')" by fastforce
  note * = policy_for_spec [OF assms(1) pf]
  from assms(2) have v: "v = pol_peek ops h p" "c' = c''" by (auto simp: victim_def pf)
  show "controller_inv pinv h c'" and "tracked ops c' = tracked ops c"
    using * v by simp_all
  show "v = None \<longleftrightarrow> tracked ops c t = {}"
    using *(2) v peek_None [OF *(1)] by auto
  show "v = Some x \<Longrightarrow> x \<in> tracked ops c t"
    using *(2) v peek_in [OF *(1)] by auto
qed

lemma controller_evict_spec:
  assumes "controller_inv pinv h c" and "controller_evict ops fresh h c t = (r, c')"
  shows "controller_inv pinv h c'"
    and "r = Inl e \<Longrightarrow> e = EvIndexError \<and> tracked ops c t = {}"
    and "r = Inr x \<Longrightarrow> x \<in> tracked ops c t \<and> tracked ops c' = (tracked ops c)(t := tracked ops c t - {x})"
proof -
  obtain p c'' where pf: "policy_for fresh c t = (p, c'')" by fastforce
  note * = policy_for_spec [OF assms(1) pf]
  have "controller_inv pinv h c' \<and> (\<forall>e. r = Inl e \<longrightarrow> e = EvIndexError \<and> tracked ops c t = {})
    \<and> (\<forall>x. r = Inr x \<longrightarrow> x \<in> tracked ops c t \<and> tracked ops c' = (tracked ops c)(t := tracked ops c t - {x}))"
  proof (cases "pol_iter ops p = []")
    case True
    with * assms(2) show ?thesis by (auto simp: controller_evict_def pf pop_empty [OF *(1) True])
  next
    case False
    from pop_nonempty [OF *(1) this] obtain v p' where "pop_with ops h p = Inr (v, p')" "pinv h p'"
      "v \<in> set (pol_iter ops p)" "set (pol_iter ops p') = set (pol_iter ops p) - {v}" by blast
    with * assms(2) show ?thesis by (auto simp: controller_evict_def pf controller_inv_set tracked_set)
  qed
  then show "controller_inv pinv h c'"
    and "r = Inl e \<Longrightarrow> e = EvIndexError \<and> tracked ops c t = {}"
    and "r = Inr x \<Longrightarrow> x \<in> tracked ops c t \<and> tracked ops c' = (tracked ops c)(t := tracked ops c t - {x})"
    by blast+
qed

end

text \<open>The default controller: prioritized LRU policies, each starting as the empty dictionary.\<close>

interpretation tiers: eviction_controller plru_ops "prio_inv lru_ops lru_inv" "[]"
  by unfold_locales (simp_all add: prio_inv_def plru_ops_def prio_ops_def prio_iter_def prio_ordered_def)

section \<open>Which item goes first\<close>

lemma lru_peek_least:
  assumes "lru_peek h p = Some v" and "x \<in> set (lru_iter p)"
  shows "(x \<in> set (lru_evict_first p) \<longrightarrow> v \<in> set (lru_evict_first p))
    \<and> ((v \<in> set (lru_evict_first p) \<longrightarrow> x \<in> set (lru_evict_first p)) \<longrightarrow> ev_last_used (h v) \<le> ev_last_used (h x))"
  using assms min_by_in [of "\<lambda>i. ev_last_used (h i)"] min_by_le [of "\<lambda>i. ev_last_used (h i)"]
  by (fastforce simp: lru_peek_def lru_iter_def split: if_splits)

lemma plru_simps:
  "pol_peek plru_ops h ps = prio_peek lru_ops h ps" "pol_iter plru_ops ps = prio_iter lru_ops ps"
  "pol_remove plru_ops h ps = prio_remove lru_ops h ps"
  "pol_push plru_ops h ps = prio_push lru_ops (\<lambda>_. lru_empty) h ps" "pol_len plru_ops ps = prio_len lru_ops ps"
  by (simp_all add: plru_ops_def prio_ops_def fun_eq_iff)

text \<open>An item jumps the queue of its priority when it was pushed with \<open>evict_first\<close>.\<close>

definition jumps_queue :: "heap \<Rightarrow> lru_policy prio_policy \<Rightarrow> oid \<Rightarrow> bool" where
  "jumps_queue h ps x = (case dict_get ps (ev_priority (h x)) of
     None \<Rightarrow> False | Some p \<Rightarrow> x \<in> set (lru_evict_first p))"

lemma plru_peek_least:
  assumes i: "prio_inv lru_ops lru_inv h ps" and v: "prio_peek lru_ops h ps = Some v"
    and x: "x \<in> set (prio_iter lru_ops ps)"
  shows "ev_priority (h v) \<le> ev_priority (h x)"
    and "ev_priority (h v) = ev_priority (h x) \<Longrightarrow> jumps_queue h ps x \<Longrightarrow> jumps_queue h ps v"
    and "ev_priority (h v) = ev_priority (h x) \<Longrightarrow> jumps_queue h ps v = jumps_queue h ps x \<Longrightarrow>
         ev_last_used (h v) \<le> ev_last_used (h x)"
proof -
  from x obtain q where q: "dict_get ps (ev_priority (h x)) = Some q" "x \<in> set (lru_iter q)"
    unfolding prio_iter_bucket [OF i] by (auto simp: lru_ops_def)
  from v obtain k p where p: "dict_get ps k = Some p" "lru_peek h p = Some v"
    and first: "\<And>j q. j < k \<Longrightarrow> dict_get ps j = Some q \<Longrightarrow> lru_peek h q = None"
    by (rule lru_buckets.prio_peek_bucket) (simp add: lru_ops_def)
  have k: "ev_priority (h v) = k"
    using prio_inv_priority [OF i p(1)] lru_peek_in [OF p(2)] by (simp add: lru_ops_def)
  show "ev_priority (h v) \<le> ev_priority (h x)"
    using first [OF _ q(1)] q(2) by (force simp: k lru_peek_None)
  assume eq: "ev_priority (h v) = ev_priority (h x)"
  then have "p = q" using p(1) q(1) k by simp
  with lru_peek_least [OF p(2), of x] q p k eq
  show "jumps_queue h ps x \<Longrightarrow> jumps_queue h ps v"
    and "jumps_queue h ps v = jumps_queue h ps x \<Longrightarrow> ev_last_used (h v) \<le> ev_last_used (h x)"
    by (auto simp: jumps_queue_def)
qed

section \<open>Properties\<close>

definition evicts_no_later :: "heap \<Rightarrow> oid \<Rightarrow> oid \<Rightarrow> bool" where
  "evicts_no_later h x y \<longleftrightarrow> ev_priority (h x) < ev_priority (h y)
     \<or> ev_priority (h x) = ev_priority (h y) \<and> ev_last_used (h x) \<le> ev_last_used (h y)"

definition nobody_jumps :: "lru_policy prio_policy \<Rightarrow> bool" where
  "nobody_jumps ps \<longleftrightarrow> (\<forall>k p. dict_get ps k = Some p \<longrightarrow> lru_evict_first p = [])"

lemma nobody_jumps_least:
  assumes "nobody_jumps ps" and "prio_inv lru_ops lru_inv h ps" and "prio_peek lru_ops h ps = Some v"
    and "x \<in> set (prio_iter lru_ops ps)"
  shows "evicts_no_later h v x"
proof -
  have "\<not> jumps_queue h ps y" for y
    using assms(1) by (auto simp: jumps_queue_def nobody_jumps_def split: option.split)
  with plru_peek_least [OF assms(2-4)] show ?thesis by (force simp: evicts_no_later_def)
qed

lemma nobody_jumps_remove:
  assumes "nobody_jumps ps" and "prio_remove lru_ops h ps v = Inr (v, ps')"
  shows "nobody_jumps ps'"
  using assms
  by (auto simp: prio_remove_def nobody_jumps_def lru_ops_def lru_remove_def
      split: option.splits sum.splits if_splits)

text \<open>Eviction order: as long as no item was pushed with \<open>evict_first\<close>, popping a prioritized LRU
  policy until it is empty returns every tracked item exactly once, lower priority first and, within one
  priority, least recently used first.\<close>

theorem plru_drains_in_order:
  assumes "prio_inv lru_ops lru_inv h ps" and "nobody_jumps ps"
  shows "distinct (evict_order plru_ops h (prio_len lru_ops ps) ps)
    \<and> set (evict_order plru_ops h (prio_len lru_ops ps) ps) = set (prio_iter lru_ops ps)
    \<and> sorted_wrt (evicts_no_later h) (evict_order plru_ops h (prio_len lru_ops ps) ps)"
proof -
  have "sorted_wrt (evicts_no_later h) (evict_order plru_ops h (prio_len lru_ops ps) ps)"
    using assms nobody_jumps_least nobody_jumps_remove
    by (intro plru.evict_order_sorted [where Q = nobody_jumps]) (simp_all add: plru_simps)
  then show ?thesis
    using plru.evict_order_all [OF assms(1), of "prio_len lru_ops ps"] by (simp add: plru_simps)
qed

definition demo_heap :: heap where
  "demo_heap x = \<lparr>ev_name = [CHR ''m''], ev_tier = ''T1_HBM'', ev_last_used = 10 - of_nat x,
     ev_priority = (if x = 3 then 10 else PRIORITY_DEFAULT)\<rparr>"

definition demo_policy :: "lru_policy prio_policy" where
  "demo_policy = [(35, \<lparr>lru_items = [1, 2], lru_evict_first = []\<rparr>), (10, \<lparr>lru_items = [3], lru_evict_first = []\<rparr>)]"

lemma demo_policy_inv: "prio_inv lru_ops lru_inv demo_heap demo_policy"
  by (auto simp: prio_inv_def demo_policy_def demo_heap_def lru_defs PRIORITY_DEFAULT_def)

theorem plru_drains_in_order_witness:
  "evict_order plru_ops demo_heap 3 demo_policy = [3, 2, 1]
   \<and> sorted_wrt (evicts_no_later demo_heap) (evict_order plru_ops demo_heap 3 demo_policy)"
proof -
  have "nobody_jumps demo_policy" by (auto simp: nobody_jumps_def demo_policy_def)
  moreover have "prio_len lru_ops demo_policy = 3" by code_simp
  ultimately have "sorted_wrt (evicts_no_later demo_heap) (evict_order plru_ops demo_heap 3 demo_policy)"
    using plru_drains_in_order [OF demo_policy_inv] by metis
  moreover have "evict_order plru_ops demo_heap 3 demo_policy = [3, 2, 1]" by code_simp
  ultimately show ?thesis by simp
qed

definition push_all :: "heap \<Rightarrow> oid list \<Rightarrow> lru_policy prio_policy" where
  "push_all h xs = foldl (\<lambda>ps x. prio_push lru_ops (\<lambda>_. lru_empty) h ps x False) [] xs"

lemma push_all_snoc: "push_all h (xs @ [x]) = prio_push lru_ops (\<lambda>_. lru_empty) h (push_all h xs) x False"
  by (simp add: push_all_def)

lemma push_all_one_priority:
  assumes "\<forall>x \<in> set xs. ev_priority (h x) = k" and "distinct xs" and "xs \<noteq> []"
  shows "push_all h xs = [(k, \<lparr>lru_items = xs, lru_evict_first = []\<rparr>)]"
  using assms
proof (induction xs rule: rev_induct)
  case (snoc x xs)
  show ?case
  proof (cases "xs = []")
    case True
    with snoc.prems show ?thesis
      by (simp add: push_all_def prio_push_eq lru_ops_def lru_push_def lru_empty_def)
  next
    case False
    with snoc show ?thesis
      by (simp add: push_all_snoc prio_push_eq lru_ops_def lru_push_def del: foldl_append)
  qed
qed simp

text \<open>Default behaviour: when every item has the default priority, the item the prioritized policy
  evicts first is exactly the one plain LRU takes, \<open>sorted(items, key=last_used)[0]\<close>, in push order on
  ties; so leaving priorities unset changes nothing.\<close>

theorem default_priority_is_plain_lru:
  assumes "\<forall>x \<in> set xs. ev_priority (h x) = PRIORITY_DEFAULT" and "distinct xs"
  shows "prio_peek lru_ops h (push_all h xs)
    = (if xs = [] then None else Some (hd (sort_key (\<lambda>x. ev_last_used (h x)) xs)))"
proof (cases "xs = []")
  case True
  then show ?thesis by (simp add: push_all_def prio_peek_def prio_ordered_def)
next
  case False
  from push_all_one_priority [OF assms this]
  have "prio_peek lru_ops h (push_all h xs) = min_by (\<lambda>x. ev_last_used (h x)) xs"
    using False min_by_Some_iff_nonempty [OF False, of "\<lambda>x. ev_last_used (h x)"]
    by (auto simp: prio_peek_def prio_ordered_def lru_ops_def lru_peek_def)
  with False show ?thesis by (simp add: hd_sort_key)
qed

theorem default_priority_is_plain_lru_witness:
  "prio_peek lru_ops demo_heap (push_all demo_heap [1, 5, 2]) = Some 5"
proof -
  have "prio_peek lru_ops demo_heap (push_all demo_heap [1, 5, 2])
    = (if [1, 5, 2::nat] = [] then None
       else Some (hd (sort_key (\<lambda>x. ev_last_used (demo_heap x)) [1, 5, 2])))"
    by (rule default_priority_is_plain_lru) (simp_all add: demo_heap_def)
  then show ?thesis by (simp add: demo_heap_def)
qed

text \<open>The controller keeps its tiers apart: \<open>retier\<close> keeps the controller's invariant, leaves the item
  tracked in the new tier and no longer in the old one, and changes no other item's tracking in any tier.\<close>

theorem retier_moves_one_item:
  assumes "controller_inv (prio_inv lru_ops lru_inv) h c" and "old \<noteq> []" and "old \<noteq> new"
  shows "controller_inv (prio_inv lru_ops lru_inv) h (retier plru_ops [] h c x old new b)
    \<and> x \<in> tracked plru_ops (retier plru_ops [] h c x old new b) new
    \<and> x \<notin> tracked plru_ops (retier plru_ops [] h c x old new b) old
    \<and> (\<forall>t y. y \<noteq> x \<longrightarrow> (y \<in> tracked plru_ops (retier plru_ops [] h c x old new b) t
          \<longleftrightarrow> y \<in> tracked plru_ops c t))"
  using tiers.retier_spec [OF assms(1,2), of x new b] assms(3) by (auto simp: Let_def)

theorem retier_moves_one_item_witness:
  "retier plru_ops [] demo_heap [(''T1_HBM'', demo_policy)] 3 ''T1_HBM'' ''T2_DDR'' False
     = [(''T1_HBM'', [(35, \<lparr>lru_items = [1, 2], lru_evict_first = []\<rparr>)]),
        (''T2_DDR'', [(10, \<lparr>lru_items = [3], lru_evict_first = []\<rparr>)])]
   \<and> 3 \<in> tracked plru_ops (retier plru_ops [] demo_heap [(''T1_HBM'', demo_policy)] 3 ''T1_HBM'' ''T2_DDR'' False) ''T2_DDR''"
proof -
  have "controller_inv (prio_inv lru_ops lru_inv) demo_heap [(''T1_HBM'', demo_policy)]"
    using demo_policy_inv by (auto simp: controller_inv_def)
  note * = retier_moves_one_item [OF this, of "''T1_HBM''" "''T2_DDR''" 3 False]
  moreover have "retier plru_ops [] demo_heap [(''T1_HBM'', demo_policy)] 3 ''T1_HBM'' ''T2_DDR'' False
     = [(''T1_HBM'', [(35, \<lparr>lru_items = [1, 2], lru_evict_first = []\<rparr>)]),
        (''T2_DDR'', [(10, \<lparr>lru_items = [3], lru_evict_first = []\<rparr>)])]" by code_simp
  ultimately show ?thesis by simp
qed

end
