(* ===== verification/Thrash.thy ===== *)
theory Thrash
  imports GB_Prelude
begin

text \<open>
  The tier-thrashing detector of \<^verbatim>\<open>gb_thrash.py\<close>: per-component counters updated by \<open>record_move\<close>, and the
  queries over them. A history of moves is compared with its plain reading: the moves of one component are cut
  into bouts at every quiet epoch, and quick reversals are counted inside a bout.

  The environment variables are the parameter \<open>env_num\<close>: the number a variable holds, \<open>None\<close> when it is
  unset or not a number. Calls of \<open>time.time()\<close> are the argument \<open>now\<close>.
\<close>

section \<open>State\<close>

definition LAPSE_S_DEFAULT :: pyfloat where "LAPSE_S_DEFAULT = 10"
definition THRESHOLD_DEFAULT :: int where "THRESHOLD_DEFAULT = 3"
definition PIN_THRESHOLD_DEFAULT :: int where "PIN_THRESHOLD_DEFAULT = 10"
definition EPOCH_MULTIPLIER :: pyfloat where "EPOCH_MULTIPLIER = 20"
definition MAX_RESETS_DEFAULT :: int where "MAX_RESETS_DEFAULT = 4"
definition INTERVAL_HISTORY :: nat where "INTERVAL_HISTORY = 32"

record thrash_state =
  th_name :: string
  th_events :: int
  th_resets :: int
  th_last_time :: pyfloat
  th_last_from :: "string option"
  th_last_to :: "string option"
  th_moves :: int
  th_intervals :: "pyfloat list"
  th_first_seen :: pyfloat

record detector =
  td_lapse :: pyfloat
  td_threshold :: int
  td_pin :: int
  td_max_resets :: int
  td_state :: "(string, thrash_state) pydict"

definition env_float :: "(string \<Rightarrow> pyfloat option) \<Rightarrow> string \<Rightarrow> pyfloat \<Rightarrow> pyfloat" where
  "env_float env_num name dflt = (case env_num name of None \<Rightarrow> dflt | Some x \<Rightarrow> x)"

text \<open>\<open>int(text)\<close> of a number that is not an integer raises, which gives the default.\<close>

definition env_int :: "(string \<Rightarrow> pyfloat option) \<Rightarrow> string \<Rightarrow> int \<Rightarrow> int" where
  "env_int env_num name dflt =
     (case env_num name of None \<Rightarrow> dflt | Some x \<Rightarrow> if of_int \<lfloor>x\<rfloor> = x then \<lfloor>x\<rfloor> else dflt)"

definition new_detector ::
  "(string \<Rightarrow> pyfloat option) \<Rightarrow> pyfloat option \<Rightarrow> int option \<Rightarrow> int option \<Rightarrow> int option \<Rightarrow> detector" where
  "new_detector env_num lapse threshold pin max_resets =
     \<lparr>td_lapse = (case lapse of Some x \<Rightarrow> x | None \<Rightarrow> env_float env_num ''GB_THRASH_LAPSE_S'' LAPSE_S_DEFAULT),
      td_threshold = (case threshold of Some x \<Rightarrow> x | None \<Rightarrow> env_int env_num ''GB_THRASH_THRESHOLD'' THRESHOLD_DEFAULT),
      td_pin = (case pin of Some x \<Rightarrow> x | None \<Rightarrow> env_int env_num ''GB_THRASH_PIN_THRESHOLD'' PIN_THRESHOLD_DEFAULT),
      td_max_resets = (case max_resets of Some x \<Rightarrow> x | None \<Rightarrow> env_int env_num ''GB_THRASH_MAX_RESETS'' MAX_RESETS_DEFAULT),
      td_state = []\<rparr>"

definition epoch_s :: "detector \<Rightarrow> pyfloat" where
  "epoch_s d = td_lapse d * EPOCH_MULTIPLIER"

definition new_thrash_state :: "string \<Rightarrow> pyfloat \<Rightarrow> thrash_state" where
  "new_thrash_state name now =
     \<lparr>th_name = name, th_events = 0, th_resets = 0, th_last_time = 0, th_last_from = None, th_last_to = None,
      th_moves = 0, th_intervals = [], th_first_seen = now\<rparr>"

section \<open>Operations\<close>

definition reverses :: "thrash_state \<Rightarrow> string \<Rightarrow> string \<Rightarrow> bool" where
  "reverses st from to \<longleftrightarrow>
     th_last_from st \<noteq> None \<and> th_last_to st = Some from \<and> th_last_from st = Some to"

text \<open>The counters of the component after one more move.\<close>

definition count_move :: "detector \<Rightarrow> thrash_state \<Rightarrow> string \<Rightarrow> string \<Rightarrow> pyfloat \<Rightarrow> thrash_state" where
  "count_move d st0 from to now =
     (let st = st0\<lparr>th_moves := th_moves st0 + 1\<rparr>;
          st1 = (if th_last_time st \<noteq> 0 then
            (let interval = now - th_last_time st;
                 all = th_intervals st @ [interval];
                 st' = st\<lparr>th_intervals := (if length all > INTERVAL_HISTORY then tl all else all)\<rparr> in
             if interval > epoch_s d then
               st'\<lparr>th_resets := (if th_events st' \<noteq> 0 then th_resets st' + 1 else th_resets st'), th_events := 0\<rparr>
             else if interval \<le> td_lapse d \<and> reverses st' from to then
               (if th_resets st' < td_max_resets d then st'\<lparr>th_events := th_events st' + 1\<rparr> else st')
             else st')
          else st)
      in st1\<lparr>th_last_time := now, th_last_from := Some from, th_last_to := Some to\<rparr>)"

definition record_move :: "detector \<Rightarrow> string \<Rightarrow> string \<Rightarrow> string \<Rightarrow> pyfloat \<Rightarrow> detector" where
  "record_move d name from to now =
     (let st = (case dict_get (td_state d) name of None \<Rightarrow> new_thrash_state name now | Some st \<Rightarrow> st)
      in d\<lparr>td_state := dict_set name (count_move d st from to now) (td_state d)\<rparr>)"

definition is_thrashing :: "detector \<Rightarrow> string \<Rightarrow> bool" where
  "is_thrashing d name =
     (case dict_get (td_state d) name of None \<Rightarrow> False | Some st \<Rightarrow> th_events st \<ge> td_threshold d)"

definition should_pin :: "detector \<Rightarrow> string \<Rightarrow> bool" where
  "should_pin d name =
     (case dict_get (td_state d) name of None \<Rightarrow> False | Some st \<Rightarrow> th_events st \<ge> td_pin d)"

definition thrashing_components :: "detector \<Rightarrow> string list" where
  "thrashing_components d = filter (is_thrashing d) (dict_keys (td_state d))"

definition median_interval :: "thrash_state \<Rightarrow> pyfloat option" where
  "median_interval st =
     (if th_intervals st = [] then None
      else let ordered = sort (th_intervals st); mid = length ordered div 2 in
        if odd (length ordered) then Some (ordered ! mid)
        else Some ((ordered ! (mid - 1) + ordered ! mid) / 2))"

definition min_of :: "pyfloat list \<Rightarrow> pyfloat option" where
  "min_of xs = (if xs = [] then None else Some (foldl min (hd xs) (tl xs)))"

record thrash_row =
  tr_name :: string
  tr_events :: int
  tr_resets :: int
  tr_moves :: int
  tr_last_from :: "string option"
  tr_last_to :: "string option"
  tr_median :: "pyfloat option"
  tr_min :: "pyfloat option"

definition as_dict :: "thrash_state \<Rightarrow> thrash_row" where
  "as_dict st =
     \<lparr>tr_name = th_name st, tr_events = th_events st, tr_resets = th_resets st, tr_moves = th_moves st,
      tr_last_from = th_last_from st, tr_last_to = th_last_to st, tr_median = median_interval st,
      tr_min = min_of (th_intervals st)\<rparr>"

record thrash_stats =
  ts_tracked :: nat
  ts_count :: nat
  ts_thrashing :: "string list"
  ts_pin :: "string list"
  ts_moves :: int
  ts_min :: "pyfloat option"
  ts_params :: "pyfloat \<times> int \<times> int \<times> pyfloat \<times> int"
  ts_rows :: "(string, thrash_row) pydict"

definition thrash_stats_of :: "detector \<Rightarrow> thrash_stats" where
  "thrash_stats_of d =
     \<lparr>ts_tracked = length (td_state d), ts_count = length (thrashing_components d),
      ts_thrashing = thrashing_components d, ts_pin = filter (should_pin d) (dict_keys (td_state d)),
      ts_moves = sum_list (map th_moves (dict_values (td_state d))),
      ts_min = min_of (concat (map th_intervals (dict_values (td_state d)))),
      ts_params = (td_lapse d, td_threshold d, td_pin d, epoch_s d, td_max_resets d),
      ts_rows = map (\<lambda>(n, st). (n, as_dict st)) (td_state d)\<rparr>"

definition reset :: "detector \<Rightarrow> detector" where
  "reset d = d\<lparr>td_state := []\<rparr>"

section \<open>The plain reading of a history\<close>

record move =
  mv_from :: string
  mv_to :: string
  mv_time :: pyfloat

text \<open>A quick reversal undoes the move before it within the lapse.\<close>

definition quick :: "detector \<Rightarrow> move \<Rightarrow> move \<Rightarrow> bool" where
  "quick d m m' \<longleftrightarrow> mv_time m' - mv_time m \<le> td_lapse d \<and> mv_to m = mv_from m' \<and> mv_from m = mv_to m'"

fun quick_reversals :: "detector \<Rightarrow> move list \<Rightarrow> nat" where
  "quick_reversals d (m # m' # ms) = (if quick d m m' then 1 else 0) + quick_reversals d (m' # ms)"
| "quick_reversals d _ = 0"

text \<open>Bouts: the history cut wherever more than an epoch passed.\<close>

fun bouts :: "detector \<Rightarrow> move list \<Rightarrow> move list list" where
  "bouts d [] = []"
| "bouts d [m] = [[m]]"
| "bouts d (m # m' # ms) =
     (if mv_time m' - mv_time m > epoch_s d then [m] # bouts d (m' # ms)
      else case bouts d (m' # ms) of [] \<Rightarrow> [[m]] | b # bs \<Rightarrow> (m # b) # bs)"

text \<open>
  The counters that the bouts give: every earlier bout with a quick reversal is a reset, up to the maximum;
  the last bout counts its quick reversals unless the maximum was reached.
\<close>

definition eventful :: "detector \<Rightarrow> move list list \<Rightarrow> nat" where
  "eventful d bs = length (filter (\<lambda>b. quick_reversals d b \<noteq> 0) bs)"

definition spec_resets :: "detector \<Rightarrow> move list \<Rightarrow> int" where
  "spec_resets d ms = min (int (eventful d (butlast (bouts d ms)))) (td_max_resets d)"

definition spec_events :: "detector \<Rightarrow> move list \<Rightarrow> int" where
  "spec_events d ms =
     (if ms \<noteq> [] \<and> spec_resets d ms < td_max_resets d then int (quick_reversals d (last (bouts d ms))) else 0)"

lemma bouts_nonempty [simp]: "bouts d (m # ms) \<noteq> []"
  by (induction "m # ms" arbitrary: m ms rule: bouts.induct) (auto split: list.split)

lemma bouts_Nil_iff [simp]: "bouts d ms = [] \<longleftrightarrow> ms = []"
  by (cases ms) auto

lemma bouts_snoc:
  assumes "ms \<noteq> []"
  shows "bouts d (ms @ [x]) =
    (if mv_time x - mv_time (last ms) > epoch_s d then bouts d ms @ [[x]]
     else butlast (bouts d ms) @ [last (bouts d ms) @ [x]])"
  using assms
proof (induction d ms rule: bouts.induct)
  case (3 d m m' ms)
  then show ?case
    by (cases "bouts d (m' # ms)") (auto split: list.split simp: neq_Nil_conv)
qed auto

lemma bouts_last:
  "ms \<noteq> [] \<Longrightarrow> last (bouts d ms) \<noteq> [] \<and> last (last (bouts d ms)) = last ms"
proof (induction ms rule: rev_induct)
  case (snoc x ms)
  then show ?case by (cases "ms = []") (auto simp: bouts_snoc)
qed simp

lemma quick_reversals_snoc:
  "ms \<noteq> [] \<Longrightarrow> quick_reversals d (ms @ [x]) = quick_reversals d ms + (if quick d (last ms) x then 1 else 0)"
  by (induction d ms rule: quick_reversals.induct) auto

section \<open>The counters are those of the plain reading\<close>

fun replay :: "detector \<Rightarrow> (string \<times> move) list \<Rightarrow> detector" where
  "replay d [] = d"
| "replay d ((n, m) # h) = replay (record_move d n (mv_from m) (mv_to m) (mv_time m)) h"

lemma replay_append: "replay d (h @ h') = replay (replay d h) h'"
  by (induction d h rule: replay.induct) auto

lemma record_move_params [simp]:
  "td_lapse (record_move d n a b t) = td_lapse d" "td_max_resets (record_move d n a b t) = td_max_resets d"
  "td_threshold (record_move d n a b t) = td_threshold d" "td_pin (record_move d n a b t) = td_pin d"
  "epoch_s (record_move d n a b t) = epoch_s d"
  by (simp_all add: record_move_def Let_def epoch_s_def)

lemma replay_params [simp]:
  "td_lapse (replay d h) = td_lapse d" "td_max_resets (replay d h) = td_max_resets d"
  "td_threshold (replay d h) = td_threshold d" "epoch_s (replay d h) = epoch_s d"
  by (induction d h rule: replay.induct) auto

lemma count_move_params:
  "td_lapse d' = td_lapse d \<Longrightarrow> td_max_resets d' = td_max_resets d \<Longrightarrow> count_move d' = count_move d"
  by (intro ext) (simp only: count_move_def epoch_s_def)

definition moves_of :: "string \<Rightarrow> (string \<times> move) list \<Rightarrow> move list" where
  "moves_of n h = map snd (filter (\<lambda>p. fst p = n) h)"

text \<open>The relation between a component's counters and its own moves.\<close>

definition reads_as :: "detector \<Rightarrow> move list \<Rightarrow> thrash_state \<Rightarrow> bool" where
  "reads_as d ms st \<longleftrightarrow> ms \<noteq> [] \<and> th_events st = spec_events d ms \<and> th_resets st = spec_resets d ms \<and>
     th_moves st = int (length ms) \<and> length (th_intervals st) \<le> INTERVAL_HISTORY \<and>
     th_last_time st = mv_time (last ms) \<and> th_last_from st = Some (mv_from (last ms)) \<and>
     th_last_to st = Some (mv_to (last ms))"

lemma reads_as_first:
  assumes "0 \<le> td_max_resets d"
  shows "reads_as d [m] (count_move d (new_thrash_state n now) (mv_from m) (mv_to m) (mv_time m))"
  using assms
  by (simp add: reads_as_def count_move_def new_thrash_state_def spec_events_def spec_resets_def eventful_def Let_def)

lemma eventful_simps [simp]:
  "eventful d [] = 0" "eventful d (xs @ ys) = eventful d xs + eventful d ys"
  "eventful d (b # bs) = (if quick_reversals d b \<noteq> 0 then 1 else 0) + eventful d bs"
  by (simp_all add: eventful_def)

lemma reads_as_step:
  assumes "reads_as d ms st" and "mv_time (last ms) \<noteq> 0" and "0 \<le> td_max_resets d"
  shows "reads_as d (ms @ [m]) (count_move d st (mv_from m) (mv_to m) (mv_time m))"
proof -
  from assms(1) have ms: "ms \<noteq> []" and ev: "th_events st = spec_events d ms"
    and re: "th_resets st = spec_resets d ms" and lt: "th_last_time st = mv_time (last ms)"
    and lf: "th_last_from st = Some (mv_from (last ms))" "th_last_to st = Some (mv_to (last ms))"
    by (simp_all add: reads_as_def)
  let ?i = "mv_time m - mv_time (last ms)"
  let ?st = "count_move d st (mv_from m) (mv_to m) (mv_time m)"
  have rest: "th_moves ?st = int (length (ms @ [m]))" "length (th_intervals ?st) \<le> INTERVAL_HISTORY"
    "th_last_time ?st = mv_time m" "th_last_from ?st = Some (mv_from m)" "th_last_to ?st = Some (mv_to m)"
    using assms(1) by (auto simp: reads_as_def count_move_def Let_def INTERVAL_HISTORY_def)
  have all: "eventful d (bouts d ms) = eventful d (butlast (bouts d ms)) +
      (if quick_reversals d (last (bouts d ms)) \<noteq> 0 then 1 else 0)"
    using append_butlast_last_id [of "bouts d ms"] ms
    by (metis bouts_Nil_iff eventful_simps(1,2,3) add_0_right)
  have "th_events ?st = spec_events d (ms @ [m]) \<and> th_resets ?st = spec_resets d (ms @ [m])"
  proof (cases "?i > epoch_s d")
    case True
    then have b: "bouts d (ms @ [m]) = bouts d ms @ [[m]]" using ms by (simp add: bouts_snoc)
    have "th_events ?st = 0"
      "th_resets ?st = (if th_events st \<noteq> 0 then th_resets st + 1 else th_resets st)"
      using True assms(2) by (simp_all add: count_move_def Let_def lt)
    moreover have "spec_resets d (ms @ [m]) = (if th_events st \<noteq> 0 then th_resets st + 1 else th_resets st)"
      using ms all assms(3) unfolding ev re by (auto simp: spec_resets_def spec_events_def b)
    ultimately show ?thesis by (simp add: spec_events_def b)
  next
    case False
    then have b: "bouts d (ms @ [m]) = butlast (bouts d ms) @ [last (bouts d ms) @ [m]]"
      using ms by (simp add: bouts_snoc)
    have q: "quick_reversals d (last (bouts d ms) @ [m]) =
        quick_reversals d (last (bouts d ms)) + (if quick d (last ms) m then 1 else 0)"
      using bouts_last [OF ms, of d] by (simp add: quick_reversals_snoc)
    have r: "?i \<le> td_lapse d \<and> reverses st' (mv_from m) (mv_to m) \<longleftrightarrow> quick d (last ms) m"
      if "th_last_from st' = th_last_from st" "th_last_to st' = th_last_to st" for st'
      using that by (auto simp: reverses_def quick_def lf)
    have re': "spec_resets d (ms @ [m]) = spec_resets d ms" by (simp add: spec_resets_def b)
    have "th_resets ?st = th_resets st" using False assms(2) by (simp add: count_move_def Let_def lt)
    moreover have "th_events ?st = (if quick d (last ms) m \<and> th_resets st < td_max_resets d
        then th_events st + 1 else th_events st)"
      using False assms(2) r by (auto simp: count_move_def Let_def lt)
    ultimately show ?thesis
      using ms by (simp add: spec_events_def re' b q ev re)
  qed
  with rest show ?thesis by (simp add: reads_as_def)
qed

text \<open>
  The detector counts what it says it counts: after any history of moves, the counters of a component
  depend on its own moves only and are the plain reading of them: the history is cut into bouts at quiet
  epochs, the event counter is the number of quick reversals of the last bout (none once the counters were
  reset as often as allowed) and the reset counter the number of earlier bouts with one, so a component that
  only migrates one way is never declared thrashing.
\<close>

theorem counters_read_the_history:
  assumes "td_state d = []" and "0 \<le> td_max_resets d" and "\<forall>p \<in> set h. mv_time (snd p) \<noteq> 0"
  shows "case dict_get (td_state (replay d h)) n of
      None \<Rightarrow> moves_of n h = []
    | Some st \<Rightarrow> moves_of n h \<noteq> [] \<and> th_events st = spec_events d (moves_of n h) \<and>
        th_resets st = spec_resets d (moves_of n h) \<and> th_moves st = int (length (moves_of n h))"
proof -
  have "case dict_get (td_state (replay d h)) n of
      None \<Rightarrow> moves_of n h = [] | Some st \<Rightarrow> reads_as d (moves_of n h) st" for n
    using assms(3)
  proof (induction h arbitrary: n rule: rev_induct)
    case Nil
    then show ?case using assms(1) by (simp add: moves_of_def)
  next
    case (snoc p h)
    obtain k m where p: "p = (k, m)" by (cases p)
    let ?D = "replay d h"
    let ?st = "case dict_get (td_state ?D) k of None \<Rightarrow> new_thrash_state k (mv_time m) | Some st \<Rightarrow> st"
    have step: "td_state (replay d (h @ [p])) =
        dict_set k (count_move d ?st (mv_from m) (mv_to m) (mv_time m)) (td_state ?D)"
      by (simp add: p replay_append record_move_def Let_def count_move_params [of ?D d])
    show ?case
    proof (cases "k = n")
      case True
      have mo: "moves_of n (h @ [p]) = moves_of n h @ [m]" using True by (simp add: p moves_of_def)
      show ?thesis
      proof (cases "dict_get (td_state ?D) k")
        case None
        with snoc.IH [of n] snoc.prems True have "moves_of n h = []" by simp
        with None True mo reads_as_first [OF assms(2)] show ?thesis by (simp add: step)
      next
        case (Some st)
        with snoc.IH [of n] snoc.prems True have st: "reads_as d (moves_of n h) st" by simp
        then have "last (moves_of n h) \<in> set (moves_of n h)" by (simp add: reads_as_def)
        then have "mv_time (last (moves_of n h)) \<noteq> 0"
          using snoc.prems by (auto simp: moves_of_def)
        from reads_as_step [OF st this assms(2)] Some True mo show ?thesis by (simp add: step)
      qed
    next
      case False
      have mo: "moves_of n (h @ [p]) = moves_of n h" using False by (simp add: p moves_of_def)
      have g: "dict_get (td_state (replay d (h @ [p]))) n = dict_get (td_state ?D) n"
        unfolding step using False by simp
      show ?thesis unfolding mo g using snoc.IH [of n] snoc.prems by simp
    qed
  qed
  from this [of n] show ?thesis by (auto simp: reads_as_def split: option.splits)
qed

definition demo_moves :: "(string \<times> move) list" where
  "demo_moves =
     [(''unet'', \<lparr>mv_from = ''T1'', mv_to = ''T2'', mv_time = 1\<rparr>), (''unet'', \<lparr>mv_from = ''T2'', mv_to = ''T1'', mv_time = 3\<rparr>),
      (''vae'', \<lparr>mv_from = ''T1'', mv_to = ''T2'', mv_time = 4\<rparr>), (''unet'', \<lparr>mv_from = ''T1'', mv_to = ''T2'', mv_time = 6\<rparr>)]"

definition demo_detector :: detector where
  "demo_detector = new_detector (\<lambda>_. None) None None None None"

theorem counters_read_the_history_witness:
  "\<exists>st. dict_get (td_state (replay demo_detector demo_moves)) ''unet'' = Some st \<and> th_events st = 2 \<and> th_moves st = 3"
proof -
  have h: "td_state demo_detector = []" "0 \<le> td_max_resets demo_detector"
    by code_simp+
  have t: "\<forall>p \<in> set demo_moves. mv_time (snd p) \<noteq> 0" by (simp add: demo_moves_def)
  have "dict_get (td_state (replay demo_detector demo_moves)) ''unet'' \<noteq> None"
    "spec_events demo_detector (moves_of ''unet'' demo_moves) = 2" "length (moves_of ''unet'' demo_moves) = 3"
    by code_simp+
  with counters_read_the_history [OF h t, of "''unet''"] show ?thesis by (auto split: option.splits)
qed

end
