(* ===== verification/Model_Tier.thy ===== *)
theory Model_Tier
  imports Evict_Policy Thrash
begin

text \<open>
  The model tier manager of \<^verbatim>\<open>gb_model_tier.py\<close>: the entries, where each module's tensors live, the T3
  checkpoint store, the per-tier eviction controller and the thrash detector that sees every move, with the
  transitions promote, demote, evict, auto-evict, the headroom loop and close.

  torch, the checkpoint serializer, zstd, the KV-cache codec of \<^verbatim>\<open>gb_tier_kv.py\<close>, the card and the clock are
  the parameter \<open>machine\<close>. The headroom loop runs on fuel; \<open>headroom_enough_fuel\<close> gives the fuel it needs.
  A move event keeps what the flight recorder needs to tell the move: the name, the tiers and the time.
\<close>

section \<open>Tiers, modules, checkpoints\<close>

definition T1 :: string where "T1 = ''T1_HBM''"
definition T2 :: string where "T2 = ''T2_DDR''"
definition T3 :: string where "T3 = ''T3_NVME''"

datatype device = Cuda | Cpu | Meta

datatype tier_error = UnknownName string | FileNotFound | MetaTensor | NoDecompressor | OutOfFuel

datatype zstd_backend = ZPy | ZCli | ZNone

text \<open>The opt-in of an entry to KV-cache compression: bits, key prefixes, codec.\<close>

type_synonym kv_opts = "int option \<times> string list option \<times> string option"

record ('sd, 'file) machine =
  mc_now :: pyfloat
  mc_cuda :: bool
  mc_total_bytes :: int
  mc_allocated :: "(oid \<Rightarrow> device) \<Rightarrow> int"
  mc_serialize :: "'sd \<Rightarrow> 'file"
  mc_deserialize :: "'file \<Rightarrow> 'sd"
  mc_zstd :: "'file \<Rightarrow> 'file"
  mc_unzstd :: "'file \<Rightarrow> 'file"
  mc_kv_encode :: "'sd \<Rightarrow> int \<Rightarrow> string list option \<Rightarrow> string option \<Rightarrow> 'sd"
  mc_kv_decode :: "'sd \<Rightarrow> 'sd"
  mc_compress_opt_out :: bool
  mc_has_zstandard :: bool
  mc_has_zstd_cli :: bool
  mc_zstd_cli_works :: bool

record ('sd, 'file) tier_state =
  tm_entries :: "(string, oid) pydict"
  tm_next :: oid
  tm_heap :: heap
  tm_kv :: "oid \<Rightarrow> kv_opts"
  tm_t3_path :: "oid \<Rightarrow> string option"
  tm_device :: "oid \<Rightarrow> device"
  tm_weights :: "oid \<Rightarrow> 'sd"
  tm_files :: "string \<Rightarrow> 'file option"
  tm_ctl :: "lru_policy prio_policy controller"
  tm_thrash :: detector
  tm_log :: "(string \<times> string \<times> string \<times> pyfloat) list"
  tm_headroom_mb :: int
  tm_dir :: string

type_synonym ('sd, 'file) tier_result = "tier_error + ('sd, 'file) tier_state"

abbreviation tier_of :: "('sd, 'file) tier_state \<Rightarrow> oid \<Rightarrow> string" where
  "tier_of s x \<equiv> ev_tier (tm_heap s x)"

definition new_manager :: "int \<Rightarrow> string \<Rightarrow> detector \<Rightarrow> 'sd \<Rightarrow> ('sd, 'file) tier_state" where
  "new_manager headroom dir thrash w =
     \<lparr>tm_entries = [], tm_next = 0, tm_heap = (\<lambda>_. \<lparr>ev_name = [], ev_tier = T1, ev_last_used = 0, ev_priority = 0\<rparr>),
      tm_kv = (\<lambda>_. (None, None, None)), tm_t3_path = (\<lambda>_. None), tm_device = (\<lambda>_. Cpu), tm_weights = (\<lambda>_. w),
      tm_files = (\<lambda>_. None), tm_ctl = [], tm_thrash = thrash, tm_log = [], tm_headroom_mb = headroom, tm_dir = dir\<rparr>"

section \<open>T3 checkpoints\<close>

definition t3_zstd_backend :: "('sd, 'file) machine \<Rightarrow> zstd_backend" where
  "t3_zstd_backend mc =
     (if mc_compress_opt_out mc then ZNone
      else if mc_has_zstandard mc then ZPy
      else if mc_has_zstd_cli mc then ZCli else ZNone)"

text \<open>\<open>_t3_save\<close>: the path written and the files afterwards.\<close>

definition t3_save ::
  "('sd, 'file) machine \<Rightarrow> 'sd \<Rightarrow> string \<Rightarrow> kv_opts \<Rightarrow> (string \<Rightarrow> 'file option) \<Rightarrow> string \<times> (string \<Rightarrow> 'file option)" where
  "t3_save mc state0 base kv files =
     (let state = (case fst kv of None \<Rightarrow> state0
                                | Some bits \<Rightarrow> mc_kv_encode mc state0 bits (fst (snd kv)) (snd (snd kv)));
          zpath = base @ ''.zst''; raw = mc_serialize mc state in
      case t3_zstd_backend mc of
        ZPy \<Rightarrow> (zpath, files(zpath \<mapsto> mc_zstd mc raw))
      | ZCli \<Rightarrow>
          if mc_zstd_cli_works mc then (zpath, files(zpath \<mapsto> mc_zstd mc raw, base := None))
          else (base, files(base \<mapsto> raw, zpath := None))
      | ZNone \<Rightarrow> (base, files(base \<mapsto> raw)))"

definition t3_load_raw :: "('sd, 'file) machine \<Rightarrow> string \<Rightarrow> 'file \<Rightarrow> tier_error + 'sd" where
  "t3_load_raw mc path content =
     (if \<not> ends_with ''.zst'' path then Inr (mc_deserialize mc content)
      else if mc_has_zstandard mc \<or> mc_has_zstd_cli mc then Inr (mc_deserialize mc (mc_unzstd mc content))
      else Inl NoDecompressor)"

definition t3_load :: "('sd, 'file) machine \<Rightarrow> string \<Rightarrow> 'file \<Rightarrow> tier_error + 'sd" where
  "t3_load mc path content = map_sum id (mc_kv_decode mc) (t3_load_raw mc path content)"

section \<open>Transitions\<close>

definition df_emit_tier ::
  "('sd, 'file) machine \<Rightarrow> string \<Rightarrow> string \<Rightarrow> string \<Rightarrow> ('sd, 'file) tier_state \<Rightarrow> ('sd, 'file) tier_state" where
  "df_emit_tier mc name from to s =
     s\<lparr>tm_thrash := record_move (tm_thrash s) name from to (mc_now mc),
       tm_log := tm_log s @ [(name, from, to, mc_now mc)]\<rparr>"

definition set_tier :: "string \<Rightarrow> oid \<Rightarrow> ('sd, 'file) tier_state \<Rightarrow> ('sd, 'file) tier_state" where
  "set_tier t x s = s\<lparr>tm_heap := (tm_heap s)(x := (tm_heap s x)\<lparr>ev_tier := t\<rparr>)\<rparr>"

definition touch :: "('sd, 'file) machine \<Rightarrow> oid \<Rightarrow> ('sd, 'file) tier_state \<Rightarrow> ('sd, 'file) tier_state" where
  "touch mc x s = s\<lparr>tm_heap := (tm_heap s)(x := (tm_heap s x)\<lparr>ev_last_used := mc_now mc\<rparr>)\<rparr>"

definition set_device :: "device \<Rightarrow> oid \<Rightarrow> ('sd, 'file) tier_state \<Rightarrow> ('sd, 'file) tier_state" where
  "set_device d x s = s\<lparr>tm_device := (tm_device s)(x := d)\<rparr>"

text \<open>\<open>self._evict_ctl.retier(e, e.tier, new)\<close> and then \<open>e.tier = new\<close>.\<close>

definition move_tier :: "string \<Rightarrow> oid \<Rightarrow> ('sd, 'file) tier_state \<Rightarrow> ('sd, 'file) tier_state" where
  "move_tier new x s =
     set_tier new x (s\<lparr>tm_ctl := retier plru_ops [] (tm_heap s) (tm_ctl s) x (tier_of s x) new False\<rparr>)"

definition register ::
  "('sd, 'file) machine \<Rightarrow> string \<Rightarrow> 'sd \<Rightarrow> device \<Rightarrow> string \<Rightarrow> kv_opts \<Rightarrow> int option \<Rightarrow>
   ('sd, 'file) tier_state \<Rightarrow> ('sd, 'file) tier_state" where
  "register mc name weights dev tier kv priority s =
     (let x = tm_next s;
          s1 = s\<lparr>tm_next := x + 1,
                 tm_heap := (tm_heap s)(x := \<lparr>ev_name = name, ev_tier = tier, ev_last_used = mc_now mc,
                                             ev_priority = clamp_priority priority\<rparr>),
                 tm_kv := (tm_kv s)(x := kv), tm_t3_path := (tm_t3_path s)(x := None),
                 tm_device := (tm_device s)(x := dev), tm_weights := (tm_weights s)(x := weights)\<rparr>;
          s2 = (case dict_get (tm_entries s1) name of
                  None \<Rightarrow> s1
                | Some prev \<Rightarrow> s1\<lparr>tm_ctl := forget plru_ops [] (tm_heap s1) (tm_ctl s1) prev None\<rparr>)
      in s2\<lparr>tm_entries := dict_set name x (tm_entries s2),
            tm_ctl := schedule_for_eviction plru_ops [] (tm_heap s2) (tm_ctl s2) x False\<rparr>)"

text \<open>A tensor on the meta device has no data, and moving it to the host raises.\<close>

definition demote_entry ::
  "('sd, 'file) machine \<Rightarrow> string \<Rightarrow> oid \<Rightarrow> ('sd, 'file) tier_state \<Rightarrow> ('sd, 'file) tier_result" where
  "demote_entry mc name x s =
     (if tier_of s x = T2 then Inr s
      else if tm_device s x = Meta then Inl MetaTensor
      else Inr (df_emit_tier mc name (tier_of s x) T2
                  (touch mc x (move_tier T2 x (set_device Cpu x s)))))"

definition with_entry ::
  "string \<Rightarrow> (oid \<Rightarrow> ('sd, 'file) tier_result) \<Rightarrow> ('sd, 'file) tier_state \<Rightarrow> ('sd, 'file) tier_result" where
  "with_entry name f s = (case dict_get (tm_entries s) name of None \<Rightarrow> Inl (UnknownName name) | Some x \<Rightarrow> f x)"

definition demote :: "('sd, 'file) machine \<Rightarrow> string \<Rightarrow> ('sd, 'file) tier_state \<Rightarrow> ('sd, 'file) tier_result" where
  "demote mc name s = with_entry name (\<lambda>x. demote_entry mc name x s) s"

definition lru_in_tier :: "string \<Rightarrow> ('sd, 'file) tier_state \<Rightarrow> string option \<times> ('sd, 'file) tier_state" where
  "lru_in_tier tier s =
     (case victim plru_ops [] (tm_heap s) (tm_ctl s) tier of
        (v, ctl) \<Rightarrow> (map_option (\<lambda>x. ev_name (tm_heap s x)) v, s\<lparr>tm_ctl := ctl\<rparr>))"

definition mib :: "int \<Rightarrow> int" where
  "mib n = n div (1024 * 1024)"

definition headroom_ok :: "('sd, 'file) machine \<Rightarrow> ('sd, 'file) tier_state \<Rightarrow> bool" where
  "headroom_ok mc s \<longleftrightarrow> mib (mc_total_bytes mc) - mib (mc_allocated mc (tm_device s)) \<ge> tm_headroom_mb s"

text \<open>\<open>if not lru\<close>: no victim, or a victim whose name is empty.\<close>

fun headroom_loop ::
  "nat \<Rightarrow> ('sd, 'file) machine \<Rightarrow> ('sd, 'file) tier_state \<Rightarrow> ('sd, 'file) tier_result" where
  "headroom_loop 0 mc s = Inl OutOfFuel"
| "headroom_loop (Suc n) mc s =
     (if headroom_ok mc s then Inr s
      else case lru_in_tier T1 s of
          (None, s') \<Rightarrow> Inr s'
        | (Some name, s') \<Rightarrow>
            if name = [] then Inr s'
            else bind_result (demote mc name s') (headroom_loop n mc))"

definition evict_for_headroom ::
  "nat \<Rightarrow> ('sd, 'file) machine \<Rightarrow> ('sd, 'file) tier_state \<Rightarrow> ('sd, 'file) tier_result" where
  "evict_for_headroom n mc s = (if mc_cuda mc then headroom_loop n mc s else Inr s)"

definition load_from_t3 :: "('sd, 'file) machine \<Rightarrow> oid \<Rightarrow> ('sd, 'file) tier_state \<Rightarrow> ('sd, 'file) tier_result" where
  "load_from_t3 mc x s =
     (case tm_t3_path s x of
        None \<Rightarrow> Inl FileNotFound
      | Some path \<Rightarrow>
          if path = [] then Inl FileNotFound
          else case tm_files s path of
            None \<Rightarrow> Inl FileNotFound
          | Some content \<Rightarrow> bind_result (t3_load mc path content)
              (\<lambda>w. Inr (move_tier T2 x (set_device Cpu x (s\<lparr>tm_weights := (tm_weights s)(x := w)\<rparr>)))))"

definition promote_entry ::
  "nat \<Rightarrow> ('sd, 'file) machine \<Rightarrow> string \<Rightarrow> oid \<Rightarrow> ('sd, 'file) tier_state \<Rightarrow> ('sd, 'file) tier_result" where
  "promote_entry n mc name x s =
     (if tier_of s x = T1 then Inr (touch mc x s)
      else let from = tier_of s x in
        bind_result (if from = T3 then load_from_t3 mc x s else Inr s) (\<lambda>s1.
        bind_result (evict_for_headroom n mc s1) (\<lambda>s2.
          if tm_device s2 x = Meta then Inl MetaTensor
          else Inr (df_emit_tier mc name from T1 (touch mc x (move_tier T1 x (set_device Cuda x s2)))))))"

definition promote ::
  "nat \<Rightarrow> ('sd, 'file) machine \<Rightarrow> string \<Rightarrow> ('sd, 'file) tier_state \<Rightarrow> ('sd, 'file) tier_result" where
  "promote n mc name s = with_entry name (\<lambda>x. promote_entry n mc name x s) s"

definition base_path :: "('sd, 'file) tier_state \<Rightarrow> string \<Rightarrow> string" where
  "base_path s name = tm_dir s @ ''/'' @ name @ ''.pt''"

definition evict_entry ::
  "('sd, 'file) machine \<Rightarrow> string \<Rightarrow> oid \<Rightarrow> ('sd, 'file) tier_state \<Rightarrow> ('sd, 'file) tier_result" where
  "evict_entry mc name x s =
     (if tier_of s x = T3 then Inr s
      else let from = tier_of s x in
        bind_result (if from = T1 then demote mc name s else Inr s) (\<lambda>s1.
          case t3_save mc (tm_weights s1 x) (base_path s1 name) (tm_kv s1 x) (tm_files s1) of
            (path, files) \<Rightarrow>
              let s2 = move_tier T3 x (set_device Meta x (s1\<lparr>tm_files := files\<rparr>)) in
              Inr (df_emit_tier mc name from T3 (s2\<lparr>tm_t3_path := (tm_t3_path s2)(x := Some path)\<rparr>))))"

definition evict :: "('sd, 'file) machine \<Rightarrow> string \<Rightarrow> ('sd, 'file) tier_state \<Rightarrow> ('sd, 'file) tier_result" where
  "evict mc name s = with_entry name (\<lambda>x. evict_entry mc name x s) s"

text \<open>\<open>auto_evict\<close>: \<open>pressure\<close> is \<open>None\<close> when the snapshot has no GreenBoost block.\<close>

definition auto_evict ::
  "('sd, 'file) machine \<Rightarrow> pyfloat \<Rightarrow> int option \<Rightarrow> ('sd, 'file) tier_state \<Rightarrow> ('sd, 'file) tier_result" where
  "auto_evict mc fb_used_pct pressure s =
     bind_result
       (if fb_used_pct > 90 then
          (case lru_in_tier T1 s of
             (None, s') \<Rightarrow> Inr s' | (Some name, s') \<Rightarrow> if name = [] then Inr s' else demote mc name s')
        else Inr s)
       (\<lambda>s1. case pressure of None \<Rightarrow> Inr s1 | Some p \<Rightarrow>
          if p \<ge> 2 then
            (case lru_in_tier T2 s1 of
               (None, s') \<Rightarrow> Inr s' | (Some name, s') \<Rightarrow> if name = [] then Inr s' else evict mc name s')
          else Inr s1)"

fun close_loop ::
  "('sd, 'file) machine \<Rightarrow> (string \<times> oid) list \<Rightarrow> ('sd, 'file) tier_state \<Rightarrow> ('sd, 'file) tier_result" where
  "close_loop mc [] s = Inr s"
| "close_loop mc ((name, x) # es) s =
     bind_result (if tier_of s x = T1 then demote mc name s else Inr s) (close_loop mc es)"

definition close :: "('sd, 'file) machine \<Rightarrow> ('sd, 'file) tier_state \<Rightarrow> ('sd, 'file) tier_result" where
  "close mc s = close_loop mc (tm_entries s) s"

section \<open>The manager's invariant\<close>

text \<open>
  Every entry is known by its own name, and the controller tracks exactly the entries of each tier: nothing
  it answers as a victim is stale, and no entry is out of its reach.
\<close>

definition tiers_agree ::
  "(string, oid) pydict \<Rightarrow> oid \<Rightarrow> heap \<Rightarrow> lru_policy prio_policy controller \<Rightarrow> bool" where
  "tiers_agree es next h c \<longleftrightarrow>
     dict_wf es \<and> distinct (dict_values es) \<and> (\<forall>x \<in> set (dict_values es). x < next) \<and>
     (\<forall>n x. (n, x) \<in> set es \<longrightarrow> ev_name (h x) = n \<and> ev_tier (h x) \<in> {T1, T2, T3}) \<and>
     controller_inv (prio_inv lru_ops lru_inv) h c \<and>
     (\<forall>t. tracked plru_ops c t = {x \<in> set (dict_values es). ev_tier (h x) = t})"

definition tm_inv :: "('sd, 'file) tier_state \<Rightarrow> bool" where
  "tm_inv s \<longleftrightarrow> tiers_agree (tm_entries s) (tm_next s) (tm_heap s) (tm_ctl s)"

lemma tier_names_distinct [simp]:
  "T1 \<noteq> T2" "T1 \<noteq> T3" "T2 \<noteq> T3" "T2 \<noteq> T1" "T3 \<noteq> T1" "T3 \<noteq> T2" "T1 \<noteq> []" "T2 \<noteq> []" "T3 \<noteq> []"
  "[] \<noteq> T1" "[] \<noteq> T2" "[] \<noteq> T3"
  by (simp_all add: T1_def T2_def T3_def)

lemma controller_inv_heap:
  assumes "controller_inv (prio_inv lru_ops lru_inv) h c" "\<And>x. x \<in> (\<Union>t. tracked plru_ops c t) \<Longrightarrow> ev_priority (h' x) = ev_priority (h x)"
  shows "controller_inv (prio_inv lru_ops lru_inv) h' c"
  unfolding controller_inv_def
proof (intro conjI allI impI)
  fix t p assume p: "dict_get c t = Some p"
  show "prio_inv lru_ops lru_inv h' p"
  proof (rule plru.inv_heap)
    show "prio_inv lru_ops lru_inv h p" using assms(1) p by (simp add: controller_inv_def)
    fix x assume "x \<in> set (pol_iter plru_ops p)"
    then have "x \<in> tracked plru_ops c t" by (simp add: tracked_def p)
    then show "ev_priority (h' x) = ev_priority (h x)" using assms(2) by blast
  qed
qed (use assms(1) in \<open>simp add: controller_inv_def\<close>)

lemma agree_move:
  assumes "tiers_agree es n h c" "x \<in> set (dict_values es)" "t' \<in> {T1, T2, T3}"
  shows "tiers_agree es n (h(x := (h x)\<lparr>ev_tier := t'\<rparr>)) (retier plru_ops [] h c x (ev_tier (h x)) t' b)"
proof -
  from assms(2) obtain m where "(m, x) \<in> set es" by auto
  with assms(1) have "ev_tier (h x) \<in> {T1, T2, T3}" unfolding tiers_agree_def by blast
  then have t: "ev_tier (h x) \<noteq> []" by auto
  from assms(1) have ci: "controller_inv (prio_inv lru_ops lru_inv) h c"
    and tr: "tracked plru_ops c u = {y \<in> set (dict_values es). ev_tier (h y) = u}" for u
    by (simp_all add: tiers_agree_def)
  note r = tiers.retier_spec [OF ci t, of x t' b]
  let ?h = "h(x := (h x)\<lparr>ev_tier := t'\<rparr>)"
  have "controller_inv (prio_inv lru_ops lru_inv) ?h (retier plru_ops [] h c x (ev_tier (h x)) t' b)"
    by (rule controller_inv_heap [OF r(1)]) simp
  moreover have "tracked plru_ops (retier plru_ops [] h c x (ev_tier (h x)) t' b) u =
      {y \<in> set (dict_values es). ev_tier (?h y) = u}" for u
    unfolding r(2) Let_def using assms(2) by (auto simp: tr)
  moreover have "ev_name (?h y) = m \<and> ev_tier (?h y) \<in> {T1, T2, T3}" if "(m, y) \<in> set es" for m y
    using that assms(1,3) unfolding tiers_agree_def by (cases "y = x") auto
  ultimately show ?thesis
    using assms(1) unfolding tiers_agree_def by blast
qed

lemma agree_touch:
  assumes "tiers_agree es n h c"
  shows "tiers_agree es n (h(x := (h x)\<lparr>ev_last_used := v\<rparr>)) c"
proof -
  define h' where "h' = h(x := (h x)\<lparr>ev_last_used := v\<rparr>)"
  have e: "ev_tier (h' y) = ev_tier (h y)" "ev_name (h' y) = ev_name (h y)" "ev_priority (h' y) = ev_priority (h y)" for y
    by (simp_all add: h'_def)
  have "controller_inv (prio_inv lru_ops lru_inv) h' c"
    by (rule controller_inv_heap [of h]) (use assms in \<open>simp_all add: tiers_agree_def e\<close>)
  with assms show ?thesis unfolding h'_def [symmetric] tiers_agree_def e
    by (elim conjE) (intro conjI, assumption+)
qed

lemma agree_victim:
  assumes "tiers_agree es n h c" "victim plru_ops [] h c t = (v, c')"
  shows "tiers_agree es n h c'" "v = None \<longleftrightarrow> {x \<in> set (dict_values es). ev_tier (h x) = t} = {}"
    "v = Some x \<Longrightarrow> x \<in> set (dict_values es) \<and> ev_tier (h x) = t"
proof -
  from assms(1) have ci: "controller_inv (prio_inv lru_ops lru_inv) h c"
    and tr: "tracked plru_ops c t = {y \<in> set (dict_values es). ev_tier (h y) = t}"
    by (simp_all add: tiers_agree_def)
  note v = tiers.victim_spec [OF ci assms(2)]
  show "tiers_agree es n h c'" using assms(1) v(1,2) by (simp add: tiers_agree_def)
  show "v = None \<longleftrightarrow> {x \<in> set (dict_values es). ev_tier (h x) = t} = {}" using v(3) tr by simp
  show "v = Some x \<Longrightarrow> x \<in> set (dict_values es) \<and> ev_tier (h x) = t" using v(4) [of x] tr by simp
qed

lemma tm_inv_fields [simp]:
  "tm_inv (s\<lparr>tm_device := d\<rparr>) = tm_inv s" "tm_inv (s\<lparr>tm_weights := w\<rparr>) = tm_inv s"
  "tm_inv (s\<lparr>tm_files := f\<rparr>) = tm_inv s" "tm_inv (s\<lparr>tm_t3_path := p\<rparr>) = tm_inv s"
  "tm_inv (df_emit_tier mc n a b s) = tm_inv s" "tm_inv (set_device dv x s) = tm_inv s"
  by (simp_all add: tm_inv_def df_emit_tier_def set_device_def)

lemma tm_inv_touch [simp]: "tm_inv s \<Longrightarrow> tm_inv (touch mc x s)"
  by (simp add: tm_inv_def touch_def agree_touch)

lemma tm_inv_move:
  "tm_inv s \<Longrightarrow> x \<in> snd ` set (tm_entries s) \<Longrightarrow> t \<in> {T1, T2, T3} \<Longrightarrow> tm_inv (move_tier t x s)"
  unfolding tm_inv_def move_tier_def set_tier_def using agree_move by simp

lemma entries_simps [simp]:
  "tm_entries (df_emit_tier mc n a b s) = tm_entries s" "tm_entries (set_device dv x s) = tm_entries s"
  "tm_entries (touch mc x s) = tm_entries s" "tm_entries (move_tier t x s) = tm_entries s"
  by (simp_all add: df_emit_tier_def set_device_def touch_def move_tier_def set_tier_def)

lemma dict_get_value: "dict_get d k = Some x \<Longrightarrow> x \<in> snd ` set d"
  by (force dest: map_of_SomeD)

lemma with_entry_Inr:
  "with_entry name f s = Inr s' \<longleftrightarrow> (\<exists>x. dict_get (tm_entries s) name = Some x \<and> f x = Inr s')"
  by (simp add: with_entry_def split: option.split)

lemma demote_inv:
  assumes "demote mc name s = Inr s'" "tm_inv s"
  shows "tm_inv s' \<and> tm_entries s' = tm_entries s"
proof -
  from assms(1) obtain x where x: "dict_get (tm_entries s) name = Some x" "demote_entry mc name x s = Inr s'"
    by (auto simp: demote_def with_entry_Inr)
  have "tm_inv (move_tier T2 x (set_device Cpu x s))"
    by (rule tm_inv_move) (use assms(2) dict_get_value [OF x(1)] in simp_all)
  with x(2) assms(2) show ?thesis by (auto simp: demote_entry_def split: if_splits)
qed

lemma lru_inv_state:
  assumes "lru_in_tier t s = (v, s')" "tm_inv s"
  shows "tm_inv s'" "tm_entries s' = tm_entries s" "tm_heap s' = tm_heap s"
  using assms agree_victim(1) [of "tm_entries s" "tm_next s" "tm_heap s" "tm_ctl s" t]
  by (auto simp: lru_in_tier_def tm_inv_def split: prod.splits)

lemma headroom_inv:
  "headroom_loop n mc s = Inr s' \<Longrightarrow> tm_inv s \<Longrightarrow> tm_inv s' \<and> tm_entries s' = tm_entries s"
proof (induction n mc s rule: headroom_loop.induct)
  case (2 n mc s)
  obtain v s1 where v: "lru_in_tier T1 s = (v, s1)" by fastforce
  note i = lru_inv_state [OF v "2.prems"(2)]
  show ?case
  proof (cases "headroom_ok mc s \<or> v = None \<or> v = Some []")
    case True
    with "2.prems" v i show ?thesis by (auto split: if_splits)
  next
    case False
    then obtain name where n: "v = Some name" "name \<noteq> []" "\<not> headroom_ok mc s" by auto
    with "2.prems"(1) v obtain s2 where s2: "demote mc name s1 = Inr s2" "headroom_loop n mc s2 = Inr s'"
      by (auto simp: bind_result_Inr_iff)
    from "2.IH" [OF n(3) v [unfolded n(1), symmetric] refl n(2) s2(2)] demote_inv [OF s2(1) i(1)] i(2)
    show ?thesis by simp
  qed
qed simp

lemma load_inv:
  assumes "load_from_t3 mc x s = Inr s'" "tm_inv s" "x \<in> snd ` set (tm_entries s)"
  shows "tm_inv s' \<and> tm_entries s' = tm_entries s"
proof -
  from assms(1) obtain w where "s' = move_tier T2 x (set_device Cpu x (s\<lparr>tm_weights := (tm_weights s)(x := w)\<rparr>))"
    by (auto simp: load_from_t3_def bind_result_Inr_iff split: option.splits if_splits)
  moreover have "tm_inv (move_tier T2 x (set_device Cpu x (s\<lparr>tm_weights := (tm_weights s)(x := w)\<rparr>)))"
    by (rule tm_inv_move) (use assms(2,3) in simp_all)
  ultimately show ?thesis by simp
qed

lemma evict_for_headroom_inv:
  "evict_for_headroom n mc s = Inr s' \<Longrightarrow> tm_inv s \<Longrightarrow> tm_inv s' \<and> tm_entries s' = tm_entries s"
  by (auto simp: evict_for_headroom_def dest: headroom_inv split: if_splits)

lemma promote_inv:
  assumes "promote n mc name s = Inr s'" "tm_inv s"
  shows "tm_inv s' \<and> tm_entries s' = tm_entries s"
proof -
  from assms(1) obtain x where x: "dict_get (tm_entries s) name = Some x" "promote_entry n mc name x s = Inr s'"
    by (auto simp: promote_def with_entry_Inr)
  note m = dict_get_value [OF x(1)]
  show ?thesis
  proof (cases "tier_of s x = T1")
    case True
    with x(2) assms(2) show ?thesis by (auto simp: promote_entry_def)
  next
    case False
    with x(2) obtain s1 s2 where s1: "(if tier_of s x = T3 then load_from_t3 mc x s else Inr s) = Inr s1"
        and s2: "evict_for_headroom n mc s1 = Inr s2"
        and s': "s' = df_emit_tier mc name (tier_of s x) T1 (touch mc x (move_tier T1 x (set_device Cuda x s2)))"
      by (auto simp: promote_entry_def Let_def bind_result_Inr_iff split: if_splits)
    have i1: "tm_inv s1 \<and> tm_entries s1 = tm_entries s" using s1 load_inv [OF _ assms(2) m] assms(2) by (auto split: if_splits)
    then have i2: "tm_inv s2 \<and> tm_entries s2 = tm_entries s" using evict_for_headroom_inv [OF s2] by auto
    have "tm_inv (move_tier T1 x (set_device Cuda x s2))" by (rule tm_inv_move) (use i2 m in simp_all)
    with i2 show ?thesis by (simp add: s')
  qed
qed

lemma evict_inv:
  assumes "evict mc name s = Inr s'" "tm_inv s"
  shows "tm_inv s' \<and> tm_entries s' = tm_entries s"
proof -
  from assms(1) obtain x where x: "dict_get (tm_entries s) name = Some x" "evict_entry mc name x s = Inr s'"
    by (auto simp: evict_def with_entry_Inr)
  note m = dict_get_value [OF x(1)]
  show ?thesis
  proof (cases "tier_of s x = T3")
    case True
    with x(2) assms(2) show ?thesis by (auto simp: evict_entry_def)
  next
    case False
    with x(2) obtain s1 where s1: "(if tier_of s x = T1 then demote mc name s else Inr s) = Inr s1"
        and r: "(case t3_save mc (tm_weights s1 x) (base_path s1 name) (tm_kv s1 x) (tm_files s1) of
            (path, files) \<Rightarrow>
              let s2 = move_tier T3 x (set_device Meta x (s1\<lparr>tm_files := files\<rparr>)) in
              Inr (df_emit_tier mc name (tier_of s x) T3 (s2\<lparr>tm_t3_path := (tm_t3_path s2)(x := Some path)\<rparr>)))
          = (Inr s' :: ('a, 'b) tier_result)"
      by (auto simp: evict_entry_def Let_def bind_result_Inr_iff)
    obtain path files where tf: "t3_save mc (tm_weights s1 x) (base_path s1 name) (tm_kv s1 x) (tm_files s1) = (path, files)"
      by fastforce
    from r have s': "s' = df_emit_tier mc name (tier_of s x) T3
        ((move_tier T3 x (set_device Meta x (s1\<lparr>tm_files := files\<rparr>)))
           \<lparr>tm_t3_path := (tm_t3_path (move_tier T3 x (set_device Meta x (s1\<lparr>tm_files := files\<rparr>))))(x := Some path)\<rparr>)"
      unfolding tf Let_def by simp
    have i: "tm_inv s1 \<and> tm_entries s1 = tm_entries s" using s1 demote_inv [OF _ assms(2)] assms(2) by (auto split: if_splits)
    have "tm_inv (move_tier T3 x (set_device Meta x (s1\<lparr>tm_files := files\<rparr>)))"
      by (rule tm_inv_move) (use i m in simp_all)
    with i show ?thesis by (simp add: s')
  qed
qed

lemma auto_evict_inv:
  assumes "auto_evict mc pct pressure s = Inr s'" "tm_inv s"
  shows "tm_inv s' \<and> tm_entries s' = tm_entries s"
proof -
  let ?step = "\<lambda>t f s. case lru_in_tier t s of
      (None, s') \<Rightarrow> Inr s' | (Some name, s') \<Rightarrow> if name = [] then Inr s' else f name s'"
  have step: "tm_inv b \<and> tm_entries b = tm_entries a"
    if "?step t f a = Inr b" "tm_inv a" "\<And>n c d. f n c = Inr d \<Longrightarrow> tm_inv c \<Longrightarrow> tm_inv d \<and> tm_entries d = tm_entries c"
    for t f a b
  proof -
    obtain v a' where v: "lru_in_tier t a = (v, a')" by fastforce
    note i = lru_inv_state [OF v that(2)]
    show ?thesis using that(1) i that(3) [of _ a' b] by (cases v) (auto simp: v split: if_splits)
  qed
  from assms(1) obtain s1 where s1: "(if pct > 90 then ?step T1 (demote mc) s else Inr s) = Inr s1"
      "(case pressure of None \<Rightarrow> Inr s1 | Some p \<Rightarrow> if p \<ge> 2 then ?step T2 (evict mc) s1 else Inr s1) = Inr s'"
    unfolding auto_evict_def bind_result_Inr_iff by blast
  have i: "tm_inv s1 \<and> tm_entries s1 = tm_entries s"
  proof (cases "pct > 90")
    case True
    with s1(1) have "?step T1 (demote mc) s = Inr s1" by simp
    then show ?thesis using assms(2) by (rule step) (rule demote_inv)
  qed (use s1(1) assms(2) in simp)
  show ?thesis
  proof (cases "?step T2 (evict mc) s1 = Inr s'")
    case True
    have "tm_inv s' \<and> tm_entries s' = tm_entries s1"
      using True conjunct1 [OF i] by (rule step) (rule evict_inv)
    with i show ?thesis by simp
  next
    case False
    with s1(2) i show ?thesis by (auto split: option.splits if_splits)
  qed
qed

lemma close_loop_inv:
  "close_loop mc es s = Inr s' \<Longrightarrow> tm_inv s \<Longrightarrow> tm_inv s' \<and> tm_entries s' = tm_entries s"
proof (induction mc es s rule: close_loop.induct)
  case (2 mc name x es s)
  then obtain s1 where s1: "(if tier_of s x = T1 then demote mc name s else Inr s) = Inr s1" "close_loop mc es s1 = Inr s'"
    by (auto simp: bind_result_Inr_iff)
  have "tm_inv s1 \<and> tm_entries s1 = tm_entries s"
    using s1(1) "2.prems"(2) demote_inv by (auto split: if_splits)
  with "2.IH" [OF s1(2)] show ?case by simp
qed simp

section \<open>Registering\<close>

lemma dict_values_set:
  "dict_wf d \<Longrightarrow> distinct (dict_values d) \<Longrightarrow> v \<notin> snd ` set d \<Longrightarrow> distinct (dict_values (dict_set k v d))"
proof (induction d)
  case (Cons p d)
  have "set (dict_values (dict_set k v d)) \<subseteq> insert v (snd ` set d)"
    using dict_set_set_wf [of d k v] Cons.prems(1) by auto
  with Cons show ?case by (cases p) force
qed simp

lemma register_inv:
  assumes "tm_inv s" "tier \<in> {T1, T2, T3}"
  shows "tm_inv (register mc name w dev tier kv prio s)"
proof -
  let ?x = "tm_next s"
  let ?es = "tm_entries s"
  define h where "h = (tm_heap s)(?x := \<lparr>ev_name = name, ev_tier = tier, ev_last_used = mc_now mc, ev_priority = clamp_priority prio\<rparr>)"
  define old where "old = dict_get ?es name"
  define c where "c = (case old of None \<Rightarrow> tm_ctl s | Some prev \<Rightarrow> forget plru_ops [] h (tm_ctl s) prev None)"
  define es' where "es' = dict_set name ?x ?es"
  from assms(1) have i: "dict_wf ?es" "distinct (dict_values ?es)" "\<forall>x \<in> set (dict_values ?es). x < ?x"
      "controller_inv (prio_inv lru_ops lru_inv) (tm_heap s) (tm_ctl s)"
    and nm: "(n, x) \<in> set ?es \<Longrightarrow> ev_name (tm_heap s x) = n \<and> ev_tier (tm_heap s x) \<in> {T1, T2, T3}"
    and tr: "tracked plru_ops (tm_ctl s) t = {x \<in> set (dict_values ?es). ev_tier (tm_heap s x) = t}" for n x t
    by (simp_all add: tm_inv_def tiers_agree_def)
  have fresh: "?x \<notin> snd ` set ?es" using i(3) by auto
  have old_h: "h y = tm_heap s y" if "y \<in> snd ` set ?es" for y
  proof -
    from that fresh have "y \<noteq> ?x" by metis
    then show ?thesis by (simp add: h_def)
  qed
  have ci: "controller_inv (prio_inv lru_ops lru_inv) h (tm_ctl s)"
    by (rule controller_inv_heap [OF i(4)]) (use tr old_h in auto)
  have trh: "tracked plru_ops (tm_ctl s) t = {x \<in> snd ` set ?es. ev_tier (h x) = t}" for t
    unfolding tr set_map by (rule Collect_cong) (metis old_h)
  have c: "controller_inv (prio_inv lru_ops lru_inv) h c \<and>
      tracked plru_ops c t = {x \<in> snd ` set ?es. ev_tier (h x) = t \<and> Some x \<noteq> old}" for t
  proof (cases old)
    case None
    then show ?thesis using ci trh [of t] by (simp add: c_def)
  next
    case (Some prev)
    then have p: "(name, prev) \<in> set ?es" by (auto simp: old_def dest: map_of_SomeD)
    then have pm: "prev \<in> snd ` set ?es" by force
    have ne: "ev_tier (h prev) \<noteq> []" using nm [OF p] old_h [OF pm] by auto
    show ?thesis
      using tiers.forget_spec [OF ci ne, of prev] tiers.forget_own_tier [of h prev, OF ne] trh
      by (auto simp: c_def Some)
  qed
  have hx: "ev_tier (h ?x) = tier" "ev_name (h ?x) = name" by (simp_all add: h_def)
  have es': "set es' = {p \<in> set ?es. fst p \<noteq> name} \<union> {(name, ?x)}"
    unfolding es'_def by (rule dict_set_set_wf [OF i(1)])
  have vals: "y \<in> snd ` set es' \<longleftrightarrow> y = ?x \<or> y \<in> snd ` set ?es \<and> Some y \<noteq> old" for y
  proof -
    have "Some y \<noteq> old \<longleftrightarrow> n \<noteq> name" if "(n, y) \<in> set ?es" for n
    proof
      assume "n \<noteq> name"
      with nm [OF that] nm [of name y] have "(name, y) \<notin> set ?es" by blast
      then show "Some y \<noteq> old" unfolding old_def by (metis map_of_SomeD)
    qed (use that i(1) in \<open>auto simp: old_def dict_get_of_mem\<close>)
    then show ?thesis unfolding es' by (force simp: image_iff)
  qed
  have "tiers_agree es' (?x + 1) h (schedule_for_eviction plru_ops [] h c ?x False)"
    unfolding tiers_agree_def
  proof (intro conjI)
    show "dict_wf es'" unfolding es'_def by (rule dict_wf_set [OF i(1)])
    show "distinct (dict_values es')" unfolding es'_def by (rule dict_values_set [OF i(1,2) fresh])
    show "\<forall>x \<in> set (dict_values es'). x < ?x + 1" using vals i(3) by fastforce
    show "\<forall>n x. (n, x) \<in> set es' \<longrightarrow> ev_name (h x) = n \<and> ev_tier (h x) \<in> {T1, T2, T3}"
    proof (intro allI impI)
      fix n x assume "(n, x) \<in> set es'"
      then consider "(n, x) \<in> set ?es" | "n = name" "x = ?x" unfolding es' by auto
      then show "ev_name (h x) = n \<and> ev_tier (h x) \<in> {T1, T2, T3}"
      proof cases
        case 1
        then have "x \<in> snd ` set ?es" by force
        with nm [OF 1] old_h show ?thesis by simp
      qed (use hx assms(2) in simp)
    qed
    show "controller_inv (prio_inv lru_ops lru_inv) h (schedule_for_eviction plru_ops [] h c ?x False)"
      using c by (intro tiers.schedule_spec) blast
    show "\<forall>t. tracked plru_ops (schedule_for_eviction plru_ops [] h c ?x False) t =
        {x \<in> set (dict_values es'). ev_tier (h x) = t}"
    proof
      fix t
      have ci': "controller_inv (prio_inv lru_ops lru_inv) h c" using c by blast
      show "tracked plru_ops (schedule_for_eviction plru_ops [] h c ?x False) t =
          {x \<in> set (dict_values es'). ev_tier (h x) = t}"
        unfolding tiers.schedule_spec(2) [OF ci'] using c vals hx by auto
    qed
  qed
  then show ?thesis
    unfolding tm_inv_def register_def Let_def
    by (auto simp: h_def c_def old_def es'_def split: option.splits)
qed

end
