(* ===== verification/Tier_Props.thy ===== *)
theory Tier_Props
  imports Model_Tier
begin

text \<open>
  What the tier manager promises: victims are never stale over any run of operations, the headroom loop ends
  and says why, and a component that went to disk comes back with its weights.
\<close>

section \<open>Runs\<close>

inductive tier_step :: "('sd, 'file) tier_state \<Rightarrow> ('sd, 'file) tier_state \<Rightarrow> bool" where
  do_register: "tier \<in> {T1, T2, T3} \<Longrightarrow> tier_step s (register mc name w dev tier kv prio s)"
| do_promote: "promote n mc name s = Inr s' \<Longrightarrow> tier_step s s'"
| do_demote: "demote mc name s = Inr s' \<Longrightarrow> tier_step s s'"
| do_evict: "evict mc name s = Inr s' \<Longrightarrow> tier_step s s'"
| do_auto_evict: "auto_evict mc pct pressure s = Inr s' \<Longrightarrow> tier_step s s'"
| do_close: "close mc s = Inr s' \<Longrightarrow> tier_step s s'"

lemma tier_step_inv: "tier_step s s' \<Longrightarrow> tm_inv s \<Longrightarrow> tm_inv s'"
  by (induction rule: tier_step.induct)
    (auto simp: register_inv close_def dest: promote_inv demote_inv evict_inv auto_evict_inv close_loop_inv)

lemma new_manager_inv: "tm_inv (new_manager headroom dir th w)"
  by (simp add: tm_inv_def tiers_agree_def new_manager_def controller_inv_def tracked_def)

lemma tier_run_inv: "tier_step\<^sup>*\<^sup>* s s' \<Longrightarrow> tm_inv s \<Longrightarrow> tm_inv s'"
  by (induction rule: rtranclp_induct) (auto intro: tier_step_inv)

text \<open>
  C37. After any run of operations the eviction controller and the entries agree: the victim of a tier is
  always an entry that is in that tier and is known by that name, and there is none only when no entry is in
  the tier.
\<close>

theorem victims_are_never_stale:
  assumes "tier_step\<^sup>*\<^sup>* (new_manager headroom dir th w) s"
  shows "case lru_in_tier t s of
      (None, _) \<Rightarrow> \<forall>x \<in> set (dict_values (tm_entries s)). tier_of s x \<noteq> t
    | (Some name, _) \<Rightarrow> \<exists>x. dict_get (tm_entries s) name = Some x \<and> tier_of s x = t"
proof -
  have i: "tm_inv s" using tier_run_inv [OF assms new_manager_inv] .
  obtain v c where v: "victim plru_ops [] (tm_heap s) (tm_ctl s) t = (v, c)" by fastforce
  note a = agree_victim [OF i [unfolded tm_inv_def] v]
  show ?thesis
  proof (cases v)
    case None
    with a(2) v show ?thesis by (auto simp: lru_in_tier_def)
  next
    case (Some x)
    with a(3) have x: "x \<in> snd ` set (tm_entries s)" "tier_of s x = t" by auto
    then obtain n where n: "(n, x) \<in> set (tm_entries s)" by force
    with i have "ev_name (tm_heap s x) = n" "dict_get (tm_entries s) n = Some x"
      unfolding tm_inv_def tiers_agree_def by (blast, metis dict_get_of_mem)
    with x(2) v Some show ?thesis by (auto simp: lru_in_tier_def)
  qed
qed

section \<open>A small machine for the witnesses\<close>

text \<open>Checkpoints are the weights with a mark for each encoding; the card's use is that of two modules.\<close>

definition demo_machine :: "(nat, nat list) machine" where
  "demo_machine =
     \<lparr>mc_now = 5, mc_cuda = True, mc_total_bytes = 12 * 1024 * 1048576,
      mc_allocated = (\<lambda>dev. (if dev 0 = Cuda then 8 * 1024 * 1048576 else 0) + (if dev 1 = Cuda then 3 * 1024 * 1048576 else 0)),
      mc_serialize = (\<lambda>n. [n]), mc_deserialize = hd, mc_zstd = (\<lambda>f. 0 # f), mc_unzstd = tl,
      mc_kv_encode = (\<lambda>n _ _ _. n), mc_kv_decode = (\<lambda>n. n), mc_compress_opt_out = False,
      mc_has_zstandard = True, mc_has_zstd_cli = False, mc_zstd_cli_works = False\<rparr>"

definition demo_tiers0 :: "(nat, nat list) tier_state" where
  "demo_tiers0 = new_manager 2048 ''/t3'' demo_detector 0"

definition demo_tiers1 :: "(nat, nat list) tier_state" where
  "demo_tiers1 = register demo_machine ''unet'' 7 Cuda T1 (None, None, None) None demo_tiers0"

definition demo_tiers2 :: "(nat, nat list) tier_state" where
  "demo_tiers2 = register demo_machine ''vae'' 9 Cuda T1 (None, None, None) (Some 10) demo_tiers1"

lemma demo_tiers_run: "tier_step\<^sup>*\<^sup>* (new_manager 2048 ''/t3'' demo_detector 0) demo_tiers2"
proof -
  have "tier_step demo_tiers0 demo_tiers1" "tier_step demo_tiers1 demo_tiers2"
    unfolding demo_tiers1_def demo_tiers2_def by (intro do_register; simp)+
  then show ?thesis unfolding demo_tiers0_def by simp
qed

theorem victims_are_never_stale_witness:
  "fst (lru_in_tier T1 demo_tiers2) = Some ''vae'' \<and>
   (\<exists>x. dict_get (tm_entries demo_tiers2) ''vae'' = Some x \<and> tier_of demo_tiers2 x = T1)"
proof -
  have "fst (lru_in_tier T1 demo_tiers2) = Some ''vae''" by code_simp
  with victims_are_never_stale [OF demo_tiers_run, of T1] show ?thesis by (auto split: prod.splits)
qed

section \<open>The headroom loop\<close>

definition in_t1 :: "('sd, 'file) tier_state \<Rightarrow> oid set" where
  "in_t1 s = {x \<in> set (dict_values (tm_entries s)). tier_of s x = T1}"

text \<open>No component on the card is without data or without a name.\<close>

definition t1_sound :: "('sd, 'file) tier_state \<Rightarrow> bool" where
  "t1_sound s \<longleftrightarrow> (\<forall>x \<in> in_t1 s. tm_device s x \<noteq> Meta) \<and> [] \<notin> set (dict_keys (tm_entries s))"

lemma demote_victim:
  assumes "tm_inv s" "t1_sound s" "(name, x) \<in> set (tm_entries s)" "tier_of s x = T1"
  obtains s' where "demote mc name s = Inr s'" "in_t1 s' = in_t1 s - {x}" "t1_sound s'"
    "tm_entries s' = tm_entries s" "tm_inv s'" "tm_headroom_mb s' = tm_headroom_mb s"
    "\<And>y. tier_of s' y = (if y = x then T2 else tier_of s y)"
proof -
  have g: "dict_get (tm_entries s) name = Some x"
    using assms(1,3) by (auto simp: tm_inv_def tiers_agree_def dict_get_of_mem)
  have xv: "x \<in> snd ` set (tm_entries s)" using assms(3) by force
  let ?s' = "df_emit_tier mc name (tier_of s x) T2 (touch mc x (move_tier T2 x (set_device Cpu x s)))"
  have "tm_device s x \<noteq> Meta" using assms(2,4) xv by (auto simp: t1_sound_def in_t1_def)
  then have d: "demote mc name s = Inr ?s'"
    using assms(4) g by (simp add: demote_def with_entry_def demote_entry_def)
  have t: "tier_of ?s' y = (if y = x then T2 else tier_of s y)" for y
    by (simp add: df_emit_tier_def touch_def move_tier_def set_tier_def set_device_def)
  have "in_t1 ?s' = in_t1 s - {x}" unfolding in_t1_def t by auto
  moreover have dev: "tm_device ?s' y = (if y = x then Cpu else tm_device s y)" for y
    by (simp add: df_emit_tier_def touch_def move_tier_def set_tier_def set_device_def)
  have "t1_sound ?s'" using assms(2) calculation unfolding t1_sound_def dev by auto
  moreover have "tm_headroom_mb ?s' = tm_headroom_mb s"
    by (simp add: df_emit_tier_def touch_def move_tier_def set_tier_def set_device_def)
  ultimately show ?thesis using that [OF d] demote_inv [OF d assms(1)] t by blast
qed

lemma lru_in_tier_fields:
  assumes "lru_in_tier t s = (v, s')"
  shows "tm_entries s' = tm_entries s" "tm_heap s' = tm_heap s" "tm_device s' = tm_device s"
    "tm_headroom_mb s' = tm_headroom_mb s"
  using assms by (auto simp: lru_in_tier_def split: prod.splits)

lemma lru_in_tier_Some:
  assumes "lru_in_tier t s = (v, s')" "tm_inv s"
  shows "v = None \<longleftrightarrow> {x \<in> set (dict_values (tm_entries s)). tier_of s x = t} = {}"
    "v = Some name \<Longrightarrow> \<exists>x. (name, x) \<in> set (tm_entries s) \<and> tier_of s x = t"
proof -
  obtain w c where w: "victim plru_ops [] (tm_heap s) (tm_ctl s) t = (w, c)" by fastforce
  note a = agree_victim [OF assms(2) [unfolded tm_inv_def] w]
  from assms(1) w have v: "v = map_option (\<lambda>x. ev_name (tm_heap s x)) w" by (auto simp: lru_in_tier_def)
  show "v = None \<longleftrightarrow> {x \<in> set (dict_values (tm_entries s)). tier_of s x = t} = {}" using a(2) v by simp
  assume "v = Some name"
  then obtain x where x: "w = Some x" "name = ev_name (tm_heap s x)" using v by auto
  then have "x \<in> snd ` set (tm_entries s)" "tier_of s x = t" using a(3) by auto
  then obtain n where "(n, x) \<in> set (tm_entries s)" by force
  moreover from this assms(2) x(2) have "n = name" unfolding tm_inv_def tiers_agree_def by blast
  ultimately show "\<exists>x. (name, x) \<in> set (tm_entries s) \<and> tier_of s x = t" using \<open>tier_of s x = t\<close> by blast
qed

lemma headroom_ends:
  assumes "tm_inv s" "t1_sound s" "card (in_t1 s) < n"
  shows "\<exists>s'. headroom_loop n mc s = Inr s' \<and> (headroom_ok mc s' \<or> in_t1 s' = {}) \<and>
    (\<forall>y. tier_of s' y = tier_of s y \<or> tier_of s y = T1 \<and> tier_of s' y = T2)"
  using assms
proof (induction n arbitrary: s)
  case (Suc n)
  show ?case
  proof (cases "headroom_ok mc s")
    case False
    obtain v s1 where v: "lru_in_tier T1 s = (v, s1)" by fastforce
    note f = lru_in_tier_fields [OF v] and e = lru_in_tier_Some [OF v Suc.prems(1)]
    have i1: "tm_inv s1" using lru_inv_state [OF v Suc.prems(1)] by simp
    have t1: "in_t1 s1 = in_t1 s" "t1_sound s1" using Suc.prems(2) f by (simp_all add: in_t1_def t1_sound_def)
    show ?thesis
    proof (cases v)
      case None
      with e(1) have "in_t1 s1 = {}" unfolding t1 by (simp add: in_t1_def)
      with None False v f show ?thesis by auto
    next
      case (Some name)
      with e(2) obtain x where x: "(name, x) \<in> set (tm_entries s1)" "tier_of s1 x = T1" by (auto simp: f)
      have ne: "name \<noteq> []" using x(1) t1(2) unfolding t1_sound_def by force
      obtain s2 where s2: "demote mc name s1 = Inr s2" "in_t1 s2 = in_t1 s1 - {x}" "t1_sound s2" "tm_inv s2"
          "\<And>y. tier_of s2 y = (if y = x then T2 else tier_of s1 y)"
        using demote_victim [OF i1 t1(2) x, of mc] by metis
      have "x \<in> in_t1 s1" using x by (force simp: in_t1_def)
      moreover have "finite (in_t1 s1)" by (simp add: in_t1_def)
      ultimately have "card (in_t1 s2) < n"
        using Suc.prems(3) unfolding s2(2) t1(1) by (metis Suc_less_eq card_Suc_Diff1)
      from Suc.IH [OF s2(4,3) this] obtain s' where s': "headroom_loop n mc s2 = Inr s'"
          "headroom_ok mc s' \<or> in_t1 s' = {}"
          "\<forall>y. tier_of s' y = tier_of s2 y \<or> tier_of s2 y = T1 \<and> tier_of s' y = T2" by blast
      have "tier_of s' y = tier_of s y \<or> tier_of s y = T1 \<and> tier_of s' y = T2" for y
        using s'(3) s2(5) [of y] x(2) f(2) by (metis tier_names_distinct(1))
      with False v Some ne s2(1) s'(1,2) show ?thesis by auto
    qed
  qed auto
qed simp

text \<open>
  C35. The headroom loop ends: with as many rounds as there are components on the card, and one more, it
  returns; then the headroom is free or no component is left on the card, and all it did to tiers was to
  move components from the card to host memory.
\<close>

theorem headroom_enough_fuel:
  assumes "tm_inv s" and "t1_sound s"
  shows "\<exists>s'. evict_for_headroom (Suc (card (in_t1 s))) mc s = Inr s' \<and>
    (mc_cuda mc \<longrightarrow> headroom_ok mc s' \<or> in_t1 s' = {}) \<and>
    (\<forall>y. tier_of s' y = tier_of s y \<or> tier_of s y = T1 \<and> tier_of s' y = T2)"
  using headroom_ends [OF assms, of "Suc (card (in_t1 s))" mc] by (auto simp: evict_for_headroom_def)

theorem headroom_enough_fuel_witness:
  "\<exists>s'. evict_for_headroom (Suc (card (in_t1 demo_tiers2))) demo_machine demo_tiers2 = Inr s' \<and>
     \<not> headroom_ok demo_machine demo_tiers2 \<and> (headroom_ok demo_machine s' \<or> in_t1 s' = {})"
proof -
  have i: "tm_inv demo_tiers2" using tier_run_inv [OF demo_tiers_run new_manager_inv] .
  have "t1_sound demo_tiers2" "\<not> headroom_ok demo_machine demo_tiers2" "mc_cuda demo_machine" by code_simp+
  with headroom_enough_fuel [OF i] show ?thesis by blast
qed

section \<open>There and back\<close>

text \<open>
  What the manager relies on in \<open>torch.save\<close>, zstd and the KV codec, when one process (\<open>mc\<close>) writes a
  checkpoint and another (\<open>mc'\<close>, whatever its compression setting) reads it.
\<close>

definition codec :: "('sd, 'file) machine \<Rightarrow> ('sd, 'file) machine \<Rightarrow> bool" where
  "codec mc mc' \<longleftrightarrow> (\<forall>w. mc_deserialize mc' (mc_serialize mc w) = w) \<and>
     (\<forall>f. mc_unzstd mc' (mc_zstd mc f) = f) \<and> (\<forall>w. mc_kv_decode mc' w = w) \<and>
     (mc_has_zstandard mc' \<or> mc_has_zstd_cli mc')"

lemma ends_zst: "ends_with ''.zst'' (base @ ''.zst'')"
  by simp

lemma save_then_load:
  assumes "t3_save mc w base kv files = (path, files')" "fst kv = None" "\<not> ends_with ''.zst'' base" "base \<noteq> []"
    and "codec mc mc'"
  shows "\<exists>content. files' path = Some content \<and> t3_load mc' path content = Inr w \<and> path \<noteq> []"
proof (cases "t3_zstd_backend mc = ZPy \<or> t3_zstd_backend mc = ZCli \<and> mc_zstd_cli_works mc")
  case True
  have p: "path = base @ ''.zst''" "files' path = Some (mc_zstd mc (mc_serialize mc w))"
    using assms(1,2) True by (auto simp: t3_save_def Let_def)
  have "t3_load mc' path (mc_zstd mc (mc_serialize mc w)) = Inr w"
    using assms(5) ends_zst [of base] unfolding t3_load_def t3_load_raw_def p(1) codec_def by auto
  with p show ?thesis by simp
next
  case False
  then have p: "path = base" "files' path = Some (mc_serialize mc w)"
    using assms(1,2) by (auto simp: t3_save_def Let_def split: zstd_backend.splits)
  have "t3_load mc' path (mc_serialize mc w) = Inr w"
    using assms(3,5) unfolding t3_load_def t3_load_raw_def p(1) codec_def by auto
  with p assms(4) show ?thesis by simp
qed

lemma demote_fields:
  assumes "demote mc name s = Inr s'"
  shows "tm_weights s' = tm_weights s \<and> tm_kv s' = tm_kv s \<and> tm_files s' = tm_files s \<and> tm_t3_path s' = tm_t3_path s \<and>
    tm_dir s' = tm_dir s \<and> (\<forall>y. tm_device s' y = tm_device s y \<or> tm_device s' y = Cpu)"
proof -
  from assms obtain x where "demote_entry mc name x s = Inr s'" by (auto simp: demote_def with_entry_Inr)
  then show ?thesis
    by (auto simp: demote_entry_def df_emit_tier_def touch_def move_tier_def set_tier_def set_device_def split: if_splits)
qed

lemma headroom_fields:
  "headroom_loop n mc s = Inr s' \<Longrightarrow>
   tm_weights s' = tm_weights s \<and> (\<forall>y. tm_device s' y = tm_device s y \<or> tm_device s' y = Cpu)"
proof (induction n mc s rule: headroom_loop.induct)
  case (2 n mc s)
  obtain v s1 where v: "lru_in_tier T1 s = (v, s1)" by fastforce
  then have f: "tm_weights s1 = tm_weights s" "tm_device s1 = tm_device s" by (auto simp: lru_in_tier_def split: prod.splits)
  show ?case
  proof (cases "headroom_ok mc s \<or> v = None \<or> v = Some []")
    case True
    with "2.prems" v f show ?thesis by (auto split: if_splits)
  next
    case False
    then obtain name where n: "v = Some name" "name \<noteq> []" "\<not> headroom_ok mc s" by auto
    with "2.prems"(1) v obtain s2 where s2: "demote mc name s1 = Inr s2" "headroom_loop n mc s2 = Inr s'"
      by (auto simp: bind_result_Inr_iff)
    from "2.IH" [OF n(3) v [unfolded n(1), symmetric] refl n(2) s2(2)] demote_fields [OF s2(1)] f
    show ?thesis by metis
  qed
qed simp

lemma move_tier_fields [simp]:
  "tm_weights (move_tier t x s) = tm_weights s" "tm_device (move_tier t x s) = tm_device s"
  "tm_files (move_tier t x s) = tm_files s" "tm_t3_path (move_tier t x s) = tm_t3_path s"
  "tm_headroom_mb (move_tier t x s) = tm_headroom_mb s"
  "tier_of (move_tier t x s) y = (if y = x then t else tier_of s y)"
  by (simp_all add: move_tier_def set_tier_def)

lemma emit_touch_fields [simp]:
  "tm_weights (df_emit_tier mc n a b s) = tm_weights s" "tm_device (df_emit_tier mc n a b s) = tm_device s"
  "tm_files (df_emit_tier mc n a b s) = tm_files s" "tm_t3_path (df_emit_tier mc n a b s) = tm_t3_path s"
  "tm_heap (df_emit_tier mc n a b s) = tm_heap s"
  "tm_weights (touch mc x s) = tm_weights s" "tm_device (touch mc x s) = tm_device s"
  "tier_of (touch mc x s) y = tier_of s y"
  "tm_weights (set_device d x s) = tm_weights s" "tm_device (set_device d x s) = (tm_device s)(x := d)"
  "tm_files (set_device d x s) = tm_files s" "tm_t3_path (set_device d x s) = tm_t3_path s"
  "tm_heap (set_device d x s) = tm_heap s"
  by (simp_all add: df_emit_tier_def touch_def set_device_def)

lemma load_spec:
  assumes "tm_t3_path s x = Some path" "path \<noteq> []" "tm_files s path = Some content" "t3_load mc path content = Inr w"
  shows "\<exists>s'. load_from_t3 mc x s = Inr s' \<and> tm_weights s' x = w \<and> tm_device s' = (tm_device s)(x := Cpu) \<and>
    tm_entries s' = tm_entries s \<and> (\<forall>y. tier_of s' y = (if y = x then T2 else tier_of s y))"
  using assms by (simp add: load_from_t3_def)

lemma not_zst: "\<not> ends_with ''.zst'' (u @ ''.pt'')"
proof
  assume "ends_with ''.zst'' (u @ ''.pt'')"
  then obtain a where "u @ ''.pt'' = a @ ''.zst''" by (metis append_take_drop_id)
  from arg_cong [OF this, of rev] show False by simp
qed

lemma evict_spec:
  assumes "evict mc name s = Inr s'" "dict_get (tm_entries s) name = Some x" "tier_of s x \<noteq> T3"
    and "fst (tm_kv s x) = None" "name \<noteq> []" "codec mc mc'"
  shows "\<exists>path content. tm_t3_path s' x = Some path \<and> path \<noteq> [] \<and> tm_files s' path = Some content \<and>
    t3_load mc' path content = Inr (tm_weights s x) \<and> tier_of s' x = T3 \<and>
    (\<forall>y. y \<noteq> x \<longrightarrow> tier_of s' y = tier_of s y \<and> (tm_device s' y = tm_device s y \<or> tm_device s' y = Cpu))"
proof -
  from assms(1,2) have e: "evict_entry mc name x s = Inr s'" by (simp add: evict_def with_entry_def)
  with assms(3) obtain s1 where s1: "(if tier_of s x = T1 then demote mc name s else Inr s) = Inr s1"
      and r: "(case t3_save mc (tm_weights s1 x) (base_path s1 name) (tm_kv s1 x) (tm_files s1) of
          (path, files) \<Rightarrow>
            let s2 = move_tier T3 x (set_device Meta x (s1\<lparr>tm_files := files\<rparr>)) in
            Inr (df_emit_tier mc name (tier_of s x) T3 (s2\<lparr>tm_t3_path := (tm_t3_path s2)(x := Some path)\<rparr>)))
        = (Inr s' :: ('a, 'b) tier_result)"
    by (auto simp: evict_entry_def Let_def bind_result_Inr_iff)
  obtain path files where tf: "t3_save mc (tm_weights s1 x) (base_path s1 name) (tm_kv s1 x) (tm_files s1) = (path, files)"
    by fastforce
  from r have s': "s' = df_emit_tier mc name (tier_of s x) T3
      ((move_tier T3 x (set_device Meta x (s1\<lparr>tm_files := files\<rparr>)))
         \<lparr>tm_t3_path := (tm_t3_path (move_tier T3 x (set_device Meta x (s1\<lparr>tm_files := files\<rparr>))))(x := Some path)\<rparr>)"
    unfolding tf Let_def by simp
  have k: "tm_weights s1 = tm_weights s" "tm_kv s1 = tm_kv s"
    "\<forall>y. tm_device s1 y = tm_device s y \<or> tm_device s1 y = Cpu"
    using s1 demote_fields [of mc name s s1] by (auto split: if_splits)
  have t: "tier_of s1 y = tier_of s y" if "y \<noteq> x" for y
    using s1 that assms(2)
    by (auto simp: demote_def with_entry_def demote_entry_def split: if_splits)
  have b: "\<not> ends_with ''.zst'' (base_path s1 name)" "base_path s1 name \<noteq> []"
    using not_zst [of "tm_dir s1 @ ''/'' @ name"] by (simp_all add: base_path_def)
  have "fst (tm_kv s1 x) = None" using assms(4) k(2) by simp
  from save_then_load [OF tf this b assms(6)] k(1)
  obtain content where "files path = Some content" "t3_load mc' path content = Inr (tm_weights s x)" "path \<noteq> []" by auto
  then show ?thesis using k(3) t by (auto simp: s')
qed



end
