(* ===== verification/Prefix_Guard.thy ===== *)
theory Prefix_Guard
  imports GB_Prelude
begin

text \<open>
  The prefix guard of \<^verbatim>\<open>gb_prefix_guard.py\<close>: the radix tree of conversations over chunk digests, with insert,
  longest match and remove, and the accounting of a proposed compaction. The mutable tree is a datatype; an
  optional token list is consumed along the digests, so a position past its end is an empty rest.
\<close>

definition BROKE_PREFIX_PCT :: pyfloat where "BROKE_PREFIX_PCT = 50"

fun common_prefix_len :: "'a list \<Rightarrow> 'a list \<Rightarrow> nat" where
  "common_prefix_len (x # xs) (y # ys) = (if x \<noteq> y then 0 else Suc (common_prefix_len xs ys))"
| "common_prefix_len _ _ = 0"

section \<open>The tree\<close>

datatype ptree = PNode (pt_children: "(string \<times> ptree) list") (pt_keys: "string list") (pt_tokens: int)

definition pt_empty :: ptree where
  "pt_empty = PNode [] [] 0"

record reuse_match =
  rm_key :: string
  rm_chunks :: nat
  rm_tokens :: int
  rm_total_chunks :: nat
  rm_total_tokens :: int

definition coverage_pct :: "reuse_match \<Rightarrow> pyfloat" where
  "coverage_pct m = (if rm_total_tokens m \<noteq> 0 then 100 * of_int (rm_tokens m) / of_int (rm_total_tokens m) else 0)"

definition match_as_dict :: "reuse_match \<Rightarrow> string \<times> nat \<times> int \<times> nat \<times> int \<times> pyfloat" where
  "match_as_dict m = (rm_key m, rm_chunks m, rm_tokens m, rm_total_chunks m, rm_total_tokens m,
     py_round_n 1 (coverage_pct m))"

text \<open>The head of the token list, when there is one, and its rest.\<close>

definition token_here :: "int list option \<Rightarrow> int option" where
  "token_here ts = (case ts of Some (n # _) \<Rightarrow> Some n | _ \<Rightarrow> None)"

definition tokens_rest :: "int list option \<Rightarrow> int list option" where
  "tokens_rest ts = map_option tl ts"

definition set_tokens :: "int list option \<Rightarrow> ptree \<Rightarrow> ptree" where
  "set_tokens ts c = (case token_here ts of None \<Rightarrow> c | Some n \<Rightarrow> PNode (pt_children c) (pt_keys c) n)"

fun insert_key :: "string \<Rightarrow> string list \<Rightarrow> int list option \<Rightarrow> ptree \<Rightarrow> ptree" where
  "insert_key key [] ts (PNode cs ks n) = PNode cs (if key \<in> set ks then ks else ks @ [key]) n"
| "insert_key key (d # ds) ts (PNode cs ks n) =
     (let child = (case dict_get cs d of None \<Rightarrow> pt_empty | Some c \<Rightarrow> c)
      in PNode (dict_set d (insert_key key ds (tokens_rest ts) (set_tokens ts child)) cs) ks n)"

text \<open>\<open>_first_key_below\<close>: an empty key counts as none.\<close>

fun first_key_below :: "ptree \<Rightarrow> string" and first_key_among :: "(string \<times> ptree) list \<Rightarrow> string" where
  "first_key_below (PNode cs ks n) = (if ks \<noteq> [] then hd ks else first_key_among cs)"
| "first_key_among [] = []"
| "first_key_among ((d, c) # cs) = (let k = first_key_below c in if k \<noteq> [] then k else first_key_among cs)"

fun sum_tokens :: "ptree \<Rightarrow> string list \<Rightarrow> int" where
  "sum_tokens t [] = 0"
| "sum_tokens t (d # ds) =
     (case dict_get (pt_children t) d of None \<Rightarrow> 0 | Some c \<Rightarrow> pt_tokens c + sum_tokens c ds)"

text \<open>The walk of \<open>longest_match\<close>: the last node, the chunks and tokens matched, the last key met.\<close>

fun match_walk :: "ptree \<Rightarrow> string list \<Rightarrow> int list option \<Rightarrow> nat \<Rightarrow> int \<Rightarrow> string \<Rightarrow> ptree \<times> nat \<times> int \<times> string" where
  "match_walk node [] ts m mt best = (node, m, mt, best)"
| "match_walk node (d # ds) ts m mt best =
     (case dict_get (pt_children node) d of
        None \<Rightarrow> (node, m, mt, best)
      | Some c \<Rightarrow> match_walk c ds (tokens_rest ts) (Suc m)
          (mt + (case token_here ts of Some n \<Rightarrow> n | None \<Rightarrow> pt_tokens c))
          (if pt_keys c \<noteq> [] then hd (pt_keys c) else best))"

definition longest_match :: "ptree \<Rightarrow> string list \<Rightarrow> int list option \<Rightarrow> reuse_match" where
  "longest_match t ds ts =
     (case match_walk t ds ts 0 0 [] of (node, m, mt, best) \<Rightarrow>
        \<lparr>rm_key = (if best = [] then first_key_below node else best), rm_chunks = m, rm_tokens = mt,
         rm_total_chunks = length ds,
         rm_total_tokens = (case ts of Some ns \<Rightarrow> sum_list ns | None \<Rightarrow> sum_tokens t ds)\<rparr>)"

text \<open>\<open>remove\<close>: \<open>None\<close> where the source returns early because the path does not exist.\<close>

fun remove_path :: "string \<Rightarrow> string list \<Rightarrow> ptree \<Rightarrow> ptree option" where
  "remove_path key [] (PNode cs ks n) = Some (PNode cs (remove1 key ks) n)"
| "remove_path key (d # ds) (PNode cs ks n) =
     (case dict_get cs d of
        None \<Rightarrow> None
      | Some c \<Rightarrow> map_option
          (\<lambda>c'. PNode (if pt_children c' = [] \<and> pt_keys c' = [] then dict_del d cs else dict_set d c' cs) ks n)
          (remove_path key ds c))"

definition remove_key :: "string \<Rightarrow> string list \<Rightarrow> ptree \<Rightarrow> ptree" where
  "remove_key key ds t = (case remove_path key ds t of None \<Rightarrow> t | Some t' \<Rightarrow> t')"

fun tree_len :: "ptree \<Rightarrow> nat" and forest_len :: "(string \<times> ptree) list \<Rightarrow> nat" where
  "tree_len (PNode cs ks n) = length ks + forest_len cs"
| "forest_len [] = 0"
| "forest_len ((d, c) # cs) = tree_len c + forest_len cs"

section \<open>Compaction accounting\<close>

record verdict =
  cv_pct :: pyfloat
  cv_kept_chunks :: nat
  cv_prev_chunks :: nat
  cv_kept_tokens :: int
  cv_prev_tokens :: int
  cv_broke :: bool
  cv_threshold :: pyfloat
  cv_tokens_lost :: int

definition assess_compaction :: "string list \<Rightarrow> string list \<Rightarrow> int list option \<Rightarrow> pyfloat \<Rightarrow> verdict" where
  "assess_compaction prev new prev_tokens threshold =
     (let kept = common_prefix_len prev new; n = length prev;
          toks = (case prev_tokens of None \<Rightarrow> replicate n 1 | Some ts \<Rightarrow> ts);
          total = sum_list (take n toks); kept_tok = sum_list (take kept toks);
          pct = (if n \<noteq> 0 then 100 * of_nat kept / of_nat n else 100)
      in \<lparr>cv_pct = pct, cv_kept_chunks = kept, cv_prev_chunks = n, cv_kept_tokens = kept_tok,
          cv_prev_tokens = total, cv_broke = (n \<noteq> 0 \<and> pct < threshold), cv_threshold = threshold,
          cv_tokens_lost = max 0 (total - kept_tok)\<rparr>)"

datatype explanation = NoPriorTurn | Preserved pyfloat nat nat | Broken pyfloat nat nat int

definition explain :: "verdict \<Rightarrow> explanation" where
  "explain v =
     (if cv_prev_chunks v = 0 then NoPriorTurn
      else if \<not> cv_broke v then Preserved (cv_pct v) (cv_kept_chunks v) (cv_prev_chunks v)
      else Broken (cv_pct v) (cv_kept_chunks v) (cv_prev_chunks v) (cv_tokens_lost v))"

definition verdict_as_dict :: "verdict \<Rightarrow> pyfloat \<times> nat \<times> nat \<times> int \<times> int \<times> int \<times> bool \<times> pyfloat" where
  "verdict_as_dict v = (py_round_n 1 (cv_pct v), cv_kept_chunks v, cv_prev_chunks v, cv_kept_tokens v,
     cv_prev_tokens v, cv_tokens_lost v, cv_broke v, cv_threshold v)"

text \<open>A chunk's \<open>tokens\<close> and \<open>n_tokens\<close>, when it has them; 0 is as good as absent.\<close>

record guard_chunk =
  gc_digest :: string
  gc_tokens :: "int option"
  gc_n_tokens :: "int option"

definition truthy :: "int option \<Rightarrow> int option" where
  "truthy v = (case v of None \<Rightarrow> None | Some n \<Rightarrow> if n = 0 then None else Some n)"

definition chunk_tokens :: "guard_chunk \<Rightarrow> int" where
  "chunk_tokens c = (case truthy (gc_tokens c) of Some n \<Rightarrow> n
     | None \<Rightarrow> (case truthy (gc_n_tokens c) of Some n \<Rightarrow> n | None \<Rightarrow> 1))"

definition verdict_from_chunks ::
  "guard_chunk list \<Rightarrow> guard_chunk list \<Rightarrow> pyfloat \<Rightarrow> (guard_chunk \<Rightarrow> int) \<Rightarrow> verdict" where
  "verdict_from_chunks prev new threshold tokens_of =
     assess_compaction (map gc_digest prev) (map gc_digest new) (Some (map tokens_of prev)) threshold"

section \<open>The tree as a multimap\<close>

fun keys_at :: "string list \<Rightarrow> ptree \<Rightarrow> string list" where
  "keys_at [] t = pt_keys t"
| "keys_at (d # ds) t = (case dict_get (pt_children t) d of None \<Rightarrow> [] | Some c \<Rightarrow> keys_at ds c)"

definition stored :: "ptree \<Rightarrow> (string \<times> string list) set" where
  "stored t = {(k, ds). k \<in> set (keys_at ds t)}"

text \<open>No digest twice below a node, no key twice at one, and no dead branch.\<close>

definition dead :: "ptree \<Rightarrow> bool" where
  "dead t \<longleftrightarrow> pt_children t = [] \<and> pt_keys t = []"

inductive pruned :: "ptree \<Rightarrow> bool" where
  pruned_node: "dict_wf cs \<Longrightarrow> distinct ks \<Longrightarrow> (\<And>c. c \<in> set (dict_values cs) \<Longrightarrow> pruned c \<and> \<not> dead c) \<Longrightarrow> pruned (PNode cs ks n)"

inductive_cases pruned_PNodeE: "pruned (PNode cs ks n)"
inductive_simps pruned_PNode_iff: "pruned (PNode cs ks n)"

lemma pruned_empty [simp]: "pruned pt_empty"
  by (simp add: pt_empty_def pruned_PNode_iff)

lemma keys_at_empty [simp]: "keys_at ds pt_empty = []"
  by (cases ds) (simp_all add: pt_empty_def)

lemma keys_at_set_tokens [simp]: "keys_at ds (set_tokens ts c) = keys_at ds c"
  by (cases ds) (simp_all add: set_tokens_def split: option.split)

lemma keys_at_insert:
  "keys_at ds' (insert_key key ds ts t) =
     (if ds' = ds then (if key \<in> set (keys_at ds t) then keys_at ds t else keys_at ds t @ [key]) else keys_at ds' t)"
proof (induction key ds ts t arbitrary: ds' rule: insert_key.induct)
  case (1 key ts cs ks n)
  then show ?case by (cases ds') auto
next
  case (2 key d ds ts cs ks n)
  show ?case by (cases ds') (auto simp: "2.IH" [OF refl] Let_def split: option.splits)
qed

lemma pruned_set_tokens [simp]: "pruned (set_tokens ts c) = pruned c"
  by (cases c) (simp add: set_tokens_def pruned_PNode_iff split: option.split)

lemma insert_alive: "\<not> dead (insert_key key ds ts t)"
proof (cases t)
  case (PNode cs ks n)
  have "dict_set d v cs \<noteq> []" for d v by (cases cs) auto
  then show ?thesis by (cases ds) (auto simp: PNode dead_def Let_def)
qed

lemma pruned_insert: "pruned t \<Longrightarrow> pruned (insert_key key ds ts t)"
proof (induction key ds ts t rule: insert_key.induct)
  case (1 key ts cs ks n)
  then show ?case by (auto simp: pruned_PNode_iff)
next
  case (2 key d ds ts cs ks n)
  let ?c = "case dict_get cs d of None \<Rightarrow> pt_empty | Some c \<Rightarrow> c"
  have wf: "dict_wf cs" using "2.prems" by (simp add: pruned_PNode_iff)
  have "pruned ?c"
    using "2.prems" by (auto simp: pruned_PNode_iff split: option.split dest!: map_of_SomeD intro: rev_image_eqI)
  then have "pruned (insert_key key ds (tokens_rest ts) (set_tokens ts ?c))" by (intro "2.IH") simp_all
  with "2.prems" insert_alive show ?case
    by (auto simp: pruned_PNode_iff Let_def dict_set_set_wf [OF wf])
qed

lemma keys_at_dead: "dead t \<Longrightarrow> keys_at ds t = []"
  by (cases ds) (simp_all add: dead_def)

lemma remove_path_None: "remove_path key ds t = None \<Longrightarrow> keys_at ds t = []"
  by (induction key ds t rule: remove_path.induct) (auto split: option.splits)

lemma remove_path_Some:
  "remove_path key ds t = Some t' \<Longrightarrow>
   keys_at ds' t' = (if ds' = ds then remove1 key (keys_at ds t) else keys_at ds' t)"
proof (induction key ds t arbitrary: ds' t' rule: remove_path.induct)
  case (1 key cs ks n)
  then show ?case by (cases ds') auto
next
  case (2 key d ds cs ks n)
  then obtain c c' where c: "dict_get cs d = Some c" "remove_path key ds c = Some c'"
      "t' = PNode (if pt_children c' = [] \<and> pt_keys c' = [] then dict_del d cs else dict_set d c' cs) ks n"
    by (auto split: option.splits)
  note ih = "2.IH" [OF c(1,2)]
  show ?case
  proof (cases ds')
    case Nil
    with c(3) show ?thesis by simp
  next
    case (Cons e es)
    show ?thesis
    proof (cases "e = d")
      case True
      have "keys_at es c' = []" if "dead c'" using that by (rule keys_at_dead)
      with ih [of es] True c Cons show ?thesis by (auto simp: dead_def)
    next
      case False
      with c Cons show ?thesis by simp
    qed
  qed
qed

lemma keys_at_remove:
  "keys_at ds' (remove_key key ds t) = (if ds' = ds then remove1 key (keys_at ds t) else keys_at ds' t)"
  by (cases "remove_path key ds t") (auto simp: remove_key_def remove_path_Some dest: remove_path_None)

lemma pruned_remove_path: "remove_path key ds t = Some t' \<Longrightarrow> pruned t \<Longrightarrow> pruned t'"
proof (induction key ds t arbitrary: t' rule: remove_path.induct)
  case (1 key cs ks n)
  then show ?case by (auto simp: pruned_PNode_iff)
next
  case (2 key d ds cs ks n)
  then obtain c c' where c: "dict_get cs d = Some c" "remove_path key ds c = Some c'"
      "t' = PNode (if dead c' then dict_del d cs else dict_set d c' cs) ks n"
    by (auto simp: dead_def split: option.splits)
  have wf: "dict_wf cs" "distinct ks" and sub: "x \<in> snd ` set cs \<Longrightarrow> pruned x \<and> \<not> dead x" for x
    using "2.prems"(2) by (auto simp: pruned_PNode_iff)
  have "c \<in> snd ` set cs" using c(1) by (force dest: map_of_SomeD)
  then have "pruned c'" using "2.IH" [OF c(1,2)] sub by blast
  with wf sub show ?case
    by (auto simp: c(3) pruned_PNode_iff dict_set_set_wf [OF wf(1)] dict_del_set)
qed

lemma pruned_remove: "pruned t \<Longrightarrow> pruned (remove_key key ds t)"
  by (cases "remove_path key ds t") (auto simp: remove_key_def pruned_remove_path)

lemma distinct_keys_at: "pruned t \<Longrightarrow> distinct (keys_at ds t)"
proof (induction ds arbitrary: t)
  case Nil
  then show ?case by (cases t) (simp add: pruned_PNode_iff)
next
  case (Cons d ds)
  show ?case
  proof (cases "dict_get (pt_children t) d")
    case (Some c)
    then have "c \<in> snd ` set (pt_children t)" by (force dest: map_of_SomeD)
    with Cons.prems have "pruned c" by (cases t) (auto simp: pruned_PNode_iff)
    with Some Cons.IH show ?thesis by simp
  qed simp
qed

text \<open>Trees that the operations can build.\<close>

inductive built :: "ptree \<Rightarrow> bool" where
  built_empty: "built pt_empty"
| built_insert: "built t \<Longrightarrow> built (insert_key key ds ts t)"
| built_remove: "built t \<Longrightarrow> built (remove_key key ds t)"

lemma built_pruned: "built t \<Longrightarrow> pruned t"
  by (induction rule: built.induct) (auto intro: pruned_insert pruned_remove)

text \<open>
  The tree is a multimap from digest sequences to conversation keys: insert adds exactly one binding,
  remove takes exactly that one away and leaves no dead branch, so inserting a new conversation and removing
  it again gives back the same bindings; a path that does not exist changes nothing.
\<close>

theorem tree_is_a_multimap:
  assumes "built t"
  shows "stored (insert_key key ds ts t) = insert (key, ds) (stored t) \<and>
    stored (remove_key key ds t) = stored t - {(key, ds)} \<and>
    ((key, ds) \<notin> stored t \<longrightarrow> stored (remove_key key ds (insert_key key ds ts t)) = stored t) \<and>
    pruned (remove_key key ds t)"
proof -
  have ins: "stored (insert_key key ds ts t) = insert (key, ds) (stored t)" for t ts
    by (auto simp: stored_def keys_at_insert split: if_splits)
  have rem: "stored (remove_key key ds t) = stored t - {(key, ds)}" if "pruned t" for t
    using distinct_keys_at [OF that] by (auto simp: stored_def keys_at_remove split: if_splits)
  note p = built_pruned [OF assms]
  from ins rem [OF p] rem [OF pruned_insert [OF p]] pruned_remove [OF p] show ?thesis by auto
qed

definition demo_tree :: ptree where
  "demo_tree = insert_key ''b'' [''x'', ''y'', ''z''] (Some [10, 20, 30]) (insert_key ''a'' [''x''] (Some [10]) pt_empty)"

lemma demo_tree_built: "built demo_tree"
  unfolding demo_tree_def by (intro built.intros)

theorem tree_is_a_multimap_witness:
  "stored (remove_key ''a'' [''x''] demo_tree) = stored demo_tree - {(''a'', [''x''])} \<and>
   keys_at [''x''] demo_tree = [''a'']"
proof -
  have "keys_at [''x''] demo_tree = [''a'']" by code_simp
  with tree_is_a_multimap [OF demo_tree_built, of "''a''" "[''x'']"] show ?thesis by blast
qed

section \<open>The longest match\<close>

fun depth :: "string list \<Rightarrow> ptree \<Rightarrow> nat" where
  "depth [] t = 0"
| "depth (d # ds) t = (case dict_get (pt_children t) d of None \<Rightarrow> 0 | Some c \<Rightarrow> Suc (depth ds c))"

lemma match_walk_depth: "fst (snd (match_walk t ds ts m mt best)) = m + depth ds t"
  by (induction t ds ts m mt best rule: match_walk.induct) (auto split: option.split)

lemma stored_within_depth: "k \<in> set (keys_at s t) \<Longrightarrow> common_prefix_len ds s \<le> depth ds t"
proof (induction ds arbitrary: s t)
  case (Cons d ds)
  then show ?case by (cases s) (auto split: option.splits)
qed simp

lemma alive_stores: "pruned t \<Longrightarrow> \<not> dead t \<Longrightarrow> \<exists>k s. k \<in> set (keys_at s t)"
proof (induction t rule: pruned.induct)
  case (pruned_node cs ks n)
  show ?case
  proof (cases "ks = []")
    case True
    with pruned_node.prems obtain d c where c: "(d, c) \<in> set cs" by (cases cs) (auto simp: dead_def)
    then have "c \<in> set (dict_values cs)" by force
    with pruned_node.IH obtain k s where "k \<in> set (keys_at s c)" by blast
    then have "k \<in> set (keys_at (d # s) (PNode cs ks n))"
      using dict_get_of_mem [OF pruned_node.hyps(1) c] by simp
    then show ?thesis by blast
  next
    case False
    then have "hd ks \<in> set (keys_at [] (PNode cs ks n))" by simp
    then show ?thesis by blast
  qed
qed

lemma depth_reached:
  "pruned t \<Longrightarrow> \<not> dead t \<Longrightarrow> \<exists>k s. k \<in> set (keys_at s t) \<and> depth ds t \<le> common_prefix_len ds s"
proof (induction ds arbitrary: t)
  case Nil
  then show ?case using alive_stores by fastforce
next
  case (Cons d ds)
  show ?case
  proof (cases "dict_get (pt_children t) d")
    case None
    then show ?thesis using alive_stores [OF Cons.prems] by auto
  next
    case (Some c)
    then have "c \<in> snd ` set (pt_children t)" by (force dest: map_of_SomeD)
    with Cons.prems(1) have "pruned c" "\<not> dead c" by (cases t; auto simp: pruned_PNode_iff)+
    from Cons.IH [OF this] obtain k s where "k \<in> set (keys_at s c)" "depth ds c \<le> common_prefix_len ds s" by blast
    then have "k \<in> set (keys_at (d # s) t)" "depth (d # ds) t \<le> common_prefix_len (d # ds) (d # s)"
      using Some by auto
    then show ?thesis by blast
  qed
qed

text \<open>
  The longest match is exact: on a tree that the operations built, the number of matched chunks is the
  longest prefix the query shares with any stored conversation, as \<open>common_prefix_len\<close> counts it: no stored
  conversation shares more, and some stored conversation shares exactly that many.
\<close>

theorem longest_match_exact:
  assumes "built t" and "(k0, s0) \<in> stored t"
  shows "(\<forall>k s. (k, s) \<in> stored t \<longrightarrow> common_prefix_len ds s \<le> rm_chunks (longest_match t ds ts)) \<and>
    (\<exists>k s. (k, s) \<in> stored t \<and> common_prefix_len ds s = rm_chunks (longest_match t ds ts))"
proof -
  have d: "rm_chunks (longest_match t ds ts) = depth ds t"
    using match_walk_depth [of t ds ts 0 0 "[]"] by (auto simp: longest_match_def split: prod.splits)
  have "\<not> dead t"
  proof
    assume "dead t"
    then have "keys_at s0 t = []" by (rule keys_at_dead)
    with assms(2) show False by (simp add: stored_def)
  qed
  with depth_reached [OF built_pruned [OF assms(1)], of ds]
  obtain k s where k: "k \<in> set (keys_at s t)" "depth ds t \<le> common_prefix_len ds s" by blast
  with stored_within_depth [OF k(1), of ds] have "common_prefix_len ds s = depth ds t" by simp
  with k(1) stored_within_depth show ?thesis unfolding d stored_def by blast
qed

theorem longest_match_exact_witness:
  "rm_chunks (longest_match demo_tree [''x'', ''y'', ''w''] None) = 2 \<and>
   (\<exists>k s. (k, s) \<in> stored demo_tree \<and> common_prefix_len [''x'', ''y'', ''w''] s = 2)"
proof -
  have "''b'' \<in> set (keys_at [''x'', ''y'', ''z''] demo_tree)"
    and m: "rm_chunks (longest_match demo_tree [''x'', ''y'', ''w''] None) = 2" by code_simp+
  then have "(''b'', [''x'', ''y'', ''z'']) \<in> stored demo_tree" by (simp add: stored_def)
  from longest_match_exact [OF demo_tree_built this, of "[''x'', ''y'', ''w'']" None] m show ?thesis by auto
qed

text \<open>
  The key that the match names need not own the matched prefix: the last key met on the path wins over the
  conversation that was matched further down.
\<close>

lemma match_names_shorter_conversation:
  "rm_chunks (longest_match demo_tree [''x'', ''y''] None) = 2"
  "rm_key (longest_match demo_tree [''x'', ''y''] None) = ''a''"
  "(''a'', s) \<in> stored demo_tree \<Longrightarrow> common_prefix_len [''x'', ''y''] s < 2"
proof -
  show "rm_chunks (longest_match demo_tree [''x'', ''y''] None) = 2"
    "rm_key (longest_match demo_tree [''x'', ''y''] None) = ''a''" by code_simp+
  assume "(''a'', s) \<in> stored demo_tree"
  then have "s = [''x'']"
    by (simp add: stored_def demo_tree_def keys_at_insert split: if_splits)
  then show "common_prefix_len [''x'', ''y''] s < 2" by simp
qed

section \<open>What a compaction costs\<close>

lemma common_prefix_take: "take (common_prefix_len a b) a = take (common_prefix_len a b) b"
  by (induction a b rule: common_prefix_len.induct) auto

lemma common_prefix_bounds: "common_prefix_len a b \<le> length a" "common_prefix_len a b \<le> length b"
  by (induction a b rule: common_prefix_len.induct) auto

lemma common_prefix_maximal:
  "common_prefix_len a b < length a \<Longrightarrow> common_prefix_len a b < length b \<Longrightarrow>
   a ! common_prefix_len a b \<noteq> b ! common_prefix_len a b"
  by (induction a b rule: common_prefix_len.induct) auto

text \<open>
  The verdict on a compaction: the kept chunks are the leading chunks both requests share and no more;
  with one token count per previous chunk, none negative, the tokens lost are exactly those of the previous
  chunks from the first difference on, and kept and lost add up to the previous total; the share is between
  0 and 100 and is 100 only when nothing was lost; \<open>broke_prefix\<close> is set only for a share below the line.
\<close>

theorem compaction_accounts:
  assumes "length ts = length prev" and "\<forall>n \<in> set ts. 0 \<le> n"
  shows "let v = assess_compaction prev new (Some ts) threshold; k = cv_kept_chunks v in
    take k prev = take k new \<and> (k < length prev \<longrightarrow> k < length new \<longrightarrow> prev ! k \<noteq> new ! k) \<and>
    cv_tokens_lost v = sum_list (drop k ts) \<and> cv_kept_tokens v + cv_tokens_lost v = cv_prev_tokens v \<and>
    0 \<le> cv_pct v \<and> cv_pct v \<le> 100 \<and> (cv_pct v = 100 \<longleftrightarrow> k = length prev) \<and>
    (cv_broke v \<longleftrightarrow> prev \<noteq> [] \<and> cv_pct v < threshold)"
proof -
  let ?k = "common_prefix_len prev new"
  have "sum_list ts = sum_list (take ?k ts) + sum_list (drop ?k ts)"
    by (metis append_take_drop_id sum_list_append)
  moreover have "0 \<le> sum_list (drop ?k ts)" using assms(2) by (intro sum_list_nonneg) (auto dest: in_set_dropD)
  moreover have "of_nat ?k \<le> (of_nat (length prev) :: pyfloat)" using common_prefix_bounds(1) by simp
  ultimately show ?thesis
    using assms(1) common_prefix_take [of prev new] common_prefix_maximal [of prev new]
    by (auto simp: assess_compaction_def Let_def field_simps)
qed

theorem compaction_accounts_witness:
  "cv_tokens_lost (assess_compaction [''a'', ''b'', ''c''] [''a'', ''x''] (Some [5, 7, 9]) BROKE_PREFIX_PCT) = 16"
proof -
  have "cv_kept_chunks (assess_compaction [''a'', ''b'', ''c''] [''a'', ''x''] (Some [5, 7, 9]) BROKE_PREFIX_PCT) = 1"
    by code_simp
  with compaction_accounts [of "[5, 7, 9]" "[''a'', ''b'', ''c'']" "[''a'', ''x'']" BROKE_PREFIX_PCT]
  show ?thesis by (simp add: Let_def)
qed

end
