(* ===== verification/Prompt_Index.thy ===== *)
theory Prompt_Index
  imports GB_Prelude
begin

text \<open>
  The prompt index of \<^verbatim>\<open>gb_prompt_index.py\<close>: a chat request cut into content-addressed chunks, the identity of
  a conversation, the first divergence of two requests, and the index that maps conversations to engine slots.

  Requests are JSON values. SHA-256 (in hex) and Python's \<open>repr\<close> are the parameters \<open>sha\<close> and \<open>rep\<close>.
\<close>

datatype json = JNone | JBool bool | JNum int | JStr string | JList "json list" | JDict "(string \<times> json) list"

fun truth :: "json \<Rightarrow> bool" where
  "truth JNone = False"
| "truth (JBool b) = b"
| "truth (JNum n) = (n \<noteq> 0)"
| "truth (JStr s) = (s \<noteq> [])"
| "truth (JList xs) = (xs \<noteq> [])"
| "truth (JDict d) = (d \<noteq> [])"

definition get_or_none :: "(string \<times> json) list \<Rightarrow> string \<Rightarrow> json" where
  "get_or_none d k = (case dict_get d k of None \<Rightarrow> JNone | Some v \<Rightarrow> v)"

definition IDENTITY_CHUNKS :: nat where "IDENTITY_CHUNKS = 2"
definition MAX_CONVERSATIONS :: int where "MAX_CONVERSATIONS = 512"
definition DIGEST_LEN :: nat where "DIGEST_LEN = 16"

definition digest_of :: "(string \<Rightarrow> string) \<Rightarrow> string \<Rightarrow> string" where
  "digest_of sha text = take DIGEST_LEN (sha text)"

definition unit_sep :: string where "unit_sep = [char_of (31 :: nat)]"
definition record_sep :: string where "record_sep = [char_of (30 :: nat)]"

fun join :: "string \<Rightarrow> string list \<Rightarrow> string" where
  "join sep [] = []"
| "join sep [s] = s"
| "join sep (s # ss) = s @ sep @ join sep ss"

definition part_text :: "(json \<Rightarrow> string) \<Rightarrow> json \<Rightarrow> string" where
  "part_text rep part =
     (case part of
        JDict d \<Rightarrow> (case get_or_none d ''text'' of JStr s \<Rightarrow> s | _ \<Rightarrow> rep part)
      | _ \<Rightarrow> rep part)"

fun content_text :: "(json \<Rightarrow> string) \<Rightarrow> json \<Rightarrow> string" where
  "content_text rep (JStr s) = s"
| "content_text rep (JList parts) = join unit_sep (map (part_text rep) parts)"
| "content_text rep JNone = []"
| "content_text rep v = rep v"

record chunk =
  ck_idx :: nat
  ck_role :: json
  ck_digest :: string
  ck_chars :: nat
  ck_label :: string

section \<open>Chunking a request\<close>

fun is_system :: "json \<Rightarrow> bool" where
  "is_system (JDict d) = (get_or_none d ''role'' = JStr ''system'')"
| "is_system _ = False"

definition content_of :: "(json \<Rightarrow> string) \<Rightarrow> json \<Rightarrow> string" where
  "content_of rep m = (case m of JDict d \<Rightarrow> content_text rep (get_or_none d ''content'') | _ \<Rightarrow> content_text rep m)"

text \<open>The head: the tool schemas, then the leading system messages.\<close>

definition head_parts :: "(json \<Rightarrow> string) \<Rightarrow> json list \<Rightarrow> json \<Rightarrow> string list" where
  "head_parts rep msgs tools =
     (if truth tools then [rep tools] else []) @ map (content_of rep) (takeWhile is_system msgs)"

definition message_chunk :: "(string \<Rightarrow> string) \<Rightarrow> (json \<Rightarrow> string) \<Rightarrow> nat \<Rightarrow> json \<Rightarrow> chunk" where
  "message_chunk sha rep i m =
     (let role = (case m of JDict d \<Rightarrow> (case dict_get d ''role'' of None \<Rightarrow> JStr ''?'' | Some r \<Rightarrow> r) | _ \<Rightarrow> JStr ''?'');
          text0 = content_of rep m;
          text = (case m of
                    JDict d \<Rightarrow> if truth (get_or_none d ''tool_calls'')
                              then text0 @ unit_sep @ rep (get_or_none d ''tool_calls'') else text0
                  | _ \<Rightarrow> text0)
      in \<lparr>ck_idx = i, ck_role = role, ck_digest = digest_of sha text, ck_chars = length text, ck_label = []\<rparr>)"

fun message_chunks :: "(string \<Rightarrow> string) \<Rightarrow> (json \<Rightarrow> string) \<Rightarrow> nat \<Rightarrow> json list \<Rightarrow> chunk list" where
  "message_chunks sha rep i [] = []"
| "message_chunks sha rep i (m # ms) = message_chunk sha rep i m # message_chunks sha rep (Suc i) ms"

definition chunk_messages :: "(string \<Rightarrow> string) \<Rightarrow> (json \<Rightarrow> string) \<Rightarrow> json list \<Rightarrow> json \<Rightarrow> chunk list" where
  "chunk_messages sha rep msgs tools =
     (let parts = head_parts rep msgs tools; text = join record_sep parts;
          head = (if parts \<noteq> [] then
            [\<lparr>ck_idx = 0, ck_role = JStr ''system'', ck_digest = digest_of sha text, ck_chars = length text,
              ck_label = (if truth tools then ''system+tools'' else ''system'')\<rparr>] else [])
      in head @ message_chunks sha rep (length head) (dropWhile is_system msgs))"

definition conversation_key :: "(string \<Rightarrow> string) \<Rightarrow> chunk list \<Rightarrow> string" where
  "conversation_key sha chunks =
     (let head = concat (map ck_digest (take IDENTITY_CHUNKS chunks)) in if head \<noteq> [] then digest_of sha head else [])"

fun divergence_from :: "nat \<Rightarrow> chunk list \<Rightarrow> chunk list \<Rightarrow> nat option" where
  "divergence_from i (a # as) (b # bs) = (if ck_digest a \<noteq> ck_digest b then Some i else divergence_from (Suc i) as bs)"
| "divergence_from i _ _ = None"

definition first_divergence :: "chunk list \<Rightarrow> chunk list \<Rightarrow> nat option" where
  "first_divergence prev cur = divergence_from 0 prev cur"

section \<open>The slot index\<close>

datatype routing = NoRouting | Assigned | Reassigned | Pinned | PinnedEdited

record assignment =
  as_slot :: "int option"
  as_key :: string
  as_reason :: routing
  as_chunks :: nat
  as_changed :: "nat option"
  as_before :: nat

definition appended_only :: "assignment \<Rightarrow> bool" where
  "appended_only a \<longleftrightarrow> as_changed a = None \<and> as_chunks a \<ge> as_before a"

record conv_entry =
  ce_slot :: int
  ce_chunks :: "chunk list"

record conv_index =
  ci_n_slots :: int
  ci_max :: int
  ci_by_key :: "(string, conv_entry) pydict"
  ci_slot_chunks :: "(int, chunk list) pydict"

definition new_index :: "int \<Rightarrow> int \<Rightarrow> conv_index" where
  "new_index n m = \<lparr>ci_n_slots = n, ci_max = m, ci_by_key = [], ci_slot_chunks = []\<rparr>"

definition slot_of :: "conv_index \<Rightarrow> string \<Rightarrow> int option" where
  "slot_of idx key = map_option ce_slot (dict_get (ci_by_key idx) key)"

definition slots_in_use :: "conv_index \<Rightarrow> int list" where
  "slots_in_use idx = map ce_slot (dict_values (ci_by_key idx))"

definition unmapped_slot :: "conv_index \<Rightarrow> int option" where
  "unmapped_slot idx = find (\<lambda>s. s \<notin> set (slots_in_use idx)) [0..ci_n_slots idx - 1]"

definition lru_slot :: "conv_index \<Rightarrow> int" where
  "lru_slot idx = (case ci_by_key idx of [] \<Rightarrow> 0 | (k, e) # _ \<Rightarrow> ce_slot e)"

text \<open>\<open>popitem(last=False)\<close> while there are more than the maximum; a negative maximum would raise on the empty
  dictionary, and here stops there.\<close>

fun evict_oldest :: "int \<Rightarrow> (string, conv_entry) pydict \<Rightarrow> (string, conv_entry) pydict" where
  "evict_oldest m [] = []"
| "evict_oldest m (p # d) = (if int (length (p # d)) > m then evict_oldest m d else p # d)"

definition place :: "chunk list \<Rightarrow> string \<Rightarrow> conv_index \<Rightarrow> int \<times> routing \<times> conv_index" where
  "place chunks key idx =
     (case dict_get (ci_by_key idx) key of
        None \<Rightarrow>
          let (slot, reason) = (case unmapped_slot idx of Some s \<Rightarrow> (s, Assigned) | None \<Rightarrow> (lru_slot idx, Reassigned))
          in (slot, reason, idx\<lparr>ci_by_key :=
                evict_oldest (ci_max idx) (dict_set key \<lparr>ce_slot = slot, ce_chunks = chunks\<rparr> (ci_by_key idx))\<rparr>)
      | Some e \<Rightarrow>
          (ce_slot e, Pinned, idx\<lparr>ci_by_key :=
             dict_move_to_end key (dict_set key (e\<lparr>ce_chunks := chunks\<rparr>) (ci_by_key idx))\<rparr>))"

definition assign ::
  "(string \<Rightarrow> string) \<Rightarrow> (json \<Rightarrow> string) \<Rightarrow> json list \<Rightarrow> json \<Rightarrow> string \<Rightarrow> conv_index \<Rightarrow> assignment \<times> conv_index" where
  "assign sha rep msgs tools conv_id idx =
     (let chunks = chunk_messages sha rep msgs tools;
          key = (if conv_id \<noteq> [] then digest_of sha conv_id else conversation_key sha chunks) in
      if key = [] \<or> ci_n_slots idx \<le> 1
      then (\<lparr>as_slot = None, as_key = key, as_reason = NoRouting, as_chunks = length chunks, as_changed = None,
             as_before = 0\<rparr>, idx)
      else case place chunks key idx of (slot, reason, idx1) \<Rightarrow>
        let held = (case dict_get (ci_slot_chunks idx1) slot of None \<Rightarrow> [] | Some c \<Rightarrow> c);
            changed = (if held \<noteq> [] then first_divergence held chunks else None)
        in (\<lparr>as_slot = Some slot, as_key = key,
             as_reason = (if reason = Pinned \<and> changed \<noteq> None then PinnedEdited else reason),
             as_chunks = length chunks, as_changed = changed, as_before = length held\<rparr>,
            idx1\<lparr>ci_slot_chunks := dict_set slot chunks (ci_slot_chunks idx1)\<rparr>))"

definition pinning_enabled :: "string option \<Rightarrow> bool" where
  "pinning_enabled v = (v \<in> {Some ''1'', Some ''true'', Some ''yes''})"

section \<open>Chunks and divergence\<close>

lemma message_chunks_length [simp]: "length (message_chunks sha rep i ms) = length ms"
  by (induction sha rep i ms rule: message_chunks.induct) auto

lemma message_chunks_idx: "j < length ms \<Longrightarrow> ck_idx (message_chunks sha rep i ms ! j) = i + j"
  by (induction sha rep i ms arbitrary: j rule: message_chunks.induct)
    (auto simp: message_chunk_def Let_def nth_Cons split: nat.split)

lemma message_chunks_append:
  "message_chunks sha rep i (ms @ ns) = message_chunks sha rep i ms @ message_chunks sha rep (i + length ms) ns"
  by (induction sha rep i ms rule: message_chunks.induct) auto

lemma divergence_from_None:
  "divergence_from i as bs = None \<longleftrightarrow>
     map ck_digest (take (min (length as) (length bs)) as) = map ck_digest (take (min (length as) (length bs)) bs)"
  by (induction i as bs rule: divergence_from.induct) auto

lemma divergence_from_Some:
  "divergence_from i as bs = Some j \<Longrightarrow>
     i \<le> j \<and> j - i < length as \<and> j - i < length bs \<and> ck_digest (as ! (j - i)) \<noteq> ck_digest (bs ! (j - i)) \<and>
     map ck_digest (take (j - i) as) = map ck_digest (take (j - i) bs)"
proof (induction i as bs rule: divergence_from.induct)
  case (1 i a as b bs)
  show ?case
  proof (cases "ck_digest a = ck_digest b")
    case True
    with 1 have "Suc i \<le> j" and *: "j - Suc i < length as" "j - Suc i < length bs"
        "ck_digest (as ! (j - Suc i)) \<noteq> ck_digest (bs ! (j - Suc i))"
        "map ck_digest (take (j - Suc i) as) = map ck_digest (take (j - Suc i) bs)" by auto
    from \<open>Suc i \<le> j\<close> have "j - i = Suc (j - Suc i)" by simp
    with * True \<open>Suc i \<le> j\<close> show ?thesis by simp
  qed (use 1 in auto)
qed simp_all

text \<open>
  Chunking is stable under appending: when a request is extended by messages behind a non-system message,
  every chunk it had keeps its index, digest and size, the chunks are numbered in order, and so the first
  divergence of the two is \<open>None\<close>: a pure append costs nothing.
\<close>

theorem append_keeps_chunks:
  assumes "dropWhile is_system msgs \<noteq> []"
  shows "\<exists>new. chunk_messages sha rep (msgs @ later) tools = chunk_messages sha rep msgs tools @ new \<and>
    length new = length later \<and>
    first_divergence (chunk_messages sha rep msgs tools) (chunk_messages sha rep (msgs @ later) tools) = None \<and>
    (\<forall>i < length (chunk_messages sha rep msgs tools). ck_idx (chunk_messages sha rep msgs tools ! i) = i)"
proof -
  have tw: "takeWhile is_system (msgs @ later) = takeWhile is_system msgs"
    "dropWhile is_system (msgs @ later) = dropWhile is_system msgs @ later"
    using assms by (auto simp: takeWhile_append dropWhile_append dropWhile_eq_Nil_conv)
  have h: "head_parts rep (msgs @ later) tools = head_parts rep msgs tools" by (simp add: head_parts_def tw)
  let ?c = "chunk_messages sha rep msgs tools"
  obtain new where new: "chunk_messages sha rep (msgs @ later) tools = ?c @ new" "length new = length later"
    unfolding chunk_messages_def Let_def h tw(2) message_chunks_append by auto
  then have "first_divergence ?c (chunk_messages sha rep (msgs @ later) tools) = None"
    by (simp add: first_divergence_def divergence_from_None)
  moreover have "ck_idx (?c ! i) = i" if "i < length ?c" for i
    using that by (auto simp: chunk_messages_def Let_def nth_append message_chunks_idx nth_Cons split: if_splits nat.split)
  ultimately show ?thesis using new by blast
qed

definition demo_msg :: "string \<Rightarrow> string \<Rightarrow> json" where
  "demo_msg role text = JDict [(''role'', JStr role), (''content'', JStr text)]"

theorem append_keeps_chunks_witness:
  "first_divergence
     (chunk_messages (\<lambda>s. s) (\<lambda>_. []) [demo_msg ''system'' ''sys'', demo_msg ''user'' ''hi''] JNone)
     (chunk_messages (\<lambda>s. s) (\<lambda>_. []) ([demo_msg ''system'' ''sys'', demo_msg ''user'' ''hi''] @ [demo_msg ''user'' ''more'']) JNone) = None"
proof -
  have "dropWhile is_system [demo_msg ''system'' ''sys'', demo_msg ''user'' ''hi''] \<noteq> []" by code_simp
  from append_keeps_chunks [OF this] show ?thesis by blast
qed

section \<open>Routing\<close>

definition index_inv :: "conv_index \<Rightarrow> bool" where
  "index_inv idx \<longleftrightarrow> dict_wf (ci_by_key idx) \<and> int (length (ci_by_key idx)) \<le> ci_max idx \<and>
     (\<forall>e \<in> set (dict_values (ci_by_key idx)). 0 \<le> ce_slot e \<and> ce_slot e < ci_n_slots idx)"

lemma evict_oldest_drop: "0 \<le> m \<Longrightarrow> evict_oldest m d = drop (length d - nat m) d"
proof (induction m d rule: evict_oldest.induct)
  case (2 m p d)
  then show ?case by (auto simp: Suc_diff_le drop_Cons' nat_le_iff)
qed simp

lemma drop_get:
  assumes "dict_wf d"
  shows "dict_get (drop n d) k = dict_get d k \<or> dict_get (drop n d) k = None"
proof (cases "dict_get (drop n d) k")
  case (Some v)
  then have "(k, v) \<in> set d" by (metis in_set_dropD map_of_SomeD)
  with assms Some show ?thesis by (simp add: dict_get_of_mem)
qed simp

lemma unmapped_slot_spec:
  "unmapped_slot idx = Some s \<Longrightarrow> 0 \<le> s \<and> s < ci_n_slots idx \<and> s \<notin> set (slots_in_use idx)"
  by (auto simp: unmapped_slot_def find_Some_iff)

lemma unmapped_slot_exists:
  assumes "int (length (ci_by_key idx)) < ci_n_slots idx"
  shows "\<exists>s. unmapped_slot idx = Some s"
proof (rule ccontr)
  assume "\<nexists>s. unmapped_slot idx = Some s"
  then have "set [0..ci_n_slots idx - 1] \<subseteq> set (slots_in_use idx)"
    by (auto simp: unmapped_slot_def find_None_iff split: option.splits)
  then have "card {0..ci_n_slots idx - 1} \<le> card (set (slots_in_use idx))" by (intro card_mono) simp_all
  also have "\<dots> \<le> length (ci_by_key idx)" using card_length [of "slots_in_use idx"] by (simp add: slots_in_use_def)
  finally show False using assms by simp
qed

lemma lru_slot_range:
  "index_inv idx \<Longrightarrow> 0 < ci_n_slots idx \<Longrightarrow> 0 \<le> lru_slot idx \<and> lru_slot idx < ci_n_slots idx"
  by (auto simp: lru_slot_def index_inv_def split: list.splits prod.splits)

lemma place_spec:
  assumes "index_inv idx" "1 < ci_n_slots idx" "1 \<le> ci_max idx" "place chunks key idx = (s, r, idx')"
  shows "index_inv idx' \<and> ci_n_slots idx' = ci_n_slots idx \<and> ci_max idx' = ci_max idx \<and> 0 \<le> s \<and> s < ci_n_slots idx \<and> slot_of idx' key = Some s \<and>
    (\<forall>k. k \<noteq> key \<longrightarrow> slot_of idx' k = slot_of idx k \<or> slot_of idx' k = None) \<and>
    (\<forall>t. slot_of idx key = Some t \<longrightarrow> s = t \<and> (\<forall>k. slot_of idx' k = slot_of idx k)) \<and>
    (slot_of idx key = None \<longrightarrow> int (length (ci_by_key idx)) < ci_n_slots idx \<longrightarrow>
       (\<forall>k. k \<noteq> key \<longrightarrow> slot_of idx' k \<noteq> Some s))"
proof (cases "dict_get (ci_by_key idx) key")
  case None
  let ?sr = "case unmapped_slot idx of Some s \<Rightarrow> (s, Assigned) | None \<Rightarrow> (lru_slot idx, Reassigned)"
  let ?d = "ci_by_key idx"
  let ?e = "\<lparr>ce_slot = s, ce_chunks = chunks\<rparr>"
  from None assms(4) have s: "s = fst ?sr" and idx': "idx' = idx\<lparr>ci_by_key := evict_oldest (ci_max idx) (dict_set key ?e ?d)\<rparr>"
    by (auto simp: place_def Let_def split: prod.splits)
  have rng: "0 \<le> s" "s < ci_n_slots idx"
    using unmapped_slot_spec lru_slot_range [OF assms(1)] assms(2) by (auto simp: s split: option.split)
  have new: "dict_set key ?e ?d = ?d @ [(key, ?e)]"
    using None by (intro dict_set_append_new) (simp add: dict_get_None_iff)
  have wf: "dict_wf (?d @ [(key, ?e)])" using assms(1) None by (auto simp: index_inv_def map_of_eq_None_iff)
  let ?n = "Suc (length ?d) - nat (ci_max idx)"
  have d': "ci_by_key idx' = drop ?n (?d @ [(key, ?e)])"
    using assms(3) by (simp add: idx' new evict_oldest_drop)
  have le: "?n \<le> length ?d" using assms(3) by linarith
  then have d'': "ci_by_key idx' = drop ?n ?d @ [(key, ?e)]" unfolding d' by simp
  have wf': "dict_wf (ci_by_key idx')" unfolding d' using wf by (metis distinct_drop drop_map)
  have "slot_of idx' key = Some s"
    using wf' unfolding d'' slot_of_def by (subst dict_get_of_mem) auto
  moreover have get: "dict_get (ci_by_key idx') k = dict_get ?d k \<or> dict_get (ci_by_key idx') k = None" if "k \<noteq> key" for k
  proof -
    have "dict_get (?d @ [(key, ?e)]) k = dict_get ?d k" using that by (simp add: map_add_def split: option.split)
    with drop_get [OF wf, of ?n k] show ?thesis unfolding d' by argo
  qed
  then have "slot_of idx' k = slot_of idx k \<or> slot_of idx' k = None" if "k \<noteq> key" for k
    using get [OF that] unfolding slot_of_def by (elim disjE) simp_all
  moreover have "index_inv idx'"
    unfolding index_inv_def
  proof (intro conjI)
    show "dict_wf (ci_by_key idx')" by (rule wf')
    have "ci_max idx' = ci_max idx" by (simp add: idx')
    then show "int (length (ci_by_key idx')) \<le> ci_max idx'" unfolding d' using assms(3) by simp
    show "\<forall>e \<in> set (dict_values (ci_by_key idx')). 0 \<le> ce_slot e \<and> ce_slot e < ci_n_slots idx'"
      using assms(1) rng unfolding d'' index_inv_def by (auto simp: idx' dest!: in_set_dropD)
  qed
  moreover have "slot_of idx' k \<noteq> Some s" if few: "int (length ?d) < ci_n_slots idx" "k \<noteq> key" for k
  proof -
    obtain u where u: "unmapped_slot idx = Some u" using unmapped_slot_exists [OF few(1)] by blast
    then have "s \<notin> set (slots_in_use idx)" using unmapped_slot_spec s by simp
    then have "slot_of idx k \<noteq> Some s" by (force simp: slot_of_def slots_in_use_def dest: map_of_SomeD)
    with get [OF few(2)] show ?thesis by (auto simp: slot_of_def)
  qed
  moreover have "slot_of idx key = None" using None by (simp add: slot_of_def)
  moreover have "ci_n_slots idx' = ci_n_slots idx" "ci_max idx' = ci_max idx" by (simp_all add: idx')
  ultimately show ?thesis using rng by auto
next
  case (Some e)
  let ?d = "dict_set key (e\<lparr>ce_chunks := chunks\<rparr>) (ci_by_key idx)"
  from Some assms(4) have s: "s = ce_slot e" "idx' = idx\<lparr>ci_by_key := dict_move_to_end key ?d\<rparr>"
    by (simp_all add: place_def)
  have wf: "dict_wf (ci_by_key idx)" using assms(1) by (simp add: index_inv_def)
  have k: "key \<in> set (dict_keys (ci_by_key idx))" using Some by (rule dict_get_in_keys)
  have e: "e \<in> set (dict_values (ci_by_key idx))" using Some by (force dest: map_of_SomeD)
  have get: "slot_of idx' k = slot_of idx k" for k
    using Some by (simp add: slot_of_def s dict_get_move_to_end)
  have wf2: "dict_wf ?d" by (rule dict_wf_set [OF wf])
  have mv: "dict_move_to_end key ?d = dict_del key ?d @ [(key, e\<lparr>ce_chunks := chunks\<rparr>)]"
    by (simp add: dict_move_to_end_def)
  have "length (dict_move_to_end key ?d) = length (ci_by_key idx)"
    using length_dict_move_to_end [OF wf2] k by (simp add: length_dict_set)
  moreover have "set (dict_values (dict_move_to_end key ?d)) \<subseteq> insert (e\<lparr>ce_chunks := chunks\<rparr>) (set (dict_values (ci_by_key idx)))"
    unfolding mv using dict_set_set_wf [OF wf] by (auto simp: dict_del_set)
  ultimately have "index_inv idx'"
    unfolding index_inv_def
  proof (intro conjI ballI)
    have n: "ci_n_slots idx' = ci_n_slots idx" "ci_max idx' = ci_max idx"
        "ci_by_key idx' = dict_move_to_end key ?d" by (simp_all add: s)
    assume l: "length (dict_move_to_end key ?d) = length (ci_by_key idx)"
      and v: "set (dict_values (dict_move_to_end key ?d)) \<subseteq> insert (e\<lparr>ce_chunks := chunks\<rparr>) (set (dict_values (ci_by_key idx)))"
    show "dict_wf (ci_by_key idx')" unfolding n using wf2 by (rule dict_wf_move_to_end)
    show "int (length (ci_by_key idx')) \<le> ci_max idx'"
      unfolding n l using assms(1) unfolding index_inv_def by blast
    fix x assume "x \<in> set (dict_values (ci_by_key idx'))"
    then have "x = e\<lparr>ce_chunks := chunks\<rparr> \<or> x \<in> set (dict_values (ci_by_key idx))" unfolding n using v by blast
    then have "ce_slot x = ce_slot e \<or> x \<in> set (dict_values (ci_by_key idx))" by (elim disjE) simp_all
    with assms(1) e show "0 \<le> ce_slot x" "ce_slot x < ci_n_slots idx'" unfolding n index_inv_def by metis+
  qed
  moreover have "0 \<le> s \<and> s < ci_n_slots idx" using assms(1) e by (auto simp: index_inv_def s)
  ultimately show ?thesis using get Some s by (auto simp: slot_of_def)
qed

definition assigns ::
  "(string \<Rightarrow> string) \<Rightarrow> (json \<Rightarrow> string) \<Rightarrow> (json list \<times> json \<times> string) list \<Rightarrow> conv_index \<Rightarrow> conv_index" where
  "assigns sha rep reqs idx = foldl (\<lambda>idx (msgs, tools, cid). snd (assign sha rep msgs tools cid idx)) idx reqs"

lemma assign_inv:
  assumes "index_inv idx" "1 < ci_n_slots idx" "1 \<le> ci_max idx"
  shows "index_inv (snd (assign sha rep msgs tools cid idx)) \<and>
    ci_n_slots (snd (assign sha rep msgs tools cid idx)) = ci_n_slots idx \<and>
    ci_max (snd (assign sha rep msgs tools cid idx)) = ci_max idx"
proof -
  let ?c = "chunk_messages sha rep msgs tools"
  let ?k = "if cid \<noteq> [] then digest_of sha cid else conversation_key sha ?c"
  obtain s r idx' where p: "place ?c ?k idx = (s, r, idx')" by (metis prod_cases3)
  from place_spec [OF assms p] show ?thesis
    using assms by (auto simp: assign_def Let_def p index_inv_def)
qed

lemma assigns_inv:
  assumes "index_inv idx" "1 < ci_n_slots idx" "1 \<le> ci_max idx"
  shows "index_inv (assigns sha rep reqs idx) \<and> ci_n_slots (assigns sha rep reqs idx) = ci_n_slots idx \<and>
    ci_max (assigns sha rep reqs idx) = ci_max idx"
  using assms
proof (induction reqs arbitrary: idx)
  case (Cons q reqs)
  obtain msgs tools cid where q: "q = (msgs, tools, cid)" by (metis prod_cases3)
  note a = assign_inv [OF Cons.prems, of sha rep msgs tools cid]
  from Cons.IH [of "snd (assign sha rep msgs tools cid idx)"] a Cons.prems show ?case
    by (simp add: assigns_def q)
qed (simp add: assigns_def)

text \<open>
  C38. Routing is sticky and bounded: after any requests, the next request's conversation gets a slot that
  the engine has; a known conversation gets the slot it has, and then no conversation's slot changes; any
  other conversation keeps its slot or is forgotten, never moved; a new conversation shares its slot with
  none as long as fewer conversations than slots are known; and at most the maximum number are known.
\<close>

theorem routing_is_sticky:
  assumes "1 < n" and "1 \<le> m" and "idx = assigns sha rep reqs (new_index n m)"
    and "assign sha rep msgs tools cid idx = (a, idx')" and "as_slot a = Some s"
  shows "0 \<le> s \<and> s < n \<and> slot_of idx' (as_key a) = Some s \<and> int (length (ci_by_key idx')) \<le> m \<and>
    (\<forall>k. k \<noteq> as_key a \<longrightarrow> slot_of idx' k = slot_of idx k \<or> slot_of idx' k = None) \<and>
    (\<forall>t. slot_of idx (as_key a) = Some t \<longrightarrow> s = t \<and> (\<forall>k. slot_of idx' k = slot_of idx k)) \<and>
    (slot_of idx (as_key a) = None \<longrightarrow> int (length (ci_by_key idx)) < n \<longrightarrow>
       (\<forall>k. k \<noteq> as_key a \<longrightarrow> slot_of idx' k \<noteq> Some s))"
proof -
  have "index_inv (new_index n m)" using assms(2) by (simp add: index_inv_def new_index_def)
  from assigns_inv [OF this, of sha rep reqs] assms(1-3)
  have i: "index_inv idx" "ci_n_slots idx = n" "ci_max idx = m" by (simp_all add: new_index_def)
  let ?c = "chunk_messages sha rep msgs tools"
  let ?k = "if cid \<noteq> [] then digest_of sha cid else conversation_key sha ?c"
  obtain s' r idx1 where p: "place ?c ?k idx = (s', r, idx1)" by (metis prod_cases3)
  have "\<not> (?k = [] \<or> ci_n_slots idx \<le> 1)" using assms(4,5) by (auto simp: assign_def Let_def)
  then have a: "s = s'" "as_key a = ?k" "ci_by_key idx' = ci_by_key idx1"
    using assms(4,5) by (auto simp: assign_def Let_def p)
  then have so: "slot_of idx' = slot_of idx1" by (simp add: slot_of_def fun_eq_iff)
  have le: "1 < ci_n_slots idx" "1 \<le> ci_max idx" using assms(1,2) i by simp_all
  from place_spec [OF i(1) le p] show ?thesis
    unfolding so a(2) a(1) a(3) using i by (auto simp: index_inv_def)
qed

theorem routing_is_sticky_witness:
  "let idx = assigns (\<lambda>s. s) (\<lambda>_. []) [([], JNone, ''a''), ([], JNone, ''b'')] (new_index 4 8);
       r = assign (\<lambda>s. s) (\<lambda>_. []) [] JNone ''a'' idx in
   as_slot (fst r) = Some 0 \<and> slot_of (snd r) ''a'' = Some 0 \<and> slot_of (snd r) ''b'' = slot_of idx ''b''"
proof -
  let ?idx = "assigns (\<lambda>s. s) (\<lambda>_. []) [([], JNone, ''a''), ([], JNone, ''b'')] (new_index 4 8)"
  let ?r = "assign (\<lambda>s. s) (\<lambda>_. []) [] JNone ''a'' ?idx"
  have e: "as_slot (fst ?r) = Some 0" "as_key (fst ?r) = ''a''" "slot_of ?idx ''a'' = Some 0" by code_simp+
  have n: "(1::int) < 4" "(1::int) \<le> 8" by simp_all
  have "?r = (fst ?r, snd ?r)" by simp
  from routing_is_sticky [OF n refl this e(1)] e show ?thesis by (simp add: Let_def)
qed

text \<open>
  What \<open>appended_only\<close> claims is true of the engine's slot: when the index reports that a request only
  appended, the digests of the chunks the slot last held are a prefix of the digests of the new request.
\<close>

theorem appended_only_is_a_prefix:
  assumes "assign sha rep msgs tools cid idx = (a, idx')" and "as_slot a = Some s" and "appended_only a"
    and "dict_get (ci_slot_chunks idx) s = Some held"
  shows "map ck_digest held = take (length held) (map ck_digest (chunk_messages sha rep msgs tools)) \<and>
    dict_get (ci_slot_chunks idx') s = Some (chunk_messages sha rep msgs tools)"
proof -
  let ?c = "chunk_messages sha rep msgs tools"
  let ?k = "if cid \<noteq> [] then digest_of sha cid else conversation_key sha ?c"
  obtain s' r idx1 where p: "place ?c ?k idx = (s', r, idx1)" by (metis prod_cases3)
  have sc: "ci_slot_chunks idx1 = ci_slot_chunks idx"
    using p by (auto simp: place_def Let_def split: option.splits)
  have "\<not> (?k = [] \<or> ci_n_slots idx \<le> 1)" using assms(1,2) by (auto simp: assign_def Let_def)
  then have a: "s = s'" "as_changed a = (if held \<noteq> [] then first_divergence held ?c else None)"
      "as_chunks a = length ?c" "as_before a = length held"
      "dict_get (ci_slot_chunks idx') s = Some ?c"
    using assms(1,2,4) by (auto simp: assign_def Let_def p sc)
  have "map ck_digest held = take (length held) (map ck_digest ?c)"
    using assms(3) a(2-4)
    by (cases "held = []") (auto simp: appended_only_def first_divergence_def divergence_from_None take_map)
  with a(5) show ?thesis by simp
qed

theorem appended_only_is_a_prefix_witness:
  "let idx = assigns (\<lambda>s. s) (\<lambda>_. []) [([demo_msg ''user'' ''hi''], JNone, ''a'')] (new_index 4 8);
       r = assign (\<lambda>s. s) (\<lambda>_. []) [demo_msg ''user'' ''hi'', demo_msg ''user'' ''more''] JNone ''a'' idx in
   appended_only (fst r) \<and> dict_get (ci_slot_chunks (snd r)) 0 =
     Some (chunk_messages (\<lambda>s. s) (\<lambda>_. []) [demo_msg ''user'' ''hi'', demo_msg ''user'' ''more''] JNone)"
proof -
  let ?idx = "assigns (\<lambda>s. s) (\<lambda>_. []) [([demo_msg ''user'' ''hi''], JNone, ''a'')] (new_index 4 8)"
  let ?r = "assign (\<lambda>s. s) (\<lambda>_. []) [demo_msg ''user'' ''hi'', demo_msg ''user'' ''more''] JNone ''a'' ?idx"
  have e: "as_slot (fst ?r) = Some 0" "appended_only (fst ?r)"
    "dict_get (ci_slot_chunks ?idx) 0 = Some (chunk_messages (\<lambda>s. s) (\<lambda>_. []) [demo_msg ''user'' ''hi''] JNone)"
    by code_simp+
  have "?r = (fst ?r, snd ?r)" by simp
  from appended_only_is_a_prefix [OF this e] e(2) show ?thesis by (simp add: Let_def)
qed

end
