(* ===== verification/Lease_Client.thy ===== *)
theory Lease_Client
  imports Lease_Safety
begin

text \<open>
  The client side of the arbiter, \<^verbatim>\<open>gb_lease_client.py\<close>: hold the card for the body of a \<open>with\<close>, and ask
  who an unload would hurt. What the client needs of an arbiter is the locale \<open>lease_service\<close>; the arbiter of
  \<^verbatim>\<open>gb_lease.py\<close>, used by other processes between any two calls of ours, is an instance of it.
\<close>

section \<open>Refusals\<close>

text \<open>The sentence of a refusal: the code picks it, and it interpolates the holder and the delay. A code
  without a sentence quotes the reason.\<close>

datatype plain_text = Sentence code string int | Quoted code "why option"

definition PLAIN :: "code list" where
  "PLAIN = [BUSY_HOLDER, QUEUE_FULL, BLOCKED, NO_FIT, CLIENT_BUDGET, UNKNOWN_CLIENT_CODE, STATE_UNREADABLE, BAD_REQUEST]"

record lease_refused =
  lr_code :: code
  lr_message :: plain_text
  lr_retry :: "pyfloat option"
  lr_holder :: "(string \<times> string) option"

text \<open>\<open>x or d\<close> for a number that may be missing: 0 is falsy too.\<close>

definition retry_or_60 :: "pyfloat option \<Rightarrow> pyfloat" where
  "retry_or_60 r = (case r of None \<Rightarrow> 60 | Some x \<Rightarrow> if x = 0 then 60 else x)"

definition plain :: "response \<Rightarrow> plain_text" where
  "plain r =
     (let who = (case r_holder r of None \<Rightarrow> ''another job'' | Some (c, _) \<Rightarrow> if c = [] then ''another job'' else c) in
      if r_code r \<in> set PLAIN then Sentence (r_code r) who (py_int (retry_or_60 (r_retry_after r)))
      else Quoted (r_code r) (r_reason r))"

section \<open>The lease\<close>

text \<open>The service the client was given, on a world of any type, and the client's own process: its environment
  variables and what it printed.\<close>

record 'w lease_ops =
  lo_acquire :: "request \<Rightarrow> 'w \<Rightarrow> (exn + response) \<times> 'w"
  lo_release :: "string \<Rightarrow> int option \<Rightarrow> 'w \<Rightarrow> (exn + release_answer) \<times> 'w"
  lo_now :: "'w \<Rightarrow> pyfloat \<times> 'w"
  lo_sleep :: "'w \<Rightarrow> 'w"

datatype notice = ArbiterUnavailable string | RunsUnleased "why option" | ReleaseFailed string exn | StatusFailed "string + exn"

record 'w client =
  cl_off :: bool
  cl_held :: "string option"
  cl_log :: "notice list"
  cl_svc :: 'w

datatype skip = HeldByParent | LeaseOff | NoArbiter | Unreadable

record lease_info =
  li_id :: "string option"
  li_token :: "int option"
  li_skipped :: "skip option"

text \<open>How the \<open>with\<close> ends: with what the body did (its value or its exception), with the client's
  refusal, or with an exception of the arbiter.\<close>

datatype ('r, 'x) lease_end = Body "'x + 'r" | LeaseRefused lease_refused | ArbiterRaised exn

text \<open>\<open>time.sleep(1.0)\<close> and the same request again, until the answer is final or the wait is over.\<close>

partial_function (option) poll_lease ::
  "'w lease_ops \<Rightarrow> request \<Rightarrow> pyfloat \<Rightarrow> pyfloat \<Rightarrow> response \<Rightarrow> 'w \<Rightarrow> ((exn + response) \<times> 'w) option" where
  "poll_lease ops q wait_s t0 r w =
     (if r_granted r \<or> r_rejected r then Some (Inr r, w)
      else case lo_now ops w of (t, w1) \<Rightarrow>
        if \<not> t - t0 < wait_s then Some (Inr r, w1)
        else case lo_acquire ops q (lo_sleep ops w1) of
            (Inl e, w2) \<Rightarrow> Some (Inl e, w2)
          | (Inr r', w2) \<Rightarrow> poll_lease ops q wait_s t0 r' w2)"

declare poll_lease.simps [code]

definition skipping :: "skip \<Rightarrow> lease_info" where
  "skipping s = \<lparr>li_id = None, li_token = None, li_skipped = Some s\<rparr>"

definition notify :: "notice \<Rightarrow> 'w client \<Rightarrow> 'w client" where
  "notify n c = c\<lparr>cl_log := cl_log c @ [n]\<rparr>"

text \<open>From the first answer to the last: \<open>t0 = now()\<close>, the first request, the polls.\<close>

definition ask_lease :: "'w lease_ops \<Rightarrow> request \<Rightarrow> pyfloat \<Rightarrow> 'w \<Rightarrow> ((exn + response) \<times> 'w) option" where
  "ask_lease ops q wait_s w =
     (case lo_now ops w of (t0, w1) \<Rightarrow>
        case lo_acquire ops q w1 of
          (Inl e, w2) \<Rightarrow> Some (Inl e, w2)
        | (Inr r, w2) \<Rightarrow> poll_lease ops q wait_s t0 r w2)"

text \<open>The branch without a grant: a ticket that is still there leaves the queue, and the caller gets a refusal.\<close>

definition give_up :: "'w lease_ops \<Rightarrow> response \<Rightarrow> 'w client \<Rightarrow> ('r, 'x) lease_end \<times> 'w client" where
  "give_up ops r c =
     (let refused = (\<lambda>r. LeaseRefused \<lparr>lr_code = r_code r, lr_message = plain r, lr_retry = r_retry_after r, lr_holder = r_holder r\<rparr>) in
      if given (r_lease_id r) then
        (case lo_release ops (the (r_lease_id r)) None (cl_svc c) of
           (Inl e, w) \<Rightarrow> (ArbiterRaised e, c\<lparr>cl_svc := w\<rparr>)
         | (Inr _, w) \<Rightarrow>
             (refused (r\<lparr>r_code := BUSY_HOLDER, r_retry_after := Some (retry_or_60 (r_retry_after r))\<rparr>), c\<lparr>cl_svc := w\<rparr>))
      else (refused r, c))"

text \<open>The branch with a grant: the body runs with the lease in the environment, and \<open>finally\<close> puts the
  variable back and releases, whatever the body did.\<close>

definition run_leased ::
  "'w lease_ops \<Rightarrow> response \<Rightarrow> (lease_info \<Rightarrow> 'w client \<Rightarrow> ('x + 'r) \<times> 'w client) \<Rightarrow> 'w client \<Rightarrow> ('r, 'x) lease_end \<times> 'w client" where
  "run_leased ops r body c =
     (let lid = the (r_lease_id r); prev = cl_held c in
      case body \<lparr>li_id = Some lid, li_token = r_token r, li_skipped = None\<rparr> (c\<lparr>cl_held := Some lid\<rparr>) of
        (x, c1) \<Rightarrow>
          let c2 = c1\<lparr>cl_held := prev\<rparr> in
          case lo_release ops lid (r_token r) (cl_svc c2) of
            (Inl e, w) \<Rightarrow> (Body x, notify (ReleaseFailed lid e) (c2\<lparr>cl_svc := w\<rparr>))
          | (Inr _, w) \<Rightarrow> (Body x, c2\<lparr>cl_svc := w\<rparr>))"

text \<open>\<open>lease\<close>: \<open>arb\<close> is the arbiter, or the exception its import or its constructor raised.\<close>

definition with_lease ::
  "string + 'w lease_ops \<Rightarrow> request \<Rightarrow> pyfloat \<Rightarrow> (lease_info \<Rightarrow> 'w client \<Rightarrow> ('x + 'r) \<times> 'w client) \<Rightarrow> 'w client \<Rightarrow>
   (('r, 'x) lease_end \<times> 'w client) option" where
  "with_lease arb q wait_s body c =
     (if cl_off c \<or> given (cl_held c) then
        Some (map_prod Body id (body (skipping (if given (cl_held c) then HeldByParent else LeaseOff)) c))
      else case arb of
        Inl why \<Rightarrow> Some (map_prod Body id (body (skipping NoArbiter) (notify (ArbiterUnavailable why) c)))
      | Inr ops \<Rightarrow>
          (case ask_lease ops (q\<lparr>q_wait := wait_s > 0\<rparr>) wait_s (cl_svc c) of
             None \<Rightarrow> None
           | Some (Inl e, w) \<Rightarrow> Some (ArbiterRaised e, c\<lparr>cl_svc := w\<rparr>)
           | Some (Inr r, w) \<Rightarrow>
               let c1 = c\<lparr>cl_svc := w\<rparr> in
               if r_code r = STATE_UNREADABLE
               then Some (map_prod Body id (body (skipping Unreadable) (notify (RunsUnleased (r_reason r)) c1)))
               else if \<not> r_granted r then Some (give_up ops r c1)
               else Some (run_leased ops r body c1)))"

section \<open>Unloading a model under a holder\<close>

text \<open>\<open>status().get("holders", [])\<close>: the key is there, with \<open>None\<close>, when the state file is damaged, and then
  the loop over the holders raises, outside the \<open>try\<close>.\<close>

datatype unload_answer = GoAhead | BlockedBy holder_row | RaisesTypeError

definition base_name :: "string \<Rightarrow> string" where
  "base_name m = str_lower (takeWhile (\<lambda>c. c \<noteq> CHR '':'') m)"

definition in_use :: "string \<Rightarrow> holder_row \<Rightarrow> bool" where
  "in_use want h \<longleftrightarrow> \<not> h_overdue h \<and>
     (let held = base_name (case h_model h of None \<Rightarrow> [] | Some m \<Rightarrow> m) in held = [] \<or> held = want)"

definition unload_blocked ::
  "string + ('w \<Rightarrow> (exn + status_row option) \<times> 'w) \<Rightarrow> string \<Rightarrow> 'w client \<Rightarrow> unload_answer \<times> 'w client" where
  "unload_blocked arb model c =
     (if cl_off c \<or> given (cl_held c) \<or> model = [] then (GoAhead, c)
      else case arb of
        Inl why \<Rightarrow> (GoAhead, notify (StatusFailed (Inl why)) c)
      | Inr ask \<Rightarrow>
          (case ask (cl_svc c) of
             (Inl e, w) \<Rightarrow> (GoAhead, notify (StatusFailed (Inr e)) (c\<lparr>cl_svc := w\<rparr>))
           | (Inr None, w) \<Rightarrow> (RaisesTypeError, c\<lparr>cl_svc := w\<rparr>)
           | (Inr (Some s), w) \<Rightarrow>
               (case find (in_use (base_name model)) (s_holders s) of
                  None \<Rightarrow> (GoAhead, c\<lparr>cl_svc := w\<rparr>)
                | Some h \<Rightarrow> (BlockedBy h, c\<lparr>cl_svc := w\<rparr>))))"

section \<open>What an operation does to the tickets of one key\<close>

text \<open>
  Every record on file afterwards comes from one before, with the token it had, or is new (\<open>N\<close>).
\<close>

definition descends :: "(entry \<Rightarrow> bool) \<Rightarrow> lstate \<Rightarrow> lstate \<Rightarrow> bool" where
  "descends N st st' \<longleftrightarrow> (\<forall>e' \<in> set (st_entries st').
     (\<exists>e \<in> set (st_entries st). le_seq e' = le_seq e \<and> le_id e' = le_id e \<and> le_key e' = le_key e \<and>
        (le_token e \<noteq> None \<longrightarrow> le_token e' = le_token e)) \<or> N e')"

abbreviation descends_only :: "lstate \<Rightarrow> lstate \<Rightarrow> bool" where
  "descends_only \<equiv> descends (\<lambda>_. False)"

lemma descends_sub: "set (st_entries st') \<subseteq> set (st_entries st) \<Longrightarrow> descends N st st'"
  by (auto simp: descends_def)

definition inherited :: "(entry \<Rightarrow> bool) \<Rightarrow> bool" where
  "inherited N \<longleftrightarrow> (\<forall>e e'. N e \<longrightarrow> le_seq e' = le_seq e \<longrightarrow> le_id e' = le_id e \<longrightarrow> le_key e' = le_key e \<longrightarrow> N e')"

lemma inherited_False [simp]: "inherited (\<lambda>_. False)"
  by (simp add: inherited_def)

lemma descends_weaken: "descends_only st st' \<Longrightarrow> descends N st st'"
  unfolding descends_def by blast

lemma descends_trans:
  assumes "descends N st m" "descends N m st'" "inherited N"
  shows "descends N st st'"
  unfolding descends_def
proof
  fix e' assume "e' \<in> set (st_entries st')"
  with assms(2) consider (old) e where "e \<in> set (st_entries m)" "le_seq e' = le_seq e" "le_id e' = le_id e" "le_key e' = le_key e"
      "le_token e \<noteq> None \<longrightarrow> le_token e' = le_token e" | (new) "N e'"
    unfolding descends_def by blast
  then show "(\<exists>e \<in> set (st_entries st). le_seq e' = le_seq e \<and> le_id e' = le_id e \<and> le_key e' = le_key e \<and>
        (le_token e \<noteq> None \<longrightarrow> le_token e' = le_token e)) \<or> N e'"
  proof cases
    case old
    from assms(1) old(1) consider (old') d where "d \<in> set (st_entries st)" "le_seq e = le_seq d" "le_id e = le_id d"
        "le_key e = le_key d" "le_token d \<noteq> None \<longrightarrow> le_token e = le_token d" | (new) "N e"
      unfolding descends_def by blast
    then show ?thesis
    proof cases
      case old'
      with old show ?thesis by (intro disjI1 bexI [of _ d]) auto
    next
      case new
      with old(2-4) assms(3) show ?thesis unfolding inherited_def by blast
    qed
  qed simp
qed

lemma step_descends:
  assumes "lease_step cfg env L st st'" "wf_lease st"
  shows "st_seq st \<le> st_seq st' \<and> (st_seq st' = st_seq st \<longrightarrow> descends_only st st')"
  using assms(1)
proof (cases rule: lease_step.cases)
  case (Touch f)
  then have "le_seq (f e) = le_seq e" "le_id (f e) = le_id e" "le_key (f e) = le_key e" "le_token (f e) = le_token e"
    if "e \<in> set (st_entries st)" for e
    using that ticket_eqD(1,2,8,11) by blast+
  with Touch(1,2) show ?thesis by (auto simp: descends_def)
next
  case (Grant e cd)
  have "le_token e = None" using Grant(2,3) assms(2) by (auto simp: wf_lease_def)
  with Grant show ?thesis by (auto simp: descends_def)
qed (auto simp: descends_def)

lemma steps_descend:
  assumes "lease_steps cfg env L st st'" "wf_lease st"
  shows "st_seq st \<le> st_seq st' \<and> (st_seq st' = st_seq st \<longrightarrow> descends_only st st')"
  using assms(1)
proof (induction rule: rtranclp_induct)
  case base
  show ?case by (simp add: descends_sub)
next
  case (step b c)
  from step_descends [OF step.hyps(2) wf_steps [OF step.hyps(1) assms(2)]] step.IH
  show ?case by (auto intro: descends_trans)
qed

lemmas admit_descends = steps_descend [OF admit_steps, THEN conjunct2, rule_format]

lemma prune_descends: "wf_lease st \<Longrightarrow> descends_only st (prune env (st\<lparr>st_queue_max := n\<rparr>))"
  by (rule descends_sub) auto

text \<open>Asking for a ticket: everything on file comes from before, or is the new ticket.\<close>

definition joins :: "request \<Rightarrow> lstate \<Rightarrow> entry \<Rightarrow> bool" where
  "joins q st e \<longleftrightarrow> le_seq e = st_seq st + 1 \<and> le_id e = q_uuid q \<and> le_key e = q_key q"

lemma inherited_joins [simp]: "inherited (joins q st)"
  by (simp add: inherited_def joins_def)

lemma joined_descends:
  assumes "admit cfg env (st\<lparr>st_seq := st_seq st + 1, st_entries := st_entries st @ [new_entry env q start (st_seq st + 1)]\<rparr>) = Some m"
    and "wf_lease st"
  shows "descends (joins q st) st m"
proof -
  let ?s = "st\<lparr>st_seq := st_seq st + 1, st_entries := st_entries st @ [new_entry env q start (st_seq st + 1)]\<rparr>"
  have w: "wf_lease ?s" using assms(2) by (auto simp: wf_lease_def)
  have "descends (joins q st) st ?s" by (auto simp: descends_def joins_def)
  moreover have "descends (joins q st) ?s m"
    using admit_descends [OF assms(1) w w] admit_idents [OF assms(1) w] by (simp add: descends_weaken)
  ultimately show ?thesis by (rule descends_trans) simp
qed

lemma same_core_wf: "same_core st st1 \<Longrightarrow> wf_lease st1 = wf_lease st"
  by (simp add: same_core_def wf_lease_def)

lemma same_core_descends: "same_core st st1 \<Longrightarrow> descends N st1 st' \<Longrightarrow> descends N st st'"
  by (simp add: same_core_def descends_def)

lemma enqueue_descends:
  assumes "enqueue cfg env q start st = Inr (r, st')" "wf_lease st"
  shows "descends (joins q st) st st'"
proof -
  let ?s = "st\<lparr>st_seq := st_seq st + 1, st_entries := st_entries st @ [new_entry env q start (st_seq st + 1)]\<rparr>"
  from assms(1) obtain m e where m: "admit cfg env ?s = Some m" "entry_by_seq (st_seq st + 1) m = Some e"
    by (auto simp: enqueue_def Let_def split: option.splits)
  have "st' = m \<or> st' = snd (busy_refusal env q e (m\<lparr>st_entries := filter (\<lambda>x. le_seq x \<noteq> st_seq st + 1) (st_entries m)\<rparr>))"
    using assms(1) m by (auto simp: enqueue_def Let_def split: if_splits)
  then have "descends (joins q st) m st'" by (auto intro: descends_sub)
  with joined_descends [OF m(1) assms(2)] show ?thesis by (rule descends_trans) simp
qed

lemma acquire_body_descends:
  assumes "acquire_body cfg env q st = Inr (r, st')" "wf_lease st"
  shows "wf_lease st' \<and> descends (joins q st) st st'"
proof
  show "wf_lease st'"
    using acquire_moves [of cfg env "{}" q] assms unfolding body_moves_def by (blast intro: wf_steps)
  show "descends (joins q st) st st'"
  proof (cases "if given (q_key q) then find (\<lambda>e. le_key e = q_key q) (st_entries st) else None")
    case None
    with assms(1) have "admit_request cfg env q st = Inr (r, st')" by (simp add: acquire_body_def)
    with admit_request_outcome [of cfg env q st] consider
        c w retry st1 where "same_core st st1" "(r, st') = reject env q c w retry None st1"
      | start st1 where "same_core st st1" "enqueue cfg env q start st1 = Inr (r, st')"
      unfolding request_outcome_def by force
    then show ?thesis
    proof cases
      case 1
      then show ?thesis by (intro descends_sub) (auto simp: same_core_def reject_def)
    next
      case 2
      then have "descends (joins q st1) st1 st'" using assms(2) by (simp add: enqueue_descends same_core_wf)
      with 2(1) show ?thesis by (simp add: same_core_def joins_def descends_def)
    qed
  next
    case (Some e)
    then have e: "e \<in> set (st_entries st)" by (auto split: if_splits dest: find_in)
    let ?t = "set_entry (e\<lparr>le_seen := ev_now env\<rparr>) st"
    have t: "lease_step cfg env {} st ?t" by (rule touch_step [OF assms(2) e]) simp
    note wt = wf_step [OF t assms(2)]
    from assms(1) Some have m: "admit cfg env ?t = Some st'"
      by (auto simp: acquire_body_def poll_ticket_def split: option.splits)
    have "descends_only st ?t" using step_descends [OF t assms(2)] by simp
    moreover have "descends_only ?t st'" using admit_descends [OF m wt wt] admit_idents [OF m wt] by simp
    ultimately show ?thesis by (rule descends_weaken [OF descends_trans]) simp
  qed
qed

lemma txn_descends:
  assumes w: "wf_lease (load cfg f)" and N: "inherited N"
    and body: "\<And>p x st1. wf_lease p \<Longrightarrow> st_seq p = st_seq (load cfg f) \<Longrightarrow> body p = Inr (x, st1) \<Longrightarrow> wf_lease st1 \<and> descends N p st1"
  shows "descends N (load cfg f) (load cfg (snd (txn cfg env body f)))"
proof -
  have run: "descends N (load cfg f) st2" if "txn_state cfg env body (load cfg f) = Inr (x, st2)" for x st2
  proof -
    let ?p = "prune env ((load cfg f)\<lparr>st_queue_max := cf_queue_max cfg\<rparr>)"
    from that obtain st1 where st1: "body ?p = Inr (x, st1)" "admit cfg env st1 = Some st2"
      by (auto simp: txn_state_def bind_result_Inr_iff split: option.splits)
    note b = body [OF wf_pruned [OF w] _ st1(1)]
    have "descends N ?p st1" "wf_lease st1" using b by simp_all
    moreover have "descends N st1 st2"
      using admit_descends [OF st1(2)] admit_idents [OF st1(2)] \<open>wf_lease st1\<close> by (blast intro: descends_weaken)
    ultimately show ?thesis using descends_weaken [OF prune_descends [OF w]] N by (blast intro: descends_trans)
  qed
  show ?thesis
  proof (cases "txn_state cfg env body (load cfg f)")
    case (Inl e)
    then show ?thesis by (cases f) (auto simp: txn_def load_def intro: descends_sub)
  next
    case (Inr y)
    with run [of "fst y" "snd y"] show ?thesis
      by (cases f; cases y) (auto simp: txn_def load_def intro: descends_sub)
  qed
qed

text \<open>So for every operation of any client: what is new on file is the ticket it asked for.\<close>

definition brought_by :: "op \<Rightarrow> lstate \<Rightarrow> entry \<Rightarrow> bool" where
  "brought_by p st e \<longleftrightarrow> (\<exists>q. p = Acquire q \<and> joins q st e)"

lemma body_seq:
  assumes "body_of cfg env p st = Inr (x, st')" "\<nexists>q. p = Acquire q"
  shows "st_seq st' = st_seq st"
proof (cases p)
  case (Cancel lid kind)
  with assms(1) show ?thesis
    by (auto simp: body_of_def forget_answer_def bind_result_Inr_iff cancel_body_def Let_def split: option.splits if_splits)
next
  case Status
  with assms(1) show ?thesis
    by (auto simp: body_of_def forget_answer_def bind_result_Inr_iff status_body_def split: option.splits)
qed (use assms in \<open>auto simp: body_of_def forget_answer_def renew_body_def begin_release_body_def release_body_def
    note_paused_body_def Let_def split: option.splits if_splits\<close>)

lemma body_of_descends:
  assumes "body_of cfg env p st = Inr (x, st')" "wf_lease st"
  shows "wf_lease st' \<and> descends (brought_by p st) st st'"
proof (cases "\<exists>q. p = Acquire q")
  case True
  then obtain q where p: "p = Acquire q" ..
  with assms(1) obtain r where "acquire_body cfg env q st = Inr (r, st')"
    by (auto simp: body_of_def forget_answer_def bind_result_Inr_iff)
  from acquire_body_descends [OF this assms(2)] p show ?thesis by (simp add: brought_by_def [abs_def])
next
  case False
  from body_of_moves [of cfg env p] assms have s: "lease_steps cfg env (freed p) st st'"
    unfolding body_moves_def by blast
  from wf_steps [OF s assms(2)] steps_descend [OF s assms(2)] body_seq [OF assms(1) False]
  show ?thesis by (simp add: descends_weaken)
qed

lemma exec_descends:
  assumes "wf_lease (load cfg f)"
  shows "wf_lease (load cfg (exec cfg env p f)) \<and> descends (brought_by p (load cfg f)) (load cfg f) (load cfg (exec cfg env p f))"
proof -
  have "descends (brought_by p (load cfg f)) (load cfg f) (load cfg (snd (txn cfg env (body_of cfg env p) f)))"
  proof (rule txn_descends [OF assms])
    show "inherited (brought_by p (load cfg f))" by (auto simp: inherited_def brought_by_def joins_def)
    fix a x st1 assume a: "wf_lease a" "st_seq a = st_seq (load cfg f)" "body_of cfg env p a = Inr (x, st1)"
    have "brought_by p a = brought_by p (load cfg f)" using a(2) by (simp add: brought_by_def joins_def fun_eq_iff)
    with body_of_descends [OF a(3,1)] show "wf_lease st1 \<and> descends (brought_by p (load cfg f)) a st1" by simp
  qed
  moreover have "wf_lease (load cfg (exec cfg env p f))"
    using exec_steps [of cfg env p f] assms wf_steps by (cases "exec cfg env p f") (auto simp: load_def)
  ultimately show ?thesis using exec_txn [of cfg env p f] by (auto intro: descends_sub)
qed

section \<open>The tickets of one key\<close>

type_synonym tickets = "(string \<times> int option) set"

definition tickets_of :: "string \<Rightarrow> lstate \<Rightarrow> tickets" where
  "tickets_of k st = {(le_id e, le_token e) | e. e \<in> set (st_entries st) \<and> le_key e = Some k}"

text \<open>At most one ticket has the key, and the ids issued for it (\<open>U\<close>) are its own.\<close>

definition ticket_law :: "string set \<Rightarrow> string \<Rightarrow> lstate \<Rightarrow> bool" where
  "ticket_law U k st \<longleftrightarrow> wf_lease st \<and> (\<forall>e \<in> set (st_entries st). le_id e \<in> U \<longleftrightarrow> le_key e = Some k) \<and>
     (\<forall>a \<in> set (st_entries st). \<forall>b \<in> set (st_entries st). le_key a = Some k \<longrightarrow> le_key b = Some k \<longrightarrow> le_seq a = le_seq b)"

text \<open>What may happen to the tickets while others work: they go, or wait and are granted, never swapped.\<close>

definition evolves :: "tickets \<Rightarrow> tickets \<Rightarrow> bool" where
  "evolves M M' \<longleftrightarrow> (\<forall>x. M \<subseteq> {x} \<times> UNIV \<longrightarrow> M' \<subseteq> {x} \<times> UNIV) \<and> (\<forall>x t. M \<subseteq> {(x, Some t)} \<longrightarrow> M' \<subseteq> {(x, Some t)})"

lemma evolves_refl [simp]: "evolves M M"
  by (simp add: evolves_def)

lemma evolves_trans: "evolves A B \<Longrightarrow> evolves B C \<Longrightarrow> evolves A C"
  by (auto simp: evolves_def)

lemma evolves_empty: "evolves {} M \<Longrightarrow> M = {}"
proof -
  assume "evolves {} M"
  then have "M \<subseteq> {''a''} \<times> UNIV" "M \<subseteq> {''b''} \<times> UNIV" unfolding evolves_def by blast+
  then show ?thesis by fastforce
qed

lemma ticket_law_seq:
  "ticket_law U k st \<Longrightarrow> \<forall>a \<in> set (st_entries st). \<forall>b \<in> set (st_entries st).
     le_key a = Some k \<longrightarrow> le_key b = Some k \<longrightarrow> le_seq a = le_seq b"
  unfolding ticket_law_def by (elim conjE)

text \<open>The ticket on file is one, if there is one.\<close>

lemma one_ticket:
  assumes "ticket_law U k st" "a \<in> set (st_entries st)" "le_key a = Some k"
  shows "tickets_of k st = {(le_id a, le_token a)}"
proof -
  from assms(1) have d: "distinct (map le_seq (st_entries st))" by (simp add: ticket_law_def wf_lease_def)
  have "b = a" if b: "b \<in> set (st_entries st)" "le_key b = Some k" for b
  proof -
    from ticket_law_seq [OF assms(1), rule_format, OF b(1) assms(2) b(2) assms(3)] have "le_seq b = le_seq a" .
    with unique_seq [OF d assms(2) b(1)] show ?thesis by simp
  qed
  then have "\<And>b. b \<in> set (st_entries st) \<and> le_key b = Some k \<longleftrightarrow> b = a" using assms(2,3) by blast
  then show ?thesis unfolding tickets_of_def by simp
qed

lemma descends_evolves:
  assumes "descends N st st'" "ticket_law U k st" "wf_lease st'" "\<And>e. N e \<Longrightarrow> le_key e \<noteq> Some k \<and> le_id e \<notin> U"
  shows "ticket_law U k st' \<and> evolves (tickets_of k st) (tickets_of k st')"
proof
  have old: "\<exists>e \<in> set (st_entries st). le_seq e' = le_seq e \<and> le_id e' = le_id e \<and> le_key e' = le_key e \<and>
      (le_token e \<noteq> None \<longrightarrow> le_token e' = le_token e)"
    if "e' \<in> set (st_entries st')" "le_key e' = Some k \<or> le_id e' \<in> U" for e'
    using assms(1) that assms(4) [of e'] unfolding descends_def by blast
  show "ticket_law U k st'"
    unfolding ticket_law_def
  proof (intro conjI ballI impI assms(3))
    fix e' assume e': "e' \<in> set (st_entries st')"
    show "le_id e' \<in> U \<longleftrightarrow> le_key e' = Some k"
      using old [OF e'] assms(2) unfolding ticket_law_def by metis
  next
    fix a b assume "a \<in> set (st_entries st')" "b \<in> set (st_entries st')" "le_key a = Some k" "le_key b = Some k"
    with old [of a] old [of b] assms(2) show "le_seq a = le_seq b" unfolding ticket_law_def by metis
  qed
  have one: "\<exists>t. (l, t) \<in> tickets_of k st \<and> (t \<noteq> None \<longrightarrow> t' = t)" if m: "(l, t') \<in> tickets_of k st'" for l t'
  proof -
    from m obtain e' where e': "e' \<in> set (st_entries st')" "le_key e' = Some k" "l = le_id e'" "t' = le_token e'"
      by (auto simp: tickets_of_def)
    from old [OF e'(1)] e'(2) obtain e where "e \<in> set (st_entries st)" "le_id e' = le_id e" "le_key e' = le_key e"
        "le_token e \<noteq> None \<longrightarrow> le_token e' = le_token e" by blast
    with e' show ?thesis by (auto simp: tickets_of_def intro!: exI [of _ "le_token e"])
  qed
  show "evolves (tickets_of k st) (tickets_of k st')"
    unfolding evolves_def
  proof (intro conjI allI impI subsetI)
    fix x y assume "tickets_of k st \<subseteq> {x} \<times> UNIV" "y \<in> tickets_of k st'"
    with one [of "fst y" "snd y"] show "y \<in> {x} \<times> UNIV" by (cases y) auto
  next
    fix x t y assume "tickets_of k st \<subseteq> {(x, Some t)}" "y \<in> tickets_of k st'"
    with one [of "fst y" "snd y"] show "y \<in> {(x, Some t)}" by (cases y) auto
  qed
qed

section \<open>What the client needs of an arbiter\<close>

definition quiet :: "('w \<Rightarrow> bool) \<Rightarrow> ('w \<Rightarrow> tickets) \<Rightarrow> ('w \<Rightarrow> 'w) \<Rightarrow> bool" where
  "quiet ok mine f \<longleftrightarrow> (\<forall>w. ok w \<longrightarrow> ok (f w) \<and> evolves (mine w) (mine (f w)))"

definition answer_fits :: "response \<Rightarrow> tickets \<Rightarrow> bool" where
  "answer_fits r M \<longleftrightarrow>
     (r_code r = STATE_UNREADABLE \<longrightarrow> M = {} \<and> \<not> r_granted r) \<and>
     (if r_granted r then \<exists>l t. r_lease_id r = Some l \<and> r_token r = Some t \<and> M = {(l, Some t)}
      else case r_lease_id r of None \<Rightarrow> M = {} | Some l \<Rightarrow> l \<noteq> [] \<and> M \<subseteq> {l} \<times> UNIV)"

locale lease_service =
  fixes ops :: "'w lease_ops" and q :: request and mine :: "'w \<Rightarrow> tickets" and ok :: "'w \<Rightarrow> bool"
  assumes now_quiet: "quiet ok mine (\<lambda>w. snd (lo_now ops w))"
    and sleep_quiet: "quiet ok mine (lo_sleep ops)"
    and acquire_law: "\<lbrakk>ok w; lo_acquire ops (q\<lparr>q_wait := b\<rparr>) w = (Inr r, w')\<rbrakk> \<Longrightarrow> ok w' \<and> answer_fits r (mine w')"
    and release_waiting: "\<lbrakk>ok w; mine w \<subseteq> {l} \<times> UNIV; lo_release ops l None w = (Inr a, w')\<rbrakk> \<Longrightarrow> ok w' \<and> mine w' = {}"
    and release_held: "\<lbrakk>ok w; mine w \<subseteq> {(l, Some t)}; lo_release ops l (Some t) w = (Inr a, w')\<rbrakk> \<Longrightarrow> ok w' \<and> mine w' = {}"

text \<open>The body of the \<open>with\<close>: it runs with a lease only while the arbiter has it on file, and with the lease in
  the environment.\<close>

definition runs_under :: "('w \<Rightarrow> tickets) \<Rightarrow> lease_info \<Rightarrow> 'w client \<Rightarrow> bool" where
  "runs_under mine i c \<longleftrightarrow>
     (if li_skipped i = None
      then \<exists>l t. li_id i = Some l \<and> li_token i = Some t \<and> mine (cl_svc c) = {(l, Some t)} \<and> cl_held c = Some l
      else li_id i = None \<and> mine (cl_svc c) = {})"

definition fair_body :: "('w \<Rightarrow> bool) \<Rightarrow> ('w \<Rightarrow> tickets) \<Rightarrow> (lease_info \<Rightarrow> 'w client \<Rightarrow> 'a \<times> 'w client) \<Rightarrow> bool" where
  "fair_body ok mine body \<longleftrightarrow> (\<forall>i c. ok (cl_svc c) \<longrightarrow> runs_under mine i c \<longrightarrow>
     (let c' = snd (body i c) in cl_held c' = cl_held c \<and> ok (cl_svc c') \<and> evolves (mine (cl_svc c)) (mine (cl_svc c'))))"

lemma evolves_answer: "answer_fits r M \<Longrightarrow> \<not> r_granted r \<Longrightarrow> evolves M M' \<Longrightarrow> answer_fits r M'"
  using evolves_empty [of M'] by (auto simp: answer_fits_def evolves_def split: option.splits)

context lease_service
begin

lemma poll_law:
  "poll_lease ops' q' wait_s t0 r w = Some y \<Longrightarrow> ops' = ops \<longrightarrow> (\<exists>b. q' = q\<lparr>q_wait := b\<rparr>) \<longrightarrow> ok w \<longrightarrow> answer_fits r (mine w) \<longrightarrow>
   (case y of (Inr r', w') \<Rightarrow> ok w' \<and> answer_fits r' (mine w') | _ \<Rightarrow> True)"
proof (induction ops' q' wait_s t0 r w y rule: poll_lease.raw_induct [rotated 1, consumes 1])
  fix f ops' q' wait_s t0 r w y
  assume ih: "\<And>ops' q' wait_s t0 r w y. f ops' q' wait_s t0 r w = Some y \<Longrightarrow>
      ops' = ops \<longrightarrow> (\<exists>b. q' = q\<lparr>q_wait := b\<rparr>) \<longrightarrow> ok w \<longrightarrow> answer_fits r (mine w) \<longrightarrow>
      (case y of (Inr r', w') \<Rightarrow> ok w' \<and> answer_fits r' (mine w') | _ \<Rightarrow> True)"
    and e: "(if r_granted r \<or> r_rejected r then Some (Inr r, w)
      else case lo_now ops' w of (t, w1) \<Rightarrow>
        if \<not> t - t0 < wait_s then Some (Inr r, w1)
        else case lo_acquire ops' q' (lo_sleep ops' w1) of
            (Inl e, w2) \<Rightarrow> Some (Inl e, w2)
          | (Inr r', w2) \<Rightarrow> f ops' q' wait_s t0 r' w2) = Some y"
  show "ops' = ops \<longrightarrow> (\<exists>b. q' = q\<lparr>q_wait := b\<rparr>) \<longrightarrow> ok w \<longrightarrow> answer_fits r (mine w) \<longrightarrow>
      (case y of (Inr r', w') \<Rightarrow> ok w' \<and> answer_fits r' (mine w') | _ \<Rightarrow> True)"
  proof (intro impI)
    assume o: "ops' = ops" and "\<exists>b. q' = q\<lparr>q_wait := b\<rparr>" and w: "ok w" "answer_fits r (mine w)"
    then obtain b where q: "q' = q\<lparr>q_wait := b\<rparr>" by blast
    show "case y of (Inr r', w') \<Rightarrow> ok w' \<and> answer_fits r' (mine w') | _ \<Rightarrow> True"
    proof (cases "r_granted r \<or> r_rejected r")
      case True
      with e w show ?thesis by auto
    next
      case False
      obtain t w1 where t: "lo_now ops w = (t, w1)" by (cases "lo_now ops w")
      with now_quiet w(1) have w1: "ok w1" "evolves (mine w) (mine w1)" unfolding quiet_def by (metis snd_conv)+
      from evolves_answer [OF w(2) _ w1(2)] False have a1: "answer_fits r (mine w1)" by simp
      let ?w = "lo_sleep ops w1"
      from sleep_quiet w1(1) have w2: "ok ?w" unfolding quiet_def by blast
      obtain a w3 where a: "lo_acquire ops q' ?w = (a, w3)" by (cases "lo_acquire ops q' ?w")
      show ?thesis
      proof (cases a)
        case (Inl z)
        with e False o t a a1 w1(1) show ?thesis by (fastforce split: if_splits)
      next
        case (Inr r')
        from acquire_law [OF w2 a [unfolded q Inr]] have n: "ok w3" "answer_fits r' (mine w3)" by simp_all
        show ?thesis
        proof (cases "t - t0 < wait_s")
          case True
          with e False o t a Inr have "f ops' q' wait_s t0 r' w3 = Some y" by simp
          from ih [OF this] o q n show ?thesis by blast
        next
          case False
          with e \<open>\<not> (r_granted r \<or> r_rejected r)\<close> o t have "y = (Inr r, w1)" by simp
          with w1(1) a1 show ?thesis by simp
        qed
      qed
    qed
  qed
qed

lemma ask_law:
  assumes "ask_lease ops (q\<lparr>q_wait := b\<rparr>) wait_s w = Some (Inr r, w')" "ok w"
  shows "ok w' \<and> answer_fits r (mine w')"
proof -
  obtain t w1 where t: "lo_now ops w = (t, w1)" by (cases "lo_now ops w")
  with now_quiet assms(2) have w1: "ok w1" unfolding quiet_def by (metis snd_conv)
  obtain a w2 where a: "lo_acquire ops (q\<lparr>q_wait := b\<rparr>) w1 = (a, w2)" by (cases "lo_acquire ops (q\<lparr>q_wait := b\<rparr>) w1")
  with assms(1) t obtain r0 where r0: "a = Inr r0" and p: "poll_lease ops (q\<lparr>q_wait := b\<rparr>) wait_s t r0 w2 = Some (Inr r, w')"
    by (cases a) (auto simp: ask_lease_def)
  from acquire_law [OF w1 a [unfolded r0]] have "ok w2" "answer_fits r0 (mine w2)" by simp_all
  with poll_law [OF p] show ?thesis by auto
qed

definition client_end :: "(lease_info \<Rightarrow> 'w client \<Rightarrow> ('x + 'r) \<times> 'w client) \<Rightarrow> 'w client \<Rightarrow> ('r, 'x) lease_end \<times> 'w client \<Rightarrow> bool" where
  "client_end body c y \<longleftrightarrow> (case y of (e, c') \<Rightarrow>
     cl_held c' = cl_held c \<and>
     (case e of
        Body x \<Rightarrow> (\<exists>i c1. runs_under mine i c1 \<and> fst (body i c1) = x) \<and>
                  (mine (cl_svc c') = {} \<or> (\<exists>l n. ReleaseFailed l n \<in> set (cl_log c')))
      | LeaseRefused r \<Rightarrow> mine (cl_svc c') = {}
      | ArbiterRaised n \<Rightarrow> True))"

lemma skipped_end:
  assumes "fair_body ok mine body" "ok (cl_svc c1)" "mine (cl_svc c1) = {}" "cl_held c1 = cl_held c"
  shows "client_end body c (map_prod Body id (body (skipping s) c1))"
proof -
  have u: "runs_under mine (skipping s) c1" using assms(3) by (simp add: runs_under_def skipping_def)
  with assms(1,2) have "cl_held (snd (body (skipping s) c1)) = cl_held c1" "mine (cl_svc (snd (body (skipping s) c1))) = {}"
    using assms(3) evolves_empty unfolding fair_body_def Let_def by metis+
  moreover have "\<exists>i c2. runs_under mine i c2 \<and> fst (body i c2) = fst (body (skipping s) c1)" using u by blast
  ultimately show ?thesis using assms(4) by (cases "body (skipping s) c1") (simp add: client_end_def)
qed

lemma give_up_end:
  assumes "ok (cl_svc c1)" "answer_fits r (mine (cl_svc c1))" "\<not> r_granted r" "cl_held c1 = cl_held c"
  shows "client_end body c (give_up ops r c1)"
proof (cases "r_lease_id r")
  case None
  with assms show ?thesis by (simp add: client_end_def give_up_def given_def answer_fits_def Let_def)
next
  case (Some l)
  then have l: "given (r_lease_id r)" "mine (cl_svc c1) \<subseteq> {l} \<times> UNIV"
    using assms(2,3) by (auto simp: answer_fits_def given_def)
  obtain a w where w: "lo_release ops l None (cl_svc c1) = (a, w)" by (cases "lo_release ops l None (cl_svc c1)")
  show ?thesis
  proof (cases a)
    case (Inl n)
    with w l(1) Some assms(4) show ?thesis by (simp add: client_end_def give_up_def Let_def)
  next
    case (Inr v)
    with release_waiting [OF assms(1) l(2) w [unfolded Inr]] w l(1) Some assms(4)
    show ?thesis by (simp add: client_end_def give_up_def Let_def)
  qed
qed

lemma leased_end:
  assumes "fair_body ok mine body" "ok (cl_svc c1)" "answer_fits r (mine (cl_svc c1))" "r_granted r" "cl_held c1 = cl_held c"
  shows "client_end body c (run_leased ops r body c1)"
proof -
  from assms(3,4) obtain l t where l: "r_lease_id r = Some l" "r_token r = Some t" "mine (cl_svc c1) = {(l, Some t)}"
    by (auto simp: answer_fits_def)
  let ?i = "\<lparr>li_id = Some l, li_token = Some t, li_skipped = None\<rparr>"
  let ?c = "c1\<lparr>cl_held := Some l\<rparr>"
  have u: "runs_under mine ?i ?c" using l(3) by (simp add: runs_under_def)
  obtain x c2 where b: "body ?i ?c = (x, c2)" by (cases "body ?i ?c")
  with assms(1,2) u have "ok (cl_svc c2)" "evolves (mine (cl_svc ?c)) (mine (cl_svc c2))"
    unfolding fair_body_def Let_def by (metis client.select_convs(4) client.surjective client.update_convs(2) snd_conv)+
  with l(3) have m: "ok (cl_svc c2)" "mine (cl_svc c2) \<subseteq> {(l, Some t)}" by (auto simp: evolves_def)
  have x: "\<exists>i c1. runs_under mine i c1 \<and> fst (body i c1) = x" using u b by (metis fst_conv)
  obtain a w where w: "lo_release ops l (Some t) (cl_svc c2) = (a, w)" by (cases "lo_release ops l (Some t) (cl_svc c2)")
  show ?thesis
  proof (cases a)
    case (Inl n)
    have "ReleaseFailed l n \<in> set (cl_log c2 @ [ReleaseFailed l n])" by simp
    with Inl w l(1,2) b x assms(5) show ?thesis
      by (auto simp: client_end_def run_leased_def notify_def Let_def)
  next
    case (Inr v)
    with release_held [OF m w [unfolded Inr]] w l(1,2) b x assms(5)
    show ?thesis by (simp add: client_end_def run_leased_def Let_def)
  qed
qed

lemma lease_ends:
  assumes "with_lease (Inr ops) q wait_s body c = Some y" "fair_body ok mine body" "ok (cl_svc c)" "mine (cl_svc c) = {}"
  shows "client_end body c y"
proof (cases "cl_off c \<or> given (cl_held c)")
  case True
  with assms(1) skipped_end [OF assms(2,3,4) refl] show ?thesis by (auto simp: with_lease_def)
next
  case False
  with assms(1) obtain a w where a: "ask_lease ops (q\<lparr>q_wait := wait_s > 0\<rparr>) wait_s (cl_svc c) = Some (a, w)"
    by (auto simp: with_lease_def split: option.splits)
  show ?thesis
  proof (cases a)
    case (Inl n)
    with False a assms(1) show ?thesis by (auto simp: with_lease_def client_end_def)
  next
    case (Inr r)
    let ?c = "c\<lparr>cl_svc := w\<rparr>"
    from ask_law [OF a [unfolded Inr] assms(3)] have w: "ok (cl_svc ?c)" "answer_fits r (mine (cl_svc ?c))" by simp_all
    have y: "y = (if r_code r = STATE_UNREADABLE
               then map_prod Body id (body (skipping Unreadable) (notify (RunsUnleased (r_reason r)) ?c))
               else if \<not> r_granted r then give_up ops r ?c else run_leased ops r body ?c)"
      using False a Inr assms(1) by (simp add: with_lease_def Let_def split: if_splits)
    show ?thesis
    proof (cases "r_code r = STATE_UNREADABLE")
      case True
      with w have "mine w = {}" by (simp add: answer_fits_def)
      with skipped_end [OF assms(2), of "notify (RunsUnleased (r_reason r)) ?c" c Unreadable] w(1) True y
      show ?thesis by (simp add: notify_def)
    next
      case F: False
      with y give_up_end [OF w, of c body] leased_end [OF assms(2) w, of c] show ?thesis by (cases "r_granted r") simp_all
    qed
  qed
qed

end

section \<open>The arbiter among other clients\<close>

text \<open>
  Before every call of ours other processes run operations of their own. They ask with other keys, and an id is
  issued once (a \<open>uuid4\<close> each).
\<close>

record turn =
  tn_env :: env
  tn_uuid :: string
  tn_clock :: pyfloat
  tn_others :: "(env \<times> op) list"

record arb_world =
  aw_file :: lfile
  aw_turn :: nat

definition others_run :: "config \<Rightarrow> (env \<times> op) list \<Rightarrow> lfile \<Rightarrow> lfile" where
  "others_run cfg ps f = fold (\<lambda>(env, p). exec cfg env p) ps f"

definition met_file :: "config \<Rightarrow> (nat \<Rightarrow> turn) \<Rightarrow> arb_world \<Rightarrow> lfile" where
  "met_file cfg sch w = others_run cfg (tn_others (sch (aw_turn w))) (aw_file w)"

definition next_world :: "arb_world \<Rightarrow> lfile \<Rightarrow> arb_world" where
  "next_world w f = \<lparr>aw_file = f, aw_turn = Suc (aw_turn w)\<rparr>"

definition arbiter_ops :: "config \<Rightarrow> (nat \<Rightarrow> turn) \<Rightarrow> arb_world lease_ops" where
  "arbiter_ops cfg sch =
     \<lparr>lo_acquire = \<lambda>q w. let t = sch (aw_turn w) in
        map_prod id (next_world w) (acquire cfg (tn_env t) (q\<lparr>q_uuid := tn_uuid t\<rparr>) (met_file cfg sch w)),
      lo_release = \<lambda>l tok w. map_prod id (next_world w) (release cfg (tn_env (sch (aw_turn w))) l tok (met_file cfg sch w)),
      lo_now = \<lambda>w. (tn_clock (sch (aw_turn w)), next_world w (met_file cfg sch w)),
      lo_sleep = \<lambda>w. next_world w (met_file cfg sch w)\<rparr>"

definition foreign :: "string set \<Rightarrow> string \<Rightarrow> op \<Rightarrow> bool" where
  "foreign U k p \<longleftrightarrow> (\<forall>q. p = Acquire q \<longrightarrow> q_key q \<noteq> Some k \<and> q_uuid q \<notin> U)"

definition own_ids :: "(nat \<Rightarrow> turn) \<Rightarrow> string set" where
  "own_ids sch = range (\<lambda>n. tn_uuid (sch n))"

definition schedule_ok :: "(nat \<Rightarrow> turn) \<Rightarrow> request \<Rightarrow> bool" where
  "schedule_ok sch q \<longleftrightarrow> given (q_key q) \<and> [] \<notin> own_ids sch \<and>
     (\<forall>n. \<forall>x \<in> set (tn_others (sch n)). foreign (own_ids sch) (the (q_key q)) (snd x))"

definition world_ok :: "config \<Rightarrow> (nat \<Rightarrow> turn) \<Rightarrow> request \<Rightarrow> arb_world \<Rightarrow> bool" where
  "world_ok cfg sch q w \<longleftrightarrow> schedule_ok sch q \<and> ticket_law (own_ids sch) (the (q_key q)) (load cfg (aw_file w))"

definition our_tickets :: "config \<Rightarrow> request \<Rightarrow> arb_world \<Rightarrow> tickets" where
  "our_tickets cfg q w = tickets_of (the (q_key q)) (load cfg (aw_file w))"

lemma exec_law:
  assumes "ticket_law U k (load cfg f)" "foreign U k p"
  shows "ticket_law U k (load cfg (exec cfg env p f)) \<and> evolves (tickets_of k (load cfg f)) (tickets_of k (load cfg (exec cfg env p f)))"
proof -
  from assms(1) have w: "wf_lease (load cfg f)" by (simp add: ticket_law_def)
  note d = exec_descends [OF w, of env p]
  show ?thesis
    by (rule descends_evolves [OF d [THEN conjunct2] assms(1) d [THEN conjunct1]])
      (use assms(2) in \<open>auto simp: foreign_def brought_by_def joins_def\<close>)
qed

lemma others_law:
  assumes "\<forall>x \<in> set ps. foreign U k (snd x)" "ticket_law U k (load cfg f)"
  shows "ticket_law U k (load cfg (others_run cfg ps f)) \<and>
    evolves (tickets_of k (load cfg f)) (tickets_of k (load cfg (others_run cfg ps f)))"
  using assms
proof (induction ps arbitrary: f)
  case (Cons x ps)
  obtain env p where x: "x = (env, p)" by (cases x)
  from Cons.prems x have "ticket_law U k (load cfg (exec cfg env p f))"
      "evolves (tickets_of k (load cfg f)) (tickets_of k (load cfg (exec cfg env p f)))"
    using exec_law [of U k cfg f p env] by auto
  with Cons.IH [of "exec cfg env p f"] Cons.prems(1) x show ?case by (auto simp: others_run_def intro: evolves_trans)
qed (simp add: others_run_def)

lemma met_law:
  assumes "world_ok cfg sch q w"
  shows "ticket_law (own_ids sch) (the (q_key q)) (load cfg (met_file cfg sch w))"
    and "evolves (our_tickets cfg q w) (tickets_of (the (q_key q)) (load cfg (met_file cfg sch w)))"
  using assms others_law [of "tn_others (sch (aw_turn w))" "own_ids sch" "the (q_key q)" cfg "aw_file w"]
  by (auto simp: world_ok_def schedule_ok_def met_file_def our_tickets_def)

lemma pass_quiet: "quiet (world_ok cfg sch q) (our_tickets cfg q) (\<lambda>w. next_world w (met_file cfg sch w))"
  using met_law unfolding quiet_def by (auto simp: next_world_def our_tickets_def world_ok_def)

lemma txn_Inr:
  assumes "txn cfg env body f = (Inr a, f')"
  obtains st1 st2 where "f' = FState st2" "admit cfg env st1 = Some st2"
    "body (prune env ((load cfg f)\<lparr>st_queue_max := cf_queue_max cfg\<rparr>)) = Inr (a, st1)"
  using assms by (cases f) (auto simp: txn_def txn_state_def load_def bind_result_Inr_iff Let_def split: sum.splits option.splits)

lemma admit_law:
  assumes "admit cfg env st = Some st'" "ticket_law U k st"
  shows "ticket_law U k st' \<and> evolves (tickets_of k st) (tickets_of k st') \<and> (tickets_of k st \<noteq> {} \<longrightarrow> tickets_of k st' \<noteq> {})"
proof -
  from assms(2) have w: "wf_lease st" by (simp add: ticket_law_def)
  note i = admit_idents [OF assms(1) w]
  have "descends_only st st'" using admit_descends [OF assms(1) w w] i by simp
  from descends_evolves [OF this assms(2)] i
  have *: "ticket_law U k st' \<and> evolves (tickets_of k st) (tickets_of k st')" by simp
  have keys: "map (snd \<circ> snd) (idents st') = map (snd \<circ> snd) (idents st)" using i by simp
  have "tickets_of k s \<noteq> {} \<longleftrightarrow> Some k \<in> set (map (snd \<circ> snd) (idents s))" for s
    by (auto simp: tickets_of_def idents_def image_iff) metis
  with * keys show ?thesis by metis
qed

lemma admit_answer:
  assumes "admit cfg env st = Some st'" "ticket_law U k st" "answer_fits r (tickets_of k st)"
  shows "answer_fits r (tickets_of k st')"
proof (cases "r_granted r")
  case True
  then obtain l t where "r_lease_id r = Some l" "r_token r = Some t" "tickets_of k st = {(l, Some t)}" "r_code r \<noteq> STATE_UNREADABLE"
    using assms(3) by (auto simp: answer_fits_def)
  moreover from this admit_law [OF assms(1,2)] have "tickets_of k st' = {(l, Some t)}" unfolding evolves_def by blast
  ultimately show ?thesis using True by (simp add: answer_fits_def)
qed (use evolves_answer [OF assms(3)] admit_law [OF assms(1,2)] in blast)

text \<open>The answer of the critical section names the ticket of the key, or says there is none.\<close>

lemma wf_filtered:
  "wf_lease st \<Longrightarrow> st_entries st1 = filter keep (st_entries st) \<Longrightarrow> st_seq st1 = st_seq st \<Longrightarrow> st_token st1 = st_token st \<Longrightarrow>
   wf_lease st1"
  by (auto simp: wf_lease_def distinct_map_filter tokens_filter)

lemma view_answer:
  assumes "ticket_law U k st" "[] \<notin> U" "e \<in> set (st_entries st)" "le_key e = Some k"
  shows "answer_fits (view_of st e) (tickets_of k st)"
proof -
  from assms(1,3,4) have "le_id e \<in> U" "if is_granted e then le_token e \<noteq> None else le_token e = None"
    unfolding ticket_law_def wf_lease_def by (auto split: if_splits)
  moreover have "le_id e \<noteq> []" using assms(2) \<open>le_id e \<in> U\<close> by metis
  ultimately show ?thesis
    unfolding one_ticket [OF assms(1,3,4)] by (cases "is_granted e") (auto simp: answer_fits_def view_of_def Let_def)
qed

lemma by_seq_key:
  assumes "admit cfg env st = Some m" "wf_lease st" "entry_by_seq n m = Some e'"
    and "e \<in> set (st_entries st)" "le_seq e = n"
  shows "e' \<in> set (st_entries m)" "le_key e' = le_key e" "le_id e' = le_id e"
proof -
  from entry_by_seq_Some [OF assms(3)] show e': "e' \<in> set (st_entries m)" by simp
  have "(le_seq e', le_id e', le_key e') \<in> set (idents m)" using e' by (auto simp: idents_def)
  then have "(n, le_id e', le_key e') \<in> set (idents st)"
    using admit_idents [OF assms(1,2)] entry_by_seq_Some [OF assms(3)] by simp
  then obtain x where x: "x \<in> set (st_entries st)" "le_seq x = n" "le_id x = le_id e'" "le_key x = le_key e'"
    by (auto simp: idents_def)
  have "distinct (map le_seq (st_entries st))" using assms(2) by (simp add: wf_lease_def)
  from unique_seq [OF this assms(4) x(1)] x assms(5) show "le_key e' = le_key e" "le_id e' = le_id e" by auto
qed

lemma enqueue_answer:
  assumes "enqueue cfg env q start st = Inr (r, st')" "ticket_law U k st" "tickets_of k st = {}"
    and "q_key q = Some k" "q_uuid q \<in> U" "[] \<notin> U"
  shows "ticket_law U k st' \<and> answer_fits r (tickets_of k st')"
proof -
  let ?n = "st_seq st + 1"
  let ?e = "new_entry env q start ?n"
  let ?s = "st\<lparr>st_seq := ?n, st_entries := st_entries st @ [?e]\<rparr>"
  have none: "le_key x \<noteq> Some k" if "x \<in> set (st_entries st)" for x using assms(3) that by (auto simp: tickets_of_def)
  from assms(2) have w: "wf_lease st" by (simp add: ticket_law_def)
  then have ws: "wf_lease ?s" by (auto simp: wf_lease_def)
  have s: "ticket_law U k ?s"
    unfolding ticket_law_def using ws assms(2,4,5) none by (auto simp: ticket_law_def)
  from assms(1) obtain m e where m: "admit cfg env ?s = Some m" "entry_by_seq ?n m = Some e"
    by (auto simp: enqueue_def Let_def split: option.splits)
  have e: "e \<in> set (st_entries m)" "le_key e = Some k"
    using by_seq_key [OF m(1) ws m(2), of ?e] assms(4) by simp_all
  have lm: "ticket_law U k m" using admit_law [OF m(1) s] by simp
  show ?thesis
  proof (cases "\<not> is_granted e \<and> \<not> q_wait q")
    case True
    let ?b = "busy_refusal env q e (m\<lparr>st_entries := filter (\<lambda>x. le_seq x \<noteq> ?n) (st_entries m)\<rparr>)"
    have b: "(r, st') = ?b" using assms(1) m True by (simp add: enqueue_def Let_def)
    then have "st' = snd ?b" by (metis snd_conv)
    then have es: "st_entries st' = filter (\<lambda>x. le_seq x \<noteq> ?n) (st_entries m)" "st_seq st' = st_seq m" "st_token st' = st_token m"
      by simp_all
    have wm: "wf_lease m" using lm by (simp add: ticket_law_def)
    from wf_filtered [OF this es] have "wf_lease st'" .
    moreover have "descends_only m st'" using es(1) by (intro descends_sub) auto
    ultimately have "ticket_law U k st'" using descends_evolves [of "\<lambda>_. False" m st' U k] lm by simp
    moreover have "le_seq x = ?n" if "x \<in> set (st_entries m)" "le_key x = Some k" for x
      using ticket_law_seq [OF lm, rule_format, OF that(1) e(1) that(2) e(2)] entry_by_seq_Some [OF m(2)] by simp
    then have "tickets_of k st' = {}" using es(1) by (auto simp: tickets_of_def)
    moreover have "r_lease_id r = None" "\<not> r_granted r" using b by (auto simp: busy_refusal_def reject_def refusal_def Let_def)
    ultimately show ?thesis by (simp add: answer_fits_def)
  next
    case False
    with assms(1) m have "st' = m" "r = view_of m e" by (auto simp: enqueue_def Let_def)
    with view_answer [OF lm assms(6) e] lm show ?thesis by simp
  qed
qed

lemma same_core_law:
  "same_core st st1 \<Longrightarrow> ticket_law U k st1 = ticket_law U k st"
  "same_core st st1 \<Longrightarrow> tickets_of k st1 = tickets_of k st"
  by (simp_all add: same_core_def ticket_law_def wf_lease_def tickets_of_def)

lemma release_body_keeps:
  assumes "release_body l tok st = (a, st1)"
  shows "\<exists>keep. st_entries st1 = filter keep (st_entries st) \<and> st_seq st1 = st_seq st \<and> st_token st1 = st_token st"
proof -
  have "st1 = st \<or> st_entries st1 = filter (\<lambda>e. le_id e \<noteq> l) (st_entries st) \<and> st_seq st1 = st_seq st \<and> st_token st1 = st_token st"
    using assms by (auto simp: release_body_def Let_def split: option.splits if_splits)
  then show ?thesis using filter_True [of "st_entries st" "\<lambda>_. True"] by metis
qed

lemma acquire_body_raises: "acquire_body cfg env q st = Inl x \<Longrightarrow> x = IndexError"
  using admit_request_outcome [of cfg env q st]
  by (auto simp: acquire_body_def poll_ticket_def request_outcome_def enqueue_def Let_def split: option.splits if_splits)

lemma txn_raises:
  assumes "fst (txn cfg env body f) = Inl LeaseStateUnreadable" "\<And>st. body st \<noteq> Inl LeaseStateUnreadable"
  shows "f = FDamaged"
proof -
  have "txn_state cfg env body st \<noteq> Inl LeaseStateUnreadable" for st
    using assms(2) by (auto simp: txn_state_def bind_result_def split: sum.splits option.splits)
  with assms(1) show ?thesis by (cases f) (auto simp: txn_def Let_def split: sum.splits)
qed

lemma or_refuse_Inr:
  assumes "or_refuse d (txn cfg env body f) = (Inr a, f')" "\<And>st. body st \<noteq> Inl LeaseStateUnreadable" "f \<noteq> FDamaged"
  shows "txn cfg env body f = (Inr a, f')"
  using assms(1) txn_raises [of cfg env body f] assms(2) assms(3)
  by (cases "txn cfg env body f") (auto simp: or_refuse_def split: sum.splits exn.splits)

lemma acquire_answer:
  assumes "acquire cfg env q f = (Inr r, f')" "ticket_law U k (load cfg f)"
    and "q_key q = Some k" "given (q_key q)" "q_uuid q \<in> U" "[] \<notin> U"
  shows "ticket_law U k (load cfg f') \<and> answer_fits r (tickets_of k (load cfg f'))"
proof (cases "f = FDamaged")
  case True
  with assms(1) have "f' = FDamaged" "r = refusal STATE_UNREADABLE StateDamaged None None"
    by (auto simp: acquire_def txn_def or_refuse_def)
  then show ?thesis
    using assms(2) True by (simp add: load_def init_state_def tickets_of_def answer_fits_def refusal_def)
next
  case False
  have "acquire_body cfg env q st \<noteq> Inl LeaseStateUnreadable" for st using acquire_body_raises by blast
  from or_refuse_Inr [OF assms(1) [unfolded acquire_def] this False] obtain st1 st2 where f': "f' = FState st2" and ad: "admit cfg env st1 = Some st2"
    and b: "acquire_body cfg env q (prune env ((load cfg f)\<lparr>st_queue_max := cf_queue_max cfg\<rparr>)) = Inr (r, st1)" (is "acquire_body cfg env q ?p = _")
    by (rule txn_Inr)
  from assms(2) have wf: "wf_lease (load cfg f)" by (simp add: ticket_law_def)
  from descends_evolves [OF prune_descends [OF wf] assms(2) wf_pruned [OF wf]]
  have p: "ticket_law U k ?p" by simp
  then have wp: "wf_lease ?p" by (simp add: ticket_law_def)
  have "ticket_law U k st1 \<and> answer_fits r (tickets_of k st1)"
  proof (cases "find (\<lambda>e. le_key e = q_key q) (st_entries ?p)")
    case (Some e)
    then have e: "e \<in> set (st_entries ?p)" "le_key e = Some k" using find_in [OF Some] assms(3) by simp_all
    let ?t = "set_entry (e\<lparr>le_seen := ev_now env\<rparr>) ?p"
    have t: "lease_step cfg env {} ?p ?t" by (rule touch_step [OF wp e(1)]) simp
    note wt = wf_step [OF t wp]
    have "descends_only ?p ?t" using step_descends [OF t wp] by simp
    from descends_evolves [OF this p wt] have lt: "ticket_law U k ?t" by simp
    from b Some assms(4) obtain e' where m: "admit cfg env ?t = Some st1" "entry_by_seq (le_seq e) st1 = Some e'" "r = view_of st1 e'"
      by (auto simp: acquire_body_def poll_ticket_def split: option.splits)
    have "e\<lparr>le_seen := ev_now env\<rparr> \<in> set (st_entries ?t)" using e(1) by force
    from by_seq_key [OF m(1) wt m(2) this] e(2) have "e' \<in> set (st_entries st1)" "le_key e' = Some k" by simp_all
    with view_answer [of U k st1 e'] admit_law [OF m(1) lt] assms(6) m(3) show ?thesis by simp
  next
    case None
    then have none: "tickets_of k ?p = {}" using assms(3) by (auto simp: tickets_of_def find_None_iff)
    from b None have "admit_request cfg env q ?p = Inr (r, st1)" by (simp add: acquire_body_def split: if_splits)
    with admit_request_outcome [of cfg env q ?p] consider
        c w retry m where "same_core ?p m" "(r, st1) = reject env q c w retry None m"
      | start m where "same_core ?p m" "enqueue cfg env q start m = Inr (r, st1)"
      unfolding request_outcome_def by force
    then show ?thesis
    proof cases
      case 1
      then have "same_core ?p st1" "r = refusal c w retry None" by (auto simp: same_core_def reject_def)
      with p none same_core_law [of ?p st1] show ?thesis by (simp add: answer_fits_def refusal_def)
    next
      case 2
      then have "ticket_law U k m" "tickets_of k m = {}"
        using p none same_core_law [of ?p m] by simp_all
      from enqueue_answer [OF 2(2) this assms(3,5,6)] show ?thesis .
    qed
  qed
  with admit_law [OF ad] admit_answer [OF ad] f' show ?thesis by (auto simp: load_def)
qed

lemma release_answer:
  assumes "release cfg env l tok f = (Inr a, f')" "ticket_law U k (load cfg f)"
    and "tickets_of k (load cfg f) \<subseteq> {l} \<times> UNIV" "tok = None \<or> tickets_of k (load cfg f) \<subseteq> {(l, tok)}"
  shows "ticket_law U k (load cfg f') \<and> tickets_of k (load cfg f') = {}"
proof (cases "f = FDamaged")
  case True
  with assms(1) have "f' = FDamaged" by (auto simp: release_def txn_def or_refuse_def)
  then show ?thesis using assms(2) True by (simp add: load_def init_state_def tickets_of_def)
next
  case False
  from or_refuse_Inr [OF assms(1) [unfolded release_def] _ False] obtain st1 st2 where f': "f' = FState st2" and ad: "admit cfg env st1 = Some st2"
    and b: "release_body l tok (prune env ((load cfg f)\<lparr>st_queue_max := cf_queue_max cfg\<rparr>)) = (a, st1)" (is "release_body l tok ?p = _")
    by (auto elim: txn_Inr)
  from assms(2) have wf: "wf_lease (load cfg f)" by (simp add: ticket_law_def)
  from descends_evolves [OF prune_descends [OF wf] assms(2) wf_pruned [OF wf]]
  have p: "ticket_law U k ?p" by simp
  have sub: "tickets_of k ?p \<subseteq> tickets_of k (load cfg f)" by (auto simp: tickets_of_def)
  then have m: "tickets_of k ?p \<subseteq> {l} \<times> UNIV" "tok = None \<or> tickets_of k ?p \<subseteq> {(l, tok)}" using assms(3,4) by blast+
  note es = release_body_keeps [OF b]
  have w1: "wf_lease st1" using es p wf_filtered unfolding ticket_law_def by blast
  have "descends_only ?p st1" using es by (intro descends_sub) auto
  from descends_evolves [OF this p w1] have l1: "ticket_law U k st1" by simp
  have "tickets_of k st1 = {}"
  proof (cases "find (\<lambda>e. le_id e = l) (st_entries ?p)")
    case None
    then have "tickets_of k ?p = {}" using m(1) by (fastforce simp: tickets_of_def find_None_iff)
    with es show ?thesis by (auto simp: tickets_of_def)
  next
    case (Some me)
    then have me: "me \<in> set (st_entries ?p)" "le_id me = l" using find_in [OF Some] by simp_all
    show ?thesis
    proof (cases "tok \<noteq> None \<and> le_token me \<noteq> tok")
      case False
      with b Some have "st_entries st1 = filter (\<lambda>e. le_id e \<noteq> l) (st_entries ?p)"
        by (auto simp: release_body_def Let_def split: if_splits)
      with m(1) show ?thesis by (fastforce simp: tickets_of_def)
    next
      case True
      have "tickets_of k ?p = {}"
      proof (rule ccontr)
        assume "tickets_of k ?p \<noteq> {}"
        then obtain e where e: "e \<in> set (st_entries ?p)" "le_key e = Some k" by (auto simp: tickets_of_def)
        with m(1) have "le_id e = l" by (auto simp: tickets_of_def)
        with p e me have "le_key me = Some k" unfolding ticket_law_def by metis
        with m(2) me True show False by (auto simp: tickets_of_def)
      qed
      with es show ?thesis by (auto simp: tickets_of_def)
    qed
  qed
  with admit_law [OF ad l1] evolves_empty f' show ?thesis by (auto simp: load_def)
qed

interpretation arbiter: lease_service "arbiter_ops cfg sch" q "our_tickets cfg q" "world_ok cfg sch q" for cfg sch q
proof
  let ?k = "the (q_key q)" and ?U = "own_ids sch"
  show "quiet (world_ok cfg sch q) (our_tickets cfg q) (\<lambda>w. snd (lo_now (arbiter_ops cfg sch) w))"
    "quiet (world_ok cfg sch q) (our_tickets cfg q) (lo_sleep (arbiter_ops cfg sch))"
    using pass_quiet [of cfg sch q] by (simp_all add: arbiter_ops_def)
  fix w b r w'
  assume w: "world_ok cfg sch q w" and a: "lo_acquire (arbiter_ops cfg sch) (q\<lparr>q_wait := b\<rparr>) w = (Inr r, w')"
  let ?t = "sch (aw_turn w)"
  from a obtain f where f: "acquire cfg (tn_env ?t) (q\<lparr>q_wait := b, q_uuid := tn_uuid ?t\<rparr>) (met_file cfg sch w) = (Inr r, f)"
      "w' = next_world w f"
    by (auto simp: arbiter_ops_def Let_def map_prod_def split: prod.splits)
  from w have s: "schedule_ok sch q" by (simp add: world_ok_def)
  then have g: "given (q_key q)" "q_key q = Some ?k" by (auto simp: schedule_ok_def given_def)
  have "ticket_law ?U ?k (load cfg f) \<and> answer_fits r (tickets_of ?k (load cfg f))"
    by (rule acquire_answer [OF f(1) met_law(1) [OF w]]) (use g s in \<open>auto simp: schedule_ok_def own_ids_def\<close>)
  with s f(2) show "world_ok cfg sch q w' \<and> answer_fits r (our_tickets cfg q w')"
    by (simp add: world_ok_def our_tickets_def next_world_def)
next
  let ?k = "the (q_key q)" and ?U = "own_ids sch"
  have rel: "world_ok cfg sch q w' \<and> our_tickets cfg q w' = {}"
    if w: "world_ok cfg sch q w" and m: "our_tickets cfg q w \<subseteq> {l} \<times> UNIV" "tok = None \<or> our_tickets cfg q w \<subseteq> {(l, tok)}"
      and a: "lo_release (arbiter_ops cfg sch) l tok w = (Inr a, w')" for w l tok a w'
  proof -
    let ?t = "sch (aw_turn w)"
    from a obtain f where f: "release cfg (tn_env ?t) l tok (met_file cfg sch w) = (Inr a, f)" "w' = next_world w f"
      by (auto simp: arbiter_ops_def Let_def map_prod_def split: prod.splits)
    have "tickets_of ?k (load cfg (met_file cfg sch w)) \<subseteq> {l} \<times> UNIV"
      "tok = None \<or> tickets_of ?k (load cfg (met_file cfg sch w)) \<subseteq> {(l, tok)}"
      using met_law(2) [OF w] m unfolding evolves_def by (blast, cases tok, simp_all)
    from release_answer [OF f(1) met_law(1) [OF w] this] w f(2)
    show ?thesis by (simp add: world_ok_def our_tickets_def next_world_def)
  qed
  show "world_ok cfg sch q w' \<and> our_tickets cfg q w' = {}"
    if "world_ok cfg sch q w" "our_tickets cfg q w \<subseteq> {l} \<times> UNIV" "lo_release (arbiter_ops cfg sch) l None w = (Inr a, w')" for w l a w'
    using rel [OF that(1,2) _ that(3)] by simp
  show "world_ok cfg sch q w' \<and> our_tickets cfg q w' = {}"
    if "world_ok cfg sch q w" "our_tickets cfg q w \<subseteq> {(l, Some t)}" "lo_release (arbiter_ops cfg sch) l (Some t) w = (Inr a, w')" for w l t a w'
    using rel [OF that(1) _ _ that(3)] that(2) by blast
qed

section \<open>The client stops waiting\<close>

text \<open>
  Before every look at the clock there is a \<open>sleep(1.0)\<close>, so the monotonic clock passes any point for good.
\<close>

definition clock_passes :: "(nat \<Rightarrow> turn) \<Rightarrow> bool" where
  "clock_passes sch \<longleftrightarrow> (\<forall>x. \<exists>n. \<forall>m \<ge> n. x \<le> tn_clock (sch m))"

lemma poll_returns:
  assumes "\<forall>m \<ge> n. t0 + wait_s \<le> tn_clock (sch m)"
  shows "\<exists>y. poll_lease (arbiter_ops cfg sch) q wait_s t0 r w = Some y"
proof (induction "n - aw_turn w" arbitrary: r w rule: less_induct)
  case less
  show ?case
  proof (cases "n \<le> aw_turn w")
    case True
    with assms have "\<not> tn_clock (sch (aw_turn w)) - t0 < wait_s" by (metis add.commute le_diff_eq not_less)
    then show ?thesis by (subst poll_lease.simps) (simp add: arbiter_ops_def)
  next
    case False
    then have "\<exists>y. poll_lease (arbiter_ops cfg sch) q wait_s t0 r' w' = Some y" if "aw_turn w < aw_turn w'" for r' w'
      using that by (intro less.hyps) linarith
    then show ?thesis
      by (subst poll_lease.simps) (auto simp: arbiter_ops_def Let_def next_world_def map_prod_def split: prod.splits sum.splits)
  qed
qed

lemma with_lease_returns:
  assumes "clock_passes sch"
  shows "\<exists>y. with_lease (Inr (arbiter_ops cfg sch)) q wait_s body c = Some y"
proof -
  have poll: "\<exists>y. poll_lease (arbiter_ops cfg sch) q' wait_s t0 r w = Some y" for q' t0 r w
    using assms poll_returns [of _ t0 wait_s sch cfg q' r w] unfolding clock_passes_def by blast
  have "\<exists>y. ask_lease (arbiter_ops cfg sch) q' wait_s w = Some y" for q' w
    using poll unfolding ask_lease_def by (auto split: prod.splits sum.splits)
  then obtain a where "ask_lease (arbiter_ops cfg sch) (q\<lparr>q_wait := wait_s > 0\<rparr>) wait_s (cl_svc c) = Some a" by blast
  then show ?thesis by (auto simp: with_lease_def Let_def split: prod.splits sum.splits)
qed

section \<open>A lease leaves nothing behind\<close>


text \<open>
  The CLI asks for the card while an interactive job of the owner has it; that job ends before the second poll,
  and the CLI's body runs with its lease.
\<close>

definition demo_ask :: request where
  "demo_ask = (demo_request ''greenboost.cli'' 4000 3 ''k'')\<lparr>q_ttl := 300\<rparr>"

definition demo_schedule :: "nat \<Rightarrow> turn" where
  "demo_schedule n =
     \<lparr>tn_env = demo_env (of_nat n), tn_uuid = ''mine'', tn_clock = of_nat n,
      tn_others = (if n = 0 then [(demo_env 0, Acquire ((demo_request ''owner.interactive'' 8000 1 ''a'')\<lparr>q_tiering := True\<rparr>))]
                   else if n = 3 then [(demo_env 3, Release ''a'' None)] else [])\<rparr>"

definition demo_client :: "arb_world client" where
  "demo_client = \<lparr>cl_off = False, cl_held = None, cl_log = [], cl_svc = \<lparr>aw_file = FAbsent, aw_turn = 0\<rparr>\<rparr>"

definition demo_body :: "lease_info \<Rightarrow> arb_world client \<Rightarrow> (string + int option) \<times> arb_world client" where
  "demo_body i c = (Inr (li_token i), c)"

definition demo_lease :: "((int option, string) lease_end \<times> arb_world client) option" where
  "demo_lease = with_lease (Inr (arbiter_ops demo_cfg demo_schedule)) demo_ask 10 demo_body demo_client"

lemma demo_lease_runs: "map_option fst demo_lease = Some (Body (Inr (Some 2)))"
  unfolding demo_lease_def by code_simp


section \<open>Unloading under a holder\<close>

definition unload_check :: "config \<Rightarrow> env \<Rightarrow> string \<Rightarrow> lfile client \<Rightarrow> unload_answer \<times> lfile client" where
  "unload_check cfg env = unload_blocked (Inr (status cfg env))"

text \<open>A lease that is in use and names the model, or no model.\<close>

definition uses_model :: "env \<Rightarrow> string \<Rightarrow> entry \<Rightarrow> bool" where
  "uses_model env model e \<longleftrightarrow> is_granted e \<and> \<not> overdue (ev_now env) e \<and>
     (let held = base_name (case le_model e of None \<Rightarrow> [] | Some m \<Rightarrow> m) in held = [] \<or> held = base_name model)"

lemma in_use_holder: "is_granted e \<Longrightarrow> in_use (base_name model) (holder_of (ev_now env) e) = uses_model env model e"
  by (simp add: in_use_def uses_model_def holder_of_def Let_def)

lemma status_holders:
  assumes "status cfg env f0 = (Inr s, f)" and "f0 \<noteq> FDamaged"
  shows "\<exists>t. s = Some t \<and>
    s_holders t = map (holder_of (ev_now env)) (filter is_granted (filter (kept env) (st_entries (load cfg f0))))"
proof -
  have nraise: "status_body cfg env st \<noteq> Inl LeaseStateUnreadable" for st
    by (auto simp: status_body_def split: option.splits)
  from or_refuse_Inr [OF assms(1) [unfolded status_def] nraise assms(2)] obtain st1 where
    "status_body cfg env (prune env ((load cfg f0)\<lparr>st_queue_max := cf_queue_max cfg\<rparr>)) = Inr (s, st1)"
    by (rule txn_Inr)
  then show ?thesis by (auto simp: status_body_def split: option.splits)
qed


text \<open>
  \<open>status\<close> answers \<open>"holders": None\<close> for a damaged file, so the default of \<open>get\<close> is not used and the loop raises
  \<open>TypeError\<close>. And \<open>lease\<close> never renews: five minutes into its body the lease is overdue, and the model it runs
  on may be unloaded, although the arbiter still counts the token as good.
\<close>

definition plain_client :: "lfile \<Rightarrow> lfile client" where
  "plain_client f = \<lparr>cl_off = False, cl_held = None, cl_log = [], cl_svc = f\<rparr>"

lemma damaged_file_breaks_unload_check:
  "fst (unload_check demo_cfg (demo_env 0) ''qwen'' (plain_client FDamaged)) = RaisesTypeError"
  by code_simp

lemma long_body_is_overdue:
  "fst (unload_check demo_cfg (demo_env 300) ''qwen'' (plain_client demo1)) \<noteq> GoAhead"
  "fst (unload_check demo_cfg (demo_env 311) ''qwen'' (plain_client demo1)) = GoAhead"
  "fst (check_lease demo_cfg (demo_env 311) ''a'' 1 demo1) = Inr (True, GRANTED)"
  by code_simp+


end
