(* ===== verification/Quant_DP.thy ===== *)
theory Quant_DP
  imports GB_Prelude
begin

text \<open>
  The bit planner of \<^verbatim>\<open>gb_quant_dp.py\<close>: a knapsack over the layers, state by integer cost, with Pareto
  pruning and a beam. What the search relies on in a filter of states is a hierarchy of three locales: a
  sound filter only drops states, a feasible one keeps a cheapest state, a dominating one keeps for every
  state one that is no dearer and loses no more. Pareto pruning is dominating; the beam of two or more
  states is feasible.
\<close>

section \<open>The search\<close>

text \<open>An option of a layer: scheme, cost, loss, layer names. A state: cost, loss, chosen path.\<close>

type_synonym 's opt = "'s \<times> int \<times> pyfloat \<times> string list"
type_synonym 's path = "(string list \<times> 's) list"
type_synonym 's dp = "(int, pyfloat \<times> 's path) pydict"

definition extend_state :: "int \<times> pyfloat \<times> 's path \<Rightarrow> 's opt \<Rightarrow> int \<times> pyfloat \<times> 's path" where
  "extend_state st p = (case st of (cur, loss, path) \<Rightarrow> case p of (scheme, bits, l, names) \<Rightarrow>
     (cur + bits, loss + l, path @ [(names, scheme)]))"

definition try_state :: "int \<Rightarrow> int \<times> pyfloat \<times> 's path \<Rightarrow> 's dp \<Rightarrow> 's dp" where
  "try_state P st new = (case st of (k, loss, path) \<Rightarrow>
     if k > P then new
     else case dict_get new k of
         None \<Rightarrow> dict_set k (loss, path) new
       | Some (l0, _) \<Rightarrow> if loss < l0 then dict_set k (loss, path) new else new)"

definition dp_layer :: "int \<Rightarrow> 's opt list \<Rightarrow> 's dp \<Rightarrow> 's dp" where
  "dp_layer P opts dp = fold (\<lambda>st. fold (\<lambda>p. try_state P (extend_state st p)) opts) dp []"

text \<open>\<open>b\<close> is the best loss so far, \<open>None\<close> for infinity.\<close>

fun pareto_scan :: "pyfloat option \<Rightarrow> 's dp \<Rightarrow> 's dp" where
  "pareto_scan b [] = []"
| "pareto_scan b ((k, l, p) # xs) =
     (if b = None \<or> l < the b then (k, l, p) # pareto_scan (Some l) xs else pareto_scan b xs)"

definition pareto :: "'s dp \<Rightarrow> 's dp" where
  "pareto dp = pareto_scan None (sort_key fst dp)"

definition beam_index :: "nat \<Rightarrow> int \<Rightarrow> nat \<Rightarrow> nat" where
  "beam_index n m i =
     (let idx = nat (py_round (of_nat i * (of_nat (n - 1) / of_int (m - 1)))) in if idx \<ge> n then n - 1 else idx)"

definition beam :: "int option \<Rightarrow> 's dp \<Rightarrow> 's dp" where
  "beam max_states pruned =
     (case max_states of
        None \<Rightarrow> pruned
      | Some m \<Rightarrow>
          if int (length pruned) \<le> m then pruned
          else if m \<le> 1 then
            (case min_by (\<lambda>k. fst (the (dict_get pruned k))) (dict_keys pruned) of
               None \<Rightarrow> []
             | Some k \<Rightarrow> [(k, the (dict_get pruned k))])
          else let keys = sort (dict_keys pruned) in
            fold (\<lambda>i sel. let k = keys ! beam_index (length keys) m i in dict_set k (the (dict_get pruned k)) sel)
              [0..<nat m] [])"

fun dp_loop :: "int \<Rightarrow> ('s dp \<Rightarrow> 's dp) \<Rightarrow> 's opt list list \<Rightarrow> 's dp \<Rightarrow> 's dp option" where
  "dp_loop P f [] dp = Some dp"
| "dp_loop P f (opts # ls) dp =
     (let new = dp_layer P opts dp in if new = [] then None else dp_loop P f ls (f new))"

definition best_state :: "'s dp \<Rightarrow> (pyfloat \<times> 's path) option" where
  "best_state dp = map_option (\<lambda>k. the (dict_get dp k)) (min_by (\<lambda>k. fst (the (dict_get dp k))) (dict_keys dp))"

text \<open>\<open>None\<close> is \<open>(None, None)\<close>; the layers come in the order of the dictionary.\<close>

definition choose_bits_per_layer_with_path ::
  "(string, 's opt list) pydict \<Rightarrow> int \<Rightarrow> int option \<Rightarrow> (pyfloat \<times> 's path) option" where
  "choose_bits_per_layer_with_path layers P max_states =
     (case dp_loop P (beam max_states \<circ> pareto) (dict_values layers) [(0, 0, [])] of
        None \<Rightarrow> None | Some dp \<Rightarrow> best_state dp)"

section \<open>Planning\<close>

datatype bits = BitsInt int | BitsName string

definition UNITS_PER_GB :: pyfloat where "UNITS_PER_GB = 1024"

text \<open>\<open>override\<close> is the variable's integer, \<open>None\<close> when it is unset, empty or not a number.\<close>

definition default_beam_width :: "int option \<Rightarrow> int \<Rightarrow> int" where
  "default_beam_width override n_layers =
     (case override of
        Some v \<Rightarrow> max 1 v
      | None \<Rightarrow> if n_layers \<le> 0 then 4096 else max 256 (min 4096 (200000 div max 1 n_layers)))"

definition size_gb :: "int \<Rightarrow> pyfloat \<Rightarrow> pyfloat" where
  "size_gb n bpp = of_int n * bpp / 2 ^ 30"

definition layer_options ::
  "(string, (bits, pyfloat) pydict) pydict \<Rightarrow> (bits, pyfloat) pydict \<Rightarrow> bits list \<Rightarrow> (string, bits list) pydict \<Rightarrow>
   string \<Rightarrow> int \<Rightarrow> bits opt list" where
  "layer_options sensitivity bpp candidates excluded name n =
     (let layer_s = (case dict_get sensitivity name of None \<Rightarrow> [] | Some d \<Rightarrow> d);
          skip = (case dict_get excluded name of None \<Rightarrow> [] | Some bs \<Rightarrow> bs) in
      map (\<lambda>b. (b, max 0 (py_round (size_gb n (the (dict_get bpp b)) * UNITS_PER_GB)),
                (if b = BitsInt 16 then 0 else case dict_get layer_s b of None \<Rightarrow> 1 | Some l \<Rightarrow> l), [name]))
        (filter (\<lambda>b. b \<notin> set skip \<and> dict_get bpp b \<noteq> None) candidates))"

record bit_plan =
  bp_bits :: "(string, bits) pydict"
  bp_loss :: "pyfloat option"
  bp_gb :: "pyfloat option"
  bp_feasible :: bool

definition no_plan :: bit_plan where
  "no_plan = \<lparr>bp_bits = [], bp_loss = None, bp_gb = None, bp_feasible = False\<rparr>"

fun read_path ::
  "(string, int) pydict \<Rightarrow> (bits, pyfloat) pydict \<Rightarrow> (string \<times> bits) list \<Rightarrow> (string, bits) pydict \<Rightarrow> pyfloat \<Rightarrow>
   (string, bits) pydict \<times> pyfloat" where
  "read_path sizes bpp [] per gb = (per, gb)"
| "read_path sizes bpp ((name, scheme) # rest) per gb =
     read_path sizes bpp rest (dict_set name scheme per)
       (gb + size_gb (the (dict_get sizes name)) (the (dict_get bpp scheme)))"

definition plan_bits_dp ::
  "int option \<Rightarrow> (string, (bits, pyfloat) pydict) pydict \<Rightarrow> (string, int) pydict \<Rightarrow> (bits, pyfloat) pydict \<Rightarrow> pyfloat \<Rightarrow>
   bits list \<Rightarrow> (string, bits list) pydict \<Rightarrow> int option \<Rightarrow> bit_plan" where
  "plan_bits_dp override sensitivity sizes bpp budget_gb candidates excluded max_states =
     (let width = (case max_states of None \<Rightarrow> default_beam_width override (int (length sizes)) | Some m \<Rightarrow> m);
          P = max 0 (py_round (budget_gb * UNITS_PER_GB));
          layers = filter (\<lambda>(name, opts). opts \<noteq> [])
            (map (\<lambda>(name, n). (name, layer_options sensitivity bpp candidates excluded name n)) sizes) in
      if layers = [] then no_plan
      else case choose_bits_per_layer_with_path layers P (Some width) of
          None \<Rightarrow> no_plan
        | Some (loss, path) \<Rightarrow>
            (case read_path sizes bpp (concat (map (\<lambda>(names, s). map (\<lambda>n. (n, s)) names) path)) [] 0 of (per, gb) \<Rightarrow>
               \<lparr>bp_bits = per, bp_loss = Some loss, bp_gb = Some (py_round_n 3 gb), bp_feasible = True\<rparr>))"

section \<open>Selections\<close>

text \<open>One option per layer, in order: what the search ranges over.\<close>

fun selections :: "'s opt list list \<Rightarrow> 's opt list list" where
  "selections [] = [[]]"
| "selections (opts # ls) = concat (map (\<lambda>p. map (Cons p) (selections ls)) opts)"

definition cost :: "'s opt list \<Rightarrow> int" where
  "cost sel = sum_list (map (\<lambda>(_, b, _, _). b) sel)"

definition loss_of :: "'s opt list \<Rightarrow> pyfloat" where
  "loss_of sel = sum_list (map (\<lambda>(_, _, l, _). l) sel)"

definition path_of :: "'s opt list \<Rightarrow> 's path" where
  "path_of sel = map (\<lambda>(s, _, _, names). (names, s)) sel"

lemma cost_simps [simp]:
  "cost [] = 0" "loss_of [] = 0" "path_of [] = []"
  "cost (p # sel) = fst (snd p) + cost sel" "loss_of (p # sel) = fst (snd (snd p)) + loss_of sel"
  "path_of (p # sel) = (snd (snd (snd p)), fst p) # path_of sel"
  by (simp_all add: cost_def loss_of_def path_of_def split: prod.split)

lemma extend_eq: "extend_state (c, l, p) q = (c + fst (snd q), l + fst (snd (snd q)), p @ [(snd (snd (snd q)), fst q)])"
  by (cases q) (simp add: extend_state_def)

lemma selections_Cons: "sel \<in> set (selections (opts # ls)) \<longleftrightarrow> (\<exists>p r. sel = p # r \<and> p \<in> set opts \<and> r \<in> set (selections ls))"
  by auto

section \<open>One layer keeps the best state of every cost\<close>

lemma try_state_spec:
  assumes "dict_wf new"
  shows "dict_wf (try_state P (k, l, p) new)"
    "\<And>c v. (c, v) \<in> set (try_state P (k, l, p) new) \<Longrightarrow> (c, v) \<in> set new \<or> c = k \<and> v = (l, p) \<and> k \<le> P"
    "\<And>c l0 p0. dict_get new c = Some (l0, p0) \<Longrightarrow>
       \<exists>l1 p1. dict_get (try_state P (k, l, p) new) c = Some (l1, p1) \<and> l1 \<le> l0"
    "k \<le> P \<Longrightarrow> \<exists>l1 p1. dict_get (try_state P (k, l, p) new) k = Some (l1, p1) \<and> l1 \<le> l"
  using assms by (auto simp: try_state_def dict_set_set_wf split: option.splits if_splits)

lemma fold_try_spec:
  assumes "dict_wf new"
  shows "dict_wf (fold (try_state P) cs new)"
    "(c, v) \<in> set (fold (try_state P) cs new) \<Longrightarrow> (c, v) \<in> set new \<or> (c, v) \<in> set cs \<and> c \<le> P"
    "dict_get new c = Some (l0, p0) \<or> (c, l0, p0) \<in> set cs \<and> c \<le> P \<Longrightarrow>
       \<exists>l1 p1. dict_get (fold (try_state P) cs new) c = Some (l1, p1) \<and> l1 \<le> l0"
  using assms
proof (induction cs arbitrary: new l0 p0)
  case (Cons st cs)
  obtain k l p where st: "st = (k, l, p)" by (metis prod_cases3)
  { case 1
    then show ?case using Cons.IH(1) [OF try_state_spec(1)] by (simp add: st)
  next
    case 2
    have "(c, v) \<in> set (try_state P (k, l, p) new) \<or> (c, v) \<in> set cs \<and> c \<le> P"
      using Cons.IH(2) [OF _ try_state_spec(1) [OF 2(2)]] 2(1) by (simp add: st)
    then show ?case using try_state_spec(2) [where P = P and k = k and l = l and p = p and c = c and v = v, OF 2(2)] by (auto simp: st)
  next
    case 3
    consider "dict_get new c = Some (l0, p0)" | "(k, l, p) = (c, l0, p0)" "c \<le> P" | "(c, l0, p0) \<in> set cs" "c \<le> P"
      using 3(1) by (auto simp: st)
    then have "(\<exists>l1 p1. dict_get (try_state P (k, l, p) new) c = Some (l1, p1) \<and> l1 \<le> l0)
        \<or> (c, l0, p0) \<in> set cs \<and> c \<le> P"
      using try_state_spec(3, 4) [OF 3(2)] by cases (blast, simp, blast)
    then show ?case
    proof (elim disjE exE conjE)
      fix l1 p1 assume g: "dict_get (try_state P (k, l, p) new) c = Some (l1, p1)" "l1 \<le> l0"
      then show ?thesis
        using Cons.IH(3) [OF disjI1 try_state_spec(1) [OF 3(2)], where ?l0.0 = l1 and ?p0.0 = p1] by (fastforce simp: st)
    qed (use Cons.IH(3) [OF _ try_state_spec(1) [OF 3(2)], where ?l0.0 = l0 and ?p0.0 = p0] in \<open>simp add: st\<close>) }
qed auto

lemma dp_layer_fold:
  "dp_layer P opts dp = fold (try_state P) (concat (map (\<lambda>st. map (extend_state st) opts) dp)) []"
proof -
  have "fold (\<lambda>st. fold (\<lambda>p. try_state P (extend_state st p)) opts) dp new =
      fold (try_state P) (concat (map (\<lambda>st. map (extend_state st) opts) dp)) new" for new
    by (induction dp arbitrary: new) (simp_all add: fold_map comp_def)
  then show ?thesis by (simp add: dp_layer_def)
qed

lemma dp_layer_wf: "dict_wf (dp_layer P opts dp)"
  unfolding dp_layer_fold by (rule fold_try_spec) simp

lemma dp_layer_from:
  assumes "(c, v) \<in> set (dp_layer P opts dp)"
  obtains st q where "c \<le> P" "st \<in> set dp" "q \<in> set opts" "(c, v) = extend_state st q"
  using fold_try_spec(2) [OF _ assms [unfolded dp_layer_fold]] by (auto simp: image_iff)

lemma dp_layer_best:
  assumes "st \<in> set dp" "q \<in> set opts" "extend_state st q = (c, l, p)" "c \<le> P"
  obtains l1 p1 where "(c, l1, p1) \<in> set (dp_layer P opts dp)" "l1 \<le> l"
proof -
  let ?cs = "concat (map (\<lambda>st. map (extend_state st) opts) dp)"
  have "(c, l, p) \<in> set ?cs" using assms(1-3) by force
  then obtain l1 p1 where "dict_get (fold (try_state P) ?cs []) c = Some (l1, p1)" "l1 \<le> l"
    using fold_try_spec(3) [OF _ disjI2 [OF conjI [OF _ assms(4)]], of "[]" l p ?cs] by auto
  then show thesis using that unfolding dp_layer_fold by (blast dest: map_of_SomeD)
qed

section \<open>What a filter of states has to keep\<close>

locale sound_filter =
  fixes f :: "'s dp \<Rightarrow> 's dp"
  assumes wf: "dict_wf dp \<Longrightarrow> dict_wf (f dp)"
    and sub: "dict_wf dp \<Longrightarrow> set (f dp) \<subseteq> set dp"
    and ne: "dict_wf dp \<Longrightarrow> dp \<noteq> [] \<Longrightarrow> f dp \<noteq> []"

locale feasible_filter = sound_filter f for f :: "'s dp \<Rightarrow> 's dp" +
  assumes cheapest: "dict_wf dp \<Longrightarrow> (k, v) \<in> set dp \<Longrightarrow> \<exists>k' v'. (k', v') \<in> set (f dp) \<and> k' \<le> k"

locale dominating_filter = sound_filter f for f :: "'s dp \<Rightarrow> 's dp" +
  assumes cover: "dict_wf dp \<Longrightarrow> (k, l, p) \<in> set dp \<Longrightarrow>
    \<exists>k' l' p'. (k', l', p') \<in> set (f dp) \<and> k' \<le> k \<and> l' \<le> l"

sublocale dominating_filter \<subseteq> feasible_filter
  by unfold_locales (metis cover prod_cases3 surj_pair)

text \<open>The states after some layers come from selections of those layers; \<open>ls\<close> are the layers to do.\<close>

definition made_of :: "int \<Rightarrow> 's opt list list \<Rightarrow> 's dp \<Rightarrow> bool" where
  "made_of P done dp \<longleftrightarrow> (\<forall>(k, l, p) \<in> set dp. k \<le> P \<and>
     (\<exists>sel \<in> set (selections done). k = cost sel \<and> l = loss_of sel \<and> p = path_of sel))"

lemma selections_snoc: "sel \<in> set (selections done) \<Longrightarrow> q \<in> set opts \<Longrightarrow> sel @ [q] \<in> set (selections (done @ [opts]))"
  by (induction "done" arbitrary: sel) (auto simp: selections_Cons simp del: selections.simps(2))

lemma sums_snoc [simp]:
  "cost (sel @ [q]) = cost sel + fst (snd q)" "loss_of (sel @ [q]) = loss_of sel + fst (snd (snd q))"
  "path_of (sel @ [q]) = path_of sel @ [(snd (snd (snd q)), fst q)]"
  by (induction sel) simp_all

lemma made_of_layer: "made_of P done dp \<Longrightarrow> made_of P (done @ [opts]) (dp_layer P opts dp)"
  unfolding made_of_def
proof (clarify, elim dp_layer_from)
  fix k l p st q
  assume m: "\<forall>(k, l, p) \<in> set dp. k \<le> P \<and>
      (\<exists>sel \<in> set (selections done). k = cost sel \<and> l = loss_of sel \<and> p = path_of sel)"
    and e: "k \<le> P" "st \<in> set dp" "q \<in> set opts" "(k, l, p) = extend_state st q"
  then obtain sel where "sel \<in> set (selections done)" "st = (cost sel, loss_of sel, path_of sel)" by fast
  with e show "k \<le> P \<and> (\<exists>sel \<in> set (selections (done @ [opts])). k = cost sel \<and> l = loss_of sel \<and> p = path_of sel)"
    by (auto simp: extend_eq intro!: bexI [where x = "sel @ [q]"] selections_snoc)
qed

definition nonneg_costs :: "'s opt list list \<Rightarrow> bool" where
  "nonneg_costs ls \<longleftrightarrow> (\<forall>opts \<in> set ls. \<forall>q \<in> set opts. 0 \<le> fst (snd q))"

lemma nonneg_costs_Cons [simp]:
  "nonneg_costs (opts # ls) \<longleftrightarrow> (\<forall>q \<in> set opts. 0 \<le> fst (snd q)) \<and> nonneg_costs ls"
  by (simp add: nonneg_costs_def)

lemma cost_nonneg: "sel \<in> set (selections ls) \<Longrightarrow> nonneg_costs ls \<Longrightarrow> 0 \<le> cost sel"
proof (induction ls arbitrary: sel)
  case (Cons opts ls)
  then obtain q r where "sel = q # r" "q \<in> set opts" "r \<in> set (selections ls)" by auto
  with Cons.IH [of r] Cons.prems(2) show ?case by simp
qed simp

context sound_filter
begin

lemma loop_step:
  assumes "dp_layer P opts dp \<noteq> []"
  shows "dp_loop P f (opts # ls) dp = dp_loop P f ls (f (dp_layer P opts dp))" "f (dp_layer P opts dp) \<noteq> []"
  using assms ne [OF dp_layer_wf] by (simp_all add: Let_def)

lemma made_of_filter: "made_of P done dp \<Longrightarrow> made_of P (done @ [opts]) (f (dp_layer P opts dp))"
  using made_of_layer [of P "done" dp opts] sub [OF dp_layer_wf, of P opts dp] unfolding made_of_def by blast

lemma loop_sound:
  "made_of P done dp \<Longrightarrow> dp \<noteq> [] \<Longrightarrow> dict_wf dp \<Longrightarrow> dp_loop P f ls dp = Some r
    \<Longrightarrow> made_of P (done @ ls) r \<and> r \<noteq> [] \<and> dict_wf r"
proof (induction ls arbitrary: "done" dp)
  case (Cons opts ls)
  have n: "dp_layer P opts dp \<noteq> []" using Cons.prems(4) by (auto simp: Let_def split: if_splits)
  with Cons.IH [OF made_of_filter [OF Cons.prems(1)], of opts] Cons.prems(4) loop_step [OF n] wf [OF dp_layer_wf]
  show ?case by simp
qed simp

end

context feasible_filter
begin

lemma loop_feasible:
  "(k, v) \<in> set dp \<Longrightarrow> sel \<in> set (selections ls) \<Longrightarrow> k + cost sel \<le> P
    \<Longrightarrow> nonneg_costs ls \<Longrightarrow> dp_loop P f ls dp \<noteq> None"
proof (induction ls arbitrary: k v dp sel)
  case (Cons opts ls)
  then obtain q r where sel: "sel = q # r" "q \<in> set opts" "r \<in> set (selections ls)" by (auto simp: selections_Cons)
  have "0 \<le> cost r" using sel(3) Cons.prems(4) by (intro cost_nonneg) auto
  with Cons.prems(3) sel(1) have "k + fst (snd q) \<le> P" by simp
  moreover have "extend_state (k, v) q = (k + fst (snd q), fst v + fst (snd (snd q)), snd v @ [(snd (snd (snd q)), fst q)])"
    by (cases v) (simp add: extend_eq)
  ultimately obtain l1 p1 where n: "(k + fst (snd q), l1, p1) \<in> set (dp_layer P opts dp)"
    using dp_layer_best [OF Cons.prems(1) sel(2)] by metis
  obtain k' v' where k: "(k', v') \<in> set (f (dp_layer P opts dp))" "k' \<le> k + fst (snd q)"
    using cheapest [OF dp_layer_wf n] by blast
  have "dp_loop P f ls (f (dp_layer P opts dp)) \<noteq> None"
    by (rule Cons.IH [OF k(1) sel(3)]) (use k(2) Cons.prems(3, 4) sel(1) in \<open>auto\<close>)
  with n show ?case by (metis length_pos_if_in_set list.size(3) less_irrefl loop_step(1))
qed simp

end

context dominating_filter
begin

lemma loop_optimal:
  "(k, l, p) \<in> set dp \<Longrightarrow> sel \<in> set (selections ls) \<Longrightarrow> k + cost sel \<le> P
    \<Longrightarrow> nonneg_costs ls
    \<Longrightarrow> \<exists>r k' l' p'. dp_loop P f ls dp = Some r \<and> (k', l', p') \<in> set r \<and> l' \<le> l + loss_of sel"
proof (induction ls arbitrary: k l p dp sel)
  case (Cons opts ls)
  then obtain q r where sel: "sel = q # r" "q \<in> set opts" "r \<in> set (selections ls)" by (auto simp: selections_Cons)
  have "0 \<le> cost r" using sel(3) Cons.prems(4) by (intro cost_nonneg) auto
  with Cons.prems(3) sel(1) have "k + fst (snd q) \<le> P" by simp
  then obtain l1 p1 where n: "(k + fst (snd q), l1, p1) \<in> set (dp_layer P opts dp)" "l1 \<le> l + fst (snd (snd q))"
    using dp_layer_best [OF Cons.prems(1) sel(2) extend_eq] by metis
  obtain k' l' p' where k: "(k', l', p') \<in> set (f (dp_layer P opts dp))" "k' \<le> k + fst (snd q)" "l' \<le> l1"
    using cover [OF dp_layer_wf n(1)] by blast
  have "\<exists>r' k'' l'' p''. dp_loop P f ls (f (dp_layer P opts dp)) = Some r' \<and> (k'', l'', p'') \<in> set r' \<and> l'' \<le> l' + loss_of r"
    by (rule Cons.IH [OF k(1) sel(3)]) (use k(2) Cons.prems(3, 4) sel(1) in \<open>auto\<close>)
  moreover have "dp_layer P opts dp \<noteq> []" using n(1) by auto
  moreover have "l' + loss_of r \<le> l + loss_of sel" using k(3) n(2) sel(1) by simp
  ultimately show ?case using loop_step(1) by (metis order_trans)
qed auto

end

section \<open>Pareto pruning and the beam\<close>

lemma pareto_scan_sub: "set (pareto_scan b xs) \<subseteq> set xs"
  by (induction b xs rule: pareto_scan.induct) auto

lemma pareto_scan_cover:
  "sorted (map fst xs) \<Longrightarrow> (k, l, p) \<in> set xs \<Longrightarrow>
    (\<exists>x. b = Some x \<and> x \<le> l) \<or> (\<exists>k' l' p'. (k', l', p') \<in> set (pareto_scan b xs) \<and> k' \<le> k \<and> l' \<le> l)"
proof (induction b xs rule: pareto_scan.induct)
  case (2 b k0 l0 p0 xs)
  show ?case
  proof (cases "b = None \<or> l0 < the b")
    case True
    then show ?thesis using 2 by fastforce
  next
    case False
    then obtain x where "b = Some x" "x \<le> l0" by auto
    with False 2 show ?thesis by auto
  qed
qed simp

lemma pareto_scan_wf: "dict_wf xs \<Longrightarrow> dict_wf (pareto_scan b xs)"
  by (induction b xs rule: pareto_scan.induct) (use pareto_scan_sub in \<open>fastforce\<close>)+

lemma pareto_wf: "dict_wf dp \<Longrightarrow> dict_wf (pareto dp)"
  unfolding pareto_def by (rule pareto_scan_wf) (metis distinct_map distinct_sort set_sort)

lemma pareto_cover: "(k, l, p) \<in> set dp \<Longrightarrow> \<exists>k' l' p'. (k', l', p') \<in> set (pareto dp) \<and> k' \<le> k \<and> l' \<le> l"
  unfolding pareto_def using pareto_scan_cover [of "sort_key fst dp" k l p None] by simp

interpretation pareto_rule: dominating_filter pareto
proof
  fix dp :: "'s dp"
  show "dict_wf (pareto dp)" if "dict_wf dp" using that by (rule pareto_wf)
  show "set (pareto dp) \<subseteq> set dp" unfolding pareto_def using pareto_scan_sub by fastforce
  show "pareto dp \<noteq> []" if "dp \<noteq> []"
    using that pareto_cover [of "fst (hd dp)" "fst (snd (hd dp))" "snd (snd (hd dp))" dp] by auto
qed (rule pareto_cover)

lemma beam_index_less: "0 < n \<Longrightarrow> beam_index n m i < n"
  by (simp add: beam_index_def Let_def)

lemma beam_index_0 [simp]: "beam_index n m 0 = 0"
  using py_round_of_int [of 0] by (simp add: beam_index_def)

lemma fold_dict_set_keys:
  "set (dict_keys (fold (\<lambda>i. dict_set (g i) (h (g i))) is d)) = set (dict_keys d) \<union> g ` set is"
  by (induction "is" arbitrary: d) (auto simp: dict_keys_set_set simp del: set_map list.set_map)

lemma fold_dict_set_sub:
  "dict_wf d \<Longrightarrow> set (fold (\<lambda>i. dict_set (g i) (h (g i))) is d) \<subseteq> set d \<union> (\<lambda>i. (g i, h (g i))) ` set is"
proof (induction "is" arbitrary: d)
  case (Cons i "is")
  from Cons.IH [of "dict_set (g i) (h (g i)) d"] Cons.prems show ?case by (auto simp: dict_set_set_wf)
qed simp

lemma beam_picks_states: "k \<in> set (dict_keys dp) \<Longrightarrow> (k, the (dict_get dp k)) \<in> set dp"
  by (metis dict_get_None_iff map_of_SomeD option.collapse)

lemma beam_wide:
  fixes dp :: "'s dp"
  assumes "\<not> int (length dp) \<le> m" "2 \<le> m"
  shows "set (beam (Some m) dp) \<subseteq> set dp"
    "\<exists>k' v'. (k', v') \<in> set (beam (Some m) dp) \<and> (\<forall>k \<in> set (dict_keys dp). k' \<le> k)"
proof -
  let ?keys = "sort (dict_keys dp)"
  let ?g = "\<lambda>i. ?keys ! beam_index (length ?keys) m i"
  have b: "beam (Some m) dp = fold (\<lambda>i. dict_set (?g i) (the (dict_get dp (?g i)))) [0..<nat m] []"
    using assms by (simp add: beam_def Let_def)
  have n: "0 < length ?keys" using assms by (cases dp) auto
  have g: "?g i \<in> set (dict_keys dp)" for i
    using nth_mem [OF beam_index_less [OF n, of m i]] by simp
  show "set (beam (Some m) dp) \<subseteq> set dp"
  proof (rule subset_trans)
    show "set (beam (Some m) dp) \<subseteq> set [] \<union> (\<lambda>i. (?g i, the (dict_get dp (?g i)))) ` set [0..<nat m]"
      unfolding b by (rule fold_dict_set_sub) simp
    show "set [] \<union> (\<lambda>i. (?g i, the (dict_get dp (?g i)))) ` set [0..<nat m] \<subseteq> set dp"
      by (intro Un_least image_subsetI beam_picks_states g) simp
  qed
  have "?g 0 \<in> ?g ` set [0..<nat m]" using assms(2) by (intro imageI) simp
  then have "?g 0 \<in> set (dict_keys (beam (Some m) dp))"
    unfolding b fold_dict_set_keys [of ?g "\<lambda>k. the (dict_get dp k)"] by (rule UnI2)
  moreover have "?g 0 \<le> k" if "k \<in> set (dict_keys dp)" for k
  proof -
    from that obtain i where "i < length ?keys" "k = ?keys ! i" by (metis in_set_conv_nth set_sort)
    then show ?thesis using sorted_nth_mono [OF sorted_sort [of "dict_keys dp"], of 0 i] by simp
  qed
  moreover have "\<exists>v'. (k', v') \<in> set d" if "k' \<in> set (dict_keys d)" for k' and d :: "'s dp"
    using that by fastforce
  ultimately show "\<exists>k' v'. (k', v') \<in> set (beam (Some m) dp) \<and> (\<forall>k \<in> set (dict_keys dp). k' \<le> k)" by blast
qed

lemma beam_narrow:
  assumes "\<not> int (length dp) \<le> m" "m \<le> 1"
  shows "set (beam (Some m) dp) \<subseteq> set dp" "dp \<noteq> [] \<Longrightarrow> beam (Some m) dp \<noteq> []"
proof -
  show "set (beam (Some m) dp) \<subseteq> set dp"
  proof (cases "min_by (\<lambda>k. fst (the (dict_get dp k))) (dict_keys dp)")
    case (Some k)
    with beam_picks_states [OF min_by_in [OF Some]] assms show ?thesis by (simp add: beam_def)
  qed (use assms in \<open>simp add: beam_def\<close>)
  show "beam (Some m) dp \<noteq> []" if "dp \<noteq> []"
    using that assms min_by_Some_iff_nonempty [of "dict_keys dp" "\<lambda>k. fst (the (dict_get dp k))"]
    by (auto simp: beam_def)
qed

lemma beam_all: "ms = None \<or> (\<exists>m. ms = Some m \<and> int (length dp) \<le> m) \<Longrightarrow> beam ms dp = dp"
  by (auto simp: beam_def)

lemma beam_cases:
  obtains "beam ms dp = dp" | m where "ms = Some m" "\<not> int (length dp) \<le> m" "m \<le> 1"
  | m where "ms = Some m" "\<not> int (length dp) \<le> m" "2 \<le> m"
  using beam_all [of ms dp] by (cases ms) fastforce+

lemma beam_sub: "set (beam ms dp) \<subseteq> set dp"
proof (cases rule: beam_cases [of ms dp])
  case (3 m)
  then show ?thesis using beam_wide(1) by simp
qed (simp_all add: beam_narrow(1))

lemma beam_ne: "dp \<noteq> [] \<Longrightarrow> beam ms dp \<noteq> []"
proof (cases rule: beam_cases [of ms dp])
  case (3 m)
  with beam_wide(2) [of dp m] show ?thesis by auto
qed (simp_all add: beam_narrow(2))

lemma beam_cheapest:
  assumes "ms = Some m" "2 \<le> m" "(k, v) \<in> set dp"
  shows "\<exists>k' v'. (k', v') \<in> set (beam ms dp) \<and> k' \<le> k"
proof (cases rule: beam_cases [of ms dp])
  case 1
  with assms(3) show ?thesis by (metis order_refl)
next
  case (3 m')
  moreover have "k \<in> set (dict_keys dp)" using assms(3) by force
  ultimately show ?thesis using beam_wide(2) [of dp m'] by blast
qed (use assms in auto)

lemma fold_dict_set_wf: "dict_wf d \<Longrightarrow> dict_wf (fold (\<lambda>i. dict_set (g i) (h (g i))) is d)"
  by (induction "is" arbitrary: d) (auto simp del: map_map)

lemma beam_wf: "dict_wf dp \<Longrightarrow> dict_wf (beam ms dp)"
  by (auto simp: beam_def Let_def intro!: fold_dict_set_wf split: option.splits)

section \<open>The search finds the best selection\<close>

lemma pareto_sub: "set (pareto dp) \<subseteq> set dp"
  unfolding pareto_def using pareto_scan_sub by fastforce

lemma pareto_ne: "dp \<noteq> [] \<Longrightarrow> pareto dp \<noteq> []"
  using pareto_cover [of "fst (hd dp)" "fst (snd (hd dp))" "snd (snd (hd dp))" dp] by auto

interpretation beamed: sound_filter "beam ms \<circ> pareto" for ms
proof
  fix dp :: "'s dp"
  show "dict_wf ((beam ms \<circ> pareto) dp)" if "dict_wf dp" using that by (simp add: beam_wf pareto_wf)
  show "set ((beam ms \<circ> pareto) dp) \<subseteq> set dp" using beam_sub pareto_sub by fastforce
  show "(beam ms \<circ> pareto) dp \<noteq> []" if "dp \<noteq> []" using that by (simp add: beam_ne pareto_ne)
qed

interpretation unlimited: dominating_filter "beam None \<circ> pareto"
  by unfold_locales (use pareto_cover in \<open>auto simp: beam_def\<close>)

lemma beamed_feasible: "2 \<le> m \<Longrightarrow> feasible_filter (beam (Some m) \<circ> pareto)"
proof unfold_locales
  fix dp :: "'s dp" and k v
  assume "2 \<le> m" "dict_wf dp" "(k, v) \<in> set dp"
  then obtain k' v' where k: "(k', v') \<in> set (pareto dp)" "k' \<le> k"
    using pareto_rule.cheapest by blast
  with beam_cheapest [OF refl \<open>2 \<le> m\<close> k(1)] show "\<exists>k' v'. (k', v') \<in> set ((beam (Some m) \<circ> pareto) dp) \<and> k' \<le> k"
    by (metis comp_apply order_trans)
qed

interpretation guarded: feasible_filter "beam (Some (max 2 m)) \<circ> pareto" for m
  by (rule beamed_feasible) simp

lemma best_state_le:
  assumes "dict_wf dp" "best_state dp = Some (l, p)"
  shows "\<exists>k. (k, l, p) \<in> set dp" "(k', l', p') \<in> set dp \<Longrightarrow> l \<le> l'"
proof -
  from assms(2) obtain k where k: "min_by (\<lambda>k. fst (the (dict_get dp k))) (dict_keys dp) = Some k" "(l, p) = the (dict_get dp k)"
    by (auto simp: best_state_def)
  with beam_picks_states [OF min_by_in] show "\<exists>k. (k, l, p) \<in> set dp" by metis
  show "l \<le> l'" if "(k', l', p') \<in> set dp"
  proof -
    have "k' \<in> set (dict_keys dp)" using that by force
    from min_by_le [OF k(1) this] show ?thesis
      unfolding k(2) [symmetric] dict_get_of_mem [OF assms(1) that] by simp
  qed
qed

lemma best_state_some: "dp \<noteq> [] \<Longrightarrow> \<exists>l p. best_state dp = Some (l, p)"
  using min_by_Some_iff_nonempty [of "dict_keys dp" "\<lambda>k. fst (the (dict_get dp k))"] by (auto simp: best_state_def)

lemma start_made_of: "0 \<le> P \<Longrightarrow> made_of P [] [(0, 0, [])]"
  by (simp add: made_of_def)

lemma choice_is_a_selection:
  assumes "0 \<le> P" "choose_bits_per_layer_with_path layers P ms = Some (l, p)"
  shows "\<exists>sel \<in> set (selections (dict_values layers)). cost sel \<le> P \<and> l = loss_of sel \<and> p = path_of sel"
proof -
  from assms(2) obtain dp where "dp_loop P (beam ms \<circ> pareto) (dict_values layers) [(0, 0, [])] = Some dp"
    and b: "best_state dp = Some (l, p)"
    by (auto simp: choose_bits_per_layer_with_path_def split: option.splits)
  then have "made_of P (dict_values layers) dp" "dict_wf dp"
    using beamed.loop_sound [OF start_made_of [OF assms(1)]] by force+
  with best_state_le(1) [OF _ b] show ?thesis unfolding made_of_def by fast
qed

lemma choice_exists:
  assumes "0 \<le> P" "nonneg_costs (dict_values layers)" "2 \<le> m"
    and "sel \<in> set (selections (dict_values layers))" "cost sel \<le> P"
  shows "choose_bits_per_layer_with_path layers P (Some m) \<noteq> None"
proof -
  have "dp_loop P (beam (Some (max 2 m)) \<circ> pareto) (dict_values layers) [(0, 0, [])] \<noteq> None"
    by (rule guarded.loop_feasible [where k = 0 and v = "(0, [])"]) (use assms in simp_all)
  then obtain dp where d: "dp_loop P (beam (Some m) \<circ> pareto) (dict_values layers) [(0, 0, [])] = Some dp"
    using assms(3) by auto
  moreover have "dp \<noteq> []" using beamed.loop_sound [OF start_made_of [OF assms(1)] _ _ d] by simp
  ultimately show ?thesis using best_state_some [of dp] by (auto simp: choose_bits_per_layer_with_path_def)
qed

lemma choice_optimal:
  assumes "nonneg_costs (dict_values layers)"
    and "sel \<in> set (selections (dict_values layers))" "cost sel \<le> P" "0 \<le> P"
  shows "\<exists>l p. choose_bits_per_layer_with_path layers P None = Some (l, p) \<and> l \<le> loss_of sel"
proof -
  obtain dp k' l' p' where d: "dp_loop P (beam None \<circ> pareto) (dict_values layers) [(0, 0, [])] = Some dp"
    "(k', l', p') \<in> set dp" "l' \<le> loss_of sel"
    using unlimited.loop_optimal [where k = 0 and l = 0 and p = "[]" and dp = "[(0, 0, [])]" and P = P, OF _ assms(2) _ assms(1)]
      assms(3) by auto
  have "dict_wf dp" using beamed.loop_sound [OF start_made_of [OF assms(4)] _ _ d(1)] by simp
  moreover have "dp \<noteq> []" using d(2) by auto
  then obtain l p where "best_state dp = Some (l, p)" using best_state_some by blast
  ultimately show ?thesis using best_state_le(2) [OF _ _ d(2)] d(1, 3)
    by (intro exI [of _ l] exI [of _ p]) (simp add: choose_bits_per_layer_with_path_def order_trans [of l l'])
qed

text \<open>
  C26. Without a limit on the states the search agrees with trying every selection: it answers a selection
  within the budget, with its path and its loss, and no selection within the budget loses less; it answers
  nothing exactly when no selection fits.
\<close>

theorem search_is_optimal:
  assumes "0 \<le> P" "nonneg_costs (dict_values layers)"
  shows "case choose_bits_per_layer_with_path layers P None of
      None \<Rightarrow> \<forall>sel \<in> set (selections (dict_values layers)). P < cost sel
    | Some (l, p) \<Rightarrow> \<exists>sel \<in> set (selections (dict_values layers)). cost sel \<le> P \<and> l = loss_of sel \<and> p = path_of sel \<and>
        (\<forall>s \<in> set (selections (dict_values layers)). cost s \<le> P \<longrightarrow> loss_of sel \<le> loss_of s)"
proof (cases "choose_bits_per_layer_with_path layers P None")
  case None
  then show ?thesis using choice_optimal [OF assms(2) _ _ assms(1)] by fastforce
next
  case (Some r)
  then obtain l p where r: "choose_bits_per_layer_with_path layers P None = Some (l, p)" by (cases r) auto
  have "l \<le> loss_of s" if "s \<in> set (selections (dict_values layers))" "cost s \<le> P" for s
    using choice_optimal [OF assms(2) that assms(1)] r by simp
  with choice_is_a_selection [OF assms(1) r] r show ?thesis by fastforce
qed

definition demo_layers :: "(string, string opt list) pydict" where
  "demo_layers =
     [(''q'', [(''bf16'', 8, 0, [''q'']), (''int4'', 2, 1 / 2, [''q''])]),
      (''o'', [(''bf16'', 8, 0, [''o'']), (''int4'', 2, 1 / 10, [''o''])])]"

lemma search_is_optimal_witness:
  "choose_bits_per_layer_with_path demo_layers 10 None = Some (1 / 10, [([''q''], ''bf16''), ([''o''], ''int4'')]) \<and>
   1 / 10 \<le> loss_of [(''int4'', 2, 1 / 2, [''q'']), (''bf16'', 8, 0, [''o''])]"
proof -
  let ?s = "[(''int4'', 2, 1 / 2, [''q'']), (''bf16'', 8, 0, [''o''])]"
  have c: "choose_bits_per_layer_with_path demo_layers 10 None = Some (1 / 10, [([''q''], ''bf16''), ([''o''], ''int4'')])"
    by code_simp
  have s: "?s \<in> set (selections (dict_values demo_layers))" "cost ?s \<le> 10" by (simp_all add: demo_layers_def)
  have "nonneg_costs (dict_values demo_layers)" by (simp add: nonneg_costs_def demo_layers_def)
  from search_is_optimal [OF _ this, of 10] c s show ?thesis by auto
qed

text \<open>
  With a beam of two or more states the search still finds something whenever something fits, and what
  it finds is a selection within the budget, reported with its own path and loss.
\<close>

theorem beam_keeps_feasibility:
  assumes "0 \<le> P" "nonneg_costs (dict_values layers)" "2 \<le> m"
  shows "case choose_bits_per_layer_with_path layers P (Some m) of
      None \<Rightarrow> \<forall>sel \<in> set (selections (dict_values layers)). P < cost sel
    | Some (l, p) \<Rightarrow> \<exists>sel \<in> set (selections (dict_values layers)). cost sel \<le> P \<and> l = loss_of sel \<and> p = path_of sel"
proof (cases "choose_bits_per_layer_with_path layers P (Some m)")
  case None
  then show ?thesis using choice_exists [OF assms] by fastforce
next
  case (Some r)
  with choice_is_a_selection [OF assms(1), of layers "Some m" "fst r" "snd r"] show ?thesis by (auto split: prod.split)
qed

text \<open>A beam of one state keeps the dearest one and can miss a selection that fits.\<close>

lemma beam_of_one_misses:
  "choose_bits_per_layer_with_path demo_layers 9 (Some 1) = None"
  "choose_bits_per_layer_with_path demo_layers 9 (Some 2) = Some (3 / 5, [([''q''], ''int4''), ([''o''], ''int4'')])"
  by code_simp+

lemma beam_keeps_feasibility_witness:
  "choose_bits_per_layer_with_path demo_layers 9 (Some 2) \<noteq> None"
proof -
  have n: "nonneg_costs (dict_values demo_layers)" by (simp add: nonneg_costs_def demo_layers_def)
  have "[(''int4'', 2, 1 / 2, [''q'']), (''int4'', 2, 1 / 10, [''o''])] \<in> set (selections (dict_values demo_layers))"
    by (simp add: demo_layers_def)
  then show ?thesis using beam_keeps_feasibility [OF _ n, of 9 2] by (fastforce split: option.splits)
qed

section \<open>The plan of a model\<close>

text \<open>What the options of one layer are: a candidate that is priced and not excluded, its cost the rounded
  footprint, the layer's own name.\<close>

definition option_of ::
  "(string, int) pydict \<Rightarrow> (bits, pyfloat) pydict \<Rightarrow> bits list \<Rightarrow> (string, bits list) pydict \<Rightarrow> string \<Rightarrow> bits opt \<Rightarrow> bool" where
  "option_of sizes bpp cand exc name q \<longleftrightarrow>
     snd (snd (snd q)) = [name] \<and> name \<in> set (dict_keys sizes) \<and> fst q \<in> set cand \<and>
     (case dict_get exc name of None \<Rightarrow> True | Some bs \<Rightarrow> fst q \<notin> set bs) \<and>
     size_gb (the (dict_get sizes name)) (the (dict_get bpp (fst q))) * 1024 \<le> of_int (fst (snd q)) + 1 / 2"

lemma py_round_ge: "x \<le> of_int (py_round x) + 1 / 2"
  using py_round_near [of x] by linarith

lemma py_round_le: "of_int (py_round x) \<le> x + 1 / 2"
  using py_round_near [of x] by linarith

lemma rounded_cost: "size_gb n b * 1024 \<le> of_int (max 0 (py_round (size_gb n b * UNITS_PER_GB))) + 1 / 2"
  using py_round_ge [of "size_gb n b * UNITS_PER_GB"] by (simp add: UNITS_PER_GB_def max_def)

lemma layer_options_are:
  assumes "q \<in> set (layer_options sens bpp cand exc name n)" "dict_get sizes name = Some n"
  shows "option_of sizes bpp cand exc name q"
  using assms rounded_cost [of n] dict_get_in_keys [OF assms(2)]
  by (auto simp: layer_options_def option_of_def Let_def split: option.splits)

lemma layer_costs_nonneg: "q \<in> set (layer_options sens bpp cand exc name n) \<Longrightarrow> 0 \<le> fst (snd q)"
  by (auto simp: layer_options_def Let_def)

abbreviation pairs_of :: "bits path \<Rightarrow> (string \<times> bits) list" where
  "pairs_of path \<equiv> concat (map (\<lambda>(names, s). map (\<lambda>n. (n, s)) names) path)"

lemma read_path_spec:
  "list_all2 (option_of sizes bpp cand exc) names sel \<Longrightarrow> distinct names \<Longrightarrow> set names \<inter> set (dict_keys per) = {} \<Longrightarrow>
     fst (read_path sizes bpp (pairs_of (path_of sel)) per gb) = per @ zip names (map fst sel) \<and>
     snd (read_path sizes bpp (pairs_of (path_of sel)) per gb) * 1024 \<le> gb * 1024 + of_int (cost sel) + of_nat (length sel) / 2"
proof (induction sel arbitrary: names per gb)
  case (Cons q sel)
  then obtain name ns where n: "names = name # ns" "option_of sizes bpp cand exc name q"
    "list_all2 (option_of sizes bpp cand exc) ns sel"
    by (auto simp: list_all2_Cons2)
  define per' gb' where "per' = per @ [(name, fst q)]"
    and "gb' = gb + size_gb (the (dict_get sizes name)) (the (dict_get bpp (fst q)))"
  have step: "read_path sizes bpp (pairs_of (path_of (q # sel))) per gb = read_path sizes bpp (pairs_of (path_of sel)) per' gb'"
    using n(2) Cons.prems(3) by (simp add: option_of_def n(1) dict_set_append_new per'_def gb'_def)
  have "distinct ns" "set ns \<inter> set (dict_keys per') = {}" using Cons.prems n(1) by (auto simp: per'_def)
  from Cons.IH [OF n(3) this, of gb'] n(2) show ?case
    unfolding step by (simp add: n(1) per'_def gb'_def option_of_def field_simps)
qed simp

lemma selection_of_plan:
  assumes "dict_wf sizes" "set ss \<subseteq> set sizes"
    and "sel \<in> set (selections (dict_values (filter (\<lambda>(name, opts). opts \<noteq> [])
           (map (\<lambda>(name, n). (name, layer_options sens bpp cand exc name n)) ss))))"
  shows "list_all2 (option_of sizes bpp cand exc)
    (filter (\<lambda>name. layer_options sens bpp cand exc name (the (dict_get sizes name)) \<noteq> []) (dict_keys ss)) sel"
  using assms(2,3)
proof (induction ss arbitrary: sel)
  case (Cons nn ss)
  obtain name n where nn: "nn = (name, n)" by (cases nn)
  have g: "dict_get sizes name = Some n" using assms(1) Cons.prems(1) nn by (auto intro: dict_get_of_mem)
  show ?case
    using Cons.prems Cons.IH g layer_options_are [OF _ g]
    by (auto simp: nn selections_Cons simp del: selections.simps(2) split: if_splits)
qed simp

text \<open>
  A feasible plan gives every layer that has an option one of its own candidates, never an excluded one,
  and its reported size exceeds the budget by at most what the rounding of the cost units admits: half a MiB
  per layer, half a MiB for the budget and the last decimal of the report.
\<close>

theorem plan_stays_in_budget:
  assumes "dict_wf sizes" "0 \<le> budget"
    and "plan = plan_bits_dp override sens sizes bpp budget cand exc ms" "bp_feasible plan"
  shows "dict_keys (bp_bits plan) = filter (\<lambda>name. layer_options sens bpp cand exc name (the (dict_get sizes name)) \<noteq> []) (dict_keys sizes)
    \<and> (\<forall>(name, b) \<in> set (bp_bits plan). b \<in> set cand \<and> (\<forall>bs. dict_get exc name = Some bs \<longrightarrow> b \<notin> set bs))
    \<and> (\<exists>gb. bp_gb plan = Some gb \<and> gb \<le> budget + of_nat (length (bp_bits plan) + 1) / 2048 + 1 / 2000)"
proof -
  let ?layers = "filter (\<lambda>(name, opts). opts \<noteq> []) (map (\<lambda>(name, n). (name, layer_options sens bpp cand exc name n)) sizes)"
  let ?P = "max 0 (py_round (budget * UNITS_PER_GB))"
  let ?names = "filter (\<lambda>name. layer_options sens bpp cand exc name (the (dict_get sizes name)) \<noteq> []) (dict_keys sizes)"
  obtain w l path per gb where c: "choose_bits_per_layer_with_path ?layers ?P (Some w) = Some (l, path)"
    and r: "read_path sizes bpp (pairs_of path) [] 0 = (per, gb)" and p: "bp_bits plan = per" "bp_gb plan = Some (py_round_n 3 gb)"
    using assms(3,4) by (auto simp: plan_bits_dp_def no_plan_def Let_def split: option.splits if_splits prod.splits)
  obtain sel where sel: "sel \<in> set (selections (dict_values ?layers))" "cost sel \<le> ?P" "path = path_of sel"
    using choice_is_a_selection [OF _ c] by auto
  have o: "list_all2 (option_of sizes bpp cand exc) ?names sel"
    using selection_of_plan [OF assms(1) subset_refl] sel(1) by blast
  then have len: "length ?names = length sel" by (rule list_all2_lengthD)
  have d: "distinct ?names" using assms(1) by (rule distinct_filter)
  have per: "per = zip ?names (map fst sel)" and gb: "gb * 1024 \<le> of_int (cost sel) + of_nat (length sel) / 2"
    using read_path_spec [OF o d, of "[]" 0] r sel(3) by auto
  have k: "dict_keys per = ?names" "length per = length sel" unfolding per using len by simp_all
  have ok: "b \<in> set cand \<and> (\<forall>bs. dict_get exc name = Some bs \<longrightarrow> b \<notin> set bs)" if "(name, b) \<in> set per" for name b
  proof -
    from that obtain i where "i < length sel" "?names ! i = name" "fst (sel ! i) = b"
      unfolding per using len by (auto simp: in_set_zip)
    with o show ?thesis by (auto simp: list_all2_conv_all_nth option_of_def split: option.splits)
  qed
  have "of_int ?P \<le> budget * 1024 + 1 / 2"
    using py_round_le [of "budget * UNITS_PER_GB"] assms(2) by (simp add: UNITS_PER_GB_def max_def)
  moreover have "(of_int (cost sel) :: rat) \<le> of_int ?P" using sel(2) by (rule of_int_le_iff [THEN iffD2])
  ultimately have "gb \<le> budget + of_nat (length per + 1) / 2048" using gb by (simp add: k(2) field_simps)
  moreover have "py_round_n 3 gb \<le> gb + 1 / 2000"
    using py_round_le [of "gb * 1000"] by (simp add: py_round_n_def field_simps)
  ultimately show ?thesis using k(1) ok p by fastforce
qed

definition demo_sizes :: "(string, int) pydict" where
  "demo_sizes = [(''q'', 2 ^ 30), (''o'', 2 ^ 30), (''norm'', 0)]"

definition demo_bpp :: "(bits, pyfloat) pydict" where
  "demo_bpp = [(BitsInt 16, 2), (BitsInt 8, 1), (BitsInt 4, 1 / 2)]"

definition demo_sens :: "(string, (bits, pyfloat) pydict) pydict" where
  "demo_sens = [(''q'', [(BitsInt 8, 1 / 100), (BitsInt 4, 1 / 5)]), (''o'', [(BitsInt 8, 1 / 50), (BitsInt 4, 1 / 20)])]"

definition demo_plan :: bit_plan where
  "demo_plan = plan_bits_dp (Some 64) demo_sens demo_sizes demo_bpp (5 / 2)
     [BitsInt 16, BitsInt 8, BitsInt 4] [(''norm'', [BitsInt 8, BitsInt 4])] None"

lemma demo_plan_is:
  "demo_plan = \<lparr>bp_bits = [(''q'', BitsInt 8), (''o'', BitsInt 8), (''norm'', BitsInt 16)], bp_loss = Some (3 / 100),
     bp_gb = Some 2, bp_feasible = True\<rparr>"
  by code_simp

lemma plan_stays_in_budget_witness:
  "\<exists>gb. bp_gb demo_plan = Some gb \<and> gb \<le> 5 / 2 + of_nat (length (bp_bits demo_plan) + 1) / 2048 + 1 / 2000"
proof -
  have f: "bp_feasible demo_plan" by (simp add: demo_plan_is)
  have d: "dict_wf demo_sizes" by (simp add: demo_sizes_def)
  have z: "0 \<le> (5 / 2 :: pyfloat)" by simp
  show ?thesis using plan_stays_in_budget [OF d z demo_plan_def f] by blast
qed

end
