(* ===== verification/Phase_Lock.thy ===== *)
theory Phase_Lock
  imports GB_Prelude
begin

text \<open>
  The GPU phase lease of \<^verbatim>\<open>gb_phase.py\<close>: one heavy phase on the card at a time, by a lock
  file shared between processes. A process is a program counter over the atomic actions on the file (open
  with \<open>O_EXCL\<close>, write, read, unlink); any number of processes interleave. The clock, the liveness of a
  process, the VRAM reading and what \<open>gb-synapse\<close> answers are read anew at every action.

  A time stamp is the instant it denotes, in milliseconds as \<open>_iso\<close> writes it; a lock file with an empty
  JSON object is not represented.
\<close>

section \<open>The lock file\<close>

datatype stamp = NoStamp | BadStamp | Stamp pyfloat

record lock_info =
  li_class :: string
  li_pid :: "int option"
  li_owner :: string
  li_job :: string
  li_since :: stamp
  li_heartbeat :: stamp
  li_token :: "string option"

definition HEARTBEAT_S :: pyfloat where "HEARTBEAT_S = 10"
definition STALE_S :: pyfloat where "STALE_S = 120"
definition LLM_CLASSES :: "string list" where "LLM_CLASSES = [''llm'', ''vlm'']"

definition iso :: "pyfloat \<Rightarrow> stamp" where
  "iso t = Stamp (of_int \<lfloor>t * 1000\<rfloor> / 1000)"

fun parse_iso :: "stamp \<Rightarrow> pyfloat option" where
  "parse_iso (Stamp t) = Some t"
| "parse_iso _ = None"

text \<open>The path names an inode or nothing; \<open>None\<close> in an inode is a text that is not JSON (a file just
  opened is empty).\<close>

record disk =
  dk_path :: "nat option"
  dk_files :: "nat \<Rightarrow> lock_info option"
  dk_next :: nat

definition read_lock :: "disk \<Rightarrow> lock_info option" where
  "read_lock d = (case dk_path d of None \<Rightarrow> None | Some i \<Rightarrow> dk_files d i)"

definition write_inode :: "nat \<Rightarrow> lock_info \<Rightarrow> disk \<Rightarrow> disk" where
  "write_inode i info d = d\<lparr>dk_files := (dk_files d)(i := Some info)\<rparr>"

definition create_file :: "disk \<Rightarrow> disk" where
  "create_file d = d\<lparr>dk_path := Some (dk_next d), dk_files := (dk_files d)(dk_next d := None), dk_next := dk_next d + 1\<rparr>"

text \<open>\<open>path.write_text\<close> writes the file the path names now, or creates it.\<close>

definition write_text :: "lock_info \<Rightarrow> disk \<Rightarrow> disk" where
  "write_text info d = (case dk_path d of
      Some i \<Rightarrow> write_inode i info d
    | None \<Rightarrow> write_inode (dk_next d) info (create_file d))"

definition unlink :: "disk \<Rightarrow> disk" where
  "unlink d = d\<lparr>dk_path := None\<rparr>"

record phase_env =
  pe_now :: pyfloat
  pe_alive :: "int \<Rightarrow> bool"
  pe_vram :: "(int \<times> int) option"
  pe_served :: "string list"
  pe_pause :: "string \<Rightarrow> bool"

definition pid_alive :: "phase_env \<Rightarrow> int option \<Rightarrow> bool" where
  "pid_alive env pid = (case pid of None \<Rightarrow> False | Some p \<Rightarrow> pe_alive env p)"

definition is_stale :: "phase_env \<Rightarrow> pyfloat \<Rightarrow> lock_info option \<Rightarrow> bool" where
  "is_stale env stale_s info =
     (case info of
        None \<Rightarrow> True
      | Some i \<Rightarrow>
          if \<not> pid_alive env (li_pid i) then True
          else case parse_iso (if li_heartbeat i = NoStamp then li_since i else li_heartbeat i) of
              None \<Rightarrow> False
            | Some hb \<Rightarrow> pe_now env - hb > stale_s)"

definition free_pct :: "phase_env \<Rightarrow> pyfloat option" where
  "free_pct env = (case pe_vram env of
      None \<Rightarrow> None
    | Some (used, tot) \<Rightarrow> if tot = 0 then None else Some (100 * of_int (tot - used) / of_int tot))"

record phase_report =
  ps_holder :: "lock_info option"
  ps_holder_stale :: bool
  ps_used :: "int option"
  ps_total :: "int option"
  ps_free_pct :: "pyfloat option"
  ps_need_pct :: pyfloat
  ps_would_start :: bool

definition phase_status :: "phase_env \<Rightarrow> pyfloat \<Rightarrow> pyfloat \<Rightarrow> disk \<Rightarrow> phase_report" where
  "phase_status env need stale_s d =
     (let holder = read_lock d; free = free_pct env;
          stale = (if holder \<noteq> None then is_stale env stale_s holder else False) in
      \<lparr>ps_holder = holder, ps_holder_stale = stale, ps_used = map_option fst (pe_vram env),
       ps_total = map_option snd (pe_vram env), ps_free_pct = map_option (py_round_n 1) free, ps_need_pct = need,
       ps_would_start = (holder = None \<or> stale) \<and> (case free of None \<Rightarrow> True | Some f \<Rightarrow> f \<ge> need)\<rparr>)"

section \<open>One process\<close>

record phase_req =
  pr_name :: string
  pr_need :: pyfloat
  pr_wait :: pyfloat
  pr_owner :: string
  pr_cls :: string
  pr_job :: string
  pr_pause :: "bool option"
  pr_keep :: "string list"
  pr_stale :: pyfloat
  pr_pid :: int
  pr_token :: string

record phase_busy =
  pb_name :: string
  pb_reason :: string
  pb_holder :: "lock_info option"
  pb_free :: "pyfloat option"
  pb_need :: pyfloat

definition phase_refusal :: "string \<Rightarrow> pyfloat \<Rightarrow> pyfloat option \<Rightarrow> lock_info option \<Rightarrow> string \<Rightarrow> phase_busy" where
  "phase_refusal name need free holder reason =
     \<lparr>pb_name = name, pb_reason = reason, pb_holder = holder, pb_free = free, pb_need = need\<rparr>"

text \<open>Where a process is: outside, at one of the file actions of the lock loop, in the VRAM loop, giving
  the lock back after a refusal, holding, releasing.\<close>

datatype pc =
    Start | Create | Fill | Look | Steal | NapLock
  | Vram | NapVram | Undo phase_busy | UndoUnlink phase_busy | Refused phase_busy
  | Hold | Release | ReleaseUnlink | Released bool | Dead

record proc =
  pr_pc :: pc
  pr_req :: phase_req
  pr_info :: lock_info
  pr_inode :: nat
  pr_deadline :: pyfloat
  pr_asked :: bool
  pr_paused :: "string list"
  pr_peak :: int
  pr_last_beat :: pyfloat
  pr_beat :: "lock_info option"

definition wants_pause :: "phase_req \<Rightarrow> bool" where
  "wants_pause r = (case pr_pause r of None \<Rightarrow> pr_cls r \<notin> set LLM_CLASSES | Some b \<Rightarrow> b)"

definition lock_info_of :: "phase_env \<Rightarrow> phase_req \<Rightarrow> lock_info" where
  "lock_info_of env r =
     \<lparr>li_class = pr_cls r, li_pid = Some (pr_pid r), li_owner = pr_owner r,
      li_job = (if pr_job r = [] then pr_name r else pr_job r),
      li_since = iso (pe_now env), li_heartbeat = iso (pe_now env), li_token = Some (pr_token r)\<rparr>"

definition owns :: "proc \<Rightarrow> disk \<Rightarrow> bool" where
  "owns p d = (case read_lock d of None \<Rightarrow> False | Some cur \<Rightarrow> li_token cur = Some (pr_token (pr_req p)))"

definition look :: "phase_env \<Rightarrow> disk \<Rightarrow> proc \<Rightarrow> pc" where
  "look env d p =
     (let holder = read_lock d; r = pr_req p in
      if is_stale env (pr_stale r) holder then Steal
      else if pe_now env \<ge> pr_deadline p
      then Refused (phase_refusal (pr_name r) (pr_need r) (free_pct env) holder ''another phase holds the card'')
      else NapLock)"

definition vram_turn :: "phase_env \<Rightarrow> proc \<Rightarrow> proc" where
  "vram_turn env p =
     (let r = pr_req p; free = free_pct env in
      if pr_need r \<le> 0 \<or> (case free of None \<Rightarrow> True | Some f \<Rightarrow> f \<ge> pr_need r) then p\<lparr>pr_pc := Hold\<rparr>
      else
        let ask = wants_pause r \<and> \<not> pr_asked p;
            got = (if ask then filter (\<lambda>m. m \<notin> set (pr_keep r) \<and> pe_pause env m) (pe_served env) else []);
            p' = (if ask then p\<lparr>pr_asked := True, pr_paused := pr_paused p @ got\<rparr> else p) in
        if ask \<and> pr_paused p' \<noteq> [] then p'
        else if pe_now env \<ge> pr_deadline p
        then p'\<lparr>pr_pc := Undo (phase_refusal (pr_name r) (pr_need r) free None ''not enough VRAM is free'')\<rparr>
        else p'\<lparr>pr_pc := NapVram\<rparr>)"

text \<open>The next action of the calling thread.\<close>

fun proc_next :: "phase_env \<Rightarrow> disk \<Rightarrow> proc \<Rightarrow> pc \<Rightarrow> disk \<times> proc" where
  "proc_next env d p Start = (d, p\<lparr>pr_pc := Create, pr_info := lock_info_of env (pr_req p),
      pr_deadline := pe_now env + max 0 (pr_wait (pr_req p)), pr_asked := False, pr_paused := [], pr_peak := 0,
      pr_last_beat := 0, pr_beat := None\<rparr>)"
| "proc_next env d p Create =
     (if dk_path d = None then (create_file d, p\<lparr>pr_pc := Fill, pr_inode := dk_next d\<rparr>) else (d, p\<lparr>pr_pc := Look\<rparr>))"
| "proc_next env d p Fill = (write_inode (pr_inode p) (pr_info p) d, p\<lparr>pr_pc := Vram\<rparr>)"
| "proc_next env d p Look = (d, p\<lparr>pr_pc := look env d p\<rparr>)"
| "proc_next env d p Steal = (unlink d, p\<lparr>pr_pc := Create\<rparr>)"
| "proc_next env d p NapLock = (d, p\<lparr>pr_pc := Create\<rparr>)"
| "proc_next env d p Vram = (d, vram_turn env p)"
| "proc_next env d p NapVram = (d, p\<lparr>pr_pc := Vram\<rparr>)"
| "proc_next env d p (Undo e) = (d, p\<lparr>pr_pc := if owns p d then UndoUnlink e else Refused e\<rparr>)"
| "proc_next env d p (UndoUnlink e) = (unlink d, p\<lparr>pr_pc := Refused e\<rparr>)"
| "proc_next env d p Hold = (d, p\<lparr>pr_pc := Release,
      pr_peak := (case pe_vram env of None \<Rightarrow> pr_peak p | Some (used, _) \<Rightarrow> max (pr_peak p) used)\<rparr>)"
| "proc_next env d p Release = (d, p\<lparr>pr_pc := if owns p d then ReleaseUnlink else Released False\<rparr>)"
| "proc_next env d p ReleaseUnlink = (unlink d, p\<lparr>pr_pc := Released True\<rparr>)"
| "proc_next env d p (Refused e) = (d, p)"
| "proc_next env d p (Released b) = (d, p)"
| "proc_next env d p Dead = (d, p)"

text \<open>The lease's own thread: a sample of the card and, every ten seconds, a heartbeat, which reads the
  file and then writes it back.\<close>

definition sample :: "phase_env \<Rightarrow> disk \<Rightarrow> proc \<Rightarrow> proc" where
  "sample env d p =
     (let p' = (case pe_vram env of None \<Rightarrow> p | Some (used, _) \<Rightarrow> p\<lparr>pr_peak := max (pr_peak p) used\<rparr>) in
      if pe_now env - pr_last_beat p \<ge> HEARTBEAT_S
      then p'\<lparr>pr_last_beat := pe_now env,
              pr_beat := (case read_lock d of
                 None \<Rightarrow> None
               | Some cur \<Rightarrow> if owns p d then Some (cur\<lparr>li_heartbeat := iso (pe_now env)\<rparr>) else None)\<rparr>
      else p')"

section \<open>Processes that interleave\<close>

type_synonym phase_state = "disk \<times> (nat \<Rightarrow> proc)"

text \<open>\<open>Go\<close> is the caller's next action, \<open>Crash\<close> the end of its process at any point.\<close>

inductive phase_step :: "phase_state \<Rightarrow> nat \<Rightarrow> phase_state \<Rightarrow> bool" where
  Go: "proc_next env d (ps i) (pr_pc (ps i)) = (d', p') \<Longrightarrow> phase_step (d, ps) i (d', ps(i := p'))"
| Sample: "pr_pc (ps i) = Hold \<Longrightarrow> pr_beat (ps i) = None \<Longrightarrow> phase_step (d, ps) i (d, ps(i := sample env d (ps i)))"
| Beat: "pr_pc (ps i) \<noteq> Dead \<Longrightarrow> pr_beat (ps i) = Some cur \<Longrightarrow> phase_step (d, ps) i (write_text cur d, ps(i := (ps i)\<lparr>pr_beat := None\<rparr>))"
| Crash: "phase_step (d, ps) i (d, ps(i := (ps i)\<lparr>pr_pc := Dead\<rparr>))"

inductive_cases phase_stepE: "phase_step (d, ps) i s'"

text \<open>A process is in its phase from the moment it has created the file until it has given it back or died.\<close>

fun in_phase_pc :: "pc \<Rightarrow> bool" where
  "in_phase_pc Fill = True"
| "in_phase_pc Vram = True"
| "in_phase_pc NapVram = True"
| "in_phase_pc (Undo e) = True"
| "in_phase_pc (UndoUnlink e) = True"
| "in_phase_pc Hold = True"
| "in_phase_pc Release = True"
| "in_phase_pc ReleaseUnlink = True"
| "in_phase_pc _ = False"

abbreviation in_phase :: "proc \<Rightarrow> bool" where
  "in_phase p \<equiv> in_phase_pc (pr_pc p)"

text \<open>Runs of any interleaving, and those in which a lock is only stolen while nobody is in a phase.\<close>

inductive phase_run :: "phase_state \<Rightarrow> phase_state \<Rightarrow> bool" where
  Refl: "phase_run s s"
| Step: "phase_run s t \<Longrightarrow> phase_step t i u \<Longrightarrow> phase_run s u"

inductive timely_run :: "phase_state \<Rightarrow> phase_state \<Rightarrow> bool" where
  Refl: "timely_run s s"
| Step: "timely_run s t \<Longrightarrow> phase_step t i u \<Longrightarrow> pr_pc (snd t i) = Steal \<longrightarrow> (\<forall>j. \<not> in_phase (snd t j))
     \<Longrightarrow> timely_run s u"

definition exclusive :: "phase_state \<Rightarrow> bool" where
  "exclusive s \<longleftrightarrow> (\<forall>i. in_phase (snd s i) \<longrightarrow> dk_path (fst s) = Some (pr_inode (snd s i))) \<and>
     (\<forall>i j. in_phase (snd s i) \<and> in_phase (snd s j) \<longrightarrow> i = j)"

section \<open>Mutual exclusion\<close>

lemma in_phase_vram_turn [simp]: "pr_pc p = Vram \<Longrightarrow> in_phase (vram_turn env p)" "pr_inode (vram_turn env p) = pr_inode p"
  by (simp_all add: vram_turn_def Let_def)

lemma in_phase_look [simp]: "\<not> in_phase_pc (look env d p)"
  by (simp add: look_def Let_def)

lemma sample_keeps [simp]: "pr_pc (sample env d p) = pr_pc p" "pr_inode (sample env d p) = pr_inode p"
  by (simp_all add: sample_def Let_def split: option.split)

lemma write_text_path: "dk_path d = Some k \<Longrightarrow> dk_path (write_text cur d) = Some k"
  by (simp add: write_text_def write_inode_def)

lemma exclusive_keep:
  assumes "exclusive (d, ps)" "dk_path d' = dk_path d" "in_phase p' \<Longrightarrow> in_phase (ps i) \<and> pr_inode p' = pr_inode (ps i)"
  shows "exclusive (d', ps(i := p'))"
  using assms by (auto simp: exclusive_def)

lemma exclusive_leave:
  assumes "exclusive (d, ps)" "in_phase (ps i)" "\<not> in_phase p'"
  shows "exclusive (d', ps(i := p'))"
  using assms by (auto simp: exclusive_def)

lemma go_effect:
  assumes "proc_next env d p (pr_pc p) = (d', p')" "pr_pc p \<noteq> Create" "pr_pc p \<noteq> Steal"
  shows "dk_path d' = dk_path d \<and> (in_phase p' \<longrightarrow> in_phase p \<and> pr_inode p' = pr_inode p) \<or> in_phase p \<and> \<not> in_phase p'"
  using assms by (cases "pr_pc p") (auto simp: write_inode_def)

lemma exclusive_step:
  assumes "phase_step (d, ps) i s'" "exclusive (d, ps)" "pr_pc (ps i) = Steal \<longrightarrow> (\<forall>j. \<not> in_phase (ps j))"
  shows "exclusive s'"
  using assms(1)
proof (rule phase_stepE)
  fix env d' p'
  assume Go: "s' = (d', ps(i := p'))" "proc_next env d (ps i) (pr_pc (ps i)) = (d', p')"
  show ?thesis
  proof (cases "pr_pc (ps i)")
    case Create
    show ?thesis
    proof (cases "dk_path d")
      case None
      with assms(2) have "\<not> in_phase (ps j)" for j by (auto simp: exclusive_def)
      with Go Create None show ?thesis by (auto simp: exclusive_def create_file_def)
    qed (use Go Create assms(2) in \<open>auto intro!: exclusive_keep\<close>)
  next
    case Steal
    with assms(3) have "\<not> in_phase (ps j)" for j by auto
    with Go Steal show ?thesis by (auto simp: exclusive_def)
  qed (use go_effect [OF Go(2)] exclusive_keep [OF assms(2), of d' p' i] exclusive_leave [OF assms(2), of i p' d'] Go(1)
      in \<open>simp_all, blast+\<close>)
next
  fix cur
  assume Beat: "s' = (write_text cur d, ps(i := (ps i)\<lparr>pr_beat := None\<rparr>))"
  show ?thesis
  proof (cases "dk_path d")
    case None
    with assms(2) have "\<not> in_phase (ps j)" for j by (auto simp: exclusive_def)
    with Beat show ?thesis by (auto simp: exclusive_def)
  next
    case (Some k)
    with Beat assms(2) show ?thesis by (auto intro!: exclusive_keep simp: write_text_path)
  qed
qed (use assms(2) in \<open>auto intro!: exclusive_keep\<close>)

lemma timely_exclusive: "timely_run s t \<Longrightarrow> exclusive s \<Longrightarrow> exclusive t"
proof (induction rule: timely_run.induct)
  case (Step s t i u)
  then show ?case using exclusive_step [of "fst t" "snd t" i u] by simp
qed

lemma exclusive_start: "\<forall>i. pr_pc (snd s i) = Start \<Longrightarrow> exclusive s"
  by (simp add: exclusive_def)

section \<open>Schedules\<close>

datatype act = GoA phase_env | SampleA phase_env | BeatA | CrashA

fun perform :: "act \<Rightarrow> nat \<Rightarrow> phase_state \<Rightarrow> phase_state option" where
  "perform (GoA env) i (d, ps) = (case proc_next env d (ps i) (pr_pc (ps i)) of (d', p') \<Rightarrow> Some (d', ps(i := p')))"
| "perform (SampleA env) i (d, ps) =
     (if pr_pc (ps i) = Hold \<and> pr_beat (ps i) = None then Some (d, ps(i := sample env d (ps i))) else None)"
| "perform BeatA i (d, ps) =
     (if pr_pc (ps i) = Dead then None
      else case pr_beat (ps i) of None \<Rightarrow> None | Some cur \<Rightarrow> Some (write_text cur d, ps(i := (ps i)\<lparr>pr_beat := None\<rparr>)))"
| "perform CrashA i (d, ps) = Some (d, ps(i := (ps i)\<lparr>pr_pc := Dead\<rparr>))"

lemma perform_step: "perform a i s = Some t \<Longrightarrow> phase_step s i t"
  by (cases "(a, i, s)" rule: perform.cases) (auto intro: phase_step.intros split: if_splits option.splits prod.splits)

fun run_acts :: "(nat \<times> act) list \<Rightarrow> phase_state \<Rightarrow> phase_state option" where
  "run_acts [] s = Some s"
| "run_acts ((i, a) # as) s = (case perform a i s of None \<Rightarrow> None | Some t \<Rightarrow> run_acts as t)"

text \<open>The same, refusing to steal a lock at all.\<close>

fun calm_acts :: "(nat \<times> act) list \<Rightarrow> phase_state \<Rightarrow> phase_state option" where
  "calm_acts [] s = Some s"
| "calm_acts ((i, a) # as) s =
     (if pr_pc (snd s i) = Steal then None
      else case perform a i s of None \<Rightarrow> None | Some t \<Rightarrow> calm_acts as t)"

lemma run_acts_run: "phase_run s t \<Longrightarrow> run_acts as t = Some u \<Longrightarrow> phase_run s u"
  by (induction as t rule: run_acts.induct) (auto intro: phase_run.Step perform_step split: option.splits)

lemma calm_acts_run: "timely_run s t \<Longrightarrow> calm_acts as t = Some u \<Longrightarrow> timely_run s u"
  by (induction as t rule: calm_acts.induct) (auto intro: timely_run.Step perform_step split: option.splits if_splits)

section \<open>What holds of the lease\<close>


definition demo_req :: "string \<Rightarrow> int \<Rightarrow> string \<Rightarrow> phase_req" where
  "demo_req cls pid token =
     \<lparr>pr_name = ''flux'', pr_need = 75, pr_wait = 0, pr_owner = ''studio'', pr_cls = cls, pr_job = [], pr_pause = None,
      pr_keep = [], pr_stale = STALE_S, pr_pid = pid, pr_token = token\<rparr>"

definition demo_proc :: "int \<Rightarrow> string \<Rightarrow> proc" where
  "demo_proc pid token =
     \<lparr>pr_pc = Start, pr_req = demo_req ''image'' pid token, pr_info = lock_info_of \<lparr>pe_now = 0, pe_alive = \<lambda>_. True, pe_vram = None, pe_served = [], pe_pause = \<lambda>_. True\<rparr> (demo_req ''image'' pid token),
      pr_inode = 0, pr_deadline = 0, pr_asked = False, pr_paused = [], pr_peak = 0, pr_last_beat = 0, pr_beat = None\<rparr>"

definition demo_procs :: "nat \<Rightarrow> proc" where
  "demo_procs i = (if i = 0 then demo_proc 100 ''a'' else demo_proc 200 ''b'')"

definition demo_penv :: "pyfloat \<Rightarrow> (int \<times> int) option \<Rightarrow> phase_env" where
  "demo_penv t v = \<lparr>pe_now = t, pe_alive = \<lambda>p. p \<in> {100, 200}, pe_vram = v, pe_served = [''qwen''], pe_pause = \<lambda>_. True\<rparr>"

definition demo_disk :: "lock_info option \<Rightarrow> disk" where
  "demo_disk info = \<lparr>dk_path = (if info = None then None else Some 0), dk_files = \<lambda>_. info, dk_next = 1\<rparr>"

abbreviation phase_card :: "(int \<times> int) option" where "phase_card \<equiv> Some (1000, 12000)"

lemma demo_start: "\<forall>i. pr_pc (snd (d, demo_procs) i) = Start"
  by (simp add: demo_procs_def demo_proc_def)


text \<open>
  The proviso is needed: a process that has judged a dead process's lock stale removes whatever the path names
  when it gets there, and a file just opened, not yet written, is stale to anyone who reads it. Both end with
  two processes in their phase. A heartbeat in flight while the lease is released creates the file again.
\<close>

definition dead_lock :: lock_info where
  "dead_lock = (lock_info_of (demo_penv 1 None) (demo_req ''image'' 7 ''dead''))"

definition demo_go :: "nat list \<Rightarrow> (nat \<times> act) list" where
  "demo_go is = map (\<lambda>i. (i, GoA (demo_penv 1000 phase_card))) is"

lemma late_steal_breaks_exclusion:
  "map_option (\<lambda>t. map (\<lambda>i. pr_pc (snd t i)) [0, 1]) (run_acts (demo_go [0, 0, 0, 1, 1, 1, 0, 0, 0, 0, 1, 1, 1, 1]) (demo_disk (Some dead_lock), demo_procs))
     = Some [Hold, Hold]"
  by code_simp

lemma empty_file_is_stolen:
  "map_option (\<lambda>t. map (\<lambda>i. pr_pc (snd t i)) [0, 1]) (run_acts (demo_go [0, 0, 1, 1, 1, 1, 1, 1, 1, 0, 0]) (demo_disk None, demo_procs))
     = Some [Hold, Hold]"
  by code_simp

lemma heartbeat_outlives_release:
  "map_option (\<lambda>t. (pr_pc (snd t 0), map_option li_token (read_lock (fst t))))
     (run_acts (demo_go [0, 0, 0, 0] @ [(0, SampleA (demo_penv 1001 phase_card))] @ demo_go [0, 0, 0] @ [(0, BeatA)]) (demo_disk None, demo_procs))
     = Some (Released True, Some (Some ''a''))"
  by code_simp

text \<open>A phase_refusal for want of VRAM leaves the models it has paused paused.\<close>

lemma refusal_leaves_models_paused:
  "map_option (\<lambda>t. (case pr_pc (snd t 0) of Refused e \<Rightarrow> pb_reason e | _ \<Rightarrow> [], pr_paused (snd t 0)))
     (run_acts (replicate 8 (0, GoA (demo_penv 1000 (Some (11000, 12000))))) (demo_disk None, demo_procs))
     = Some (''not enough VRAM is free'', [''qwen''])"
  by code_simp

section \<open>A process on its own\<close>

fun run_alone :: "nat \<Rightarrow> phase_env \<Rightarrow> disk \<times> proc \<Rightarrow> disk \<times> proc" where
  "run_alone 0 env s = s"
| "run_alone (Suc n) env (d, p) = run_alone n env (proc_next env d p (pr_pc p))"

lemma run_alone_numeral [simp]:
  "run_alone (numeral k) env (d, p) = run_alone (pred_numeral k) env (proc_next env d p (pr_pc p))"
  by (simp add: numeral_eq_Suc)

lemma run_alone_add: "run_alone (m + n) env s = run_alone n env (run_alone m env s)"
  by (induction m env s rule: run_alone.induct) auto

lemma take_free:
  "pr_pc p = Create \<Longrightarrow> dk_path d = None \<Longrightarrow>
     run_alone 2 env (d, p) = (write_inode (dk_next d) (pr_info p) (create_file d), p\<lparr>pr_pc := Vram, pr_inode := dk_next d\<rparr>)"
  by simp

lemma take_stale:
  "pr_pc p = Create \<Longrightarrow> dk_path d = Some k \<Longrightarrow> is_stale env (pr_stale (pr_req p)) (read_lock d) \<Longrightarrow>
     run_alone 5 env (d, p) = (write_inode (dk_next d) (pr_info p) (create_file (unlink d)), p\<lparr>pr_pc := Vram, pr_inode := dk_next d\<rparr>)"
  by (simp add: look_def unlink_def)

text \<open>When the path is free or the lock on it is stale, five actions at most take the lock.\<close>

lemma take_lock:
  assumes "pr_pc p = Create" "is_stale env (pr_stale (pr_req p)) (read_lock d)"
  obtains n d' where "n \<le> 5" "run_alone n env (d, p) = (d', p\<lparr>pr_pc := Vram, pr_inode := dk_next d\<rparr>)"
    "read_lock d' = Some (pr_info p)"
proof (cases "dk_path d")
  case None
  have "read_lock (write_inode (dk_next d) (pr_info p) (create_file d)) = Some (pr_info p)"
    by (simp add: read_lock_def write_inode_def create_file_def)
  then show thesis using take_free [OF assms(1) None] by (intro that [of 2]) simp_all
next
  case (Some k)
  have "read_lock (write_inode (dk_next d) (pr_info p) (create_file (unlink d))) = Some (pr_info p)"
    by (simp add: read_lock_def write_inode_def create_file_def unlink_def)
  then show thesis using take_stale [OF assms(1) Some assms(2)] by (intro that [of 5]) simp_all
qed

definition vram_enough :: "phase_env \<Rightarrow> pyfloat \<Rightarrow> bool" where
  "vram_enough env need \<longleftrightarrow> (case free_pct env of None \<Rightarrow> True | Some f \<Rightarrow> need \<le> f)"

lemma vram_turn_enough: "vram_enough env (pr_need (pr_req p)) \<Longrightarrow> vram_turn env p = p\<lparr>pr_pc := Hold\<rparr>"
  by (simp add: vram_turn_def vram_enough_def Let_def)

lemma vram_turn_short:
  "\<not> vram_enough env (pr_need (pr_req p)) \<Longrightarrow> 0 < pr_need (pr_req p) \<Longrightarrow> \<not> wants_pause (pr_req p) \<Longrightarrow> pr_deadline p \<le> pe_now env \<Longrightarrow>
     vram_turn env p = p\<lparr>pr_pc := Undo (phase_refusal (pr_name (pr_req p)) (pr_need (pr_req p)) (free_pct env) None ''not enough VRAM is free'')\<rparr>"
  by (simp add: vram_turn_def vram_enough_def Let_def)

lemma would_start_iff:
  "ps_would_start (phase_status env need stale_s d) \<longleftrightarrow> is_stale env stale_s (read_lock d) \<and> vram_enough env need"
  by (auto simp: phase_status_def vram_enough_def is_stale_def Let_def split: option.splits)

lemma first_action:
  assumes "pr_pc p = Start"
  obtains p' where "run_alone 1 env (d, p) = (d, p')" "pr_pc p' = Create" "pr_req p' = pr_req p"
    "pr_info p' = lock_info_of env (pr_req p)" "pr_deadline p' = pe_now env + max 0 (pr_wait (pr_req p))"
  by (rule that [of "snd (proc_next env d p Start)"]) (use assms in simp_all)

text \<open>
  What the status says is what an acquisition meets, when nothing else moves: if it says the phase would
  start, the phase holds the lease within seven actions and the file is its own; if not, and it neither waits
  nor asks for a pause, it is refused within nine actions: by the lock of a live holder, and then nothing has
  changed, or for want of VRAM, and then no lock is left.
\<close>

theorem status_predicts_acquisition:
  assumes "pr_pc p = Start" "pr_req p = r" "0 < pr_need r"
  shows "if ps_would_start (phase_status env (pr_need r) (pr_stale r) d)
    then \<exists>n \<le> 7. \<exists>d' p'. run_alone n env (d, p) = (d', p') \<and> pr_pc p' = Hold \<and> read_lock d' = Some (lock_info_of env r)
    else pr_wait r \<le> 0 \<and> \<not> wants_pause r \<longrightarrow>
      (\<exists>n \<le> 9. \<exists>d' p' e. run_alone n env (d, p) = (d', p') \<and> pr_pc p' = Refused e \<and>
        (if is_stale env (pr_stale r) (read_lock d) then pb_holder e = None \<and> read_lock d' = None
         else pb_holder e = read_lock d \<and> d' = d))"
proof -
  obtain p0 where p0: "run_alone 1 env (d, p) = (d, p0)" "pr_pc p0 = Create" "pr_req p0 = r"
    "pr_info p0 = lock_info_of env r" "pr_deadline p0 = pe_now env + max 0 (pr_wait r)"
    using first_action [OF assms(1), of env d] assms(2) by metis
  show ?thesis
  proof (cases "is_stale env (pr_stale r) (read_lock d)")
    case stale: True
    then obtain n d' where n: "n \<le> 5" "run_alone n env (d, p0) = (d', p0\<lparr>pr_pc := Vram, pr_inode := dk_next d\<rparr>)"
      "read_lock d' = Some (lock_info_of env r)"
      using take_lock [OF p0(2), of env d] p0(3,4) by metis
    define pv where "pv = p0\<lparr>pr_pc := Vram, pr_inode := dk_next d\<rparr>"
    have v: "run_alone (1 + n) env (d, p) = (d', pv)" by (simp only: run_alone_add p0(1) n(2) pv_def)
    have pv: "pr_pc pv = Vram" "pr_req pv = r" "pr_deadline pv = pe_now env + max 0 (pr_wait r)" by (simp_all add: pv_def p0)
    show ?thesis
    proof (cases "vram_enough env (pr_need r)")
      case True
      then have "run_alone (1 + n + 1) env (d, p) = (d', pv\<lparr>pr_pc := Hold\<rparr>)"
        using pv vram_turn_enough [of env pv] by (simp only: run_alone_add [of "1 + n" 1] v) simp
      then show ?thesis using True stale n(1,3)
        by (simp add: would_start_iff) (intro exI [of _ "Suc (Suc n)"], simp)
    next
      case False
      let ?e = "phase_refusal (pr_name r) (pr_need r) (free_pct env) None ''not enough VRAM is free''"
      have o: "owns (pv\<lparr>pr_pc := c\<rparr>) d'" for c using n(3) pv(2) by (simp add: owns_def lock_info_of_def)
      have "run_alone (1 + n + 3) env (d, p) = (unlink d', pv\<lparr>pr_pc := Refused ?e\<rparr>)"
        if "pr_wait r \<le> 0" "\<not> wants_pause r"
        using pv vram_turn_short [of env pv] False assms(3) that o
        by (simp only: run_alone_add [of "1 + n" 3] v) (simp add: numeral_3_eq_3)
      then show ?thesis using False stale n(1)
        by (auto simp: would_start_iff phase_refusal_def read_lock_def unlink_def intro!: exI [of _ "Suc n + 3"])
    qed
  next
    case False
    then obtain k where "dk_path d = Some k" by (auto simp: read_lock_def is_stale_def split: option.splits)
    have "run_alone (1 + 2) env (d, p)
        = (d, p0\<lparr>pr_pc := Refused (phase_refusal (pr_name r) (pr_need r) (free_pct env) (read_lock d) ''another phase holds the card'')\<rparr>)"
      if "pr_wait r \<le> 0"
      using p0 \<open>dk_path d = Some k\<close> False that by (simp only: run_alone_add [of 1 2]) (simp add: look_def numeral_2_eq_2)
    then show ?thesis using False by (auto simp: would_start_iff phase_refusal_def simp del: run_alone_numeral run_alone.simps intro!: exI [of _ "Suc (Suc (Suc 0))"])
  qed
qed

lemma status_predicts_acquisition_witness:
  "\<exists>n \<le> 7. \<exists>d' p'. run_alone n (demo_penv 1000 phase_card) (demo_disk (Some dead_lock), demo_procs 0) = (d', p')
     \<and> pr_pc p' = Hold \<and> read_lock d' = Some (lock_info_of (demo_penv 1000 phase_card) (demo_req ''image'' 100 ''a''))"
proof -
  have r: "pr_pc (demo_procs 0) = Start" "pr_req (demo_procs 0) = demo_req ''image'' 100 ''a''" "0 < pr_need (demo_req ''image'' 100 ''a'')"
    by (simp_all add: demo_procs_def demo_proc_def demo_req_def)
  have "ps_would_start (phase_status (demo_penv 1000 phase_card) (pr_need (demo_req ''image'' 100 ''a''))
      (pr_stale (demo_req ''image'' 100 ''a'')) (demo_disk (Some dead_lock)))"
    by code_simp
  then show ?thesis using status_predicts_acquisition [OF r, of "demo_penv 1000 phase_card" "demo_disk (Some dead_lock)"] by simp
qed

end
