(* ===== verification/Wait.thy ===== *)
theory Wait
  imports GB_Prelude
begin

text \<open>
  The polling primitive of \<^verbatim>\<open>gb_wait.py\<close>. The condition, the clock and the sleep are arguments of
  \<open>wait_until\<close> in the code and here: functions on a world of any type, so that a test's fake clock and the
  real one are both instances. The loop need not end, hence \<open>partial_function (option)\<close>; that it ends is
  a theorem.
\<close>

datatype 'e wait_result =
    Ready nat
  | DeadlineElapsed nat
  | AttemptsExhausted nat
  | CondRaised 'e nat
  | BadArguments

record wait_conf =
  wc_deadline :: pyfloat
  wc_initial :: pyfloat
  wc_max_interval :: pyfloat
  wc_backoff :: pyfloat
  wc_attempts :: "int option"

definition out_of_attempts :: "wait_conf \<Rightarrow> nat \<Rightarrow> bool" where
  "out_of_attempts c n = (case wc_attempts c of None \<Rightarrow> False | Some m \<Rightarrow> m \<le> int n)"

definition next_interval :: "wait_conf \<Rightarrow> pyfloat \<Rightarrow> pyfloat" where
  "next_interval c i = min (wc_max_interval c) (i * wc_backoff c)"

definition pause_world :: "wait_conf \<Rightarrow> ('w \<Rightarrow> pyfloat \<times> 'w) \<Rightarrow> (pyfloat \<Rightarrow> 'w \<Rightarrow> 'w) \<Rightarrow> pyfloat \<Rightarrow> pyfloat \<Rightarrow> 'w \<Rightarrow> 'w" where
  "pause_world c now sleep start i w =
     (let (t, w) = now w; d = min i (wc_deadline c - (t - start)) in if d > 0 then sleep d w else w)"

partial_function (option) wait_loop ::
  "wait_conf \<Rightarrow> ('w \<Rightarrow> pyfloat \<times> 'w) \<Rightarrow> (pyfloat \<Rightarrow> 'w \<Rightarrow> 'w) \<Rightarrow> ('w \<Rightarrow> ('e + bool) \<times> 'w) \<Rightarrow> pyfloat \<Rightarrow> pyfloat \<Rightarrow> nat \<Rightarrow> 'w \<Rightarrow>
   ('e wait_result \<times> 'w) option" where
  "wait_loop c now sleep cond start i n w =
     (case now w of (t, w1) \<Rightarrow>
      if t - start \<ge> wc_deadline c then Some (DeadlineElapsed n, w1)
      else if out_of_attempts c n then Some (AttemptsExhausted n, w1)
      else (case cond w1 of (r, w2) \<Rightarrow>
        (case r of
           Inl e \<Rightarrow> Some (CondRaised e (n + 1), w2)
         | Inr ok \<Rightarrow>
             if ok then Some (Ready (n + 1), w2)
             else if out_of_attempts c (n + 1) then Some (AttemptsExhausted (n + 1), w2)
             else wait_loop c now sleep cond start (next_interval c i) (n + 1) (pause_world c now sleep start i w2))))"

declare wait_loop.simps [code]

text \<open>A rational is finite, so the test for an unbounded wait is on the sign alone.\<close>

definition wait_until ::
  "wait_conf \<Rightarrow> ('w \<Rightarrow> pyfloat \<times> 'w) \<Rightarrow> (pyfloat \<Rightarrow> 'w \<Rightarrow> 'w) \<Rightarrow> ('w \<Rightarrow> ('e + bool) \<times> 'w) \<Rightarrow> 'w \<Rightarrow> ('e wait_result \<times> 'w) option" where
  "wait_until c now sleep cond w =
     (if wc_attempts c = None \<and> \<not> 0 < wc_deadline c then Some (BadArguments, w)
      else case now w of (start, w) \<Rightarrow> wait_loop c now sleep cond start (wc_initial c) 0 w)"

section \<open>It returns\<close>

text \<open>What the wait relies on: no call turns the clock back and a sleep lasts at least as long as asked.\<close>

definition steady :: "('w \<Rightarrow> pyfloat \<times> 'w) \<Rightarrow> (pyfloat \<Rightarrow> 'w \<Rightarrow> 'w) \<Rightarrow> ('w \<Rightarrow> ('e + bool) \<times> 'w) \<Rightarrow> bool" where
  "steady now sleep cond \<longleftrightarrow>
     (\<forall>w. fst (now w) \<le> fst (now (snd (now w)))) \<and>
     (\<forall>w d. 0 < d \<longrightarrow> fst (now w) + d \<le> fst (now (sleep d w))) \<and>
     (\<forall>w. fst (now w) \<le> fst (now (snd (cond w))))"

lemma steadyD:
  assumes "steady now sleep cond"
  shows "fst (now w) \<le> fst (now (snd (now w)))" "0 < d \<Longrightarrow> fst (now w) + d \<le> fst (now (sleep d w))"
    "fst (now w) \<le> fst (now (snd (cond w)))"
  using assms by (auto simp: steady_def)

abbreviation clock :: "('w \<Rightarrow> pyfloat \<times> 'w) \<Rightarrow> 'w \<Rightarrow> pyfloat" where
  "clock now w \<equiv> fst (now w)"

lemma pause_advances:
  assumes "steady now sleep cond" "0 < i"
  shows "clock now w \<le> clock now (pause_world c now sleep start i w)"
    and "clock now w + i \<le> clock now (pause_world c now sleep start i w) \<or>
         start + wc_deadline c \<le> clock now (pause_world c now sleep start i w)"
proof -
  obtain t w' where w: "now w = (t, w')" by (cases "now w")
  note mono = steadyD(1) [OF assms(1), of w] and adv = steadyD(2) [OF assms(1), where w = w']
  let ?d = "min i (wc_deadline c - (t - start))"
  have "clock now w + ?d \<le> clock now (pause_world c now sleep start i w) \<and> clock now w \<le> clock now (pause_world c now sleep start i w)"
    using mono adv [of ?d] by (auto simp: pause_world_def w)
  then show "clock now w \<le> clock now (pause_world c now sleep start i w)"
    and "clock now w + i \<le> clock now (pause_world c now sleep start i w) \<or>
         start + wc_deadline c \<le> clock now (pause_world c now sleep start i w)"
    by (auto simp: w min_def split: if_splits)
qed

lemma next_interval_ge:
  assumes "\<delta> \<le> i" "0 < \<delta>" "\<delta> \<le> wc_max_interval c" "1 \<le> wc_backoff c"
  shows "\<delta> \<le> next_interval c i"
  using assms mult_mono [of \<delta> i 1 "wc_backoff c"] by (simp add: next_interval_def)

lemma loop_returns_by_attempts:
  "wc_attempts c = Some m \<Longrightarrow> \<exists>r. wait_loop c now sleep cond start i n w = Some r"
proof (induction "nat (m - int n)" arbitrary: i n w)
  case 0
  then show ?case by (subst wait_loop.simps) (auto simp: out_of_attempts_def split: prod.split)
next
  case (Suc k)
  have "k = nat (m - int (n + 1))" using Suc.hyps(2) by simp
  from Suc.hyps(1) [OF this Suc.prems] show ?case
    by (subst wait_loop.simps) (auto split: prod.split sum.split)
qed

lemma loop_returns_by_deadline:
  assumes "steady now sleep cond" "0 < \<delta>" "\<delta> \<le> wc_max_interval c" "1 \<le> wc_backoff c"
  shows "\<delta> \<le> i \<Longrightarrow> start + wc_deadline c \<le> clock now w + of_nat k * \<delta> \<Longrightarrow>
    \<exists>r. wait_loop c now sleep cond start i n w = Some r"
proof (induction k arbitrary: i n w)
  case 0
  then show ?case by (subst wait_loop.simps) (auto split: prod.split)
next
  case (Suc k)
  obtain t w1 where w1: "now w = (t, w1)" by (cases "now w")
  obtain r w2 where w2: "cond w1 = (r, w2)" by (cases "cond w1")
  have t: "clock now w \<le> clock now w2" using steadyD [OF assms(1)] w1 w2 by (metis fst_conv order_trans snd_conv)
  have "start + wc_deadline c \<le> clock now (pause_world c now sleep start i w2) + of_nat k * \<delta>"
  proof -
    have "0 \<le> of_nat k * \<delta>" using assms(2) by simp
    moreover have "start + wc_deadline c \<le> clock now w2 + (of_nat k * \<delta> + i)" using Suc.prems t by (simp add: algebra_simps)
    moreover have "0 < i" using Suc.prems(1) assms(2) by linarith
    ultimately show ?thesis using pause_advances(2) [OF assms(1), of i w2 c start] by linarith
  qed
  from Suc.IH [OF next_interval_ge [OF Suc.prems(1) assms(2-4)] this] show ?case
    by (subst wait_loop.simps) (auto simp: w1 w2 split: sum.split)
qed

text \<open>
  C31. The wait returns: with a limit on the attempts on any clock, and with a positive deadline alone when the
  clock is steady, the intervals are positive and the backoff does not shrink them.
\<close>

theorem wait_returns:
  assumes "wc_attempts c \<noteq> None \<or>
    steady now sleep cond \<and> 0 < wc_initial c \<and> 0 < wc_max_interval c \<and> 1 \<le> wc_backoff c"
  shows "\<exists>r. wait_until c now sleep cond w = Some r"
proof (cases "wc_attempts c")
  case None
  with assms have a: "steady now sleep cond" "0 < wc_initial c" "0 < wc_max_interval c" "1 \<le> wc_backoff c" by auto
  obtain start w' where w: "now w = (start, w')" by (cases "now w")
  let ?\<delta> = "min (wc_initial c) (wc_max_interval c)"
  obtain k where "wc_deadline c / ?\<delta> \<le> of_nat k" using real_arch_simple by blast
  then have "wc_deadline c \<le> of_nat k * ?\<delta>" using a by (simp add: pos_divide_le_eq)
  moreover have "start \<le> clock now w'" using steadyD(1) [OF a(1), of w] w by simp
  ultimately have "start + wc_deadline c \<le> clock now w' + of_nat k * ?\<delta>" by simp
  from loop_returns_by_deadline [OF a(1) _ _ a(4) _ this] show ?thesis using a by (simp add: wait_until_def w)
next
  case (Some m)
  obtain start w' where w: "now w = (start, w')" by (cases "now w")
  from loop_returns_by_attempts [OF Some, of now sleep cond start "wc_initial c" 0 w'] Some show ?thesis
    by (simp add: wait_until_def w)
qed

text \<open>The world of the tests: a clock that only a sleep moves, and a count of the calls of the condition, which
  becomes true at the call \<open>k\<close>. The list keeps the sleeps.\<close>

type_synonym fake = "pyfloat \<times> nat \<times> pyfloat list"

definition fake_now :: "fake \<Rightarrow> pyfloat \<times> fake" where "fake_now w = (fst w, w)"

definition fake_sleep :: "pyfloat \<Rightarrow> fake \<Rightarrow> fake" where
  "fake_sleep d w = (case w of (t, n, ds) \<Rightarrow> (t + d, n, ds @ [d]))"

definition fake_cond :: "nat \<Rightarrow> fake \<Rightarrow> (string + bool) \<times> fake" where
  "fake_cond k w = (case w of (t, n, ds) \<Rightarrow> (Inr (k \<le> n + 1), (t, n + 1, ds)))"

definition demo_conf :: wait_conf where
  "demo_conf = \<lparr>wc_deadline = 100, wc_initial = 1, wc_max_interval = 10, wc_backoff = 3 / 2, wc_attempts = None\<rparr>"

lemma fake_steady: "steady fake_now fake_sleep (fake_cond k)"
  by (auto simp: steady_def fake_now_def fake_sleep_def fake_cond_def)

lemma wait_returns_witness: "\<exists>r. wait_until demo_conf fake_now fake_sleep (fake_cond 9) (0, 0, []) = Some r"
  by (rule wait_returns) (simp add: fake_steady demo_conf_def)

text \<open>The example of the docstring: five calls and four sleeps, which add up to 8.125 and not to the 10 it
  asserts.\<close>

lemma docstring_example:
  "wait_until demo_conf fake_now fake_sleep (fake_cond 5) (0, 0, []) = Some (Ready 5, (65 / 8, 5, [1, 3 / 2, 9 / 4, 27 / 8]))"
  by code_simp

section \<open>What it returns is so\<close>

definition wait_answer_ok ::
  "wait_conf \<Rightarrow> ('w \<Rightarrow> pyfloat \<times> 'w) \<Rightarrow> ('w \<Rightarrow> ('e + bool) \<times> 'w) \<Rightarrow> pyfloat \<Rightarrow> nat \<Rightarrow> 'e wait_result \<times> 'w \<Rightarrow> bool" where
  "wait_answer_ok c now cond start n r =
     (case r of
        (Ready k, w) \<Rightarrow> n < k \<and> (\<forall>m. wc_attempts c = Some m \<longrightarrow> int k \<le> m) \<and> (\<exists>w'. cond w' = (Inr True, w))
      | (CondRaised e k, w) \<Rightarrow> n < k \<and> (\<forall>m. wc_attempts c = Some m \<longrightarrow> int k \<le> m) \<and> (\<exists>w'. cond w' = (Inl e, w))
      | (DeadlineElapsed k, w) \<Rightarrow> n \<le> k \<and> (\<exists>w'. wc_deadline c \<le> fst (now w') - start \<and> w = snd (now w'))
      | (AttemptsExhausted k, w) \<Rightarrow> n \<le> k \<and> (\<exists>m. wc_attempts c = Some m \<and> m \<le> int k)
      | (BadArguments, w) \<Rightarrow> False)"

lemma wait_answer_ok_mono: "wait_answer_ok c now cond start (n + 1) r \<Longrightarrow> wait_answer_ok c now cond start n r"
  by (auto simp: wait_answer_ok_def split: wait_result.splits prod.splits)

lemma wait_loop_ok: "wait_loop c now sleep cond start i n w = Some r \<Longrightarrow> wait_answer_ok c now cond start n r"
  for now :: "'w \<Rightarrow> pyfloat \<times> 'w" and cond :: "'w \<Rightarrow> ('e + bool) \<times> 'w"
proof (induction c now sleep cond start i n w r rule: wait_loop.raw_induct [rotated 1, consumes 1])
  fix f c and now :: "'w \<Rightarrow> pyfloat \<times> 'w" and sleep and cond :: "'w \<Rightarrow> ('e + bool) \<times> 'w" and start i n w r
  assume ih: "\<And>c now sleep (cond :: 'w \<Rightarrow> ('e + bool) \<times> 'w) start i n (w :: 'w) r.
      f c now sleep cond start i n w = Some r \<Longrightarrow> wait_answer_ok c now cond start n r"
    and r: "(case now w of (t, w1) \<Rightarrow>
      if t - start \<ge> wc_deadline c then Some (DeadlineElapsed n, w1)
      else if out_of_attempts c n then Some (AttemptsExhausted n, w1)
      else (case cond w1 of (r, w2) \<Rightarrow>
        (case r of
           Inl e \<Rightarrow> Some (CondRaised e (n + 1), w2)
         | Inr ok \<Rightarrow>
             if ok then Some (Ready (n + 1), w2)
             else if out_of_attempts c (n + 1) then Some (AttemptsExhausted (n + 1), w2)
             else f c now sleep cond start (next_interval c i) (n + 1) (pause_world c now sleep start i w2)))) = Some r"
  obtain t w1 where w1: "now w = (t, w1)" by (cases "now w")
  obtain a w2 where w2: "cond w1 = (a, w2)" by (cases "cond w1")
  have d: "\<exists>w'. wc_deadline c \<le> clock now w' - start \<and> w1 = snd (now w')" if "wc_deadline c \<le> t - start"
    using that w1 by (intro exI [of _ w]) simp
  show "wait_answer_ok c now cond start n r"
    using d r w1 w2 wait_answer_ok_mono [OF ih, where c = c and n = n and r = r]
    by (auto simp: wait_answer_ok_def out_of_attempts_def split: if_splits sum.splits option.splits)
qed

text \<open>
  What the wait returns is so: ready after a call of the condition that answered true, an exception of the
  condition's own, a deadline that had passed, attempts that were used up; and never more calls than allowed.
\<close>

theorem wait_answers_truly:
  assumes "wait_until c now sleep cond w = Some (res, w')" "res \<noteq> BadArguments"
  shows "wait_answer_ok c now cond (fst (now w)) 0 (res, w')"
  using assms wait_loop_ok by (fastforce simp: wait_until_def split: if_splits prod.splits)

lemma wait_answers_truly_witness:
  "wait_answer_ok demo_conf fake_now (fake_cond 5) 0 0 (Ready 5, (65 / 8, 5, [1, 3 / 2, 9 / 4, 27 / 8]))"
proof -
  have "wait_until demo_conf fake_now fake_sleep (fake_cond 5) (0, 0, []) = Some (Ready 5, (65 / 8, 5, [1, 3 / 2, 9 / 4, 27 / 8]))"
    by code_simp
  from wait_answers_truly [OF this] show ?thesis by (simp add: fake_now_def)
qed

end
