(* ===== verification/Rotator.thy ===== *)
theory Rotator
  imports GB_Prelude
begin

text \<open>
  The overnight model rotation of \<^verbatim>\<open>gb_rotator.py\<close>: serve a model, run the work that needs it, unload,
  next; the queue file records what is done, so a run that is killed resumes. What the rotation calls (probes
  of endpoints, the engine, the shell) is a record of functions on a world of any type; a call that raises
  answers \<open>Inl\<close> of the exception's text.
\<close>

section \<open>One job\<close>

definition MAX_CONSECUTIVE_FAILURES :: nat where "MAX_CONSECUTIVE_FAILURES = 3"

datatype status = Pending | Done | Failed

record rotation_job =
  rj_model :: string
  rj_work :: string
  rj_timeout :: int
  rj_ctx :: int
  rj_status :: status

text \<open>The shell's answer: an exit code, a timeout, or another exception, which nobody catches.\<close>

datatype work_result = Exit int | Timeout | WorkRaises string

record 'w services =
  sv_dry :: bool
  sv_env_url :: "string option"
  sv_port :: string
  sv_probe :: "string \<Rightarrow> 'w \<Rightarrow> bool \<times> 'w"
  sv_engine :: "'w \<Rightarrow> bool"
  sv_serve :: "rotation_job \<Rightarrow> 'w \<Rightarrow> (string + unit) \<times> 'w"
  sv_keep_alive :: "string \<Rightarrow> string \<Rightarrow> string \<Rightarrow> 'w \<Rightarrow> (string + unit) \<times> 'w"
  sv_stop :: "string \<Rightarrow> 'w \<Rightarrow> (string + unit) \<times> 'w"
  sv_work :: "rotation_job \<Rightarrow> 'w \<Rightarrow> work_result \<times> 'w"

definition rstrip_slash :: "string \<Rightarrow> string" where
  "rstrip_slash s = rev (dropWhile (\<lambda>c. c = CHR ''/'') (rev s))"

definition synapse_url :: "'w services \<Rightarrow> string" where
  "synapse_url sv = ''http://127.0.0.1:'' @ sv_port sv"

definition candidate_urls :: "'w services \<Rightarrow> string list" where
  "candidate_urls sv =
     (let urls = (case sv_env_url sv of None \<Rightarrow> [] | Some u \<Rightarrow> if u = [] then [] else [rstrip_slash u]);
          urls = (if synapse_url sv \<in> set urls then urls else urls @ [synapse_url sv]) in
      if ''http://127.0.0.1:11434'' \<in> set urls then urls else urls @ [''http://127.0.0.1:11434''])"

fun probe_urls :: "'w services \<Rightarrow> string list \<Rightarrow> 'w \<Rightarrow> string option \<times> 'w" where
  "probe_urls sv [] w = (None, w)"
| "probe_urls sv (u # us) w =
     (case sv_probe sv (u @ (if u = synapse_url sv then ''/health'' else ''/api/ps'')) w of
        (True, w) \<Rightarrow> (Some u, w) | (False, w) \<Rightarrow> probe_urls sv us w)"

definition resolve_ollama_url :: "'w services \<Rightarrow> 'w \<Rightarrow> string option \<times> 'w" where
  "resolve_ollama_url sv w = probe_urls sv (candidate_urls sv) w"

definition endpoint_alive :: "'w services \<Rightarrow> 'w \<Rightarrow> bool \<times> 'w" where
  "endpoint_alive sv w = (case resolve_ollama_url sv w of (u, w) \<Rightarrow> (u \<noteq> None, w))"

definition ollama_keep_alive :: "'w services \<Rightarrow> string \<Rightarrow> string \<Rightarrow> 'w \<Rightarrow> (string + unit) \<times> 'w" where
  "ollama_keep_alive sv model keep w =
     (case resolve_ollama_url sv w of (u, w) \<Rightarrow>
        sv_keep_alive sv (case u of Some u \<Rightarrow> u | None \<Rightarrow> last (candidate_urls sv)) model keep w)"

datatype mode = Dry | Synapse | Ollama

definition serve_job :: "'w services \<Rightarrow> rotation_job \<Rightarrow> 'w \<Rightarrow> (string + mode) \<times> 'w" where
  "serve_job sv job w =
     (if sv_engine sv w then (case sv_serve sv job w of (r, w) \<Rightarrow> (map_sum id (\<lambda>_. Synapse) r, w))
      else (case ollama_keep_alive sv (rj_model job) ''10m'' w of (r, w) \<Rightarrow> (map_sum id (\<lambda>_. Ollama) r, w)))"

definition unload_job :: "'w services \<Rightarrow> rotation_job \<Rightarrow> mode \<Rightarrow> 'w \<Rightarrow> (string + unit) \<times> 'w" where
  "unload_job sv job mode w =
     (if mode = Synapse then sv_stop sv (rj_model job) w else ollama_keep_alive sv (rj_model job) ''0'' w)"

text \<open>The events: model, phase, whether the status is ok, and the error or the mode.\<close>

record rot_event =
  ro_model :: string
  ro_phase :: string
  ro_ok :: bool
  ro_info :: string

abbreviation event :: "rotation_job \<Rightarrow> string \<Rightarrow> bool \<Rightarrow> string \<Rightarrow> rot_event" where
  "event job phase ok info \<equiv> \<lparr>ro_model = rj_model job, ro_phase = phase, ro_ok = ok, ro_info = info\<rparr>"

fun mode_name :: "mode \<Rightarrow> string" where
  "mode_name Dry = ''dry''"
| "mode_name Synapse = ''synapse''"
| "mode_name Ollama = ''ollama''"

definition work_phase :: "'w services \<Rightarrow> rotation_job \<Rightarrow> mode \<Rightarrow> 'w \<Rightarrow> (string + bool) \<times> rot_event list \<times> 'w" where
  "work_phase sv job mode w =
     (case sv_work sv job w of (res, w) \<Rightarrow>
        let unload = (\<lambda>ok ev w.
              if sv_dry sv then (Inr ok, [ev], w)
              else case unload_job sv job mode w of
                  (Inr _, w) \<Rightarrow> (Inr ok, [ev, event job ''unload'' True (mode_name mode)], w)
                | (Inl e, w) \<Rightarrow> (Inr ok, [ev, event job ''unload'' False e], w)) in
        case res of
          WorkRaises e \<Rightarrow> (Inl e, [], w)
        | Timeout \<Rightarrow> unload False (event job ''work'' False ''timeout'') w
        | Exit c \<Rightarrow> unload (c = 0) (event job ''work'' (c = 0) []) w)"

definition run_job :: "'w services \<Rightarrow> rotation_job \<Rightarrow> 'w \<Rightarrow> (string + bool) \<times> rot_event list \<times> 'w" where
  "run_job sv job w =
     (if sv_dry sv then work_phase sv job Dry w
      else case endpoint_alive sv w of (alive, w) \<Rightarrow>
        if \<not> alive \<and> \<not> sv_engine sv w then (Inr False, [event job ''gate'' False ''nothing reachable and no engine built''], w)
        else case serve_job sv job w of
            (Inl e, w) \<Rightarrow> (Inr False, [event job ''serve'' False e], w)
          | (Inr mode, w) \<Rightarrow>
              (case work_phase sv job mode w of (r, evs, w) \<Rightarrow> (r, event job ''serve'' True (mode_name mode) # evs, w)))"

section \<open>The rotation\<close>

record 'w rotation =
  ro_jobs :: "rotation_job list"
  ro_ran :: "(rotation_job \<times> bool) list"
  ro_skipped :: nat
  ro_consecutive :: nat
  ro_events :: "rot_event list"
  ro_saves :: "rotation_job list list"
  ro_raised :: "string option"
  ro_world :: 'w

text \<open>\<open>ro_ran\<close> lists the jobs run with their outcome: it carries the counts of done and failed.
  \<open>ro_jobs\<close> is the part of the queue already passed while the loop runs.\<close>

fun rotate :: "'w services \<Rightarrow> rotation_job list \<Rightarrow> 'w rotation \<Rightarrow> 'w rotation" where
  "rotate sv [] s = s"
| "rotate sv (job # rest) s =
     (if rj_status job = Done then rotate sv rest (s\<lparr>ro_jobs := ro_jobs s @ [job], ro_skipped := ro_skipped s + 1\<rparr>)
      else if ro_consecutive s \<ge> MAX_CONSECUTIVE_FAILURES
      then s\<lparr>ro_jobs := ro_jobs s @ job # rest, ro_events := ro_events s @ [event job ''abort'' False ''consecutive failures'']\<rparr>
      else case run_job sv job (ro_world s) of
          (Inl e, evs, w) \<Rightarrow>
            s\<lparr>ro_jobs := ro_jobs s @ job # rest, ro_events := ro_events s @ evs, ro_raised := Some e, ro_world := w\<rparr>
        | (Inr ok, evs, w) \<Rightarrow>
            let job' = job\<lparr>rj_status := if ok then Done else Failed\<rparr> in
            rotate sv rest (s\<lparr>ro_jobs := ro_jobs s @ [job'], ro_ran := ro_ran s @ [(job, ok)],
              ro_consecutive := (if ok then 0 else ro_consecutive s + 1), ro_events := ro_events s @ evs,
              ro_saves := ro_saves s @ [ro_jobs s @ job' # rest], ro_world := w\<rparr>))"

definition run_rotation :: "'w services \<Rightarrow> rotation_job list \<Rightarrow> 'w \<Rightarrow> 'w rotation" where
  "run_rotation sv jobs w = rotate sv jobs
     \<lparr>ro_jobs = [], ro_ran = [], ro_skipped = 0, ro_consecutive = 0, ro_events = [], ro_saves = [], ro_raised = None, ro_world = w\<rparr>"

definition ro_done :: "'w rotation \<Rightarrow> nat" where "ro_done s = length (filter snd (ro_ran s))"
definition ro_failed :: "'w rotation \<Rightarrow> nat" where "ro_failed s = length (filter (Not \<circ> snd) (ro_ran s))"
definition ro_aborted :: "'w rotation \<Rightarrow> bool" where "ro_aborted s \<longleftrightarrow> ro_consecutive s \<ge> MAX_CONSECUTIVE_FAILURES"

text \<open>The exit code of \<open>gb_rotator.py run\<close>.\<close>

definition exit_code :: "'w rotation \<Rightarrow> nat" where
  "exit_code s = (if ro_failed s > 0 \<or> ro_aborted s then 1 else 0)"

section \<open>What a rotation does\<close>

text \<open>A queue after the outcomes \<open>oks\<close> of its first unfinished jobs, and the failures in a row that
  end a list of outcomes.\<close>

abbreviation todo :: "rotation_job list \<Rightarrow> rotation_job list" where
  "todo jobs \<equiv> filter (\<lambda>j. rj_status j \<noteq> Done) jobs"

fun mark :: "rotation_job list \<Rightarrow> bool list \<Rightarrow> rotation_job list" where
  "mark [] oks = []"
| "mark (j # js) oks =
     (if rj_status j = Done then j # mark js oks
      else case oks of [] \<Rightarrow> j # js | ok # oks \<Rightarrow> j\<lparr>rj_status := if ok then Done else Failed\<rparr> # mark js oks)"

fun streak :: "nat \<Rightarrow> bool list \<Rightarrow> nat" where
  "streak c [] = c"
| "streak c (ok # oks) = streak (if ok then 0 else c + 1) oks"

lemma mark_Nil [simp]: "mark jobs [] = jobs"
  by (induction jobs) auto

definition rotates_to :: "rotation_job list \<Rightarrow> 'w rotation \<Rightarrow> bool list \<Rightarrow> 'w rotation \<Rightarrow> bool" where
  "rotates_to jobs s oks r \<longleftrightarrow>
     ro_ran r = ro_ran s @ zip (todo jobs) oks \<and> length oks \<le> length (todo jobs) \<and>
     ro_jobs r = ro_jobs s @ mark jobs oks \<and>
     ro_saves r = ro_saves s @ map (\<lambda>k. ro_jobs s @ mark jobs (take (Suc k) oks)) [0..<length oks] \<and>
     ro_consecutive r = streak (ro_consecutive s) oks \<and>
     (\<forall>k < length oks. streak (ro_consecutive s) (take k oks) < MAX_CONSECUTIVE_FAILURES) \<and>
     (length oks = length (todo jobs) \<or> ro_raised r \<noteq> None \<or> MAX_CONSECUTIVE_FAILURES \<le> ro_consecutive r)"

lemma rotates_to_skip:
  "rj_status job = Done \<Longrightarrow> rotates_to rest (s\<lparr>ro_jobs := ro_jobs s @ [job], ro_skipped := n\<rparr>) oks r \<Longrightarrow> rotates_to (job # rest) s oks r"
  by (auto simp: rotates_to_def)

lemma rotates_to_run:
  assumes "rj_status job \<noteq> Done" "ro_consecutive s < MAX_CONSECUTIVE_FAILURES"
    and "rotates_to rest (s\<lparr>ro_jobs := ro_jobs s @ [job\<lparr>rj_status := if ok then Done else Failed\<rparr>], ro_ran := ro_ran s @ [(job, ok)],
      ro_consecutive := (if ok then 0 else ro_consecutive s + 1), ro_events := evs,
      ro_saves := ro_saves s @ [ro_jobs s @ job\<lparr>rj_status := if ok then Done else Failed\<rparr> # rest], ro_world := w\<rparr>) oks r"
  shows "rotates_to (job # rest) s (ok # oks) r"
proof -
  have "streak (ro_consecutive s) (take k (ok # oks)) < MAX_CONSECUTIVE_FAILURES" if "k < length (ok # oks)" for k
    using that assms(2,3) by (cases k) (auto simp: rotates_to_def)
  then show ?thesis
    using assms(1,3) unfolding rotates_to_def by (auto simp: map_upt_Suc simp del: upt_Suc)
qed

lemma rotate_outcome: "\<exists>oks. rotates_to jobs s oks (rotate sv jobs s)"
proof (induction jobs arbitrary: s)
  case Nil
  show ?case by (intro exI [of _ "[]"]) (simp add: rotates_to_def)
next
  case (Cons job rest)
  show ?case
  proof (cases "rj_status job = Done")
    case True
    obtain oks where "rotates_to rest (s\<lparr>ro_jobs := ro_jobs s @ [job], ro_skipped := ro_skipped s + 1\<rparr>) oks
        (rotate sv rest (s\<lparr>ro_jobs := ro_jobs s @ [job], ro_skipped := ro_skipped s + 1\<rparr>))" using Cons.IH by blast
    with rotates_to_skip [OF True this] True show ?thesis by (intro exI [of _ oks]) simp
  next
    case False
    show ?thesis
    proof (cases "MAX_CONSECUTIVE_FAILURES \<le> ro_consecutive s")
      case True
      with False have "rotates_to (job # rest) s [] (rotate sv (job # rest) s)" by (simp add: rotates_to_def)
      then show ?thesis by blast
    next
      case go: False
      obtain res evs w where run: "run_job sv job (ro_world s) = (res, evs, w)" by (metis prod_cases3)
      show ?thesis
      proof (cases res)
        case (Inl e)
        with False go run have "rotates_to (job # rest) s [] (rotate sv (job # rest) s)" by (simp add: rotates_to_def)
        then show ?thesis by blast
      next
        case (Inr ok)
        with False go run have "rotate sv (job # rest) s = rotate sv rest (s\<lparr>ro_jobs := ro_jobs s @ [job\<lparr>rj_status := if ok then Done else Failed\<rparr>],
            ro_ran := ro_ran s @ [(job, ok)], ro_consecutive := (if ok then 0 else ro_consecutive s + 1), ro_events := ro_events s @ evs,
            ro_saves := ro_saves s @ [ro_jobs s @ job\<lparr>rj_status := if ok then Done else Failed\<rparr> # rest], ro_world := w\<rparr>)"
          by (simp add: Let_def)
        moreover obtain oks where "rotates_to rest (s\<lparr>ro_jobs := ro_jobs s @ [job\<lparr>rj_status := if ok then Done else Failed\<rparr>],
            ro_ran := ro_ran s @ [(job, ok)], ro_consecutive := (if ok then 0 else ro_consecutive s + 1), ro_events := ro_events s @ evs,
            ro_saves := ro_saves s @ [ro_jobs s @ job\<lparr>rj_status := if ok then Done else Failed\<rparr> # rest], ro_world := w\<rparr>) oks (rotate sv (job # rest) s)"
          unfolding calculation using Cons.IH by blast
        ultimately show ?thesis using rotates_to_run [OF False] go by (intro exI [of _ "ok # oks"]) (simp only: not_le)
      qed
    qed
  qed
qed

lemma todo_mark:
  "length oks \<le> length (todo jobs) \<Longrightarrow> todo (mark jobs oks)
     = map (\<lambda>(j, _). j\<lparr>rj_status := Failed\<rparr>) (filter (\<lambda>(_, ok). \<not> ok) (zip (todo jobs) oks)) @ drop (length oks) (todo jobs)"
  by (induction jobs oks rule: mark.induct) (auto split: list.splits)

text \<open>
  C39. A rotation runs the unfinished jobs in order, as far as it gets; it stops early only for an exception or
  three failures in a row, and never runs a job after those; the queue it leaves carries the outcomes and is
  otherwise the one it was given; it is saved after every job, and a rotation started from the queue saved after
  \<open>k\<close> jobs has before it exactly the failed ones and those not yet tried.
\<close>

theorem rotation_is_resumable:
  "\<exists>oks. let r = run_rotation sv jobs w in
     ro_ran r = zip (todo jobs) oks \<and> ro_jobs r = mark jobs oks \<and>
     ro_saves r = map (\<lambda>k. mark jobs (take (Suc k) oks)) [0..<length oks] \<and>
     (\<forall>k < length oks. streak 0 (take k oks) < MAX_CONSECUTIVE_FAILURES) \<and>
     (length oks = length (todo jobs) \<or> ro_raised r \<noteq> None \<or> ro_aborted r) \<and>
     (ro_aborted r \<longleftrightarrow> MAX_CONSECUTIVE_FAILURES \<le> streak 0 oks) \<and>
     (\<forall>k \<le> length oks. todo (mark jobs (take k oks))
        = map (\<lambda>(j, _). j\<lparr>rj_status := Failed\<rparr>) (filter (\<lambda>(_, ok). \<not> ok) (zip (todo jobs) (take k oks))) @ drop k (todo jobs))"
proof -
  let ?s = "\<lparr>ro_jobs = [], ro_ran = [], ro_skipped = 0, ro_consecutive = 0, ro_events = [], ro_saves = [], ro_raised = None, ro_world = w\<rparr>"
  obtain oks where o: "rotates_to jobs ?s oks (run_rotation sv jobs w)"
    using rotate_outcome [of jobs ?s sv] unfolding run_rotation_def by blast
  then have "length oks \<le> length (todo jobs)" by (simp add: rotates_to_def)
  then have "todo (mark jobs (take k oks))
        = map (\<lambda>(j, _). j\<lparr>rj_status := Failed\<rparr>) (filter (\<lambda>(_, ok). \<not> ok) (zip (todo jobs) (take k oks))) @ drop k (todo jobs)"
    if "k \<le> length oks" for k
    using todo_mark [of "take k oks" jobs] that by (simp add: min_absorb2)
  with o show ?thesis by (intro exI [of _ oks]) (auto simp: rotates_to_def ro_aborted_def Let_def)
qed

text \<open>A night on a dead endpoint: three failures, and the other jobs are left for the next run.\<close>

definition demo_job :: "string \<Rightarrow> rotation_job" where
  "demo_job m = \<lparr>rj_model = m, rj_work = ''batch'', rj_timeout = 7200, rj_ctx = 16384, rj_status = Pending\<rparr>"

definition demo_services :: "bool \<Rightarrow> nat services" where
  "demo_services up = \<lparr>sv_dry = False, sv_env_url = None, sv_port = ''11369'', sv_probe = \<lambda>_ n. (up, n + 1), sv_engine = \<lambda>_. False,
     sv_serve = \<lambda>_ n. (Inr (), n), sv_keep_alive = \<lambda>_ _ _ n. (Inr (), n), sv_stop = \<lambda>_ n. (Inr (), n), sv_work = \<lambda>j n. (Exit 0, n)\<rparr>"

lemma demo_night:
  "let r = run_rotation (demo_services False) (map demo_job [''a'', ''b'', ''c'', ''d'']) 0 in
     ro_aborted r \<and> ro_failed r = 3 \<and> exit_code r = 1 \<and> map rj_status (ro_jobs r) = [Failed, Failed, Failed, Pending] \<and>
     ro_done (run_rotation (demo_services True) (ro_jobs r) 0) = 4"
  by code_simp

lemma rotation_is_resumable_witness:
  "\<exists>oks. let r = run_rotation (demo_services False) (map demo_job [''a'', ''b'', ''c'', ''d'']) 0 in
     ro_jobs r = mark (map demo_job [''a'', ''b'', ''c'', ''d'']) oks \<and> MAX_CONSECUTIVE_FAILURES \<le> streak 0 oks"
proof -
  have "ro_aborted (run_rotation (demo_services False) (map demo_job [''a'', ''b'', ''c'', ''d'']) 0)"
    using demo_night by (simp add: Let_def)
  then show ?thesis
    using rotation_is_resumable [of "demo_services False" "map demo_job [''a'', ''b'', ''c'', ''d'']" 0]
    unfolding Let_def by (elim exE conjE) (intro exI conjI; simp)
qed

end
