(* ===== verification/Bounded_Lines.thy ===== *)
theory Bounded_Lines
  imports GB_Prelude "HOL-Library.Word"
begin

text \<open>
  The bounded line decoder of \<^verbatim>\<open>greenboost_cli/core/bounded_lines.py\<close>: bytes in chunks of any size
  become lines, the pending part of a line never grows past a bound, and what is dropped is counted. A
  character is its code point; the sentence that announces a truncation is the constructor \<open>Clipped\<close> with the
  number it interpolates.
\<close>

unbundle bit_operations_syntax

section \<open>The incremental UTF-8 decoder\<close>

text \<open>\<open>codecs.getincrementaldecoder("utf-8")(errors="replace")\<close>: every maximal ill-formed part becomes
  one replacement character. The state is the code point so far, the bytes still needed and the range the next
  one must be in.\<close>

type_synonym byte = "8 word"
type_synonym chars = "nat list"

record utf8 =
  u_code :: nat
  u_need :: nat
  u_lo :: byte
  u_hi :: byte

definition utf8_start :: utf8 where
  "utf8_start = \<lparr>u_code = 0, u_need = 0, u_lo = 0x80, u_hi = 0xBF\<rparr>"

definition REPLACEMENT :: nat where "REPLACEMENT = 0xFFFD"

definition utf8_lead :: "byte \<Rightarrow> utf8 \<times> chars" where
  "utf8_lead b =
     (if b < 0x80 then (utf8_start, [unat b])
      else if 0xC2 \<le> b \<and> b \<le> 0xDF then (utf8_start\<lparr>u_code := unat (b AND 0x1F), u_need := 1\<rparr>, [])
      else if 0xE0 \<le> b \<and> b \<le> 0xEF then
        (utf8_start\<lparr>u_code := unat (b AND 0x0F), u_need := 2,
           u_lo := (if b = 0xE0 then 0xA0 else 0x80), u_hi := (if b = 0xED then 0x9F else 0xBF)\<rparr>, [])
      else if 0xF0 \<le> b \<and> b \<le> 0xF4 then
        (utf8_start\<lparr>u_code := unat (b AND 0x07), u_need := 3,
           u_lo := (if b = 0xF0 then 0x90 else 0x80), u_hi := (if b = 0xF4 then 0x8F else 0xBF)\<rparr>, [])
      else (utf8_start, [REPLACEMENT]))"

definition utf8_byte :: "utf8 \<Rightarrow> byte \<Rightarrow> utf8 \<times> chars" where
  "utf8_byte u b =
     (if u_need u = 0 then utf8_lead b
      else if b < u_lo u \<or> u_hi u < b then (case utf8_lead b of (u', t) \<Rightarrow> (u', REPLACEMENT # t))
      else let code = u_code u * 64 + unat (b AND 0x3F) in
        if u_need u = 1 then (utf8_start, [code])
        else (utf8_start\<lparr>u_code := code, u_need := u_need u - 1\<rparr>, []))"

fun decode_chunk :: "utf8 \<Rightarrow> byte list \<Rightarrow> utf8 \<times> chars" where
  "decode_chunk u [] = (u, [])"
| "decode_chunk u (b # bs) = (case utf8_byte u b of (u1, t1) \<Rightarrow> case decode_chunk u1 bs of (u2, t2) \<Rightarrow> (u2, t1 @ t2))"

definition decode_final :: "utf8 \<Rightarrow> utf8 \<times> chars" where
  "decode_final u = (utf8_start, if u_need u = 0 then [] else [REPLACEMENT])"

section \<open>The line decoder\<close>

abbreviation (input) CR :: nat where "CR \<equiv> 13"
abbreviation (input) LF :: nat where "LF \<equiv> 10"

datatype out_line = Line chars | Clipped nat chars

record decoder =
  bd_utf8 :: utf8
  bd_max :: nat
  bd_out :: "out_line list"
  bd_pending :: chars
  bd_omitted :: nat
  bd_skip :: bool
  bd_ended :: bool

datatype bd_error = BadMax | WriteAfterEnd

definition new_decoder :: "int \<Rightarrow> bd_error + decoder" where
  "new_decoder m =
     (if m < 1 then Inl BadMax
      else Inr \<lparr>bd_utf8 = utf8_start, bd_max = nat m, bd_out = [], bd_pending = [], bd_omitted = 0, bd_skip = False, bd_ended = False\<rparr>)"

text \<open>\<open>text[-n:]\<close> for \<open>n \<ge> 1\<close> is the last \<open>n\<close> characters.\<close>

definition last_n :: "nat \<Rightarrow> chars \<Rightarrow> chars" where
  "last_n n t = drop (length t - n) t"

definition append_pending :: "chars \<Rightarrow> decoder \<Rightarrow> decoder" where
  "append_pending t d =
     (if t = [] then d
      else if length t \<ge> bd_max d then
        d\<lparr>bd_omitted := bd_omitted d + (length (bd_pending d) + length t - bd_max d), bd_pending := last_n (bd_max d) t\<rparr>
      else
        let p = bd_pending d @ t; overflow = length p - bd_max d in
        if length p > bd_max d then d\<lparr>bd_pending := drop overflow p, bd_omitted := bd_omitted d + overflow\<rparr>
        else d\<lparr>bd_pending := p\<rparr>)"

definition flush_line :: "decoder \<Rightarrow> decoder" where
  "flush_line d =
     d\<lparr>bd_out := bd_out d @ [if bd_omitted d > 0 then Clipped (bd_omitted d) (bd_pending d) else Line (bd_pending d)],
       bd_pending := [], bd_omitted := 0\<rparr>"

abbreviation terminator :: "nat \<Rightarrow> bool" where
  "terminator c \<equiv> c = CR \<or> c = LF"

text \<open>The loop over a text, from the position of the last break on.\<close>

function scan :: "chars \<Rightarrow> decoder \<Rightarrow> decoder" where
  "scan t d =
     (let seg = takeWhile (\<lambda>c. \<not> terminator c) t in
      case dropWhile (\<lambda>c. \<not> terminator c) t of
        [] \<Rightarrow> append_pending seg d
      | c # rest \<Rightarrow>
          let d = append_pending seg d in
          if c = CR \<and> rest = [] then (flush_line d)\<lparr>bd_skip := True\<rparr>
          else scan (if c = CR \<and> rest \<noteq> [] \<and> hd rest = LF then tl rest else rest) (flush_line d))"
  by pat_completeness auto

lemma dropWhile_Cons_length: "dropWhile P t = c # rest \<Longrightarrow> length rest < length t"
  by (metis Suc_le_eq length_Cons length_dropWhile_le)

termination scan
  by (relation "measure (length \<circ> fst)") (auto dest!: dropWhile_Cons_length)

declare scan.simps [simp del]

definition consume :: "chars \<Rightarrow> decoder \<Rightarrow> decoder" where
  "consume t d =
     (if t = [] then d
      else if bd_skip d then scan (if hd t = LF then tl t else t) (d\<lparr>bd_skip := False\<rparr>)
      else scan t d)"

definition write_bytes :: "byte list \<Rightarrow> decoder \<Rightarrow> bd_error + decoder" where
  "write_bytes chunk d =
     (if bd_ended d then Inl WriteAfterEnd
      else case decode_chunk (bd_utf8 d) chunk of (u, t) \<Rightarrow> Inr (consume t (d\<lparr>bd_utf8 := u\<rparr>)))"

definition end_decoder :: "decoder \<Rightarrow> decoder" where
  "end_decoder d =
     (if bd_ended d then d
      else case decode_final (bd_utf8 d) of (u, t) \<Rightarrow>
        let d = (consume t (d\<lparr>bd_utf8 := u\<rparr>))\<lparr>bd_skip := False\<rparr>;
            d = (if bd_pending d \<noteq> [] \<or> bd_omitted d > 0 then flush_line d else d) in
        d\<lparr>bd_ended := True\<rparr>)"

fun write_all :: "byte list list \<Rightarrow> decoder \<Rightarrow> bd_error + decoder" where
  "write_all [] d = Inr d"
| "write_all (c # cs) d = bind_result (write_bytes c d) (write_all cs)"

section \<open>One character at a time\<close>

definition put_char :: "nat \<Rightarrow> decoder \<Rightarrow> decoder" where
  "put_char c d =
     (if c = CR then (flush_line d)\<lparr>bd_skip := True\<rparr>
      else if c = LF then (if bd_skip d then d\<lparr>bd_skip := False\<rparr> else flush_line d)
      else append_pending [c] (d\<lparr>bd_skip := False\<rparr>))"

text \<open>\<open>d\<close> holds the unfinished line \<open>acc\<close>.\<close>

definition holds :: "nat \<Rightarrow> chars \<Rightarrow> decoder \<Rightarrow> bool" where
  "holds m acc d \<longleftrightarrow> 1 \<le> m \<and> bd_max d = m \<and> bd_pending d = last_n m acc \<and> bd_omitted d = length acc - m"

lemma length_last_n [simp]: "length (last_n n t) = min n (length t)"
  by (auto simp: last_n_def)

lemma last_n_all: "length t \<le> n \<Longrightarrow> last_n n t = t"
  by (simp add: last_n_def)

lemma last_n_append: "last_n n (last_n n a @ b) = last_n n (a @ b)"
  by (cases "n \<le> length a") (auto simp: last_n_def add.commute)

lemma skip_same: "\<not> bd_skip d \<Longrightarrow> d\<lparr>bd_skip := False\<rparr> = d"
  by (cases d) simp

lemma append_holds:
  assumes "holds m acc d"
  shows "append_pending t d = d\<lparr>bd_pending := last_n m (acc @ t), bd_omitted := length (acc @ t) - m\<rparr>"
    "holds m (acc @ t) (append_pending t d)"
proof -
  have d: "1 \<le> m" "bd_max d = m" "bd_pending d = last_n m acc" "bd_omitted d = length acc - m"
    using assms by (auto simp: holds_def)
  show *: "append_pending t d = d\<lparr>bd_pending := last_n m (acc @ t), bd_omitted := length (acc @ t) - m\<rparr>"
  proof (cases "t = []")
    case True
    then show ?thesis using d by (simp add: append_pending_def)
  next
    case ne: False
    show ?thesis
    proof (cases "m \<le> length t")
      case True
      then show ?thesis using ne d by (auto simp: append_pending_def last_n_def)
    next
      case False
      have "last_n m (bd_pending d @ t) = last_n m (acc @ t)" by (simp add: d last_n_append)
      with False ne d show ?thesis
        by (cases "m < length (bd_pending d @ t)") (auto simp: append_pending_def Let_def last_n_def)
    qed
  qed
  show "holds m (acc @ t) (append_pending t d)" using d by (simp add: * holds_def)
qed

lemma holds_update [simp]:
  "holds m acc (d\<lparr>bd_skip := b\<rparr>) = holds m acc d" "holds m acc (d\<lparr>bd_utf8 := u\<rparr>) = holds m acc d"
  by (simp_all add: holds_def)

lemma flush_holds: "holds m acc d \<Longrightarrow> holds m [] (flush_line d)"
  by (simp add: holds_def flush_line_def last_n_def)

lemma skip_flags [simp]: "bd_skip (append_pending t d) = bd_skip d" "bd_skip (flush_line d) = bd_skip d"
  by (simp_all add: append_pending_def flush_line_def Let_def)

lemma append_append: "holds m acc d \<Longrightarrow> append_pending b (append_pending a d) = append_pending (a @ b) d"
  using append_holds [of m acc d] append_holds(1) [of m "acc @ a" "append_pending a d" b] by simp

lemma put_plain:
  "holds m acc d \<Longrightarrow> \<not> bd_skip d \<Longrightarrow> \<forall>c \<in> set seg. \<not> terminator c \<Longrightarrow> fold put_char seg d = append_pending seg d"
proof (induction seg arbitrary: acc d)
  case Nil
  then show ?case by (simp add: append_pending_def)
next
  case (Cons c seg)
  have "put_char c d = append_pending [c] d" using Cons.prems by (simp add: put_char_def skip_same)
  with Cons.IH [OF append_holds(2) [OF Cons.prems(1), of "[c]"]] Cons.prems show ?case
    by (simp add: append_append)
qed

lemma put_skip: "\<not> bd_skip d \<Longrightarrow> t \<noteq> [] \<Longrightarrow>
    fold put_char t (d\<lparr>bd_skip := True\<rparr>) = fold put_char (if hd t = LF then tl t else t) d"
  by (cases t) (auto simp: put_char_def flush_line_def skip_same)

lemma scan_fold: "holds m acc d \<Longrightarrow> \<not> bd_skip d \<Longrightarrow> scan t d = fold put_char t d"
proof (induction t d arbitrary: acc rule: scan.induct)
  case (1 t d)
  let ?seg = "takeWhile (\<lambda>c. \<not> terminator c) t"
  have seg: "fold put_char ?seg d = append_pending ?seg d"
    by (rule put_plain [OF 1(2,3)]) (use set_takeWhileD in fastforce)
  let ?d = "append_pending ?seg d"
  have h: "holds m [] (flush_line ?d)" using flush_holds append_holds(2) 1(2) by blast
  show ?case
  proof (cases "dropWhile (\<lambda>c. \<not> terminator c) t")
    case Nil
    then have "?seg = t" by (metis append_Nil2 takeWhile_dropWhile_id)
    with seg Nil have "scan t d = append_pending t d" "fold put_char t d = append_pending t d"
      by (simp_all only: scan.simps [of t] Let_def list.case)
    then show ?thesis by simp
  next
    case (Cons c rest)
    have t: "t = ?seg @ c # rest" using Cons by (metis takeWhile_dropWhile_id)
    have "\<not> \<not> terminator (hd (dropWhile (\<lambda>c. \<not> terminator c) t))" by (rule hd_dropWhile) (simp only: Cons list.distinct, simp)
    then have c: "terminator c" unfolding Cons by simp
    have fold: "fold put_char t d = fold put_char rest (put_char c ?d)" by (subst t) (simp only: fold_append fold_simps comp_apply seg)
    show ?thesis
    proof (cases "c = CR \<and> rest = []")
      case True
      then have "put_char c ?d = (flush_line ?d)\<lparr>bd_skip := True\<rparr>" by (simp add: put_char_def)
      with True Cons fold show ?thesis by (simp add: scan.simps [of t])
    next
      case False
      let ?rest = "if c = CR \<and> rest \<noteq> [] \<and> hd rest = LF then tl rest else rest"
      have "scan t d = scan ?rest (flush_line ?d)" using Cons False by (auto simp: scan.simps [of t] Let_def)
      also have "\<dots> = fold put_char ?rest (flush_line ?d)"
        using 1(1) [OF refl Cons refl _ h] False 1(3) by simp
      also have "\<dots> = fold put_char rest (put_char c ?d)"
      proof (cases "c = CR")
        case True
        with False have "rest \<noteq> []" by simp
        with put_skip [of "flush_line ?d" rest] True 1(3) show ?thesis by (simp add: put_char_def)
      next
        case False
        with c 1(3) show ?thesis by (simp add: put_char_def)
      qed
      finally show ?thesis by (simp only: fold)
    qed
  qed
qed

lemma consume_fold: "holds m acc d \<Longrightarrow> consume t d = fold put_char t d"
proof (cases "t = []")
  case False
  assume h: "holds m acc d"
  show ?thesis
  proof (cases "bd_skip d")
    case True
    then have "d = (d\<lparr>bd_skip := False\<rparr>)\<lparr>bd_skip := True\<rparr>" by simp
    then have "fold put_char t d = fold put_char (if hd t = LF then tl t else t) (d\<lparr>bd_skip := False\<rparr>)"
      using put_skip [of "d\<lparr>bd_skip := False\<rparr>" t] False by simp
    with True False scan_fold [of m acc "d\<lparr>bd_skip := False\<rparr>"] h show ?thesis by (simp add: consume_def)
  qed (use False h scan_fold in \<open>auto simp: consume_def\<close>)
qed (simp add: consume_def)

lemma put_holds: "holds m acc d \<Longrightarrow> \<exists>acc'. holds m acc' (put_char c d)"
  using append_holds(2) [of m acc "d\<lparr>bd_skip := False\<rparr>" "[c]"] flush_holds [of m acc d]
  by (auto simp: put_char_def)

lemma consume_holds: "holds m acc d \<Longrightarrow> \<exists>acc'. holds m acc' (consume t d)"
proof -
  assume h: "holds m acc d"
  have "holds m acc d \<Longrightarrow> \<exists>acc'. holds m acc' (fold put_char t d)" for acc d
    by (induction t arbitrary: acc d) (auto, metis put_holds)
  with h show ?thesis by (simp add: consume_fold [OF h])
qed

lemma put_utf8: "(put_char c d)\<lparr>bd_utf8 := u\<rparr> = put_char c (d\<lparr>bd_utf8 := u\<rparr>)" "bd_utf8 (put_char c d) = bd_utf8 d"
  "bd_ended (put_char c d) = bd_ended d"
  by (auto simp: put_char_def flush_line_def append_pending_def Let_def)

lemma fold_utf8: "(fold put_char t d)\<lparr>bd_utf8 := u\<rparr> = fold put_char t (d\<lparr>bd_utf8 := u\<rparr>)" "bd_utf8 (fold put_char t d) = bd_utf8 d"
  "bd_ended (fold put_char t d) = bd_ended d"
  by (induction t arbitrary: d) (simp_all add: put_utf8)

lemma decode_chunk_append:
  "decode_chunk u (a @ b) = (case decode_chunk u a of (u1, t1) \<Rightarrow> case decode_chunk u1 b of (u2, t2) \<Rightarrow> (u2, t1 @ t2))"
  by (induction a arbitrary: u) (auto split: prod.splits)

text \<open>Any chunks put one after the other are one chunk.\<close>

lemma write_all_concat:
  "holds m acc d \<Longrightarrow> \<not> bd_ended d \<Longrightarrow> decode_chunk (bd_utf8 d) (concat cs) = (u, t) \<Longrightarrow>
     write_all cs d = Inr ((fold put_char t d)\<lparr>bd_utf8 := u\<rparr>)"
proof (induction cs arbitrary: acc d u t)
  case (Cons c cs)
  obtain u1 t1 where d1: "decode_chunk (bd_utf8 d) c = (u1, t1)" by (cases "decode_chunk (bd_utf8 d) c")
  obtain u2 t2 where d2: "decode_chunk u1 (concat cs) = (u2, t2)" by (cases "decode_chunk u1 (concat cs)")
  have ut: "u = u2" "t = t1 @ t2" using Cons.prems(3) d1 d2 by (simp_all add: decode_chunk_append)
  let ?d = "d\<lparr>bd_utf8 := u1\<rparr>"
  have h: "holds m acc ?d" using Cons.prems(1) by simp
  have w: "write_bytes c d = Inr (fold put_char t1 ?d)"
    using Cons.prems(2) d1 consume_fold [OF h] by (simp add: write_bytes_def)
  obtain acc' where "holds m acc' (fold put_char t1 ?d)" using consume_holds [OF h, of t1] consume_fold [OF h] by auto
  from Cons.IH [OF this] Cons.prems(2) d2 have "write_all cs (fold put_char t1 ?d) = Inr ((fold put_char t2 (fold put_char t1 ?d))\<lparr>bd_utf8 := u2\<rparr>)"
    by (simp add: fold_utf8)
  then show ?case by (simp add: w ut fold_utf8)
qed (simp add: fold_utf8)

section \<open>The lines of a text\<close>

text \<open>Universal newlines, and what a line longer than the bound becomes.\<close>

fun lines_from :: "chars \<Rightarrow> chars \<Rightarrow> chars list" where
  "lines_from acc [] = (if acc = [] then [] else [acc])"
| "lines_from acc (c # t) =
     (if c = CR \<and> t \<noteq> [] \<and> hd t = LF then acc # lines_from [] (tl t)
      else if terminator c then acc # lines_from [] t
      else lines_from (acc @ [c]) t)"

definition clip :: "nat \<Rightarrow> chars \<Rightarrow> out_line" where
  "clip m l = (if m < length l then Clipped (length l - m) (last_n m l) else Line l)"

definition decode_all :: "byte list \<Rightarrow> chars" where
  "decode_all bs = (case decode_chunk utf8_start bs of (u, t) \<Rightarrow> t @ snd (decode_final u))"

definition finish_lines :: "decoder \<Rightarrow> out_line list" where
  "finish_lines d = bd_out (if bd_pending d \<noteq> [] \<or> bd_omitted d > 0 then flush_line d else d)"

lemma flush_out: "holds m acc d \<Longrightarrow> bd_out (flush_line d) = bd_out d @ [clip m acc]"
  by (auto simp: flush_line_def holds_def clip_def last_n_all)

lemma append_out: "bd_out (append_pending t d) = bd_out d"
  by (simp add: append_pending_def Let_def)

lemma finish_holds: "holds m acc d \<Longrightarrow> finish_lines d = bd_out d @ map (clip m) (if acc = [] then [] else [acc])"
proof (cases "acc = []")
  case False
  moreover assume h: "holds m acc d"
  ultimately have "0 < length (bd_pending d)" by (simp add: holds_def)
  with False flush_out [OF h] show ?thesis by (simp add: finish_lines_def)
qed (simp add: finish_lines_def holds_def last_n_def)

lemma put_all_lines:
  "holds m acc d \<Longrightarrow> (bd_skip d \<Longrightarrow> t = [] \<or> hd t \<noteq> LF) \<Longrightarrow>
     finish_lines (fold put_char t d) = bd_out d @ map (clip m) (lines_from acc t)"
proof (induction acc t arbitrary: d rule: lines_from.induct)
  case (1 acc)
  then show ?case by (simp add: finish_holds)
next
  case (2 acc c t)
  note fl = flush_holds [OF 2(4)] flush_out [OF 2(4)]
  show ?case
  proof (cases "c = CR \<and> t \<noteq> [] \<and> hd t = LF")
    case True
    then obtain t' where t: "t = LF # t'" by (cases t) auto
    have "fold put_char (c # t) d = fold put_char t' ((flush_line d)\<lparr>bd_skip := False\<rparr>)"
      using True by (simp add: t put_char_def)
    then show ?thesis using 2(1) [OF True, of "(flush_line d)\<lparr>bd_skip := False\<rparr>"] True fl by (simp add: t)
  next
    case no: False
    show ?thesis
    proof (cases "terminator c")
      case True
      have "put_char c d = (flush_line d)\<lparr>bd_skip := c = CR\<rparr>" using True 2(5) by (auto simp: put_char_def flush_line_def)
      then show ?thesis using 2(2) [OF no True, of "(flush_line d)\<lparr>bd_skip := c = CR\<rparr>"] no True fl by auto
    next
      case False
      have "put_char c d = append_pending [c] (d\<lparr>bd_skip := False\<rparr>)" using False by (simp add: put_char_def)
      then show ?thesis
        using 2(3) [OF no False, of "append_pending [c] (d\<lparr>bd_skip := False\<rparr>)"] no False
          append_holds(2) [of m acc "d\<lparr>bd_skip := False\<rparr>" "[c]"] 2(4) by (simp add: append_out)
    qed
  qed
qed

lemma end_lines:
  assumes "holds m acc d" "\<not> bd_ended d" "decode_final (bd_utf8 d) = (u, t)"
  shows "bd_out (end_decoder d) = finish_lines (fold put_char t d)"
proof -
  have "consume t (d\<lparr>bd_utf8 := u\<rparr>) = (fold put_char t d)\<lparr>bd_utf8 := u\<rparr>"
    using consume_fold [of m acc "d\<lparr>bd_utf8 := u\<rparr>" t] assms(1) by (simp add: fold_utf8)
  then show ?thesis using assms(2,3) by (simp add: end_decoder_def finish_lines_def flush_line_def Let_def)
qed

text \<open>
  C33. However the bytes are cut into chunks, the lines that come out are those of the whole text, decoded and
  split at every LF, CR and CRLF, each shown whole up to the bound and by its tail and the number of
  characters dropped beyond it; and the pending part never exceeds the bound.
\<close>

theorem lines_independent_of_chunks:
  assumes "1 \<le> m"
  shows "\<exists>d0 d. new_decoder m = Inr d0 \<and> write_all chunks d0 = Inr d \<and> length (bd_pending d) \<le> nat m \<and>
    bd_out (end_decoder d) = map (clip (nat m)) (lines_from [] (decode_all (concat chunks)))"
proof -
  define d0 where "d0 = \<lparr>bd_utf8 = utf8_start, bd_max = nat m, bd_out = [], bd_pending = [], bd_omitted = 0, bd_skip = False, bd_ended = False\<rparr>"
  obtain u t where ut: "decode_chunk utf8_start (concat chunks) = (u, t)" by (cases "decode_chunk utf8_start (concat chunks)")
  have h0: "holds (nat m) [] d0" "\<not> bd_ended d0" "bd_utf8 d0 = utf8_start" using assms by (simp_all add: d0_def holds_def last_n_def)
  let ?d = "(fold put_char t d0)\<lparr>bd_utf8 := u\<rparr>"
  have w: "write_all chunks d0 = Inr ?d" using write_all_concat [OF h0(1,2), of chunks u t] ut h0(3) by simp
  obtain acc where h: "holds (nat m) acc ?d" using consume_holds [OF h0(1), of t] consume_fold [OF h0(1)] by auto
  obtain u' t' where f: "decode_final u = (u', t')" by (cases "decode_final u")
  have "bd_out (end_decoder ?d) = finish_lines (fold put_char t' ?d)"
    by (rule end_lines [OF h]) (use f h0(2) in \<open>simp_all add: fold_utf8\<close>)
  also have "\<dots> = finish_lines (fold put_char (t @ t') d0)"
    by (simp add: finish_lines_def flush_line_def flip: fold_utf8(1))
  also have "\<dots> = map (clip (nat m)) (lines_from [] (decode_all (concat chunks)))"
    using put_all_lines [OF h0(1), of "t @ t'"] ut f by (simp add: d0_def decode_all_def)
  finally have "bd_out (end_decoder ?d) = map (clip (nat m)) (lines_from [] (decode_all (concat chunks)))" .
  moreover have "length (bd_pending ?d) \<le> nat m" using h unfolding holds_def by (metis length_last_n min.cobounded1)
  moreover have "new_decoder m = Inr d0" using assms by (simp add: new_decoder_def d0_def)
  ultimately show ?thesis using w by blast
qed

definition demo_chunks :: "byte list list" where
  "demo_chunks = [[97, 98, 0xC3], [0xA9, 13], [10, 99, 0xE2, 0x82], [13, 100]]"

lemma lines_independent_of_chunks_witness:
  "\<exists>d0 d. new_decoder 2 = Inr d0 \<and> write_all demo_chunks d0 = Inr d \<and>
     bd_out (end_decoder d) = [Clipped 1 [98, 233], Line [99, 0xFFFD], Line [100]]"
proof -
  have "map (clip (nat 2)) (lines_from [] (decode_all (concat demo_chunks))) = [Clipped 1 [98, 233], Line [99, 0xFFFD], Line [100]]"
    by (simp add: demo_chunks_def decode_all_def utf8_byte_def utf8_lead_def utf8_start_def decode_final_def
        REPLACEMENT_def clip_def last_n_def Let_def)
  then show ?thesis using lines_independent_of_chunks [of 2 demo_chunks] by auto
qed

end
