(* ===== verification/Shell_Text.thy ===== *)
theory Shell_Text
  imports GB_Prelude
begin

text \<open>
  The text functions of the Python standard library that the CLI's gates use: \<open>strip\<close>, \<open>split\<close>,
  \<open>shlex.split\<close> and \<open>fnmatch.fnmatchcase\<close>, and what the proofs about the gates need of them.
\<close>

section \<open>White space and pieces\<close>

definition py_space :: "char \<Rightarrow> bool" where
  "py_space c \<longleftrightarrow> c \<in> {CHR '' '', CHR 0x09, CHR 0x0A, CHR 0x0B, CHR 0x0C, CHR 0x0D, CHR 0x1C, CHR 0x1D, CHR 0x1E, CHR 0x1F}"

definition strip :: "string \<Rightarrow> string" where
  "strip s = rev (dropWhile py_space (rev (dropWhile py_space s)))"

text \<open>\<open>s.split(sep)\<close> for a separator that is not empty.\<close>

function split_on :: "string \<Rightarrow> string \<Rightarrow> string \<Rightarrow> string list" where
  "split_on sep acc [] = [acc]"
| "split_on sep acc (c # s) =
     (if sep \<noteq> [] \<and> starts_with sep (c # s) then acc # split_on sep [] (drop (length sep) (c # s))
      else split_on sep (acc @ [c]) s)"
  by pat_completeness auto

termination
  by (relation "measure (\<lambda>(sep, acc, s). length s)") auto

abbreviation py_split :: "string \<Rightarrow> string \<Rightarrow> string list" where
  "py_split sep s \<equiv> split_on sep [] s"

lemma strip_decomp: "\<exists>a b. s = a @ strip s @ b \<and> (\<forall>c \<in> set a. py_space c) \<and> (\<forall>c \<in> set b. py_space c)"
proof -
  let ?t = "dropWhile py_space s"
  have "s = takeWhile py_space s @ ?t" by simp
  moreover have "?t = strip s @ rev (takeWhile py_space (rev ?t))"
    unfolding strip_def by (metis rev_append rev_rev_ident takeWhile_dropWhile_id)
  ultimately have "s = takeWhile py_space s @ strip s @ rev (takeWhile py_space (rev ?t))" by simp
  then show ?thesis by (intro exI conjI, assumption) (auto dest: set_takeWhileD)
qed

text \<open>A text that starts with something that is not white space keeps its beginning.\<close>

lemma strip_starts: "s \<noteq> [] \<Longrightarrow> \<not> py_space (hd s) \<Longrightarrow> \<exists>b. s = strip s @ b"
  using strip_decomp [of s] by (metis append_Nil hd_append hd_in_set)

lemma strip_hd: "strip s \<noteq> [] \<Longrightarrow> \<not> py_space (hd (strip s))"
proof -
  assume ne: "strip s \<noteq> []"
  let ?t = "dropWhile py_space s"
  have t: "?t = strip s @ rev (takeWhile py_space (rev ?t))"
    unfolding strip_def by (metis rev_append rev_rev_ident takeWhile_dropWhile_id)
  then have "?t \<noteq> []" "hd ?t = hd (strip s)" using ne by (metis append_is_Nil_conv, metis hd_append2)
  then show ?thesis using hd_dropWhile [of py_space s] by simp
qed

section \<open>\<open>shlex.split\<close>\<close>

text \<open>The posix reader without comments: between words, in a word, in quotes, after a backslash (with the
  state to come back to). \<open>None\<close> is its \<open>ValueError\<close>.\<close>

datatype lex = Between | InWord | Quote char | Escape "char option"

fun shlex :: "lex \<Rightarrow> string \<Rightarrow> string \<Rightarrow> string list option" where
  "shlex Between w [] = Some []"
| "shlex Between w (c # s) =
     (if c \<in> {CHR '' '', CHR 0x09, CHR 0x0D, CHR 0x0A} then shlex Between [] s
      else if c = CHR 0x5C then shlex (Escape None) [] s
      else if c \<in> {CHR 0x27, CHR 0x22} then shlex (Quote c) [] s
      else shlex InWord [c] s)"
| "shlex InWord w [] = Some [w]"
| "shlex InWord w (c # s) =
     (if c \<in> {CHR '' '', CHR 0x09, CHR 0x0D, CHR 0x0A} then map_option (Cons w) (shlex Between [] s)
      else if c = CHR 0x5C then shlex (Escape None) w s
      else if c \<in> {CHR 0x27, CHR 0x22} then shlex (Quote c) w s
      else shlex InWord (w @ [c]) s)"
| "shlex (Quote q) w [] = None"
| "shlex (Quote q) w (c # s) =
     (if c = q then shlex InWord w s
      else if c = CHR 0x5C \<and> q = CHR 0x22 then shlex (Escape (Some q)) w s
      else shlex (Quote q) (w @ [c]) s)"
| "shlex (Escape q) w [] = None"
| "shlex (Escape None) w (c # s) = shlex InWord (w @ [c]) s"
| "shlex (Escape (Some q)) w (c # s) =
     shlex (Quote q) (w @ (if c \<noteq> CHR 0x5C \<and> c \<noteq> q then [CHR 0x5C, c] else [c])) s"

definition shlex_split :: "string \<Rightarrow> string list option" where
  "shlex_split s = shlex Between [] s"

section \<open>\<open>fnmatchcase\<close>\<close>

datatype glob = GStar | GAny | GClass bool "(char \<times> char) list" | GChar char

abbreviation char_le :: "char \<Rightarrow> char \<Rightarrow> bool" where
  "char_le a b \<equiv> (of_char a :: nat) \<le> of_char b"

text \<open>The members of a bracket: single characters and ascending ranges.\<close>

fun class_members :: "string \<Rightarrow> (char \<times> char) list" where
  "class_members (a # m # b # s) =
     (if m = CHR ''-'' then (if char_le a b then (a, b) # class_members s else class_members s)
      else (a, a) # class_members (m # b # s))"
| "class_members (a # s) = (a, a) # class_members s"
| "class_members [] = []"

text \<open>The text of a bracket after \<open>[\<close>, up to the \<open>]\<close> that closes it: one right at the start, or after
  \<open>!\<close>, is a member.\<close>

fun to_bracket :: "string \<Rightarrow> (string \<times> string) option" where
  "to_bracket [] = None"
| "to_bracket (c # s) = (if c = CHR '']'' then Some ([], s) else map_option (\<lambda>(b, r). (c # b, r)) (to_bracket s))"

definition bracket :: "string \<Rightarrow> (bool \<times> string \<times> string) option" where
  "bracket s =
     (let neg = (s \<noteq> [] \<and> hd s = CHR ''!''); s = (if neg then tl s else s) in
      if s \<noteq> [] \<and> hd s = CHR '']'' then map_option (\<lambda>(b, r). (neg, CHR '']'' # b, r)) (to_bracket (tl s))
      else map_option (\<lambda>(b, r). (neg, b, r)) (to_bracket s))"

lemma to_bracket_length: "to_bracket s = Some (b, r) \<Longrightarrow> length r < length s"
  by (induction s arbitrary: b) (auto split: if_splits)

lemma bracket_length: "bracket s = Some (neg, b, r) \<Longrightarrow> length r < length s"
  by (auto simp: bracket_def Let_def split: if_splits dest!: to_bracket_length)

function parse_glob :: "string \<Rightarrow> glob list" where
  "parse_glob [] = []"
| "parse_glob (c # s) =
     (if c = CHR ''*'' then GStar # parse_glob s
      else if c = CHR ''?'' then GAny # parse_glob s
      else if c = CHR ''['' then
        (case bracket s of
           None \<Rightarrow> GChar c # parse_glob s
         | Some (neg, b, r) \<Rightarrow> GClass neg (class_members b) # parse_glob r)
      else GChar c # parse_glob s)"
  by pat_completeness auto

termination
  by (relation "measure length") (auto dest: bracket_length)

fun glob_char :: "glob \<Rightarrow> char \<Rightarrow> bool" where
  "glob_char GStar c = False"
| "glob_char GAny c = True"
| "glob_char (GClass neg ms) c \<longleftrightarrow> (\<exists>(a, b) \<in> set ms. char_le a c \<and> char_le c b) \<noteq> neg"
| "glob_char (GChar d) c \<longleftrightarrow> c = d"

fun glob_match :: "glob list \<Rightarrow> string \<Rightarrow> bool" where
  "glob_match [] s \<longleftrightarrow> s = []"
| "glob_match (GStar # p) [] \<longleftrightarrow> glob_match p []"
| "glob_match (GStar # p) (c # s) \<longleftrightarrow> glob_match p (c # s) \<or> glob_match (GStar # p) s"
| "glob_match (g # p) [] \<longleftrightarrow> False"
| "glob_match (g # p) (c # s) \<longleftrightarrow> glob_char g c \<and> glob_match p s"

definition fnmatchcase :: "string \<Rightarrow> string \<Rightarrow> bool" where
  "fnmatchcase name pat = glob_match (parse_glob pat) name"

lemma glob_star: "glob_match (GStar # p) s \<longleftrightarrow> (\<exists>a b. s = a @ b \<and> glob_match p b)"
proof (induction s)
  case (Cons c s)
  show ?case
  proof
    assume "glob_match (GStar # p) (c # s)"
    then consider "glob_match p (c # s)" | "glob_match (GStar # p) s" by auto
    then show "\<exists>a b. c # s = a @ b \<and> glob_match p b"
      by cases (metis append_Nil, metis Cons.IH append_Cons)
  next
    assume "\<exists>a b. c # s = a @ b \<and> glob_match p b"
    then obtain a b where "c # s = a @ b" "glob_match p b" by blast
    then show "glob_match (GStar # p) (c # s)" using Cons.IH by (cases a) auto
  qed
qed simp

text \<open>Patterns whose only wild card is the star: a pattern that matches, as a text, another one matches
  everything the other does.\<close>

definition star_only :: "string \<Rightarrow> bool" where
  "star_only p \<longleftrightarrow> CHR ''?'' \<notin> set p \<and> CHR ''['' \<notin> set p"

lemma star_only_Cons [simp]: "star_only (c # p) \<longleftrightarrow> c \<noteq> CHR ''?'' \<and> c \<noteq> CHR ''['' \<and> star_only p"
  by (auto simp: star_only_def)

lemma parse_star_only: "star_only p \<Longrightarrow> parse_glob p = map (\<lambda>c. if c = CHR ''*'' then GStar else GChar c) p"
  by (induction p) (auto simp: star_only_def)

lemma glob_match_Cons_char: "glob_match (GChar d # p) s \<longleftrightarrow> (\<exists>t. s = d # t \<and> glob_match p t)"
  by (cases s) auto

lemma glob_append: "glob_match (g @ p) s \<Longrightarrow> \<exists>a b. s = a @ b \<and> glob_match p b"
proof (induction g arbitrary: s)
  case (Cons x g)
  show ?case
  proof (cases "x = GStar")
    case True
    with Cons.prems obtain a b where "s = a @ b" "glob_match (g @ p) b" by (auto simp: glob_star)
    with Cons.IH [of b] show ?thesis by (metis append_assoc)
  next
    case False
    then have "s \<noteq> [] \<and> glob_match (g @ p) (tl s)" using Cons.prems by (cases x; cases s) auto
    then obtain c a b where "s = c # a @ b" "glob_match p b" using Cons.IH [of "tl s"] by (metis list.collapse)
    then show ?thesis by (metis append_Cons)
  qed
qed auto

lemma star_glob_trans:
  "star_only q \<Longrightarrow> star_only p \<Longrightarrow> glob_match (parse_glob p) q \<Longrightarrow> glob_match (parse_glob q) s \<Longrightarrow> glob_match (parse_glob p) s"
proof (induction p arbitrary: q s)
  case (Cons c p)
  show ?case
  proof (cases "c = CHR ''*''")
    case True
    with Cons.prems(3) obtain a b where q: "q = a @ b" "glob_match (parse_glob p) b" by (auto simp: glob_star)
    have "star_only b" "star_only p" using Cons.prems(1,2) q(1) by (auto simp: star_only_def)
    moreover from Cons.prems(4) q(1) Cons.prems(1) obtain s1 s2 where "s = s1 @ s2" "glob_match (parse_glob b) s2"
      using glob_append [of "map (\<lambda>c. if c = CHR ''*'' then GStar else GChar c) a" "parse_glob b" s] \<open>star_only b\<close>
      by (auto simp: parse_star_only)
    ultimately show ?thesis using Cons.IH [of b s2] q(2) True glob_star by auto
  next
    case False
    with Cons.prems(2,3) obtain q' where q: "q = c # q'" "glob_match (parse_glob p) q'" "star_only p"
      by (auto simp: glob_match_Cons_char)
    with Cons.prems(1,4) False obtain t where "s = c # t" "glob_match (parse_glob q') t"
      by (auto simp: glob_match_Cons_char)
    with Cons.IH [of q' t] q Cons.prems(1,2) False show ?thesis by (auto simp: glob_match_Cons_char)
  qed
qed simp

end
