(* ===== verification/Gguf_Plan.thy ===== *)
theory Gguf_Plan
  imports Shell_Text
begin

text \<open>
  The tensor roles of \<^verbatim>\<open>gb_quant_roles.py\<close>, with the precision no tensor of a role may go below, and
  the greedy byte planner of \<^verbatim>\<open>gb_gguf_plan.py\<close>, which asks one role after the other for what has to be
  saved. The reader of GGUF files and the modules of a torch model are arguments.
\<close>

section \<open>Roles\<close>

datatype role = SSM | MTP | Norm | Embed | Output | Attn | Ffn | Other

definition ROLES :: "role list" where "ROLES = [SSM, MTP, Norm, Embed, Output, Attn, Ffn, Other]"

fun ROLE_FLOORS_GGUF :: "role \<Rightarrow> string option" where
  "ROLE_FLOORS_GGUF SSM = Some ''q8_0''"
| "ROLE_FLOORS_GGUF MTP = Some ''q8_0''"
| "ROLE_FLOORS_GGUF Norm = Some ''f32''"
| "ROLE_FLOORS_GGUF _ = None"

datatype precision = PBits int | PName string

fun ROLE_FLOORS_BITS :: "role \<Rightarrow> precision option" where
  "ROLE_FLOORS_BITS SSM = Some (PBits 8)"
| "ROLE_FLOORS_BITS MTP = Some (PBits 8)"
| "ROLE_FLOORS_BITS Norm = Some (PBits 16)"
| "ROLE_FLOORS_BITS _ = None"

definition GGUF_TYPE_ORDER :: "string list" where
  "GGUF_TYPE_ORDER =
     [''f32'', ''f16'', ''bf16'', ''q8_0'',
      ''q6_k'', ''q5_k'', ''q5_1'', ''q5_0'', ''q4_k'', ''q4_1'', ''q4_0'',
      ''iq4_nl'', ''iq4_xs'', ''q3_k'',
      ''iq3_s'', ''iq3_xxs'', ''q2_k'',
      ''iq2_s'', ''iq2_xs'', ''iq2_xxs'',
      ''iq1_m'', ''iq1_s'', ''tq2_0'', ''tq1_0'']"

definition BITS_ORDER :: "precision list" where
  "BITS_ORDER = [PBits 16, PName ''fp8'', PBits 8, PBits 4, PName ''tq3'', PName ''tq2'']"

text \<open>\<open>xs.index(x)\<close>, \<open>None\<close> for its \<open>ValueError\<close>.\<close>

fun index_of :: "'a \<Rightarrow> 'a list \<Rightarrow> nat option" where
  "index_of x [] = None"
| "index_of x (y # ys) = (if x = y then Some 0 else map_option Suc (index_of x ys))"

definition at_or_above :: "'a list \<Rightarrow> 'a \<Rightarrow> 'a \<Rightarrow> bool" where
  "at_or_above order candidate fl =
     (case index_of candidate order of
        None \<Rightarrow> True
      | Some i \<Rightarrow> (case index_of fl order of None \<Rightarrow> True | Some j \<Rightarrow> i \<le> j))"

definition meets_floor_gguf :: "string \<Rightarrow> role \<Rightarrow> bool" where
  "meets_floor_gguf candidate role =
     (case ROLE_FLOORS_GGUF role of None \<Rightarrow> True | Some fl \<Rightarrow> at_or_above GGUF_TYPE_ORDER (str_lower candidate) fl)"

definition meets_floor_bits :: "precision \<Rightarrow> role \<Rightarrow> bool" where
  "meets_floor_bits candidate role =
     (case ROLE_FLOORS_BITS role of None \<Rightarrow> True | Some fl \<Rightarrow> at_or_above BITS_ORDER candidate fl)"

definition role_from_gguf_tensor :: "string \<Rightarrow> role" where
  "role_from_gguf_tensor name =
     (let parts = py_split ''.'' name;
          rt = (if hd parts = ''blk'' \<and> length parts > 2 then parts ! 2 else hd parts);
          rl = str_lower rt in
      if starts_with ''ssm'' rl then SSM
      else if starts_with ''nextn'' rl then MTP
      else if contains ''norm'' rl then Norm
      else if starts_with ''token_embd'' rl \<or> rl = ''embed'' then Embed
      else if rl = ''output'' then Output
      else if starts_with ''attn'' rl then Attn
      else if starts_with ''ffn'' rl then Ffn
      else Other)"

definition TORCH_CLASS_KEYWORDS :: "(string \<times> role) list" where
  "TORCH_CLASS_KEYWORDS =
     [(''mamba'', SSM), (''deltanet'', SSM), (''recurrent'', SSM),
      (''mtp'', MTP), (''nextn'', MTP), (''draft'', MTP),
      (''norm'', Norm),
      (''embed'', Embed),
      (''lmhead'', Output), (''lm_head'', Output), (''outputlayer'', Output),
      (''attention'', Attn), (''attn'', Attn),
      (''mlp'', Ffn), (''feedforward'', Ffn), (''ffn'', Ffn)]"

definition TORCH_NAME_KEYWORDS :: "(string \<times> role) list" where
  "TORCH_NAME_KEYWORDS = [(''lm_head'', Output), (''embed_tokens'', Embed), (''wte'', Embed)]"

fun keyword_role :: "(string \<times> role) list \<Rightarrow> string \<Rightarrow> role option" where
  "keyword_role [] s = None"
| "keyword_role ((k, r) # ks) s = (if contains k s then Some r else keyword_role ks s)"

fun join_dots :: "string list \<Rightarrow> string" where
  "join_dots [] = []"
| "join_dots [x] = x"
| "join_dots (x # y # xs) = x @ ''.'' @ join_dots (y # xs)"

text \<open>\<open>class_of\<close> is the class name of the module at a dotted path; the argument \<open>i\<close> counts down.\<close>

fun ancestor_role :: "(string \<Rightarrow> string option) \<Rightarrow> string list \<Rightarrow> nat \<Rightarrow> role" where
  "ancestor_role class_of parts 0 = Other"
| "ancestor_role class_of parts (Suc i) =
     (case class_of (join_dots (take (Suc i) parts)) of
        None \<Rightarrow> ancestor_role class_of parts i
      | Some cls \<Rightarrow>
          (case keyword_role TORCH_CLASS_KEYWORDS (str_lower cls) of
             None \<Rightarrow> ancestor_role class_of parts i
           | Some r \<Rightarrow> r))"

definition role_from_torch_module :: "(string \<Rightarrow> string option) \<Rightarrow> string \<Rightarrow> role" where
  "role_from_torch_module class_of name =
     (case keyword_role TORCH_NAME_KEYWORDS name of
        Some r \<Rightarrow> r
      | None \<Rightarrow> let parts = py_split ''.'' name in ancestor_role class_of parts (length parts - 1))"

section \<open>The plan\<close>

definition TOLERANT_LADDER :: "string list" where
  "TOLERANT_LADDER =
     [''q8_0'', ''q6_k'', ''q5_k'', ''q5_1'', ''q5_0'', ''q4_k'', ''q4_1'', ''q4_0'',
      ''iq4_nl'', ''iq4_xs'', ''q3_k'', ''iq3_s'', ''iq3_xxs'', ''q2_k'',
      ''iq2_s'', ''iq2_xs'', ''iq2_xxs'']"

definition COMPRESSIBLE_ROLE_PRIORITY :: "role list" where
  "COMPRESSIBLE_ROLE_PRIORITY = [Ffn, Attn, Output, Embed, Other]"

definition BYTES_PER_ELEM_GGUF :: "(string, pyfloat) pydict" where
  "BYTES_PER_ELEM_GGUF =
     [(''q8_0'', 10625 / 10000), (''q6_k'', 820 / 1000), (''q5_k'', 6875 / 10000), (''q5_1'', 6875 / 10000), (''q5_0'', 625 / 1000),
      (''q4_k'', 5625 / 10000), (''q4_1'', 625 / 1000), (''q4_0'', 5625 / 10000),
      (''iq4_nl'', 5625 / 10000), (''iq4_xs'', 535 / 1000), (''q3_k'', 4375 / 10000),
      (''iq3_s'', 4375 / 10000), (''iq3_xxs'', 343 / 1000), (''q2_k'', 328 / 1000),
      (''iq2_s'', 281 / 1000), (''iq2_xs'', 266 / 1000), (''iq2_xxs'', 258 / 1000)]"

definition scale :: "string \<Rightarrow> string list \<Rightarrow> pyfloat" where
  "scale ty ladder = the (dict_get BYTES_PER_ELEM_GGUF ty) / the (dict_get BYTES_PER_ELEM_GGUF (hd ladder))"

type_synonym tensors = "(string \<times> int) list"

record gguf_plan =
  gp_types :: "(string, string) pydict"
  gp_breakdown :: "(role, pyfloat \<times> string option) pydict"
  gp_estimated :: int
  gp_budget :: int
  gp_fits :: bool

definition by_role_of :: "tensors \<Rightarrow> (role, tensors) pydict" where
  "by_role_of inventory =
     fold (\<lambda>(name, n) d. let r = role_from_gguf_tensor name in
       dict_set r ((case dict_get d r of None \<Rightarrow> [] | Some ts \<Rightarrow> ts) @ [(name, n)]) d) inventory []"

definition gb_of :: "tensors \<Rightarrow> pyfloat" where
  "gb_of ts = of_int (sum_list (map snd ts)) / 2 ^ 30"

definition SLACK :: pyfloat where "SLACK = 1 / 10 ^ 9"

text \<open>The first rung that saves enough, else the last one.\<close>

fun choose_rung :: "pyfloat \<Rightarrow> pyfloat \<Rightarrow> string list \<Rightarrow> nat \<Rightarrow> string list \<Rightarrow> nat \<times> pyfloat" where
  "choose_rung src target ladder idx [] = (length ladder - 1, src * scale (last ladder) ladder)"
| "choose_rung src target ladder idx (ty # rest) =
     (if src * scale ty ladder \<le> target + SLACK then (idx, src * scale ty ladder)
      else choose_rung src target ladder (idx + 1) rest)"

fun squeeze ::
  "string list \<Rightarrow> (role \<times> tensors) list \<Rightarrow> pyfloat \<Rightarrow> (string, string) pydict \<Rightarrow> (role, pyfloat) pydict \<Rightarrow>
   (string, string) pydict \<times> (role, pyfloat) pydict" where
  "squeeze ladder [] needed types bytes = (types, bytes)"
| "squeeze ladder ((role, ts) # rest) needed types bytes =
     (let src = gb_of ts; max_compressed = src * scale (last ladder) ladder;
          take_gb = min needed (src - max_compressed); target = src - take_gb in
      case choose_rung src target ladder 0 ladder of (idx, chosen) \<Rightarrow>
        squeeze ladder rest (max 0 (needed - (src - chosen)))
          (if idx > 0 then fold (\<lambda>(name, _). dict_set name (ladder ! idx)) ts types else types)
          (dict_set role chosen bytes))"

text \<open>The roles outside the priority keep their bytes; the others come in its order, where they have tensors.\<close>

definition fixed_bytes :: "tensors \<Rightarrow> role list \<Rightarrow> (role, pyfloat) pydict" where
  "fixed_bytes inventory priority = map (\<lambda>(r, ts). (r, gb_of ts)) (filter (\<lambda>(r, _). r \<notin> set priority) (by_role_of inventory))"

definition present_roles :: "tensors \<Rightarrow> role list \<Rightarrow> (role \<times> tensors) list" where
  "present_roles inventory priority =
     map (\<lambda>r. (r, the (dict_get (by_role_of inventory) r)))
       (filter (\<lambda>r. case dict_get (by_role_of inventory) r of None \<Rightarrow> False | Some ts \<Rightarrow> ts \<noteq> []) priority)"

definition total_source_gb :: "tensors \<Rightarrow> role list \<Rightarrow> pyfloat" where
  "total_source_gb inventory priority =
     sum_list (map snd (fixed_bytes inventory priority)) + sum_list (map (gb_of \<circ> snd) (present_roles inventory priority))"

definition plan_from_source :: "tensors \<Rightarrow> int \<Rightarrow> role list \<Rightarrow> string list \<Rightarrow> gguf_plan" where
  "plan_from_source inventory budget_bytes priority ladder =
     (let needed = max 0 (total_source_gb inventory priority - of_int budget_bytes / 2 ^ 30) in
      case squeeze ladder (present_roles inventory priority) needed [] (fixed_bytes inventory priority) of (types, bytes) \<Rightarrow>
        let estimated = py_int (sum_list (map snd bytes) * 2 ^ 30) in
        \<lparr>gp_types = types,
         gp_breakdown = map (\<lambda>(r, b). (r, (py_round_n 3 b, ROLE_FLOORS_GGUF r))) bytes,
         gp_estimated = estimated, gp_budget = budget_bytes, gp_fits = estimated \<le> budget_bytes\<rparr>)"

section \<open>The budget\<close>

lemma choose_rung_le:
  "src * scale (last ladder) ladder \<le> target + SLACK \<Longrightarrow> snd (choose_rung src target ladder idx rungs) \<le> target + SLACK"
  by (induction src target ladder idx rungs rule: choose_rung.induct) auto

lemma dict_values_set_new: "k \<notin> set (dict_keys d) \<Longrightarrow> sum_list (map snd (dict_set k v d)) = sum_list (map snd d) + (v :: pyfloat)"
  by (simp add: dict_set_append_new)

lemma SLACK_pos: "0 < SLACK"
  by (simp add: SLACK_def)

text \<open>What a list of roles can give up, and what they are left with.\<close>

definition possible :: "string list \<Rightarrow> (role \<times> tensors) list \<Rightarrow> pyfloat" where
  "possible ladder rs = sum_list (map (\<lambda>(_, ts). gb_of ts - gb_of ts * scale (last ladder) ladder) rs)"

lemma possible_Cons [simp]:
  "possible ladder [] = 0"
  "possible ladder ((r, ts) # rs) = gb_of ts - gb_of ts * scale (last ladder) ladder + possible ladder rs"
  by (simp_all add: possible_def)

lemma possible_nonneg:
  "scale (last ladder) ladder \<le> 1 \<Longrightarrow> \<forall>(r, ts) \<in> set rs. 0 \<le> gb_of ts \<Longrightarrow> 0 \<le> possible ladder rs"
proof (induction rs)
  case (Cons x rs)
  obtain r ts where x: "x = (r, ts)" by (cases x)
  have "gb_of ts * scale (last ladder) ladder \<le> gb_of ts" using Cons.prems x by (simp add: mult_left_le)
  with Cons x show ?case by simp
qed simp

lemma squeeze_bytes:
  assumes "scale (last ladder) ladder \<le> 1"
  shows "0 \<le> needed \<Longrightarrow> \<forall>(r, ts) \<in> set rs. 0 \<le> gb_of ts \<Longrightarrow> distinct (map fst rs) \<Longrightarrow> set (map fst rs) \<inter> set (dict_keys bytes) = {} \<Longrightarrow>
    sum_list (map snd (snd (squeeze ladder rs needed types bytes)))
      \<le> sum_list (map snd bytes) + sum_list (map (gb_of \<circ> snd) rs) - min needed (possible ladder rs) + of_nat (length rs) * SLACK"
proof (induction rs arbitrary: needed types bytes)
  case (Cons x rs)
  obtain r ts where x: "x = (r, ts)" by (cases x)
  let ?src = "gb_of ts" and ?max = "gb_of ts * scale (last ladder) ladder"
  let ?target = "?src - min needed (?src - ?max)"
  obtain idx chosen where c: "choose_rung ?src ?target ladder 0 ladder = (idx, chosen)" by fastforce
  have le: "?max \<le> ?src" using assms Cons.prems(2) x by (simp add: mult_left_le)
  have ch: "chosen \<le> ?target + SLACK" using choose_rung_le [of ?src ladder ?target 0 ladder] c SLACK_pos by auto
  let ?needed = "max 0 (needed - (?src - chosen))"
  let ?types = "if idx > 0 then fold (\<lambda>(name, _). dict_set name (ladder ! idx)) ts types else types"
  have ih: "sum_list (map snd (snd (squeeze ladder rs ?needed ?types (dict_set r chosen bytes))))
      \<le> sum_list (map snd (dict_set r chosen bytes)) + sum_list (map (gb_of \<circ> snd) rs) - min ?needed (possible ladder rs) + of_nat (length rs) * SLACK"
    by (rule Cons.IH) (use Cons.prems x in \<open>auto simp: dict_keys_set_set simp del: set_map list.set_map\<close>)
  have new: "sum_list (map snd (dict_set r chosen bytes)) = sum_list (map snd bytes) + chosen"
    using Cons.prems(4) x by (intro dict_values_set_new) auto
  have pos: "0 \<le> possible ladder rs" using possible_nonneg [OF assms] Cons.prems(2) by simp
  have "chosen - min ?needed (possible ladder rs) \<le> ?src - min needed (?src - ?max + possible ladder rs) + SLACK"
    using ch le pos Cons.prems(1) SLACK_pos by (auto simp: min_def max_def split: if_splits)
  moreover have "sum_list (map snd (snd (squeeze ladder (x # rs) needed types bytes)))
      = sum_list (map snd (snd (squeeze ladder rs ?needed ?types (dict_set r chosen bytes))))"
    by (simp only: x squeeze.simps Let_def c prod.case)
  moreover have "of_nat (length (x # rs)) * SLACK = of_nat (length rs) * SLACK + SLACK" by (simp add: algebra_simps)
  moreover have "possible ladder (x # rs) = ?src - ?max + possible ladder rs" "sum_list (map (gb_of \<circ> snd) (x # rs)) = ?src + sum_list (map (gb_of \<circ> snd) rs)"
    by (simp_all add: x)
  ultimately show ?case using ih new by linarith
qed simp

section \<open>The groups\<close>

lemma by_role_wf: "dict_wf (by_role_of inventory)"
proof -
  have "dict_wf d \<Longrightarrow> dict_wf (fold (\<lambda>(name, n) d. let r = role_from_gguf_tensor name in
       dict_set r ((case dict_get d r of None \<Rightarrow> [] | Some ts \<Rightarrow> ts) @ [(name, n)]) d) inventory d)" for d
    by (induction inventory arbitrary: d) (auto simp: Let_def split: prod.splits)
  then show ?thesis unfolding by_role_of_def by simp
qed

lemma by_role_mem:
  "\<forall>r ts. dict_get (by_role_of inventory) r = Some ts \<longrightarrow> (\<forall>p \<in> set ts. p \<in> set inventory \<and> role_from_gguf_tensor (fst p) = r)"
proof -
  have "\<forall>r ts. dict_get d r = Some ts \<longrightarrow> (\<forall>p \<in> set ts. p \<in> A \<and> role_from_gguf_tensor (fst p) = r) \<Longrightarrow>
      \<forall>r ts. dict_get (fold (\<lambda>(name, n) d. let r = role_from_gguf_tensor name in
       dict_set r ((case dict_get d r of None \<Rightarrow> [] | Some ts \<Rightarrow> ts) @ [(name, n)]) d) inv d) r = Some ts \<longrightarrow>
        (\<forall>p \<in> set ts. p \<in> A \<union> set inv \<and> role_from_gguf_tensor (fst p) = r)" for d A inv
  proof (induction inv arbitrary: d A)
    case (Cons p inv)
    obtain name n where p: "p = (name, n)" by (cases p)
    let ?r = "role_from_gguf_tensor name"
    let ?d = "dict_set ?r ((case dict_get d ?r of None \<Rightarrow> [] | Some ts \<Rightarrow> ts) @ [(name, n)]) d"
    have "\<forall>r ts. dict_get ?d r = Some ts \<longrightarrow> (\<forall>p \<in> set ts. p \<in> A \<union> {(name, n)} \<and> role_from_gguf_tensor (fst p) = r)"
    proof (cases "dict_get d ?r")
      case (Some ts)
      with Cons.prems have "\<forall>p \<in> set ts. p \<in> A \<and> role_from_gguf_tensor (fst p) = ?r" by blast
      with Some Cons.prems show ?thesis by auto
    qed (use Cons.prems in auto)
    from Cons.IH [OF this] show ?case by (auto simp: p Let_def)
  qed auto
  from this [of "[]" "{}" inventory] show ?thesis by (simp add: by_role_of_def)
qed

lemma present_mem:
  "(r, ts) \<in> set (present_roles inventory priority) \<Longrightarrow> r \<in> set priority \<and> dict_get (by_role_of inventory) r = Some ts"
  by (auto simp: present_roles_def split: option.splits)

lemma present_in_inventory:
  "(r, ts) \<in> set (present_roles inventory priority) \<Longrightarrow> p \<in> set ts \<Longrightarrow> p \<in> set inventory \<and> role_from_gguf_tensor (fst p) = r \<and> r \<in> set priority"
  using present_mem by_role_mem by blast

lemma gb_of_nonneg: "\<forall>p \<in> set ts. 0 \<le> snd p \<Longrightarrow> 0 \<le> gb_of ts"
proof -
  assume "\<forall>p \<in> set ts. 0 \<le> snd p"
  then have "0 \<le> sum_list (map snd ts)" by (intro sum_list_nonneg) auto
  then show ?thesis by (simp add: gb_of_def)
qed

lemma length_present: "length (present_roles inventory priority) \<le> length priority"
  by (simp add: present_roles_def)

lemma distinct_present: "distinct priority \<Longrightarrow> distinct (map fst (present_roles inventory priority))"
  by (simp add: present_roles_def comp_def)


lemma fixed_disjoint: "set (map fst (present_roles inventory priority)) \<inter> set (dict_keys (fixed_bytes inventory priority)) = {}"
  using present_mem by (fastforce simp: fixed_bytes_def)

lemma plan_estimated:
  "gp_estimated (plan_from_source inventory budget priority ladder)
     = py_int (sum_list (map snd (snd (squeeze ladder (present_roles inventory priority)
         (max 0 (total_source_gb inventory priority - of_int budget / 2 ^ 30)) [] (fixed_bytes inventory priority)))) * 2 ^ 30)"
  by (simp add: plan_from_source_def Let_def split: prod.split)

lemma py_int_le: "x \<le> b \<Longrightarrow> 0 \<le> b \<Longrightarrow> of_int (py_int x) \<le> b"
proof (cases "0 \<le> x")
  case False
  assume b: "0 \<le> b"
  have "py_int x \<le> 0" using False by (simp add: py_int_def ceiling_le_zero)
  with b show ?thesis by (metis of_int_0_le_iff of_int_le_0_iff order_trans)
qed (auto simp: py_int_def intro: order_trans [OF of_int_floor_le])

text \<open>
  The plan comes down to its budget, up to the slack of one part in \<open>10^9\<close> of a GB per role, whenever the
  roles it may compress can give that much, and otherwise to what is left when they have given all.
\<close>

theorem plan_comes_down_to_budget:
  assumes "\<forall>p \<in> set inventory. 0 \<le> snd p" "distinct priority" "scale (last ladder) ladder \<le> 1" "0 \<le> budget"
  shows "of_int (gp_estimated (plan_from_source inventory budget priority ladder))
    \<le> max (of_int budget) ((total_source_gb inventory priority - possible ladder (present_roles inventory priority)) * 2 ^ 30)
      + of_nat (length priority) * SLACK * 2 ^ 30"
proof -
  let ?rs = "present_roles inventory priority" and ?fixed = "fixed_bytes inventory priority"
  let ?tot = "total_source_gb inventory priority"
  let ?needed = "max 0 (?tot - of_int budget / 2 ^ 30)"
  let ?sum = "sum_list (map snd (snd (squeeze ladder ?rs ?needed [] ?fixed)))"
  have nn: "\<forall>(r, ts) \<in> set ?rs. 0 \<le> gb_of ts"
    using present_in_inventory assms(1) by (auto intro!: gb_of_nonneg)
  have "?sum \<le> sum_list (map snd ?fixed) + sum_list (map (gb_of \<circ> snd) ?rs) - min ?needed (possible ladder ?rs) + of_nat (length ?rs) * SLACK"
    by (rule squeeze_bytes [OF assms(3) _ nn distinct_present [OF assms(2)] fixed_disjoint]) simp
  moreover have "of_nat (length ?rs) * SLACK \<le> of_nat (length priority) * SLACK"
    using length_present SLACK_pos by (simp add: mult_right_mono)
  ultimately have "?sum \<le> max (of_int budget / 2 ^ 30) (?tot - possible ladder ?rs) + of_nat (length priority) * SLACK"
    unfolding total_source_gb_def by (auto simp: min_def max_def split: if_splits)
  then have "?sum * 2 ^ 30 \<le> (max (of_int budget / 2 ^ 30) (?tot - possible ladder ?rs) + of_nat (length priority) * SLACK) * 2 ^ 30"
    by (rule mult_right_mono) simp
  also have "\<dots> = max (of_int budget) ((?tot - possible ladder ?rs) * 2 ^ 30) + of_nat (length priority) * SLACK * 2 ^ 30"
    by (simp add: max_def field_simps)
  finally have "?sum * 2 ^ 30 \<le> max (of_int budget) ((?tot - possible ladder ?rs) * 2 ^ 30) + of_nat (length priority) * SLACK * 2 ^ 30" .
  moreover have "0 \<le> max (of_int budget) ((?tot - possible ladder ?rs) * 2 ^ 30) + of_nat (length priority) * SLACK * 2 ^ 30"
    using assms(4) SLACK_pos by (intro add_nonneg_nonneg) (simp_all add: le_max_iff_disj)
  ultimately have "of_int (py_int (?sum * 2 ^ 30)) \<le> max (of_int budget) ((?tot - possible ladder ?rs) * 2 ^ 30) + of_nat (length priority) * SLACK * 2 ^ 30"
    by (rule py_int_le)
  then show ?thesis by (simp only: plan_estimated)
qed

section \<open>The overrides\<close>

lemma choose_rung_idx:
  "idx + length rungs = length ladder \<Longrightarrow> ladder \<noteq> [] \<Longrightarrow> fst (choose_rung src target ladder idx rungs) < length ladder"
  by (induction src target ladder idx rungs rule: choose_rung.induct) auto

lemma fold_dict_set_mem:
  "(name, ty) \<in> set (fold (\<lambda>(name, _). dict_set name t) ts types) \<Longrightarrow> (name, ty) \<in> set types \<or> ty = t \<and> name \<in> fst ` set ts"
proof (induction ts arbitrary: types)
  case (Cons x ts)
  obtain n s where x: "x = (n, s)" by (cases x)
  have sub: "(name, ty) \<in> set (dict_set n t types) \<Longrightarrow> (name, ty) \<in> set types \<or> name = n \<and> ty = t"
    by (induction types) (auto split: if_splits)
  from Cons.IH [of "dict_set n t types"] Cons.prems sub show ?case by (auto simp: x)
qed simp

lemma squeeze_types:
  "ladder \<noteq> [] \<Longrightarrow> (name, ty) \<in> set (fst (squeeze ladder rs needed types bytes)) \<Longrightarrow>
     (name, ty) \<in> set types \<or> (\<exists>i r ts. 0 < i \<and> i < length ladder \<and> ty = ladder ! i \<and> (r, ts) \<in> set rs \<and> name \<in> fst ` set ts)"
proof (induction rs arbitrary: needed types bytes)
  case (Cons x rs)
  obtain r ts where x: "x = (r, ts)" by (cases x)
  let ?src = "gb_of ts" and ?target = "gb_of ts - min needed (gb_of ts - gb_of ts * scale (last ladder) ladder)"
  obtain idx chosen where c: "choose_rung ?src ?target ladder 0 ladder = (idx, chosen)" by fastforce
  have i: "idx < length ladder" using choose_rung_idx [of 0 ladder ladder ?src ?target] Cons.prems(1) c by simp
  let ?types = "if idx > 0 then fold (\<lambda>(name, _). dict_set name (ladder ! idx)) ts types else types"
  have "(name, ty) \<in> set (fst (squeeze ladder rs (max 0 (needed - (?src - chosen))) ?types (dict_set r chosen bytes)))"
    using Cons.prems(2) by (simp only: x squeeze.simps Let_def c prod.case)
  from Cons.IH [OF Cons.prems(1) this] show ?case
    using fold_dict_set_mem [of name ty "ladder ! idx" ts types] i by (auto simp: x split: if_splits)
qed simp

text \<open>
  C40. Every override is well formed: it names a tensor of the inventory whose role may be compressed, and gives
  it a type of the ladder below the first; with the roles the module compresses, no tensor goes below the floor
  of its role.
\<close>

theorem overrides_are_well_formed:
  assumes "ladder \<noteq> []" "(name, ty) \<in> set (gp_types (plan_from_source inventory budget priority ladder))"
  shows "name \<in> fst ` set inventory \<and> role_from_gguf_tensor name \<in> set priority \<and> ty \<in> set (tl ladder)
    \<and> (set priority \<subseteq> set COMPRESSIBLE_ROLE_PRIORITY \<longrightarrow> meets_floor_gguf ty (role_from_gguf_tensor name))"
proof -
  let ?needed = "max 0 (total_source_gb inventory priority - of_int budget / 2 ^ 30)"
  have "(name, ty) \<in> set (fst (squeeze ladder (present_roles inventory priority) ?needed [] (fixed_bytes inventory priority)))"
    using assms(2) by (simp add: plan_from_source_def Let_def split: prod.splits)
  from squeeze_types [OF assms(1) this] obtain i r ts where i: "0 < i" "i < length ladder" "ty = ladder ! i" "(r, ts) \<in> set (present_roles inventory priority)" "name \<in> fst ` set ts"
    by auto
  then obtain n where "(name, n) \<in> set ts" by force
  from present_in_inventory [OF i(4) this] have m: "(name, n) \<in> set inventory" "role_from_gguf_tensor name \<in> set priority" by auto
  have "ty \<in> set (tl ladder)" using i(1-3) by (cases ladder; cases i) auto
  moreover have "meets_floor_gguf ty (role_from_gguf_tensor name)" if "set priority \<subseteq> set COMPRESSIBLE_ROLE_PRIORITY"
    using that m(2) by (auto simp: meets_floor_gguf_def COMPRESSIBLE_ROLE_PRIORITY_def)
  ultimately show ?thesis using m by force
qed

definition demo_inventory :: tensors where
  "demo_inventory = [(''blk.0.ssm_out.weight'', 1024), (''blk.0.ffn_gate.weight'', 4096), (''output.weight'', 512)]"

definition demo_ladder :: "string list" where
  "demo_ladder = [''q8_0'', ''q4_k'', ''iq2_xxs'']"

lemma demo_gguf_types:
  "gp_types (plan_from_source demo_inventory 4000 [Ffn, Output] demo_ladder) = [(''blk.0.ffn_gate.weight'', ''q4_k'')]"
  by code_simp

lemma plan_comes_down_to_budget_witness:
  "of_int (gp_estimated (plan_from_source demo_inventory 4000 [Ffn, Output] demo_ladder)) \<le> (4000 :: rat) + 2 * SLACK * 2 ^ 30"
proof -
  have a: "\<forall>p \<in> set demo_inventory. 0 \<le> snd p" "distinct [Ffn, Output]" by (simp_all add: demo_inventory_def)
  have s: "scale (last demo_ladder) demo_ladder \<le> 1" by code_simp
  have p: "(total_source_gb demo_inventory [Ffn, Output] - possible demo_ladder (present_roles demo_inventory [Ffn, Output])) * 2 ^ 30 \<le> 4000"
    by code_simp
  then have m: "max (of_int 4000) ((total_source_gb demo_inventory [Ffn, Output] - possible demo_ladder (present_roles demo_inventory [Ffn, Output])) * 2 ^ 30) = 4000"
    by (simp only: of_int_numeral max_absorb1)
  have "(0 :: int) \<le> 4000" by simp
  from plan_comes_down_to_budget [OF a s this] show ?thesis unfolding m by simp
qed

lemma overrides_are_well_formed_witness:
  "role_from_gguf_tensor ''blk.0.ffn_gate.weight'' \<in> set [Ffn, Output] \<and> meets_floor_gguf ''q4_k'' (role_from_gguf_tensor ''blk.0.ffn_gate.weight'')"
proof -
  have l: "demo_ladder \<noteq> []" by (simp add: demo_ladder_def)
  have m: "(''blk.0.ffn_gate.weight'', ''q4_k'') \<in> set (gp_types (plan_from_source demo_inventory 4000 [Ffn, Output] demo_ladder))"
    by (simp add: demo_gguf_types)
  show ?thesis using overrides_are_well_formed [OF l m] by (simp add: COMPRESSIBLE_ROLE_PRIORITY_def)
qed

end
