(* ===== verification/Tuner.thy ===== *)
theory Tuner
  imports GB_Prelude
begin

text \<open>
  The decision half of the control loop, \<^verbatim>\<open>gb_tuner.py\<close>: what of the card's levers should move, from
  one reading and the state carried between ticks. A missing sensor is \<open>None\<close>; a reason is a constructor
  with the numbers its sentence interpolates, and the sentence that formats a number that is missing raises.
\<close>

section \<open>Vocabulary\<close>

datatype bottleneck = Unknown | GpuBound | BandwidthBound | Idle

record tuner_policy =
  tp_gpu_enter :: pyfloat
  tp_gpu_release :: pyfloat
  tp_power_frac :: pyfloat
  tp_power_release :: pyfloat
  tp_settle_cycles :: int
  tp_ema_alpha :: pyfloat
  tp_min_samples :: int
  tp_regression_pct :: pyfloat
  tp_harvest_step :: pyfloat
  tp_harvest_floor :: pyfloat
  tp_freeze_cycles :: int
  tp_accept_low :: pyfloat
  tp_accept_high :: pyfloat
  tp_depth_min :: int
  tp_depth_max :: int

definition default_policy :: tuner_policy where
  "default_policy =
     \<lparr>tp_gpu_enter = 85, tp_gpu_release = 75, tp_power_frac = 55 / 100, tp_power_release = 45 / 100, tp_settle_cycles = 3,
      tp_ema_alpha = 1 / 4, tp_min_samples = 8, tp_regression_pct = 10, tp_harvest_step = 5 / 100, tp_harvest_floor = 70 / 100,
      tp_freeze_cycles = 40, tp_accept_low = 40, tp_accept_high = 75, tp_depth_min = 1, tp_depth_max = 8\<rparr>"

record tuner_snapshot =
  ts_tok_s :: "pyfloat option"
  ts_p95 :: "pyfloat option"
  ts_slow_ratio :: "pyfloat option"
  ts_gpu_util :: "pyfloat option"
  ts_power_draw :: "pyfloat option"
  ts_power_limit :: "pyfloat option"
  ts_sm_clock :: "pyfloat option"
  ts_sm_clock_max :: "pyfloat option"
  ts_vram_fill :: "pyfloat option"
  ts_t2_overflow :: "pyfloat option"
  ts_draft_accept :: "pyfloat option"
  ts_draft_depth :: "int option"
  ts_serving :: bool

datatype action = Harvest | Restore | SetLever | HoldLever | Observe

datatype reason =
    NothingServed | Settling int | FewSamples int int | Regressed pyfloat pyfloat pyfloat | GpuBoundAgain
  | Frozen string int | NoClock | ClockLow pyfloat pyfloat | FloorReached string pyfloat
  | LinkBound pyfloat "(pyfloat \<times> pyfloat) option" pyfloat | FewAccepted pyfloat int | ManyAccepted pyfloat int
  | NothingToMove bottleneck

record decision =
  de_lever :: string
  de_action :: action
  de_value :: "int option"
  de_reason :: reason
  de_verify :: bool

record tuner_state =
  st_baseline :: "pyfloat option"
  st_samples :: int
  st_settle :: int
  st_bottleneck :: bottleneck
  st_frozen :: "(string, int) pydict"
  st_harvest :: "(string, pyfloat) pydict"
  st_last_action :: "pyfloat option"
  st_ticks :: int

definition new_tuner_state :: tuner_state where
  "new_tuner_state = \<lparr>st_baseline = None, st_samples = 0, st_settle = 0, st_bottleneck = Unknown, st_frozen = [],
     st_harvest = [], st_last_action = None, st_ticks = 0\<rparr>"

datatype tuner_error = FormatsNone

section \<open>The rules\<close>

text \<open>\<open>x\<close> as a condition: present and not zero.\<close>

definition truthy :: "pyfloat option \<Rightarrow> bool" where
  "truthy x \<longleftrightarrow> x \<noteq> None \<and> x \<noteq> Some 0"

definition spilled :: "tuner_snapshot \<Rightarrow> bool" where
  "spilled snap = (case ts_t2_overflow snap of None \<Rightarrow> False | Some x \<Rightarrow> x > 0)"

definition power_frac :: "tuner_snapshot \<Rightarrow> pyfloat option" where
  "power_frac snap =
     (case ts_power_draw snap of
        None \<Rightarrow> None
      | Some d \<Rightarrow> if truthy (ts_power_limit snap) then Some (d / the (ts_power_limit snap)) else None)"

definition classify :: "tuner_snapshot \<Rightarrow> bottleneck \<Rightarrow> tuner_policy \<Rightarrow> bottleneck" where
  "classify snap current p =
     (case power_frac snap of
        Some f \<Rightarrow>
          if current = GpuBound then
            (if f \<ge> tp_power_release p then GpuBound else if spilled snap then BandwidthBound else Unknown)
          else if f \<ge> tp_power_frac p then GpuBound
          else if spilled snap then BandwidthBound
          else Unknown
      | None \<Rightarrow>
          (case ts_gpu_util snap of
             None \<Rightarrow> current
           | Some util \<Rightarrow>
               if current = GpuBound then
                 (if util < tp_gpu_release p then (if spilled snap then BandwidthBound else Unknown) else GpuBound)
               else if util \<ge> tp_gpu_enter p then GpuBound
               else if spilled snap then BandwidthBound else current))"

definition CLOCKS :: string where "CLOCKS = ''gpu_clocks_locked''"

abbreviation plain :: "string \<Rightarrow> action \<Rightarrow> reason \<Rightarrow> decision" where
  "plain lever act why \<equiv> \<lparr>de_lever = lever, de_action = act, de_value = None, de_reason = why, de_verify = False\<rparr>"

definition harvest :: "tuner_snapshot \<Rightarrow> tuner_state \<Rightarrow> tuner_policy \<Rightarrow> tuner_error + decision list \<times> tuner_state" where
  "harvest snap st p =
     (case dict_get (st_frozen st) CLOCKS of
        Some n \<Rightarrow> Inr ([plain ''none'' Observe (Frozen CLOCKS n)], st)
      | None \<Rightarrow>
          if \<not> truthy (ts_sm_clock snap) \<or> \<not> truthy (ts_sm_clock_max snap) then Inr ([plain ''none'' Observe NoClock], st)
          else
            let clock = the (ts_sm_clock snap); top = the (ts_sm_clock_max snap) in
            if clock < top * tp_harvest_floor p then Inr ([plain ''none'' Observe (ClockLow clock top)], st)
            else
              let level = (case dict_get (st_harvest st) CLOCKS of None \<Rightarrow> 1 | Some l \<Rightarrow> l); nxt = level - tp_harvest_step p in
              if nxt < tp_harvest_floor p then Inr ([plain ''none'' HoldLever (FloorReached CLOCKS level)], st)
              else
                let st' = st\<lparr>st_harvest := dict_set CLOCKS nxt (st_harvest st), st_settle := tp_settle_cycles p, st_last_action := st_baseline st\<rparr>;
                    draw = (if ts_power_draw snap \<noteq> None \<and> truthy (ts_power_limit snap)
                      then Some (the (ts_power_draw snap), the (ts_power_limit snap)) else None) in
                (case ts_t2_overflow snap of
                   None \<Rightarrow> Inl FormatsNone
                 | Some mb \<Rightarrow>
                     Inr ([\<lparr>de_lever = CLOCKS, de_action = Harvest, de_value = Some (py_int (top * nxt)),
                            de_reason = LinkBound mb draw clock, de_verify = True\<rparr>], st')))"

definition decide_draft_depth :: "tuner_snapshot \<Rightarrow> tuner_state \<Rightarrow> tuner_policy \<Rightarrow> decision option" where
  "decide_draft_depth snap st p =
     (if dict_get (st_frozen st) ''mtp_draft_n'' \<noteq> None then None
      else case (ts_draft_depth snap, ts_draft_accept snap) of
          (Some depth, Some acc) \<Rightarrow>
            if depth = 0 then None
            else if acc < tp_accept_low p \<and> depth > tp_depth_min p
            then Some \<lparr>de_lever = ''mtp_draft_n'', de_action = SetLever, de_value = Some (depth - 1), de_reason = FewAccepted acc depth, de_verify = True\<rparr>
            else if acc > tp_accept_high p \<and> depth < tp_depth_max p \<and> st_bottleneck st = BandwidthBound
            then Some \<lparr>de_lever = ''mtp_draft_n'', de_action = SetLever, de_value = Some (depth + 1), de_reason = ManyAccepted acc depth, de_verify = True\<rparr>
            else None
        | _ \<Rightarrow> None)"

definition thaw :: "(string, int) pydict \<Rightarrow> (string, int) pydict" where
  "thaw frozen = filter (\<lambda>(_, n). n > 0) (map (\<lambda>(l, n). (l, n - 1)) frozen)"

definition update_baseline :: "tuner_snapshot \<Rightarrow> tuner_policy \<Rightarrow> tuner_state \<Rightarrow> tuner_state" where
  "update_baseline snap p st =
     (case ts_tok_s snap of
        None \<Rightarrow> st
      | Some t \<Rightarrow>
          if t > 0 then
            st\<lparr>st_baseline := Some (case st_baseline st of None \<Rightarrow> t | Some b \<Rightarrow> (1 - tp_ema_alpha p) * b + tp_ema_alpha p * t),
               st_samples := st_samples st + 1\<rparr>
          else st)"

definition regressed :: "tuner_snapshot \<Rightarrow> tuner_policy \<Rightarrow> tuner_state \<Rightarrow> bool" where
  "regressed snap p st \<longleftrightarrow>
     truthy (st_last_action st) \<and> st_samples st \<ge> tp_min_samples p \<and> truthy (ts_tok_s snap) \<and>
     the (ts_tok_s snap) < the (st_last_action st) * (1 - tp_regression_pct p / 100)"

definition restore_all :: "tuner_state \<Rightarrow> reason \<Rightarrow> decision list" where
  "restore_all st why = map (\<lambda>lever. plain lever Restore why) (dict_keys (st_harvest st))"

text \<open>The second half of a tick: harvest or give back, then the depth of speculation.\<close>

definition actuate :: "tuner_snapshot \<Rightarrow> tuner_policy \<Rightarrow> tuner_state \<Rightarrow> tuner_error + decision list \<times> tuner_state" where
  "actuate snap p st =
     bind_result
       (case st_bottleneck st of
          BandwidthBound \<Rightarrow>
            if st_samples st < tp_min_samples p
            then Inr ([plain ''none'' Observe (FewSamples (st_samples st) (tp_min_samples p))], st)
            else harvest snap st p
        | GpuBound \<Rightarrow>
            let out = restore_all st GpuBoundAgain in
            Inr (out, st\<lparr>st_harvest := [], st_settle := (if out \<noteq> [] then tp_settle_cycles p else st_settle st)\<rparr>)
        | _ \<Rightarrow> Inr ([], st))
       (\<lambda>(out, st).
          let out = out @ (case decide_draft_depth snap st p of None \<Rightarrow> [] | Some d \<Rightarrow> [d]) in
          Inr (if out = [] then [plain ''none'' HoldLever (NothingToMove (st_bottleneck st))] else out, st))"

definition next_tick :: "tuner_state \<Rightarrow> tuner_state" where
  "next_tick st = st\<lparr>st_ticks := st_ticks st + 1, st_frozen := thaw (st_frozen st)\<rparr>"

definition measured :: "tuner_snapshot \<Rightarrow> tuner_policy \<Rightarrow> tuner_state \<Rightarrow> tuner_state" where
  "measured snap p st =
     (let st = update_baseline snap p st in st\<lparr>st_bottleneck := classify snap (st_bottleneck st) p\<rparr>)"

definition decide_tick :: "tuner_snapshot \<Rightarrow> tuner_policy \<Rightarrow> tuner_state \<Rightarrow> tuner_error + decision list \<times> tuner_state" where
  "decide_tick snap p state =
     (let st = next_tick state in
      if \<not> ts_serving snap then Inr ([plain ''none'' Observe NothingServed], st\<lparr>st_bottleneck := Idle\<rparr>)
      else if st_settle st > 0 then
        (let st = st\<lparr>st_settle := st_settle st - 1\<rparr> in
         Inr ([(plain ''none'' Observe (Settling (st_settle st)))\<lparr>de_value := Some (st_settle st)\<rparr>], st))
      else
        let st = measured snap p st in
        if regressed snap p st \<and> st_harvest st \<noteq> [] then
          (let why = Regressed (the (ts_tok_s snap)) (the (st_last_action st)) (tp_regression_pct p) in
           Inr (restore_all st why,
             st\<lparr>st_frozen := fold (\<lambda>lever. dict_set lever (tp_freeze_cycles p)) (dict_keys (st_harvest st)) (st_frozen st),
                st_harvest := [], st_last_action := None, st_settle := tp_settle_cycles p\<rparr>))
        else actuate snap p st)"

section \<open>What the state keeps\<close>

definition policy_ok :: "tuner_policy \<Rightarrow> bool" where
  "policy_ok p \<longleftrightarrow> 0 < tp_freeze_cycles p \<and> 0 \<le> tp_settle_cycles p \<and> 0 \<le> tp_harvest_step p"

definition tuner_inv :: "tuner_policy \<Rightarrow> tuner_state \<Rightarrow> bool" where
  "tuner_inv p st \<longleftrightarrow>
     dict_wf (st_harvest st) \<and> set (dict_keys (st_harvest st)) \<subseteq> {CLOCKS} \<and>
     (\<forall>l \<in> set (dict_values (st_harvest st)). tp_harvest_floor p \<le> l \<and> l \<le> 1) \<and>
     dict_wf (st_frozen st) \<and> (\<forall>n \<in> set (dict_values (st_frozen st)). 0 < n \<and> n \<le> tp_freeze_cycles p) \<and>
     set (dict_keys (st_frozen st)) \<inter> set (dict_keys (st_harvest st)) = {} \<and>
     0 \<le> st_settle st \<and> st_settle st \<le> tp_settle_cycles p"

lemma tuner_invI:
  assumes "tuner_inv p st" "st_harvest st' = st_harvest st" "st_frozen st' = st_frozen st" "0 \<le> st_settle st'" "st_settle st' \<le> tp_settle_cycles p"
  shows "tuner_inv p st'"
  using assms by (simp add: tuner_inv_def)

lemma thaw_keys: "set (dict_keys (thaw f)) \<subseteq> set (dict_keys f)"
  by (force simp: thaw_def)

lemma thaw_wf: "dict_wf f \<Longrightarrow> dict_wf (thaw f)"
proof (induction f)
  case (Cons x f)
  obtain l n where x: "x = (l, n)" by (cases x)
  have "l \<notin> set (dict_keys (thaw f))" using Cons.prems thaw_keys [of f] by (auto simp: x)
  with Cons show ?case by (auto simp: x thaw_def)
qed (simp add: thaw_def)

lemma thaw_values: "n \<in> set (dict_values (thaw f)) \<Longrightarrow> \<exists>m \<in> set (dict_values f). n = m - 1 \<and> 0 < n"
  by (force simp: thaw_def)

lemma thaw_inv: "tuner_inv p st \<Longrightarrow> tuner_inv p (st\<lparr>st_ticks := k, st_frozen := thaw (st_frozen st)\<rparr>)"
proof -
  assume i: "tuner_inv p st"
  have "0 < n \<and> n \<le> tp_freeze_cycles p" if "n \<in> set (dict_values (thaw (st_frozen st)))" for n
    using thaw_values [OF that] i by (force simp: tuner_inv_def)
  moreover have "set (dict_keys (thaw (st_frozen st))) \<inter> set (dict_keys (st_harvest st)) = {}"
    using thaw_keys [of "st_frozen st"] i unfolding tuner_inv_def by blast
  ultimately show ?thesis using i thaw_wf [of "st_frozen st"] unfolding tuner_inv_def by (simp del: set_map list.set_map)
qed

lemma baseline_keeps [simp]:
  "st_harvest (update_baseline snap p st) = st_harvest st" "st_frozen (update_baseline snap p st) = st_frozen st"
  "st_settle (update_baseline snap p st) = st_settle st"
  by (simp_all add: update_baseline_def split: option.split)

lemma dict_values_set_sub: "set (dict_values (dict_set k v d)) \<subseteq> insert v (set (dict_values d))"
  by (induction d) auto

lemma freeze_all:
  "dict_wf f \<Longrightarrow> dict_wf (fold (\<lambda>l. dict_set l n) ls f)"
  "set (dict_keys (fold (\<lambda>l. dict_set l n) ls f)) = set (dict_keys f) \<union> set ls"
  "set (dict_values (fold (\<lambda>l. dict_set l n) ls f)) \<subseteq> insert n (set (dict_values f))"
proof -
  show "dict_wf f \<Longrightarrow> dict_wf (fold (\<lambda>l. dict_set l n) ls f)" by (induction ls arbitrary: f) (simp_all del: map_map)
  show "set (dict_keys (fold (\<lambda>l. dict_set l n) ls f)) = set (dict_keys f) \<union> set ls"
    by (induction ls arbitrary: f) (auto simp: dict_keys_set_set simp del: set_map list.set_map)
  show "set (dict_values (fold (\<lambda>l. dict_set l n) ls f)) \<subseteq> insert n (set (dict_values f))"
  proof (induction ls arbitrary: f)
    case (Cons l ls)
    from Cons.IH [of "dict_set l n f"] dict_values_set_sub [of l n f] show ?case by (simp only: fold_simps) blast
  qed auto
qed

lemma harvest_inv:
  assumes "policy_ok p" "tuner_inv p st" "harvest snap st p = Inr (ds, st')"
  shows "tuner_inv p st'" "st_samples st' = st_samples st" "st_bottleneck st' = st_bottleneck st"
    "d \<in> set ds \<Longrightarrow> de_action d = Harvest \<Longrightarrow> de_lever d = CLOCKS \<and> st_settle st' = tp_settle_cycles p \<and>
       dict_get (st_frozen st') CLOCKS = None \<and>
       (\<exists>l. dict_get (st_harvest st') CLOCKS = Some l \<and> tp_harvest_floor p \<le> l \<and> de_value d = Some (py_int (the (ts_sm_clock_max snap) * l)))"
proof -
  let ?level = "case dict_get (st_harvest st) CLOCKS of None \<Rightarrow> 1 | Some l \<Rightarrow> l"
  let ?nxt = "?level - tp_harvest_step p"
  let ?st = "st\<lparr>st_harvest := dict_set CLOCKS ?nxt (st_harvest st), st_settle := tp_settle_cycles p, st_last_action := st_baseline st\<rparr>"
  have lev: "?level \<le> 1"
    using assms(2) by (auto simp: tuner_inv_def split: option.split dest!: map_of_SomeD)
  have inv: "tuner_inv p ?st" if "dict_get (st_frozen st) CLOCKS = None" "tp_harvest_floor p \<le> ?nxt"
  proof -
    have k: "set (dict_keys (dict_set CLOCKS ?nxt (st_harvest st))) \<subseteq> {CLOCKS}"
      using assms(2) by (auto simp: tuner_inv_def dict_keys_set_set simp del: set_map list.set_map)
    have v: "set (dict_values (dict_set CLOCKS ?nxt (st_harvest st))) \<subseteq> insert ?nxt (set (dict_values (st_harvest st)))"
      by (rule dict_values_set_sub)
    have f: "CLOCKS \<notin> set (dict_keys (st_frozen st))" by (metis dict_get_None_iff that(1))
    have nx: "?nxt \<le> 1" using lev assms(1) by (simp add: policy_ok_def)
    show ?thesis using assms(1,2) k v f nx that(2) unfolding tuner_inv_def policy_ok_def by (auto simp del: set_map list.set_map)
  qed
  show "tuner_inv p st'" "st_samples st' = st_samples st" "st_bottleneck st' = st_bottleneck st"
    "d \<in> set ds \<Longrightarrow> de_action d = Harvest \<Longrightarrow> de_lever d = CLOCKS \<and> st_settle st' = tp_settle_cycles p \<and>
       dict_get (st_frozen st') CLOCKS = None \<and>
       (\<exists>l. dict_get (st_harvest st') CLOCKS = Some l \<and> tp_harvest_floor p \<le> l \<and> de_value d = Some (py_int (the (ts_sm_clock_max snap) * l)))"
    using assms(2,3) inv unfolding harvest_def Let_def by (auto split: option.splits if_splits)
qed

lemma actuate_inv:
  assumes "policy_ok p" "tuner_inv p st" "actuate snap p st = Inr (ds, st')"
  shows "tuner_inv p st'"
    "d \<in> set ds \<Longrightarrow> de_action d = Harvest \<Longrightarrow> de_lever d = CLOCKS \<and> st_settle st' = tp_settle_cycles p \<and>
       st_bottleneck st' = BandwidthBound \<and> tp_min_samples p \<le> st_samples st' \<and> dict_get (st_frozen st') CLOCKS = None \<and>
       (\<exists>l. dict_get (st_harvest st') CLOCKS = Some l \<and> tp_harvest_floor p \<le> l \<and> de_value d = Some (py_int (the (ts_sm_clock_max snap) * l)))"
proof -
  let ?first = "case st_bottleneck st of
          BandwidthBound \<Rightarrow>
            if st_samples st < tp_min_samples p
            then Inr ([plain ''none'' Observe (FewSamples (st_samples st) (tp_min_samples p))], st)
            else harvest snap st p
        | GpuBound \<Rightarrow>
            let out = restore_all st GpuBoundAgain in
            Inr (out, st\<lparr>st_harvest := [], st_settle := (if out \<noteq> [] then tp_settle_cycles p else st_settle st)\<rparr>)
        | _ \<Rightarrow> Inr ([], st)"
  obtain out where f: "?first = Inr (out, st')"
    and ds: "ds = (let out = out @ (case decide_draft_depth snap st' p of None \<Rightarrow> [] | Some d \<Rightarrow> [d]) in
      if out = [] then [plain ''none'' HoldLever (NothingToMove (st_bottleneck st'))] else out)"
    using assms(3) unfolding actuate_def bind_result_Inr_iff by (auto simp: Let_def)
  have dd: "de_action d \<noteq> Harvest" if "decide_draft_depth snap st' p = Some d" for d
    using that by (auto simp: decide_draft_depth_def split: if_splits option.splits)
  have mem: "d \<in> set out" if "d \<in> set ds" "de_action d = Harvest" for d
    using that dd unfolding ds Let_def by (auto split: if_splits option.splits)
  have g: "tuner_inv p (st\<lparr>st_harvest := [], st_settle := n\<rparr>)" if "n = st_settle st \<or> n = tp_settle_cycles p" for n
    using assms(1,2) that by (auto simp: tuner_inv_def policy_ok_def)
  have g0: "tuner_inv p (st\<lparr>st_harvest := []\<rparr>)" using assms(2) by (auto simp: tuner_inv_def)
  show "tuner_inv p st'"
    using f assms(2) harvest_inv(1) [OF assms(1,2), of snap out st'] g g0
    by (auto simp: Let_def split: bottleneck.splits if_splits)
  show "de_lever d = CLOCKS \<and> st_settle st' = tp_settle_cycles p \<and>
       st_bottleneck st' = BandwidthBound \<and> tp_min_samples p \<le> st_samples st' \<and> dict_get (st_frozen st') CLOCKS = None \<and>
       (\<exists>l. dict_get (st_harvest st') CLOCKS = Some l \<and> tp_harvest_floor p \<le> l \<and> de_value d = Some (py_int (the (ts_sm_clock_max snap) * l)))"
    if "d \<in> set ds" "de_action d = Harvest"
    using f mem [OF that] that(2) harvest_inv(2-4) [OF assms(1,2), of snap out st']
    by (auto simp: Let_def restore_all_def split: bottleneck.splits if_splits)
qed

fun run_ticks :: "tuner_policy \<Rightarrow> tuner_snapshot list \<Rightarrow> tuner_state \<Rightarrow> tuner_error + tuner_state" where
  "run_ticks p [] st = Inr st"
| "run_ticks p (snap # snaps) st = bind_result (decide_tick snap p st) (\<lambda>(_, st). run_ticks p snaps st)"

lemma tick_inv:
  assumes "policy_ok p" "tuner_inv p st" "decide_tick snap p st = Inr (ds, st')"
  shows "tuner_inv p st'"
    "d \<in> set ds \<Longrightarrow> de_action d = Harvest \<Longrightarrow> st_settle st = 0 \<and> de_lever d = CLOCKS \<and> st_settle st' = tp_settle_cycles p \<and>
       st_bottleneck st' = BandwidthBound \<and> tp_min_samples p \<le> st_samples st' \<and> dict_get (st_frozen st') CLOCKS = None \<and>
       (\<exists>l. dict_get (st_harvest st') CLOCKS = Some l \<and> tp_harvest_floor p \<le> l \<and> de_value d = Some (py_int (the (ts_sm_clock_max snap) * l)))"
proof -
  let ?st0 = "next_tick st" and ?st1 = "measured snap p (next_tick st)"
  have i0: "tuner_inv p ?st0" unfolding next_tick_def by (rule thaw_inv [OF assms(2)])
  have s0: "st_settle ?st0 = st_settle st" by (simp add: next_tick_def)
  have i1: "tuner_inv p ?st1"
    by (rule tuner_invI [OF i0]) (use i0 in \<open>simp_all add: tuner_inv_def measured_def Let_def\<close>)
  consider (idle) "\<not> ts_serving snap" | (settle) "ts_serving snap" "st_settle st > 0"
    | (regress) "ts_serving snap" "\<not> st_settle st > 0" "regressed snap p ?st1 \<and> st_harvest ?st1 \<noteq> []"
    | (act) "ts_serving snap" "\<not> st_settle st > 0" "\<not> (regressed snap p ?st1 \<and> st_harvest ?st1 \<noteq> [])" by blast
  then have "tuner_inv p st' \<and> (\<forall>d \<in> set ds. de_action d = Harvest \<longrightarrow> st_settle st = 0 \<and> de_lever d = CLOCKS \<and> st_settle st' = tp_settle_cycles p \<and>
       st_bottleneck st' = BandwidthBound \<and> tp_min_samples p \<le> st_samples st' \<and> dict_get (st_frozen st') CLOCKS = None \<and>
       (\<exists>l. dict_get (st_harvest st') CLOCKS = Some l \<and> tp_harvest_floor p \<le> l \<and> de_value d = Some (py_int (the (ts_sm_clock_max snap) * l))))"
  proof cases
    case idle
    then have "ds = [plain ''none'' Observe NothingServed]" "st' = ?st0\<lparr>st_bottleneck := Idle\<rparr>"
      using assms(3) by (auto simp: decide_tick_def Let_def)
    moreover have "tuner_inv p (?st0\<lparr>st_bottleneck := Idle\<rparr>)"
      by (rule tuner_invI [OF i0]) (use i0 in \<open>simp_all add: tuner_inv_def\<close>)
    ultimately show ?thesis by simp
  next
    case settle
    then have "ds = [(plain ''none'' Observe (Settling (st_settle st - 1)))\<lparr>de_value := Some (st_settle st - 1)\<rparr>]" "st' = ?st0\<lparr>st_settle := st_settle st - 1\<rparr>"
      using assms(3) s0 by (auto simp: decide_tick_def Let_def)
    moreover have "tuner_inv p (?st0\<lparr>st_settle := st_settle st - 1\<rparr>)"
      by (rule tuner_invI [OF i0]) (use i0 s0 settle in \<open>simp_all add: tuner_inv_def\<close>)
    ultimately show ?thesis by simp
  next
    case regress
    let ?frozen = "fold (\<lambda>lever. dict_set lever (tp_freeze_cycles p)) (dict_keys (st_harvest ?st1)) (st_frozen ?st1)"
    have "decide_tick snap p st = Inr (restore_all ?st1 (Regressed (the (ts_tok_s snap)) (the (st_last_action ?st1)) (tp_regression_pct p)),
        ?st1\<lparr>st_frozen := ?frozen, st_harvest := [], st_last_action := None, st_settle := tp_settle_cycles p\<rparr>)"
      using regress s0 unfolding decide_tick_def Let_def by simp
    moreover have "tuner_inv p (?st1\<lparr>st_frozen := ?frozen, st_harvest := [], st_last_action := None, st_settle := tp_settle_cycles p\<rparr>)"
      using i1 assms(1) freeze_all(1) [of "st_frozen ?st1" "tp_freeze_cycles p" "dict_keys (st_harvest ?st1)"]
        freeze_all(3) [of "tp_freeze_cycles p" "dict_keys (st_harvest ?st1)" "st_frozen ?st1"]
      unfolding tuner_inv_def policy_ok_def by (auto simp del: set_map list.set_map)
    ultimately show ?thesis using assms(3) by (auto simp: restore_all_def)
  next
    case act
    then have "actuate snap p ?st1 = Inr (ds, st')" using assms(3) s0 unfolding decide_tick_def Let_def by (simp only: if_False if_True not_True_eq_False not_False_eq_True)
    moreover have "st_settle st = 0" using act(2) assms(2) by (simp add: tuner_inv_def)
    ultimately show ?thesis using actuate_inv [OF assms(1) i1, of snap ds st'] by blast
  qed
  then show "tuner_inv p st'"
    "d \<in> set ds \<Longrightarrow> de_action d = Harvest \<Longrightarrow> st_settle st = 0 \<and> de_lever d = CLOCKS \<and> st_settle st' = tp_settle_cycles p \<and>
       st_bottleneck st' = BandwidthBound \<and> tp_min_samples p \<le> st_samples st' \<and> dict_get (st_frozen st') CLOCKS = None \<and>
       (\<exists>l. dict_get (st_harvest st') CLOCKS = Some l \<and> tp_harvest_floor p \<le> l \<and> de_value d = Some (py_int (the (ts_sm_clock_max snap) * l)))"
    by blast+
qed

lemma run_inv: "policy_ok p \<Longrightarrow> tuner_inv p st \<Longrightarrow> run_ticks p snaps st = Inr st' \<Longrightarrow> tuner_inv p st'"
  by (induction p snaps st rule: run_ticks.induct) (auto simp: bind_result_Inr_iff dest: tick_inv(1))

lemma new_state_inv: "policy_ok p \<Longrightarrow> tuner_inv p new_tuner_state"
  by (simp add: tuner_inv_def new_tuner_state_def policy_ok_def)


definition demo_reading :: tuner_snapshot where
  "demo_reading =
     \<lparr>ts_tok_s = Some 5, ts_p95 = None, ts_slow_ratio = None, ts_gpu_util = Some 100, ts_power_draw = Some 50, ts_power_limit = Some 300,
      ts_sm_clock = Some 2685, ts_sm_clock_max = Some 2700, ts_vram_fill = None, ts_t2_overflow = Some 4096, ts_draft_accept = None,
      ts_draft_depth = None, ts_serving = True\<rparr>"

lemma demo_harvest:
  "(case run_ticks default_policy (replicate 7 demo_reading) new_tuner_state of
      Inl _ \<Rightarrow> None
    | Inr st \<Rightarrow> (case decide_tick demo_reading default_policy st of Inl _ \<Rightarrow> None | Inr (ds, st') \<Rightarrow> Some (map de_action ds, map de_value ds)))
     = Some ([Harvest], [Some 2565])"
  by code_simp


text \<open>A card that was waiting for the link and whose power, utilisation and overflow are no longer read stays
  \<open>BandwidthBound\<close>; the harvest then formats the overflow that is missing, and the tick raises.\<close>

lemma missing_sensor_raises:
  "run_ticks default_policy (replicate 7 demo_reading @
     [demo_reading\<lparr>ts_gpu_util := None, ts_power_draw := None, ts_t2_overflow := None\<rparr>]) new_tuner_state = Inl FormatsNone"
  by code_simp

end
