(* ===== verification/Placement.thy ===== *)
theory Placement
  imports GB_Prelude
begin

text \<open>
  The placement planner of \<^verbatim>\<open>gb_placement.py\<close>: where a model lives so that it keeps eight bits, how the experts of
  a mixture are spread over the tiers, how units are apportioned to nodes, and how many layers the devices hold.
  Telemetry (feeders, topology, the memory pool, environment variables) is an argument; a log line or a note is
  a constructor.
\<close>

section \<open>The decision ladder\<close>

datatype strategy = LOCAL_FP8 | CLUSTER_SPLIT | LOCAL_TIERED_FP8 | SUB_FP8_LAST_RESORT

datatype floor_bits = Fp8 | SubFp8

datatype plan_note = FitsT1 | TensorSplitOverFeeders | OffloadTail bool | FitsT1T2 | NothingHolds

record placement_plan =
  pp_strategy :: strategy
  pp_floor :: floor_bits
  pp_split :: "pyfloat list option"
  pp_tail :: "int option"
  pp_aggregate :: pyfloat
  pp_feeders :: nat
  pp_note :: plan_note
  pp_weights :: pyfloat
  pp_kv :: pyfloat
  pp_t1 :: pyfloat

definition keeps_fp8 :: "placement_plan \<Rightarrow> bool" where
  "keeps_fp8 p \<longleftrightarrow> pp_floor p = Fp8"

text \<open>\<open>mb\<close> is the integer in the environment variable, \<open>None\<close> when it holds something else.\<close>

definition workspace_reserve_gb :: "int option \<Rightarrow> pyfloat" where
  "workspace_reserve_gb mb = (case mb of None \<Rightarrow> 0 | Some n \<Rightarrow> of_int (max 0 n) / 1024)"

text \<open>The feeders that \<open>gb_cluster.feeders\<close> reports, as online flag and free MiB; \<open>None\<close> when the call raises.\<close>

definition online_feeder_free_gb :: "(bool \<times> pyfloat) list option \<Rightarrow> pyfloat list" where
  "online_feeder_free_gb fs =
     (case fs of None \<Rightarrow> [] | Some fs \<Rightarrow> map (\<lambda>(_, mb). mb / 1024) (filter (\<lambda>(on, mb). on \<and> mb > 0) fs))"

text \<open>The ratios as they are printed, with three decimals, host first.\<close>

definition tensor_split_ratio :: "pyfloat \<Rightarrow> pyfloat list \<Rightarrow> pyfloat list" where
  "tensor_split_ratio t1 feeders =
     (let shares = max t1 (1 / 10) # map (\<lambda>g. max g (1 / 10)) feeders; whole = sum_list shares
      in map (\<lambda>s. py_round_n 3 (s / whole)) shares)"

definition tail_blocks :: "pyfloat \<Rightarrow> pyfloat option \<Rightarrow> int option \<Rightarrow> int option" where
  "tail_blocks deficit per_block n_blocks =
     (case per_block of
        None \<Rightarrow> None
      | Some b \<Rightarrow>
          if b > 0 then
            let tail = \<lceil>deficit / b\<rceil> in
            Some (case n_blocks of None \<Rightarrow> tail | Some n \<Rightarrow> if n = 0 then tail else min tail (n - 1))
          else None)"

text \<open>\<open>feeder_free\<close> is \<open>None\<close> to probe the live feeders; \<open>gguf\<close> is the kind of runtime.\<close>

definition plan_placement ::
  "int option \<Rightarrow> (bool \<times> pyfloat) list option \<Rightarrow> bool \<Rightarrow> pyfloat \<Rightarrow> pyfloat \<Rightarrow> pyfloat \<Rightarrow> pyfloat \<Rightarrow> bool \<Rightarrow> pyfloat list option \<Rightarrow>
   pyfloat option \<Rightarrow> int option \<Rightarrow> placement_plan" where
  "plan_placement mb cluster gguf weights kv t1 t2 probe feeder_free per_block n_blocks =
     (let feeders = (case feeder_free of Some fs \<Rightarrow> fs | None \<Rightarrow> if probe then online_feeder_free_gb cluster else []);
          aggregate = t1 + sum_list feeders;
          footprint = weights + kv;
          reserve = workspace_reserve_gb mb;
          mk = (\<lambda>s fl split tail note.
            \<lparr>pp_strategy = s, pp_floor = fl, pp_split = split, pp_tail = tail, pp_aggregate = py_round_n 2 aggregate,
             pp_feeders = length feeders, pp_note = note, pp_weights = py_round_n 2 weights, pp_kv = py_round_n 2 kv,
             pp_t1 = py_round_n 2 t1\<rparr>)
      in if footprint + reserve \<le> t1 then mk LOCAL_FP8 Fp8 None None FitsT1
         else if feeders \<noteq> [] \<and> footprint \<le> aggregate then
           if gguf then mk CLUSTER_SPLIT Fp8 (Some (tensor_split_ratio t1 feeders)) None TensorSplitOverFeeders
           else let tail = tail_blocks (max 0 (footprint - (t1 - reserve))) per_block n_blocks in
             mk CLUSTER_SPLIT Fp8 None tail (OffloadTail (tail \<noteq> None))
         else if footprint \<le> t1 + t2 then mk LOCAL_TIERED_FP8 Fp8 None None FitsT1T2
         else mk SUB_FP8_LAST_RESORT SubFp8 None None NothingHolds)"

section \<open>Experts over the tiers\<close>

datatype bottleneck_note = DiskMisses | CpuExperts | GpuCompute

datatype expert_warning = VramUndetectable | DenseExceedsFill pyfloat | DoNotFit pyfloat

record expert_plan =
  xp_fill :: pyfloat
  xp_dense :: pyfloat
  xp_expert :: pyfloat
  xp_kv :: pyfloat
  xp_vram :: pyfloat
  xp_reserve :: pyfloat
  xp_hot :: pyfloat
  xp_t2 :: pyfloat
  xp_warm :: pyfloat
  xp_cold :: pyfloat
  xp_bottleneck :: bottleneck_note
  xp_warnings :: "expert_warning list"

text \<open>Hot, warm and cold bytes from what VRAM and the DDR pool hold.\<close>

definition expert_tiers :: "pyfloat \<Rightarrow> pyfloat \<Rightarrow> pyfloat \<Rightarrow> pyfloat \<times> pyfloat \<times> pyfloat" where
  "expert_tiers expert room t2 =
     (let hot = min expert room; warm = min (max 0 (expert - hot)) (max 0 t2)
      in (hot, warm, max 0 (expert - hot - warm)))"

definition expert_room :: "pyfloat \<Rightarrow> pyfloat \<Rightarrow> pyfloat \<Rightarrow> pyfloat \<Rightarrow> pyfloat \<Rightarrow> pyfloat" where
  "expert_room vram fill reserve kv dense = max 0 (vram * fill / 100 - reserve - kv - dense)"

text \<open>\<open>topo\<close> is the VRAM that \<open>gb_topology\<close> reports with its reserve for compute buffers, \<open>None\<close> without it; \<open>pool\<close>
  is the DDR pool read from the kernel module.\<close>

definition plan_experts ::
  "(pyfloat \<times> (pyfloat \<Rightarrow> pyfloat)) option \<Rightarrow> pyfloat \<Rightarrow> pyfloat \<Rightarrow> pyfloat \<Rightarrow> pyfloat \<Rightarrow> pyfloat option \<Rightarrow> pyfloat option \<Rightarrow> pyfloat option \<Rightarrow>
   expert_plan" where
  "plan_experts topo pool dense expert kv vram_gb t2_gb fill_pct =
     (let vram = (case vram_gb of Some v \<Rightarrow> v | None \<Rightarrow> (case topo of None \<Rightarrow> 0 | Some (v, _) \<Rightarrow> if v > 0 then v else 0));
          t2 = (case t2_gb of Some t \<Rightarrow> t | None \<Rightarrow> pool);
          fill = (case fill_pct of Some f \<Rightarrow> f | None \<Rightarrow> 90);
          reserve = (case topo of Some (_, res) \<Rightarrow> if vram > 0 then res (vram * 1024) else max (3 / 4) (8 / 100 * vram)
                     | None \<Rightarrow> max (3 / 4) (8 / 100 * vram));
          w1 = (if vram \<le> 0 then [VramUndetectable] else []);
          room = expert_room vram fill reserve kv dense;
          w2 = (if dense > vram * fill / 100 then [DenseExceedsFill dense] else []) in
      case expert_tiers expert room t2 of (hot, warm, cold) \<Rightarrow>
        \<lparr>xp_fill = fill, xp_dense = py_round_n 2 dense, xp_expert = py_round_n 2 expert, xp_kv = py_round_n 2 kv,
         xp_vram = py_round_n 2 vram, xp_reserve = py_round_n 2 reserve, xp_hot = py_round_n 2 hot,
         xp_t2 = py_round_n 2 t2, xp_warm = py_round_n 2 warm, xp_cold = py_round_n 2 cold,
         xp_bottleneck = (if cold > 0 then DiskMisses else if warm > 0 then CpuExperts else GpuCompute),
         xp_warnings = w1 @ w2 @ (if cold > 0 then [DoNotFit cold] else [])\<rparr>)"

section \<open>Apportioning units\<close>

definition total_weight :: "pyfloat list \<Rightarrow> pyfloat" where
  "total_weight ws = (let s = sum_list (filter (\<lambda>w. w > 0) ws) in if s = 0 then 1 else s)"

definition share_of :: "int \<Rightarrow> pyfloat list \<Rightarrow> pyfloat \<Rightarrow> pyfloat" where
  "share_of units ws w = of_int units * max w 0 / total_weight ws"

definition bump :: "nat \<Rightarrow> int list \<Rightarrow> int list" where
  "bump i xs = xs[i := xs ! i + 1]"

text \<open>Largest remainders first; equal remainders stay in order, as \<open>sorted(reverse=True)\<close> leaves them.\<close>

definition by_remainder :: "pyfloat list \<Rightarrow> nat list" where
  "by_remainder shares = sort_key (\<lambda>i. - (shares ! i - of_int \<lfloor>shares ! i\<rfloor>)) [0..<length shares]"

definition hamilton :: "int \<Rightarrow> pyfloat list \<Rightarrow> int list" where
  "hamilton units ws =
     (let shares = map (share_of units ws) ws; result = map floor shares; leftover = units - sum_list result
      in fold bump (take (nat leftover) (by_remainder shares)) result)"

text \<open>The first node with the most units.\<close>

definition donor :: "int list \<Rightarrow> nat" where
  "donor xs = the (min_by (\<lambda>j. - (xs ! j)) [0..<length xs])"

function steal :: "nat \<Rightarrow> int \<Rightarrow> int list \<Rightarrow> int list" where
  "steal i m xs =
     (if i < length xs \<and> xs ! i < m \<and> xs ! donor xs > m
      then steal i m (bump i (xs[donor xs := xs ! donor xs - 1]))
      else xs)"
  by pat_completeness auto

lemma donor_less: "xs \<noteq> [] \<Longrightarrow> donor xs < length xs"
  using min_by_Some_iff_nonempty [of "[0..<length xs]" "\<lambda>j. - (xs ! j)"] min_by_in [of "\<lambda>j. - (xs ! j)" "[0..<length xs]"]
  by (fastforce simp: donor_def)

lemma donor_most: "i < length xs \<Longrightarrow> xs ! i \<le> xs ! donor xs"
  using min_by_Some_iff_nonempty [of "[0..<length xs]" "\<lambda>j. - (xs ! j)"] min_by_le [of "\<lambda>j. - (xs ! j)" "[0..<length xs]" _ i]
  by (fastforce simp: donor_def)

lemma taken_and_given:
  assumes "i < length xs" "xs ! i < m" "xs ! donor xs > m"
  shows "bump i (xs[donor xs := xs ! donor xs - 1]) = xs[donor xs := xs ! donor xs - 1, i := xs ! i + 1]"
    and "donor xs \<noteq> i"
proof -
  from assms show "donor xs \<noteq> i" by auto
  then show "bump i (xs[donor xs := xs ! donor xs - 1]) = xs[donor xs := xs ! donor xs - 1, i := xs ! i + 1]"
    by (simp add: bump_def)
qed

termination steal
  by (relation "measure (\<lambda>(i, m, xs). nat (m - xs ! i))") (auto simp: taken_and_given(1))

declare steal.simps [simp del]

fun raise_floors :: "nat \<Rightarrow> int list \<Rightarrow> int list \<Rightarrow> int list" where
  "raise_floors i [] xs = xs"
| "raise_floors i (m # ms) xs = raise_floors (Suc i) ms (steal i m xs)"

datatype placement_error = IndexError

definition proportional_split :: "int \<Rightarrow> pyfloat list \<Rightarrow> int list option \<Rightarrow> placement_error + int list" where
  "proportional_split units ws mins =
     (if ws = [] \<or> units \<le> 0 then Inr (replicate (length ws) 0)
      else let result = hamilton units ws in
        case mins of
          None \<Rightarrow> Inr result
        | Some ms \<Rightarrow> if length ms > length ws then Inl IndexError else Inr (raise_floors 0 ms result))"

definition fits :: "pyfloat list \<Rightarrow> pyfloat list \<Rightarrow> pyfloat list option \<Rightarrow> bool" where
  "fits assignment capacity reserve =
     (let r = (case reserve of None \<Rightarrow> [] | Some r \<Rightarrow> r); r = (if r = [] then replicate (length capacity) 0 else r)
      in list_all (\<lambda>(a, c, x). a \<le> c - x) (zip assignment (zip capacity r)))"

record node_throughput =
  nt_key :: string
  nt_compute :: pyfloat
  nt_network :: pyfloat

definition effective :: "node_throughput \<Rightarrow> pyfloat" where
  "effective n = (if nt_network n > 0 then min (nt_compute n) (nt_network n) else nt_compute n)"

definition min_throughput_placement :: "int \<Rightarrow> node_throughput list \<Rightarrow> int list option \<Rightarrow> placement_error + int list" where
  "min_throughput_placement n_units nodes mins = proportional_split n_units (map (\<lambda>n. max (effective n) (1 / 100)) nodes) mins"

definition should_rebalance :: "pyfloat \<Rightarrow> pyfloat \<Rightarrow> pyfloat \<Rightarrow> bool" where
  "should_rebalance current candidate quality =
     (if candidate \<le> 0 then False else if current \<le> 0 then True else candidate > current / quality)"

section \<open>Fitting layers\<close>

text \<open>The first device from \<open>d\<close> on that holds the layer; \<open>rem\<close> is what device \<open>d\<close> has left.\<close>

function next_device :: "pyfloat list \<Rightarrow> pyfloat \<Rightarrow> nat \<Rightarrow> pyfloat \<Rightarrow> nat \<times> pyfloat" where
  "next_device free sz d rem =
     (if d < length free \<and> sz > rem
      then next_device free sz (Suc d) (if Suc d < length free then free ! Suc d else 0)
      else (d, rem))"
  by pat_completeness auto

termination next_device
  by (relation "measure (\<lambda>(free, sz, d, rem). length free - d)") auto

declare next_device.simps [simp del]

fun fill :: "pyfloat list \<Rightarrow> pyfloat list \<Rightarrow> nat \<Rightarrow> pyfloat \<Rightarrow> nat list \<Rightarrow> nat \<Rightarrow> nat \<times> nat list" where
  "fill free [] d rem per placed = (placed, per)"
| "fill free (s # sizes) d rem per placed =
     (case next_device free s d rem of (d', rem') \<Rightarrow>
        if d' \<ge> length free then (placed, per)
        else fill free sizes d' (rem' - s) (per[d' := Suc (per ! d')]) (Suc placed))"

definition free_at :: "pyfloat list \<Rightarrow> pyfloat list \<Rightarrow> nat list \<Rightarrow> pyfloat \<Rightarrow> pyfloat list" where
  "free_at device_free reserve order part = map (\<lambda>d. max 0 (device_free ! d * part - reserve ! d)) order"

definition greedy :: "pyfloat list \<Rightarrow> pyfloat list \<Rightarrow> nat \<times> nat list" where
  "greedy sizes free = fill free sizes 0 (if free = [] then 0 else hd free) (replicate (length free) 0) 0"

text \<open>The bisection; the state is \<open>lo\<close>, \<open>hi\<close>, the best fraction and what it places.\<close>

fun bisect :: "nat \<Rightarrow> (pyfloat \<Rightarrow> nat \<times> nat list) \<Rightarrow> nat \<Rightarrow> pyfloat \<times> pyfloat \<times> pyfloat \<times> nat list \<Rightarrow> pyfloat \<times> nat list" where
  "bisect 0 g goal (lo, hi, best, per) = (best, per)"
| "bisect (Suc n) g goal (lo, hi, best, per) =
     (let mid = (lo + hi) / 2 in
      case g mid of (placed, per') \<Rightarrow>
        if placed \<ge> goal then bisect n g goal (lo, mid, mid, per') else bisect n g goal (mid, hi, best, per))"

record capacity_plan =
  ca_fraction :: pyfloat
  ca_per_device :: "nat list"
  ca_offload :: nat

definition capacity_fit :: "pyfloat list \<Rightarrow> pyfloat list \<Rightarrow> pyfloat list option \<Rightarrow> nat list option \<Rightarrow> nat \<Rightarrow> placement_error + capacity_plan" where
  "capacity_fit sizes device_free device_reserve order iters =
     (let n = length device_free in
      if n = 0 \<or> sizes = [] then Inr \<lparr>ca_fraction = 0, ca_per_device = replicate n 0, ca_offload = 0\<rparr>
      else let reserve = (case device_reserve of None \<Rightarrow> replicate n 0 | Some r \<Rightarrow> r);
               ord = (case order of None \<Rightarrow> [0..<n] | Some ds \<Rightarrow> ds);
               g = (\<lambda>f. greedy sizes (free_at device_free reserve ord f)) in
        if length ord \<noteq> n \<or> (\<exists>d \<in> set ord. d \<ge> n \<or> d \<ge> length reserve) then Inl IndexError
        else case g 1 of (max_count, max_per) \<Rightarrow>
          case bisect (max 1 iters) g max_count (0, 1, 1, max_per) of (part, per) \<Rightarrow>
            Inr \<lparr>ca_fraction = py_round_n 4 part,
              ca_per_device = fold (\<lambda>(i, d) res. res[d := per ! i]) (enumerate 0 ord) (replicate n 0),
              ca_offload = max_count\<rparr>)"

section \<open>The split is exact\<close>

lemma length_bump [simp]: "length (bump i xs) = length xs"
  by (simp add: bump_def)

lemma sum_list_update_int: "i < length xs \<Longrightarrow> sum_list (xs[i := v]) = sum_list xs + v - xs ! i" for xs :: "int list"
  by (induction xs arbitrary: i) (auto split: nat.splits simp: less_Suc_eq_0_disj)

lemma sum_bump: "i < length xs \<Longrightarrow> sum_list (bump i xs) = sum_list xs + 1"
  by (simp add: bump_def sum_list_update_int)

lemma fold_bump:
  assumes "distinct is" "\<forall>i \<in> set is. i < length xs"
  shows "length (fold bump is xs) = length xs \<and> sum_list (fold bump is xs) = sum_list xs + int (length is) \<and>
    (\<forall>j < length xs. fold bump is xs ! j = xs ! j + (if j \<in> set is then 1 else 0))"
  using assms
proof (induction "is" arbitrary: xs)
  case (Cons i js)
  then have "distinct js" "\<forall>j \<in> set js. j < length (bump i xs)" "i < length xs" "i \<notin> set js" by auto
  moreover from this have "sum_list (bump i xs) = sum_list xs + 1" by (simp add: sum_bump)
  moreover have "bump i xs ! j = xs ! j + (if j = i then 1 else 0)" if "j < length xs" for j
    using that by (simp add: bump_def nth_list_update)
  ultimately show ?case using Cons.IH [of "bump i xs"] by simp
qed simp

lemma sum_floors:
  "of_int (sum_list (map floor ss)) = sum_list ss - sum_list (map (\<lambda>s. s - of_int \<lfloor>s\<rfloor>) ss)" for ss :: "pyfloat list"
  by (induction ss) simp_all

lemma remainders_bound:
  "0 \<le> sum_list (map (\<lambda>s. s - of_int \<lfloor>s\<rfloor>) ss) \<and> sum_list (map (\<lambda>s. s - of_int \<lfloor>s\<rfloor>) ss) \<le> of_nat (length (filter (\<lambda>s. of_int \<lfloor>s\<rfloor> < s) ss))"
  for ss :: "pyfloat list"
proof (induction ss)
  case (Cons s ss)
  have "of_int \<lfloor>s\<rfloor> \<le> s" "s < of_int \<lfloor>s\<rfloor> + 1" by linarith+
  with Cons show ?case by auto
qed simp

lemma shares_sum:
  assumes "\<exists>w \<in> set ws. 0 < w"
  shows "sum_list (map (share_of units ws) ws) = of_int units"
proof -
  have pos: "0 \<le> sum_list (map (\<lambda>w. max w 0) vs) \<and> sum_list (map (\<lambda>w. max w 0) vs) = sum_list (filter (\<lambda>w. w > 0) vs) \<and>
      ((\<exists>w \<in> set vs. 0 < w) \<longrightarrow> 0 < sum_list (filter (\<lambda>w. w > 0) vs))" for vs :: "pyfloat list"
    by (induction vs) auto
  have t: "total_weight ws = sum_list (map (\<lambda>w. max w 0) ws)" "0 < total_weight ws"
    using pos [of ws] assms by (auto simp: total_weight_def Let_def)
  have "sum_list (map (\<lambda>w. of_int units * max w 0 / t) vs) = of_int units * sum_list (map (\<lambda>w. max w 0) vs) / t"
    for t and vs :: "pyfloat list"
    by (induction vs) (simp_all add: add_divide_distrib distrib_left)
  from this [of "total_weight ws" ws] t show ?thesis by (simp add: share_of_def [abs_def])
qed

text \<open>The nodes that get one more are among those whose share is not whole.\<close>

lemma sorted_front:
  assumes "n \<le> length (filter (\<lambda>i. k i < 0) xs)" "\<forall>i \<in> set xs. k i \<le> (0 :: pyfloat)" "i \<in> set (take n (sort_key k xs))"
  shows "k i < 0"
proof (rule ccontr)
  let ?ys = "sort_key k xs"
  assume "\<not> k i < 0"
  then have z: "k i = 0" using assms(2,3) by (metis antisym_conv2 in_set_takeD set_sort)
  from assms(3) obtain j where j: "j < n" "j < length ?ys" "?ys ! j = i" by (auto simp: in_set_conv_nth)
  have "\<not> k (?ys ! m) < 0" if "j \<le> m" "m < length ?ys" for m
  proof -
    have "sorted (map k ?ys)" by simp
    then have "k (?ys ! j) \<le> k (?ys ! m)" using that by (simp add: sorted_iff_nth_mono)
    with z j show ?thesis by simp
  qed
  then have "filter (\<lambda>i. k i < 0) (drop j ?ys) = []" by (auto simp: filter_empty_conv in_set_conv_nth)
  then have "filter (\<lambda>i. k i < 0) ?ys = filter (\<lambda>i. k i < 0) (take j ?ys)"
    by (metis append_Nil2 append_take_drop_id filter_append)
  then have "length (filter (\<lambda>i. k i < 0) ?ys) \<le> j"
    using length_filter_le [of "\<lambda>i. k i < 0" "take j ?ys"] by simp
  moreover have "length (filter (\<lambda>i. k i < 0) ?ys) = length (filter (\<lambda>i. k i < 0) xs)"
    by (metis mset_filter mset_sort size_mset)
  ultimately show False using assms(1) j(1) by simp
qed

lemma hamilton_spec:
  assumes "\<exists>w \<in> set ws. 0 < w" "0 < units"
  defines "shares \<equiv> map (share_of units ws) ws"
  shows "length (hamilton units ws) = length ws \<and> sum_list (hamilton units ws) = units \<and>
    (\<forall>i < length ws. hamilton units ws ! i \<in> {\<lfloor>shares ! i\<rfloor>, \<lceil>shares ! i\<rceil>})"
proof -
  let ?r = "map floor shares" and ?k = "\<lambda>i. - (shares ! i - of_int \<lfloor>shares ! i\<rfloor>)"
  define left where "left = units - sum_list ?r"
  have rem: "of_int left = sum_list (map (\<lambda>s. s - of_int \<lfloor>s\<rfloor>) shares)"
    using sum_floors [of shares] shares_sum [OF assms(1), of units] by (simp add: left_def shares_def)
  with remainders_bound [of shares] have l: "0 \<le> left" "nat left \<le> length (filter (\<lambda>s. of_int \<lfloor>s\<rfloor> < s) shares)"
    by (simp_all add: nat_le_iff of_int_le_iff [symmetric, where 'a = rat] del: of_int_le_iff)
  have len: "length (filter (\<lambda>i. ?k i < 0) [0..<length shares]) = length (filter (\<lambda>s. of_int \<lfloor>s\<rfloor> < s) shares)"
    using length_map [of "nth shares" "filter (\<lambda>i. ?k i < 0) [0..<length shares]"]
      filter_map [of "\<lambda>s. of_int \<lfloor>s\<rfloor> < s" "nth shares" "[0..<length shares]"]
    by (simp add: map_nth comp_def)
  define js where "js = take (nat left) (by_remainder shares)"
  have js: "distinct js" "\<forall>i \<in> set js. i < length ?r" "length js = nat left"
    using order_trans [OF l(2) length_filter_le]
    by (auto simp: js_def by_remainder_def dest!: in_set_takeD)
  have "?k i < 0" if "i \<in> set js" for i
    using sorted_front [of "nat left" ?k "[0..<length shares]" i] that l(2) len by (auto simp: js_def by_remainder_def)
  then have up: "\<lfloor>shares ! i\<rfloor> + 1 = \<lceil>shares ! i\<rceil>" if "i \<in> set js" for i using that by (fastforce simp: ceiling_altdef)
  have h: "hamilton units ws = fold bump js ?r" by (simp add: hamilton_def js_def left_def shares_def Let_def comp_def)
  note f = fold_bump [OF js(1,2)]
  have "fold bump js ?r ! i \<in> {\<lfloor>shares ! i\<rfloor>, \<lceil>shares ! i\<rceil>}" if "i < length ws" for i
    using f that up [of i] by (cases "i \<in> set js") (simp_all add: shares_def)
  with f js(3) l(1) show ?thesis unfolding h by (simp add: left_def shares_def)
qed

lemma move_unit:
  assumes "i < length xs" "xs ! i < m" "m < xs ! donor xs"
  defines "ys \<equiv> bump i (xs[donor xs := xs ! donor xs - 1])"
  shows "length ys = length xs" "sum_list ys = sum_list xs" "ys ! i = xs ! i + 1"
    and "\<And>j. j < length xs \<Longrightarrow> ys ! j = (if j = i then xs ! i + 1 else if j = donor xs then xs ! j - 1 else xs ! j)"
proof -
  have d: "donor xs < length xs" using assms(1) by (intro donor_less) auto
  note t = taken_and_given [OF assms(1-3), folded ys_def]
  then show "length ys = length xs" "ys ! i = xs ! i + 1" using assms(1) by simp_all
  show "sum_list ys = sum_list xs" using t d assms(1) by (simp add: sum_list_update_int)
  show "ys ! j = (if j = i then xs ! i + 1 else if j = donor xs then xs ! j - 1 else xs ! j)" if "j < length xs" for j
    using t that d by (simp add: nth_list_update)
qed

lemma steal_keeps:
  "length (steal i m xs) = length xs \<and> sum_list (steal i m xs) = sum_list xs \<and>
   ((\<forall>x \<in> set xs. 0 \<le> x) \<longrightarrow> (\<forall>x \<in> set (steal i m xs). 0 \<le> x)) \<and>
   (\<forall>j < length xs. m \<le> xs ! j \<longrightarrow> m \<le> steal i m xs ! j)"
proof (induction i m xs rule: steal.induct)
  case (1 i m xs)
  show ?case
  proof (cases "i < length xs \<and> xs ! i < m \<and> m < xs ! donor xs")
    case False
    then show ?thesis by (subst (1 2 3 4) steal.simps) auto
  next
    case True
    let ?ys = "bump i (xs[donor xs := xs ! donor xs - 1])"
    from True have mv: "length ?ys = length xs" "sum_list ?ys = sum_list xs" "?ys ! i = xs ! i + 1"
      "\<And>j. j < length xs \<Longrightarrow> ?ys ! j = (if j = i then xs ! i + 1 else if j = donor xs then xs ! j - 1 else xs ! j)"
      using move_unit [of i xs m] by blast+
    have nn: "\<forall>x \<in> set ?ys. 0 \<le> x" if "\<forall>x \<in> set xs. 0 \<le> x"
    proof
      fix x assume "x \<in> set ?ys"
      then obtain j where j: "j < length xs" "x = ?ys ! j" by (metis in_set_conv_nth mv(1))
      have "0 \<le> xs ! j" "0 \<le> xs ! i" using that j(1) True by simp_all
      moreover have "0 < xs ! donor xs" using True \<open>0 \<le> xs ! i\<close> by linarith
      ultimately show "0 \<le> x" using mv(4) [OF j(1)] j(2) by (auto split: if_splits)
    qed
    have ge: "m \<le> ?ys ! j" if "j < length xs" "m \<le> xs ! j" for j
      using mv(4) [OF that(1)] that True by (auto split: if_splits)
    have "steal i m xs = steal i m ?ys" using True by (subst steal.simps) simp
    with "1.IH" [OF True] mv(1,2) nn ge show ?thesis by simp
  qed
qed

lemma sum_list_below:
  "\<forall>x \<in> set xs. x \<le> m \<Longrightarrow> sum_list xs \<le> m * int (length xs)"
  "\<forall>x \<in> set xs. x \<le> m \<Longrightarrow> x \<in> set xs \<Longrightarrow> x < m \<Longrightarrow> sum_list xs < m * int (length xs)"
proof -
  show le: "\<forall>x \<in> set xs. x \<le> m \<Longrightarrow> sum_list xs \<le> m * int (length xs)" for xs :: "int list"
    by (induction xs) (auto simp: algebra_simps)
  show "\<forall>x \<in> set xs. x \<le> m \<Longrightarrow> x \<in> set xs \<Longrightarrow> x < m \<Longrightarrow> sum_list xs < m * int (length xs)"
  proof (induction xs)
    case (Cons y ys)
    then show ?case using le [of ys] by (auto simp: algebra_simps)
  qed simp
qed

lemma steal_reaches:
  "i < length xs \<Longrightarrow> m * int (length xs) \<le> sum_list xs \<Longrightarrow> m \<le> steal i m xs ! i"
proof (induction i m xs rule: steal.induct)
  case (1 i m xs)
  show ?case
  proof (cases "xs ! i < m \<and> m < xs ! donor xs")
    case True
    let ?ys = "bump i (xs[donor xs := xs ! donor xs - 1])"
    from True "1.prems"(1) have mv: "length ?ys = length xs" "sum_list ?ys = sum_list xs"
      using move_unit [of i xs m] by blast+
    have "steal i m xs = steal i m ?ys" using True "1.prems"(1) by (subst steal.simps) simp
    with "1.IH" True "1.prems" mv show ?thesis by simp
  next
    case False
    then have e: "steal i m xs = xs" by (subst steal.simps) auto
    show ?thesis
    proof (rule ccontr)
      assume "\<not> m \<le> steal i m xs ! i"
      with e False have lt: "xs ! i < m" and "xs ! donor xs \<le> m" by auto
      with donor_most have le: "x \<le> m" if "x \<in> set xs" for x
        using that by (metis in_set_conv_nth order_trans)
      moreover have "xs ! i \<in> set xs" using "1.prems"(1) by simp
      ultimately show False using sum_list_below(2) [of xs m "xs ! i"] lt "1.prems"(2) by simp
    qed
  qed
qed

lemma raise_floors_keeps:
  "length (raise_floors i ms xs) = length xs \<and> sum_list (raise_floors i ms xs) = sum_list xs \<and>
   ((\<forall>x \<in> set xs. 0 \<le> x) \<longrightarrow> (\<forall>x \<in> set (raise_floors i ms xs). 0 \<le> x))"
proof (induction ms arbitrary: i xs)
  case (Cons m ms)
  from steal_keeps [of i m xs] Cons.IH [of "Suc i" "steal i m xs"] show ?case by simp
qed simp

lemma raise_floors_uniform:
  assumes "i + k \<le> length xs" "m * int (length xs) \<le> sum_list xs"
  shows "(\<forall>j < length xs. (m \<le> xs ! j \<or> i \<le> j \<and> j < i + k) \<longrightarrow> m \<le> raise_floors i (replicate k m) xs ! j)"
  using assms
proof (induction k arbitrary: i xs)
  case (Suc k)
  note st = steal_keeps [of i m xs]
  have "m \<le> steal i m xs ! i" using Suc.prems by (intro steal_reaches) auto
  moreover have "Suc i + k \<le> length (steal i m xs)" "m * int (length (steal i m xs)) \<le> sum_list (steal i m xs)"
    using st Suc.prems by simp_all
  ultimately show ?case using Suc.IH [of "Suc i" "steal i m xs"] st by (auto simp: le_less_Suc_eq Suc_le_eq nat_less_le)
qed simp

text \<open>
  C28. Apportioning by largest remainders: with units to give and some positive weight every unit is given out,
  nobody gets less than none, and without floors every node gets its exact share rounded down or up. With one floor
  for all nodes that the units allow, every node gets it.
\<close>

theorem split_is_exact:
  assumes "proportional_split units ws mins = Inr r" and "0 < units" and "\<exists>w \<in> set ws. 0 < w"
  shows "length r = length ws \<and> sum_list r = units \<and> (\<forall>x \<in> set r. 0 \<le> x) \<and>
    (mins = None \<longrightarrow> (\<forall>i < length ws. r ! i \<in> {\<lfloor>share_of units ws (ws ! i)\<rfloor>, \<lceil>share_of units ws (ws ! i)\<rceil>})) \<and>
    (\<forall>m. mins = Some (replicate (length ws) m) \<longrightarrow> m * int (length ws) \<le> units \<longrightarrow> (\<forall>x \<in> set r. m \<le> x))"
proof -
  let ?h = "hamilton units ws"
  have ws: "ws \<noteq> []" using assms(3) by auto
  have h: "length ?h = length ws" "sum_list ?h = units"
    "\<And>i. i < length ws \<Longrightarrow> ?h ! i \<in> {\<lfloor>share_of units ws (ws ! i)\<rfloor>, \<lceil>share_of units ws (ws ! i)\<rceil>}"
    using hamilton_spec [OF assms(3,2)] by simp_all
  have "0 < total_weight ws"
  proof -
    have "0 \<le> sum_list (filter (\<lambda>w. w > 0) vs)" for vs :: "pyfloat list" by (induction vs) auto
    from this [of ws] show ?thesis by (simp add: total_weight_def Let_def)
  qed
  then have "0 \<le> share_of units ws w" for w using assms(2) by (simp add: share_of_def)
  then have "0 \<le> \<lfloor>share_of units ws w\<rfloor>" for w by simp
  moreover from this have "0 \<le> \<lceil>share_of units ws w\<rceil>" for w using floor_le_ceiling order_trans by blast
  ultimately have nn: "\<forall>x \<in> set ?h. 0 \<le> x" using h(1,3) by (metis empty_iff in_set_conv_nth insert_iff)
  show ?thesis
  proof (cases mins)
    case None
    with assms(1,2) ws have "r = ?h" by (simp add: proportional_split_def)
    with None h nn show ?thesis by simp
  next
    case (Some ms)
    with assms(1,2) ws have r: "r = raise_floors 0 ms ?h" by (auto simp: proportional_split_def split: if_splits)
    note k = raise_floors_keeps [of 0 ms ?h]
    have "m \<le> x" if m: "ms = replicate (length ws) m" "m * int (length ws) \<le> units" and "x \<in> set r" for m x
    proof -
      from that(3) obtain j where "j < length ?h" "x = r ! j" using k r by (metis in_set_conv_nth)
      with raise_floors_uniform [of 0 "length ws" ?h m] m h r show ?thesis by simp
    qed
    with k r h nn Some show ?thesis by simp
  qed
qed

theorem split_is_exact_witness:
  "proportional_split 40 [12, 8, 6] None = Inr [19, 12, 9] \<and> sum_list [19, 12, 9 :: int] = 40 \<and>
   (19 :: int) \<in> {\<lfloor>share_of 40 [12, 8, 6] 12\<rfloor>, \<lceil>share_of 40 [12, 8, 6] 12\<rceil>}"
proof -
  have r: "proportional_split 40 [12, 8, 6] None = Inr [19, 12, 9]" by code_simp
  from split_is_exact [OF r] have "\<forall>i < 3. [19, 12, 9] ! i \<in> {\<lfloor>share_of 40 [12, 8, 6] ([12, 8, 6] ! i)\<rfloor>, \<lceil>share_of 40 [12, 8, 6] ([12, 8, 6] ! i)\<rceil>}"
    by simp
  from this [rule_format, of 0] r show ?thesis by simp
qed

text \<open>
  Without a positive weight the leftover goes once around the nodes and stops, so units are lost. Different floors need
  not be reached although the units allow them: the loop gives up when nobody has more than the floor it is raising,
  and it takes from a node that is at its own floor.
\<close>

lemma weightless_split_loses_units: "proportional_split 10 [0, 0] None = Inr [1, 1]"
  by code_simp

lemma floors_are_missed:
  "proportional_split 6 [0, 0, 1] (Some [1, 3, 2]) = Inr [1, 2, 3]"
  "proportional_split 4 [3, 0, 1] (Some [3, 1, 0]) = Inr [2, 1, 1]"
  by code_simp+

text \<open>What is gained by a move of the load is not given back by the opposite move.\<close>

lemma rebalance_once:
  "should_rebalance a b q \<Longrightarrow> 0 < a \<Longrightarrow> 0 < q \<Longrightarrow> q \<le> 1 \<Longrightarrow> a < b \<and> \<not> should_rebalance b a q"
proof -
  assume r: "should_rebalance a b q" and "0 < a" "0 < q" "q \<le> 1"
  then have "a / q < b" "a \<le> a / q" by (auto simp: should_rebalance_def le_divide_eq split: if_splits)
  moreover from this \<open>0 < a\<close> have "0 < b" by linarith
  moreover from this \<open>0 < q\<close> \<open>q \<le> 1\<close> have "b \<le> b / q" by (simp add: le_divide_eq)
  ultimately show ?thesis using \<open>0 < a\<close> by (auto simp: should_rebalance_def)
qed

section \<open>Layers in order\<close>

text \<open>The same packing device by device: each takes the longest prefix of what is left that it holds.\<close>

fun prefix_fit :: "pyfloat \<Rightarrow> pyfloat list \<Rightarrow> nat" where
  "prefix_fit rem [] = 0"
| "prefix_fit rem (s # ss) = (if s > rem then 0 else Suc (prefix_fit (rem - s) ss))"

fun pack :: "pyfloat list \<Rightarrow> pyfloat list \<Rightarrow> nat list" where
  "pack [] sizes = []"
| "pack (f # fs) sizes = (let k = prefix_fit f sizes in k # pack fs (drop k sizes))"

lemma length_pack [simp]: "length (pack fs sizes) = length fs"
  by (induction fs arbitrary: sizes) (simp_all add: Let_def)

lemma pack_no_layers: "pack fs [] = replicate (length fs) 0"
  by (induction fs) simp_all

lemma prefix_fit_le: "prefix_fit f sizes \<le> length sizes"
  by (induction f sizes rule: prefix_fit.induct) auto

lemma prefix_fit_sum: "0 \<le> f \<Longrightarrow> sum_list (take (prefix_fit f sizes) sizes) \<le> f"
  by (induction f sizes rule: prefix_fit.induct) auto

text \<open>From device \<open>d\<close> with \<open>c\<close> layers and room for \<open>rem\<close> the loop fills as \<open>pack\<close> does.\<close>

lemma fill_pack:
  "fill free sizes (length xs) rem (xs @ c # replicate n 0) placed =
     (placed + prefix_fit rem sizes + sum_list (pack fs (drop (prefix_fit rem sizes) sizes)),
      xs @ (c + prefix_fit rem sizes) # pack fs (drop (prefix_fit rem sizes) sizes))"
  if "length free = Suc (length xs + n)" "fs = drop (Suc (length xs)) free"
  using that
proof (induction "length sizes + n" arbitrary: sizes xs rem c n fs placed rule: less_induct)
  case less
  show ?case
  proof (cases sizes)
    case Nil
    with less.prems show ?thesis by (simp add: pack_no_layers)
  next
    case (Cons s ss)
    show ?thesis
    proof (cases "s > rem")
      case False
      then have "next_device free s (length xs) rem = (length xs, rem)" by (subst next_device.simps) simp
      with less.hyps [of ss n xs fs "rem - s" "Suc c" "Suc placed"] less.prems Cons False
      show ?thesis by (simp add: nth_append)
    next
      case True
      show ?thesis
      proof (cases n)
        case 0
        with True less.prems have "next_device free s (length xs) rem = (Suc (length xs), 0)"
          by (subst next_device.simps) (simp add: next_device.simps [of _ _ "Suc (length xs)"])
        with less.prems Cons True 0 show ?thesis by simp
      next
        case (Suc m)
        let ?f = "free ! Suc (length xs)"
        define fs' where "fs' = drop (Suc (Suc (length xs))) free"
        have fs: "fs = ?f # fs'" using less.prems Suc by (simp add: Cons_nth_drop_Suc fs'_def)
        have e: "fill free sizes (length xs) rem (xs @ c # replicate n 0) placed
            = fill free sizes (length (xs @ [c])) ?f ((xs @ [c]) @ 0 # replicate m 0) placed"
          using True Cons less.prems(1) Suc by (simp add: next_device.simps [of free s "length xs"])
        have i: "fill free sizes (length (xs @ [c])) ?f ((xs @ [c]) @ 0 # replicate m 0) placed =
            (placed + prefix_fit ?f sizes + sum_list (pack fs' (drop (prefix_fit ?f sizes) sizes)),
             (xs @ [c]) @ (0 + prefix_fit ?f sizes) # pack fs' (drop (prefix_fit ?f sizes) sizes))"
          by (rule less.hyps) (use less.prems(1) Suc in \<open>simp_all add: fs'_def\<close>)
        have z: "prefix_fit rem sizes = 0" using Cons True by simp
        show ?thesis unfolding e i z fs by (simp add: Let_def)
      qed
    qed
  qed
qed

lemma greedy_pack: "greedy sizes free = (sum_list (pack free sizes), pack free sizes)"
proof (cases free)
  case Nil
  have "next_device [] s 0 0 = (0, 0)" for s by (subst next_device.simps) simp
  with Nil show ?thesis by (cases sizes) (simp_all add: greedy_def)
next
  case (Cons f fs)
  have "fill (f # fs) sizes (length ([] :: nat list)) f ([] @ 0 # replicate (length fs) 0) 0 =
     (0 + prefix_fit f sizes + sum_list (pack fs (drop (prefix_fit f sizes) sizes)),
      [] @ (0 + prefix_fit f sizes) # pack fs (drop (prefix_fit f sizes) sizes))"
    by (rule fill_pack) simp_all
  with Cons show ?thesis by (simp add: greedy_def Let_def)
qed

text \<open>Counts that the devices hold, each a block of the layers in order.\<close>

fun holds_blocks :: "pyfloat list \<Rightarrow> nat list \<Rightarrow> pyfloat list \<Rightarrow> bool" where
  "holds_blocks [] [] sizes = True"
| "holds_blocks (f # fs) (k # ks) sizes = (k \<le> length sizes \<and> sum_list (take k sizes) \<le> f \<and> holds_blocks fs ks (drop k sizes))"
| "holds_blocks fs ks sizes = False"

lemma pack_holds: "\<forall>f \<in> set fs. 0 \<le> f \<Longrightarrow> holds_blocks fs (pack fs sizes) sizes"
  by (induction fs arbitrary: sizes) (simp_all add: Let_def prefix_fit_le prefix_fit_sum)

lemma holds_blocks_mono: "holds_blocks fs ks sizes \<Longrightarrow> list_all2 (\<le>) fs fs' \<Longrightarrow> holds_blocks fs' ks sizes"
proof (induction fs ks sizes arbitrary: fs' rule: holds_blocks.induct)
  case (2 f fs k ks sizes)
  then show ?case by (cases fs') auto
qed (auto simp: list_all2_Cons1)

lemma prefix_fit_most:
  "\<forall>s \<in> set sizes. 0 \<le> s \<Longrightarrow> k \<le> length sizes \<Longrightarrow> sum_list (take k sizes) \<le> f \<Longrightarrow> k \<le> prefix_fit f sizes"
proof (induction f sizes arbitrary: k rule: prefix_fit.induct)
  case (2 rem s ss)
  show ?case
  proof (cases k)
    case (Suc j)
    have "0 \<le> sum_list (take j ss)" using "2.prems"(1) by (intro sum_list_nonneg) (auto dest: in_set_takeD)
    with "2.prems" Suc "2.IH" [of j] show ?thesis by auto
  qed simp
qed simp

text \<open>Whoever starts further on and packs greedily stays ahead of every packing of the same devices.\<close>

lemma pack_ahead:
  assumes "\<forall>s \<in> set sizes. 0 \<le> s" "holds_blocks fs ks (drop a sizes)" "a \<le> a'" "a' \<le> length sizes"
  shows "a + sum_list ks \<le> a' + sum_list (pack fs (drop a' sizes))"
  using assms(2-)
proof (induction fs arbitrary: ks a a')
  case Nil
  then show ?case by (cases ks) auto
next
  case (Cons f fs)
  then obtain k ks' where ks: "ks = k # ks'" by (cases ks) auto
  with Cons.prems have k: "k \<le> length (drop a sizes)" "sum_list (take k (drop a sizes)) \<le> f"
      "holds_blocks fs ks' (drop (a + k) sizes)" by (auto simp: add.commute)
  let ?j = "prefix_fit f (drop a' sizes)"
  have "a + k \<le> a' + ?j"
  proof (cases "a + k \<le> a'")
    case False
    define m where "m = a' - a"
    have "take k (drop a sizes) = take m (drop a sizes) @ take (k - m) (drop a' sizes)"
      using take_add [of m "k - m" "drop a sizes"] False Cons.prems(2) by (simp add: m_def)
    moreover have "0 \<le> sum_list (take m (drop a sizes))"
      using assms(1) by (intro sum_list_nonneg) (auto dest: in_set_takeD in_set_dropD)
    ultimately have "sum_list (take (k - m) (drop a' sizes)) \<le> f" using k(2) by simp
    moreover have "k - m \<le> length (drop a' sizes)" using k(1) Cons.prems(2) by (simp add: m_def)
    ultimately have "k - m \<le> ?j" using assms(1) by (intro prefix_fit_most) (auto dest: in_set_dropD)
    with False Cons.prems(2) show ?thesis by (simp add: m_def)
  qed simp
  moreover have "a' + ?j \<le> length sizes" using prefix_fit_le [of f "drop a' sizes"] Cons.prems(3) by simp
  ultimately have "(a + k) + sum_list ks' \<le> (a' + ?j) + sum_list (pack fs (drop (a' + ?j) sizes))"
    using Cons.IH [OF k(3)] by blast
  then show ?case by (simp add: ks Let_def add.commute [of a'] add.assoc)
qed

lemma pack_most:
  "\<forall>s \<in> set sizes. 0 \<le> s \<Longrightarrow> holds_blocks fs ks sizes \<Longrightarrow> sum_list ks \<le> sum_list (pack fs sizes)"
  using pack_ahead [of sizes fs ks 0 0] by simp

lemma bisect_inv:
  assumes "bisect n g goal (lo, hi, best, per) = (best', per')" and "I best per" "0 \<le> lo" "lo \<le> hi" "hi \<le> 1"
    and step: "\<And>f c p. 0 \<le> f \<Longrightarrow> f \<le> 1 \<Longrightarrow> g f = (c, p) \<Longrightarrow> goal \<le> c \<Longrightarrow> I f p"
  shows "I best' per'"
  using assms(1-5)
proof (induction n arbitrary: lo hi best per)
  case (Suc n)
  obtain c p where c: "g ((lo + hi) / 2) = (c, p)" by fastforce
  show ?case
  proof (cases "goal \<le> c")
    case True
    have "I ((lo + hi) / 2) p" by (rule step [OF _ _ c True]) (use Suc.prems in auto)
    with Suc.IH [of lo "(lo + hi) / 2" "(lo + hi) / 2" p] Suc.prems c True show ?thesis by (simp add: Let_def)
  next
    case False
    with Suc.IH [of "(lo + hi) / 2" hi best per] Suc.prems c show ?thesis by (simp add: Let_def)
  qed
qed simp

fun scatter_from :: "nat \<Rightarrow> nat list \<Rightarrow> nat list \<Rightarrow> nat list \<Rightarrow> nat list" where
  "scatter_from k [] per res = res"
| "scatter_from k (d # ds) per res = scatter_from (Suc k) ds per (res[d := per ! k])"

lemma scatter_fold: "fold (\<lambda>(i, d) res. res[d := per ! i]) (enumerate k ds) res = scatter_from k ds per res"
  by (induction ds arbitrary: k res) simp_all

lemma scatter_else: "d \<notin> set ds \<Longrightarrow> scatter_from k ds per res ! d = res ! d"
  by (induction ds arbitrary: k res) simp_all

lemma scatter:
  "distinct ds \<Longrightarrow> \<forall>d \<in> set ds. d < length res \<Longrightarrow> length per = k + length ds \<Longrightarrow>
   map (nth (scatter_from k ds per res)) ds = drop k per"
proof (induction ds arbitrary: k res)
  case (Cons d ds)
  have "map (nth (scatter_from (Suc k) ds per (res[d := per ! k]))) ds = drop (Suc k) per"
    by (rule Cons.IH) (use Cons.prems in auto)
  moreover have "drop k per = per ! k # drop (Suc k) per" using Cons.prems(3) by (simp add: Cons_nth_drop_Suc)
  ultimately show ?case using Cons.prems by (simp add: scatter_else)
qed simp

lemma free_at_mono:
  assumes "0 \<le> f" "f \<le> 1" "\<forall>x \<in> set device_free. 0 \<le> x" "\<forall>d \<in> set ord. d < length device_free"
  shows "list_all2 (\<le>) (free_at device_free reserve ord f) (free_at device_free reserve ord 1)"
proof -
  have "device_free ! d * f \<le> device_free ! d" if "d \<in> set ord" for d
    using assms that by (simp add: mult_left_le)
  then have "max 0 (device_free ! d * f - reserve ! d) \<le> max 0 (device_free ! d * 1 - reserve ! d)" if "d \<in> set ord" for d
    using that by (intro max.mono) simp_all
  then show ?thesis by (simp add: free_at_def list_all2_map1 list_all2_map2 list_all2_same)
qed

lemma holds_no_layers: "\<forall>f \<in> set fs. 0 \<le> f \<Longrightarrow> holds_blocks fs (replicate (length fs) 0) ss"
  for ss :: "pyfloat list"
  by (induction fs arbitrary: ss) auto

text \<open>
  C27. Fitting layers: whatever fraction of the cards the search settles on, the counts it answers add up to the
  layers it says it places, every device holds its block of the layers in the order of the visit, and no other
  in-order packing of the same devices places more.
\<close>

theorem capacity_fit_is_maximal:
  assumes "capacity_fit sizes device_free device_reserve order iters = Inr p"
    and "\<forall>x \<in> set sizes. 0 \<le> x" and "\<forall>x \<in> set device_free. 0 \<le> x"
    and "ord = (case order of None \<Rightarrow> [0..<length device_free] | Some ds \<Rightarrow> ds)" "distinct ord" "set ord = {..<length device_free}"
    and "reserve = (case device_reserve of None \<Rightarrow> replicate (length device_free) 0 | Some r \<Rightarrow> r)"
  defines "room \<equiv> map (\<lambda>d. max 0 (device_free ! d - reserve ! d)) ord"
  shows "holds_blocks room (map (nth (ca_per_device p)) ord) sizes \<and>
    sum_list (map (nth (ca_per_device p)) ord) = ca_offload p \<and>
    (\<forall>ks. holds_blocks room ks sizes \<longrightarrow> sum_list ks \<le> ca_offload p)"
proof -
  let ?n = "length device_free" and ?g = "\<lambda>f. pack (free_at device_free reserve ord f) sizes"
  have room: "room = free_at device_free reserve ord 1" by (simp add: room_def free_at_def)
  have len: "length ord = ?n" using assms(5,6) by (metis card_lessThan distinct_card)
  have most: "sum_list ks \<le> sum_list (?g 1)" if "holds_blocks room ks sizes" for ks
    using pack_most [OF assms(2)] that room by blast
  show ?thesis
  proof (cases "?n = 0 \<or> sizes = []")
    case True
    then have p: "ca_per_device p = replicate ?n 0" "ca_offload p = 0"
      using assms(1) by (auto simp: capacity_fit_def)
    have z: "map (nth (ca_per_device p)) ord = replicate ?n 0"
      unfolding p(1) map_replicate_const [symmetric] len [symmetric] using assms(6) len by (intro map_cong refl) simp
    have "sum_list (?g 1) = 0" using True len by (auto simp: free_at_def pack_no_layers)
    then have "sum_list ks = 0" if "holds_blocks room ks sizes" for ks
      using most [OF that] by linarith
    moreover have "holds_blocks room (replicate (length room) 0) sizes" by (rule holds_no_layers) (auto simp: room_def)
    ultimately show ?thesis unfolding z p(2) using len by (simp add: room_def)
  next
    case False
    obtain part per where b: "bisect (max 1 iters) (\<lambda>f. (sum_list (?g f), ?g f)) (sum_list (?g 1)) (0, 1, 1, ?g 1) = (part, per)"
      by fastforce
    from assms(1) False have p: "ca_offload p = sum_list (?g 1)" "ca_per_device p = scatter_from 0 ord per (replicate ?n 0)"
      unfolding capacity_fit_def Let_def assms(4) [symmetric] assms(7) [symmetric] greedy_pack
      by (auto simp: b [unfolded One_nat_def] scatter_fold split: if_splits)
    have I: "\<exists>f. 0 \<le> f \<and> f \<le> 1 \<and> per = ?g f \<and> sum_list (?g 1) \<le> sum_list per"
      by (rule bisect_inv [OF b, where I = "\<lambda>_ q. \<exists>f. 0 \<le> f \<and> f \<le> 1 \<and> q = ?g f \<and> sum_list (?g 1) \<le> sum_list q"])
        (auto intro: exI [of _ "1 :: pyfloat"])
    then obtain f where f: "0 \<le> f" "f \<le> 1" "per = ?g f" "sum_list (?g 1) \<le> sum_list per" by blast
    have "holds_blocks (free_at device_free reserve ord f) per sizes"
      unfolding f(3) by (rule pack_holds) (auto simp: free_at_def)
    then have h: "holds_blocks room per sizes"
      unfolding room using free_at_mono [OF f(1,2) assms(3), of ord reserve] assms(6) by (auto intro: holds_blocks_mono)
    have "length per = length ord" using f(3) by (simp add: free_at_def)
    then have "map (nth (ca_per_device p)) ord = per"
      using scatter [of ord "replicate ?n 0" per 0] assms(5,6) unfolding p(2) by simp
    moreover have "sum_list per = sum_list (?g 1)" using most [OF h] f(4) by (rule antisym)
    ultimately show ?thesis using h p(1) most by simp
  qed
qed

theorem capacity_fit_is_maximal_witness:
  "\<exists>p. capacity_fit (replicate 10 1) [6, 5] (Some [1, 1]) (Some [1, 0]) 2 = Inr p \<and> ca_per_device p = [5, 4] \<and> ca_offload p = 9 \<and>
     holds_blocks [4, 5] [4, 5] (replicate 10 1)"
proof -
  let ?p = "projr (capacity_fit (replicate 10 1) [6, 5] (Some [1, 1]) (Some [1, 0]) 2)"
  have r: "capacity_fit (replicate 10 1) [6, 5] (Some [1, 1]) (Some [1, 0]) 2 = Inr ?p" "ca_per_device ?p = [5, 4]" "ca_offload ?p = 9"
    by code_simp+
  have o: "[1, 0] = (case Some [1, 0] of None \<Rightarrow> [0..<length [6, 5 :: pyfloat]] | Some ds \<Rightarrow> ds)"
    "distinct [1, 0 :: nat]" "set [1, 0 :: nat] = {..<length [6, 5 :: pyfloat]}" by auto
  have v: "[1, 1] = (case Some [1, 1 :: pyfloat] of None \<Rightarrow> replicate (length [6, 5 :: pyfloat]) 0 | Some r \<Rightarrow> r)" by simp
  have "\<forall>x \<in> set (replicate 10 (1 :: pyfloat)). 0 \<le> x" "\<forall>x \<in> set [6, 5 :: pyfloat]. 0 \<le> x" by simp_all
  from capacity_fit_is_maximal [OF r(1) this o v, THEN conjunct1] r
  have "holds_blocks [4, 5] [4, 5] (replicate 10 1)" by simp
  with r show ?thesis by metis
qed

section \<open>Eight bits as long as anything holds them\<close>

lemma workspace_reserve_nonneg: "0 \<le> workspace_reserve_gb mb"
  by (simp add: workspace_reserve_gb_def split: option.split)

text \<open>
  C36. The ladder: a model drops below eight bits only when neither the card with its workspace, nor the cards of the
  cluster, nor the card with the DDR pool hold it; what it names instead holds it. Tail blocks moved off the card
  leave no more on it than its room, unless that would leave no block at all.
\<close>

theorem ladder_keeps_fp8:
  fixes mb cluster gguf weights kv t1 t2 probe feeder_free per_block n_blocks
  defines "feeders \<equiv> (case feeder_free of Some fs \<Rightarrow> fs | None \<Rightarrow> if probe then online_feeder_free_gb cluster else [])"
    and "p \<equiv> plan_placement mb cluster gguf weights kv t1 t2 probe feeder_free per_block n_blocks"
    and "room \<equiv> t1 - workspace_reserve_gb mb"
  shows "(case pp_strategy p of
      LOCAL_FP8 \<Rightarrow> keeps_fp8 p \<and> weights + kv \<le> room
    | CLUSTER_SPLIT \<Rightarrow> keeps_fp8 p \<and> feeders \<noteq> [] \<and> weights + kv \<le> t1 + sum_list feeders \<and>
        (\<forall>tail b. pp_tail p = Some tail \<longrightarrow> per_block = Some b \<longrightarrow>
           weights + kv - of_int tail * b \<le> room \<or> (\<exists>n. n_blocks = Some n \<and> tail = n - 1))
    | LOCAL_TIERED_FP8 \<Rightarrow> keeps_fp8 p \<and> weights + kv \<le> t1 + t2
    | SUB_FP8_LAST_RESORT \<Rightarrow> \<not> keeps_fp8 p \<and> room < weights + kv \<and> t1 + t2 < weights + kv \<and>
        (feeders = [] \<or> t1 + sum_list feeders < weights + kv))"
proof -
  define deficit where "deficit = max 0 (weights + kv - (t1 - workspace_reserve_gb mb))"
  have tail: "weights + kv - of_int tail * b \<le> room \<or> (\<exists>n. n_blocks = Some n \<and> tail = n - 1)"
    if t: "tail_blocks deficit per_block n_blocks = Some tail" "per_block = Some b" for tail b
  proof -
    let ?t = "\<lceil>deficit / b\<rceil>"
    from t have b: "0 < b" "tail = ?t \<or> (\<exists>n. n_blocks = Some n \<and> tail = n - 1)"
      by (auto simp: tail_blocks_def Let_def min_def split: if_splits option.splits)
    have "deficit / b \<le> of_int ?t" by (rule le_of_int_ceiling)
    then have "deficit \<le> of_int ?t * b" by (rule pos_divide_le_eq [OF b(1), THEN iffD1])
    moreover have "weights + kv - room \<le> deficit" unfolding deficit_def room_def by (rule max.cobounded2)
    ultimately have "weights + kv - room \<le> of_int ?t * b" by (rule order_trans [rotated])
    then show ?thesis using b(2) by auto
  qed
  show ?thesis
    unfolding p_def plan_placement_def Let_def feeders_def [symmetric] keeps_fp8_def deficit_def [symmetric]
    using tail by (auto simp: room_def simp del: max.absorb1 max.absorb2 max.absorb3 max.absorb4)
qed

text \<open>
  The test of the second rung does not charge the workspace, the count of tail blocks does, so the plan can send more to
  the feeders than they have.
\<close>

theorem ladder_keeps_fp8_witness:
  "\<exists>p. p = plan_placement (Some 2048) None False 14 0 10 0 False (Some [8]) (Some 1) (Some 40) \<and>
     pp_strategy p = CLUSTER_SPLIT \<and> pp_tail p = Some 6 \<and> keeps_fp8 p \<and> (14 :: pyfloat) - 6 * 1 \<le> 10 - workspace_reserve_gb (Some 2048)"
proof -
  let ?p = "plan_placement (Some 2048) None False 14 0 10 0 False (Some [8]) (Some 1) (Some 40)"
  have s: "pp_strategy ?p = CLUSTER_SPLIT" "pp_tail ?p = Some 6" by code_simp+
  from ladder_keeps_fp8 [of "Some 2048" None False 14 0 10 0 False "Some [8]" "Some 1" "Some 40"] s
  have "keeps_fp8 ?p" "14 + 0 - of_int 6 * 1 \<le> (10 :: pyfloat) - workspace_reserve_gb (Some 2048) \<or> (6 :: int) = 40 - 1" by simp_all
  with s show ?thesis by auto
qed

lemma tail_overflows_feeders:
  "let p = plan_placement (Some 2048) None False 14 0 10 0 False (Some [4]) (Some 1) (Some 40)
   in pp_strategy p = CLUSTER_SPLIT \<and> pp_tail p = Some 6"
  by code_simp

lemma experts_add_up:
  assumes "0 \<le> expert" "0 \<le> room" "0 \<le> t2" "expert_tiers expert room t2 = (hot, warm, cold)"
  shows "hot + warm + cold = expert \<and> 0 \<le> hot \<and> hot \<le> room \<and> 0 \<le> warm \<and> warm \<le> t2 \<and> 0 \<le> cold \<and>
    (0 < warm \<longrightarrow> hot = room) \<and> (0 < cold \<longrightarrow> warm = t2)"
  using assms by (auto simp: expert_tiers_def Let_def min_def max_def split: if_splits)

end
