(* ===== verification/Py_Text.thy ===== *)
theory Py_Text
  imports Shell_Text "HOL-Library.List_Lexorder" "HOL-Library.Char_ord"
begin

text \<open>
  What the sources do with text beyond the shell: words, numerals, lines, and the files of \<^verbatim>\<open>key=value\<close> lines
  that the agent verbs and the shim's control channel share.
\<close>

section \<open>Words and numerals\<close>

definition isdigit :: "string \<Rightarrow> bool" where
  "isdigit s \<longleftrightarrow> s \<noteq> [] \<and> list_all (\<lambda>c. char_le (CHR ''0'') c \<and> char_le c (CHR ''9'')) s"

definition int_of :: "string \<Rightarrow> nat" where
  "int_of s = foldl (\<lambda>n c. 10 * n + (of_char c - 48)) 0 s"

text \<open>\<open>str.split()\<close> without an argument.\<close>

function words :: "string \<Rightarrow> string list" where
  "words s =
     (let t = dropWhile py_space s in
      if t = [] then [] else takeWhile (\<lambda>c. \<not> py_space c) t # words (dropWhile (\<lambda>c. \<not> py_space c) t))"
  by pat_completeness auto

lemma dropWhile_first_shorter: "t = dropWhile P s \<Longrightarrow> t \<noteq> [] \<Longrightarrow> length (dropWhile (\<lambda>c. \<not> P c) t) < length s"
proof -
  assume t: "t = dropWhile P s" "t \<noteq> []"
  then have "\<not> P (hd t)" by (induction s) (auto split: if_splits)
  with t(2) have "length (dropWhile (\<lambda>c. \<not> P c) t) \<le> length (tl t)"
    by (cases t) (simp_all add: length_dropWhile_le)
  also have "length (tl t) < length t" using t by simp
  also have "length t \<le> length s" using t length_dropWhile_le by auto
  finally show ?thesis .
qed

termination words
  by (relation "measure length") (auto intro: dropWhile_first_shorter)

declare words.simps [simp del]

fun show_nat :: "nat \<Rightarrow> string" where
  "show_nat n = (if n < 10 then [char_of (48 + n)] else show_nat (n div 10) @ [char_of (48 + n mod 10)])"

declare show_nat.simps [simp del]

definition show_int :: "int \<Rightarrow> string" where
  "show_int i = (if i < 0 then CHR ''-'' # show_nat (nat (- i)) else show_nat (nat i))"

text \<open>\<open>int(s)\<close> of a text; \<open>None\<close> is its \<open>ValueError\<close>.\<close>

definition int_text :: "string \<Rightarrow> int option" where
  "int_text s =
     (case strip s of
        [] \<Rightarrow> None
      | c # t \<Rightarrow>
          if c = CHR ''-'' then (if isdigit t then Some (- int (int_of t)) else None)
          else if c = CHR ''+'' then (if isdigit t then Some (int (int_of t)) else None)
          else if isdigit (c # t) then Some (int (int_of (c # t))) else None)"

lemma int_of_snoc: "int_of (s @ [c]) = 10 * int_of s + (of_char c - 48)"
  by (simp add: int_of_def)

lemma digit_char: "n < 10 \<Longrightarrow> of_char (char_of (48 + n) :: char) = 48 + n" for n :: nat
  by simp

lemma show_nat_digits: "isdigit (show_nat n) \<and> int_of (show_nat n) = n"
proof (induction n rule: show_nat.induct)
  case (1 n)
  have "int_of [c] = of_char c - 48" for c by (simp add: int_of_def)
  with 1 digit_char [of n] digit_char [of "n mod 10"] show ?case
    by (subst (1 2) show_nat.simps) (auto simp: isdigit_def int_of_snoc)
qed

lemma digit_not_space: "isdigit s \<Longrightarrow> c \<in> set s \<Longrightarrow> \<not> py_space c \<and> c \<noteq> CHR ''-'' \<and> c \<noteq> CHR ''+''"
  by (auto simp: py_space_def isdigit_def list_all_iff)

lemma strip_id: "strip s = s" if "s = [] \<or> \<not> py_space (hd s) \<and> \<not> py_space (last s)"
proof (cases "s = []")
  case False
  with that have "dropWhile py_space s = s" by (cases s) simp_all
  moreover from False that have "dropWhile py_space (rev s) = rev s" by (cases "rev s") (simp_all add: last_conv_nth hd_rev [symmetric])
  ultimately show ?thesis by (simp add: strip_def)
qed (simp add: strip_def)

lemma isdigit_ends: "isdigit s \<Longrightarrow> s \<noteq> [] \<and> \<not> py_space (hd s) \<and> \<not> py_space (last s)"
  using digit_not_space [of s "hd s"] digit_not_space [of s "last s"] by (auto simp: isdigit_def)

lemma isdigit_strip: "isdigit s \<Longrightarrow> strip s = s"
  by (intro strip_id) (simp add: isdigit_ends)

lemma int_text_show: "int_text (show_int i) = Some i"
proof -
  have d: "isdigit (show_nat n)" "int_of (show_nat n) = n" for n using show_nat_digits by simp_all
  show ?thesis
  proof (cases "i < 0")
    case True
    have "strip (CHR ''-'' # show_nat n) = CHR ''-'' # show_nat n" for n
      using isdigit_ends [OF d(1) [of n]] by (intro strip_id) (simp add: py_space_def)
    with True d show ?thesis by (simp add: show_int_def int_text_def)
  next
    case False
    obtain c t where ct: "show_nat (nat i) = c # t" using d(1) [of "nat i"] by (cases "show_nat (nat i)") (auto simp: isdigit_def)
    with digit_not_space [OF d(1) [of "nat i"], of c] have "c \<noteq> CHR ''-''" "c \<noteq> CHR ''+''" by simp_all
    moreover have "strip (c # t) = c # t" using isdigit_strip [OF d(1) [of "nat i"]] by (simp add: ct)
    ultimately show ?thesis using False d [of "nat i"] ct by (simp add: show_int_def int_text_def)
  qed
qed

section \<open>Lines and fields\<close>

definition line_break :: "char \<Rightarrow> bool" where
  "line_break c \<longleftrightarrow> c \<in> {CHR 0x0A, CHR 0x0B, CHR 0x0C, CHR 0x0D, CHR 0x1C, CHR 0x1D, CHR 0x1E, CHR 0x85}"

text \<open>\<open>str.splitlines()\<close>; a carriage return takes a line feed after it along.\<close>

function lines_from :: "string \<Rightarrow> string \<Rightarrow> string list" where
  "lines_from acc [] = (if acc = [] then [] else [acc])"
| "lines_from acc (c # s) =
     (if line_break c
      then acc # lines_from [] (if c = CHR 0x0D \<and> s \<noteq> [] \<and> hd s = CHR 0x0A then tl s else s)
      else lines_from (acc @ [c]) s)"
  by pat_completeness auto

termination lines_from
  by (relation "measure (\<lambda>(acc, s). length s)") auto

abbreviation splitlines :: "string \<Rightarrow> string list" where
  "splitlines s \<equiv> lines_from [] s"

text \<open>\<open>l.partition(c)\<close>, first and last part; \<open>s.rpartition(c)\<close> likewise.\<close>

definition before :: "char \<Rightarrow> string \<Rightarrow> string" where
  "before c l = takeWhile (\<lambda>x. x \<noteq> c) l"

definition after :: "char \<Rightarrow> string \<Rightarrow> string" where
  "after c l = drop 1 (dropWhile (\<lambda>x. x \<noteq> c) l)"

definition rpartition :: "char \<Rightarrow> string \<Rightarrow> string \<times> string" where
  "rpartition c s = (rev (after c (rev s)), rev (before c (rev s)))"

lemma lines_from_plain: "\<forall>c \<in> set l. \<not> line_break c \<Longrightarrow> lines_from acc (l @ CHR 0x0A # s) = (acc @ l) # lines_from [] s"
  by (induction l arbitrary: acc) (auto simp: line_break_def)

lemma splitlines_unlines:
  "\<forall>l \<in> set ls. \<forall>c \<in> set l. \<not> line_break c \<Longrightarrow> splitlines (concat (map (\<lambda>l. l @ [CHR 0x0A]) ls)) = ls"
  by (induction ls) (simp_all add: lines_from_plain)

section \<open>Files of \<open>key=value\<close> lines\<close>

definition kv_field :: "string \<Rightarrow> string \<times> string" where
  "kv_field l = (strip (before (CHR ''='') l), strip (after (CHR ''='') l))"

definition read_kv :: "(string \<Rightarrow> bool) \<Rightarrow> string list \<Rightarrow> (string, string) pydict" where
  "read_kv wanted ls = foldl (\<lambda>d l. if wanted l then dict_set (fst (kv_field l)) (snd (kv_field l)) d else d) [] ls"

definition kv_line :: "string \<times> string \<Rightarrow> string" where
  "kv_line p = fst p @ ''='' @ snd p"

definition print_kv :: "(string, string) pydict \<Rightarrow> string" where
  "print_kv d = concat (map (\<lambda>p. kv_line p @ [CHR 0x0A]) (sort_key fst d))"

text \<open>Text that a line of the file carries unchanged.\<close>

definition clean :: "string \<Rightarrow> bool" where
  "clean s \<longleftrightarrow> strip s = s \<and> (\<forall>c \<in> set s. \<not> line_break c)"

definition clean_pair :: "string \<times> string \<Rightarrow> bool" where
  "clean_pair p \<longleftrightarrow> clean (fst p) \<and> CHR ''='' \<notin> set (fst p) \<and> clean (snd p)"

lemma kv_field_line: "clean_pair p \<Longrightarrow> kv_field (kv_line p) = p"
  by (cases p) (auto simp: clean_pair_def clean_def kv_field_def kv_line_def before_def after_def
      takeWhile_append dropWhile_append)

lemma kv_line_no_break: "clean_pair p \<Longrightarrow> c \<in> set (kv_line p) \<Longrightarrow> \<not> line_break c"
  by (auto simp: clean_pair_def clean_def kv_line_def line_break_def)

lemma read_kv_fold:
  "distinct (dict_keys (d @ ps)) \<Longrightarrow> \<forall>p \<in> set ps. clean_pair p \<and> wanted (kv_line p) \<Longrightarrow>
   foldl (\<lambda>d l. if wanted l then dict_set (fst (kv_field l)) (snd (kv_field l)) d else d) d (map kv_line ps) = d @ ps"
proof (induction ps arbitrary: d)
  case (Cons p ps)
  then have "dict_set (fst p) (snd p) d = d @ [p]" by (auto simp: dict_set_append_new)
  with Cons show ?case by (simp add: kv_field_line)
qed simp

lemma read_print_kv:
  assumes "dict_wf d" "\<forall>p \<in> set d. clean_pair p \<and> wanted (kv_line p)"
  shows "read_kv wanted (splitlines (print_kv d)) = sort_key fst d"
proof -
  have "print_kv d = concat (map (\<lambda>l. l @ [CHR 0x0A]) (map kv_line (sort_key fst d)))"
    by (simp add: print_kv_def comp_def)
  then have "splitlines (print_kv d) = map kv_line (sort_key fst d)"
    using assms(2) by (simp only:, intro splitlines_unlines) (auto simp: kv_line_no_break)
  moreover have "distinct (map fst (sort_key fst d))"
  proof -
    have "mset (map fst (sort_key fst d)) = mset (map fst d)" by simp
    with assms(1) show ?thesis using mset_eq_imp_distinct_iff by blast
  qed
  ultimately show ?thesis using read_kv_fold [of "[]" "sort_key fst d" wanted] assms(2) by (simp add: read_kv_def)
qed

lemma dict_get_sort: "dict_wf d \<Longrightarrow> dict_get (sort_key fst d) = dict_get d"
proof -
  assume w: "dict_wf d"
  have "distinct (map fst (sort_key fst d))"
  proof -
    have "mset (map fst (sort_key fst d)) = mset (map fst d)" by simp
    with w show ?thesis using mset_eq_imp_distinct_iff by blast
  qed
  with w show ?thesis by (intro map_of_eqI) auto
qed

end
