(* ===== verification/Reclaim.thy ===== *)
theory Reclaim
  imports Py_Text
begin

text \<open>
  Reclaiming GPU memory, \<^verbatim>\<open>gb_reclaim.py\<close>: which processes hold it, how they are classified, what a scope targets,
  and the run that unloads, stops, terminates and kills. What the probes read (fuser, nvidia-smi, \<^verbatim>\<open>/proc\<close>, the
  servers that gb-synapse tracks, the recent events) is a record of answers; the processes of the node change
  between any two calls of the run, as an arbitrary function of the time and the process table.
\<close>

section \<open>Protected names\<close>

definition PROTECTED_EXACT :: "string list" where
  "PROTECTED_EXACT =
     [''gnome-shell'', ''gnome-session'', ''gnome-control-'', ''gnome-software'',
      ''gnome-keyring'', ''mutter'', ''gjs'', ''gdm'', ''Xorg'', ''Xorg.bin'', ''Xwayland'',
      ''X'', ''kwin'', ''plasmashell'', ''ksmserver'', ''sddm'', ''lightdm'',
      ''systemd'', ''init'', ''dbus-daemon'', ''dbus-broker'', ''elogind'', ''seatd'',
      ''pipewire'', ''wireplumber'', ''pulseaudio'',
      ''nvidia-persiste'', ''greenboost-netd'',
      ''mksSandbox'', ''vmware-vmx'', ''vmware-vmx-debug'', ''vmware-vmx-stats'',
      ''vmnet-natd'', ''vmtoolsd'', ''vmware-hostd'',
      ''VBoxSVC'', ''VBoxHeadless'', ''VBoxSDL'', ''VirtualBoxVM'', ''VBoxXPCOMIPCD'']"

definition PROTECTED_PREFIXES :: "string list" where
  "PROTECTED_PREFIXES =
     [''gnome-shell-'', ''gnome-session'', ''gnome-control-'', ''gnome-software'',
      ''gnome-keyring'', ''tracker-'', ''gdm-'', ''Xwayland'', ''kwin_'', ''kded'',
      ''sddm-'', ''systemd-'', ''pipewire-'', ''nvidia-'',
      ''vmware-usbarbitrator'', ''qemu-system-'']"

definition PROTECTED_GB_DAEMONS :: "string list" where
  "PROTECTED_GB_DAEMONS =
     [''greenboost-netd'', ''greenboost-net'', ''gb_supervisor'', ''gb-supervisor'',
      ''greenboost-supe'', ''greenboostd'']"

definition gb_proc_is_protected :: "string \<Rightarrow> bool" where
  "gb_proc_is_protected name \<longleftrightarrow>
     (if name \<in> set PROTECTED_EXACT \<or> name \<in> set PROTECTED_GB_DAEMONS then True
      else list_ex (\<lambda>p. starts_with p name) PROTECTED_PREFIXES \<or> name = ''qemu-kvm'')"

section \<open>Reading what the tools print\<close>

text \<open>\<open>None\<close> is a tool that is missing or that timed out.\<close>

definition fuser_pids :: "string option \<Rightarrow> nat list" where
  "fuser_pids out = (case out of None \<Rightarrow> [] | Some t \<Rightarrow> map int_of (filter isdigit (words t)))"

definition smi_line :: "string \<Rightarrow> (nat \<times> nat) option" where
  "smi_line l =
     (case map strip (py_split '','' l) of
        [p, m] \<Rightarrow> if isdigit p then Some (int_of p, if isdigit m then int_of m else 0) else None
      | _ \<Rightarrow> None)"

definition gpu_compute_pids :: "string list option \<Rightarrow> (nat, nat) pydict" where
  "gpu_compute_pids out =
     (case out of None \<Rightarrow> []
      | Some ls \<Rightarrow> foldl (\<lambda>d l. case smi_line l of None \<Rightarrow> d | Some (p, m) \<Rightarrow> dict_set p m d) [] ls)"

section \<open>What the probes answer\<close>

record server =
  sv_model :: string
  sv_llama :: "nat option"
  sv_proxy :: "nat option"
  sv_embed :: "nat option"

text \<open>
  The answers of one classification. \<open>pb_ps\<close> is what \<open>gb_synapse.ps\<close> lists, \<open>None\<close> when the module is missing;
  \<open>pb_ps_raises\<close> says that the call raised.
\<close>

record probes =
  pb_fuser :: "string option"
  pb_smi :: "string list option"
  pb_name :: "nat \<Rightarrow> string"
  pb_cmdline :: "nat \<Rightarrow> string"
  pb_stat :: "nat \<Rightarrow> string option"
  pb_self :: nat
  pb_ps :: "server list option"
  pb_ps_raises :: bool
  pb_events :: "nat option list option"

datatype reclaim_error = BadScope | SynapseRaised | KillDenied nat

definition server_pids :: "server \<Rightarrow> nat list" where
  "server_pids s = filter (\<lambda>p. p \<noteq> 0) (List.map_filter id [sv_llama s, sv_proxy s, sv_embed s])"

definition live_pids :: "probes \<Rightarrow> reclaim_error + nat list" where
  "live_pids pb =
     (case pb_ps pb of
        None \<Rightarrow> Inr []
      | Some ss \<Rightarrow> if pb_ps_raises pb then Inl SynapseRaised else Inr (concat (map server_pids ss)))"

definition recent_dataflux_pids :: "probes \<Rightarrow> nat list" where
  "recent_dataflux_pids pb =
     (case pb_events pb of None \<Rightarrow> [] | Some es \<Rightarrow> filter (\<lambda>p. p \<noteq> 0) (List.map_filter id es))"

text \<open>The parent in \<^verbatim>\<open>/proc/pid/stat\<close>: the second word after the last closing parenthesis.\<close>

fun after_last :: "char \<Rightarrow> string \<Rightarrow> string option" where
  "after_last c [] = None"
| "after_last c (x # xs) =
     (case after_last c xs of Some r \<Rightarrow> Some r | None \<Rightarrow> if x = c then Some xs else None)"

definition parent_of :: "(nat \<Rightarrow> string option) \<Rightarrow> nat \<Rightarrow> nat option" where
  "parent_of stat pid =
     (case stat pid of
        None \<Rightarrow> None
      | Some t \<Rightarrow>
          (case after_last CHR '')'' t of
             None \<Rightarrow> None
           | Some r \<Rightarrow>
               (case words (drop 1 r) of
                  _ # w # _ \<Rightarrow> if isdigit w then Some (int_of w) else None
                | _ \<Rightarrow> None)))"

fun ancestor_walk :: "nat \<Rightarrow> (nat \<Rightarrow> string option) \<Rightarrow> nat \<Rightarrow> nat list \<Rightarrow> nat list" where
  "ancestor_walk 0 stat pid out = out"
| "ancestor_walk (Suc n) stat pid out =
     (if pid \<le> 1 \<or> pid \<in> set out then out
      else case parent_of stat pid of
        None \<Rightarrow> pid # out
      | Some q \<Rightarrow> ancestor_walk n stat q (pid # out))"

definition ancestor_pids :: "probes \<Rightarrow> nat list" where
  "ancestor_pids pb = ancestor_walk 64 (pb_stat pb) (pb_self pb) []"

section \<open>Classes and scopes\<close>

record holder =
  ho_pid :: nat
  ho_name :: string
  ho_mb :: nat
  ho_dev :: bool

record classes =
  cl_live :: "holder list"
  cl_ambiguous :: "holder list"
  cl_residue :: "holder list"

text \<open>The candidates are a Python set; \<open>enum\<close> lists it in the order in which the interpreter does.\<close>

definition enumerates :: "(nat list \<Rightarrow> nat list) \<Rightarrow> bool" where
  "enumerates enum \<longleftrightarrow> (\<forall>xs. distinct (enum xs) \<and> set (enum xs) = set xs)"

definition candidates :: "int \<Rightarrow> probes \<Rightarrow> nat list" where
  "candidates kill_min pb =
     fuser_pids (pb_fuser pb) @ map fst (filter (\<lambda>(p, mb). int mb \<ge> kill_min) (gpu_compute_pids (pb_smi pb)))"

definition entry_of :: "probes \<Rightarrow> nat \<Rightarrow> holder" where
  "entry_of pb p =
     \<lparr>ho_pid = p, ho_name = pb_name pb p, ho_mb = (case dict_get (gpu_compute_pids (pb_smi pb)) p of None \<Rightarrow> 0 | Some m \<Rightarrow> m),
      ho_dev = (p \<in> set (fuser_pids (pb_fuser pb)))\<rparr>"

definition classify_one :: "probes \<Rightarrow> nat list \<Rightarrow> classes \<Rightarrow> nat \<Rightarrow> classes" where
  "classify_one pb live cl p =
     (if p \<in> set (ancestor_pids pb) \<or> p = 1 then cl
      else if pb_name pb p = [] \<or> gb_proc_is_protected (pb_name pb p) then cl
      else let e = entry_of pb p in
        if p \<in> set live then cl\<lparr>cl_live := cl_live cl @ [e]\<rparr>
        else if p \<in> set (recent_dataflux_pids pb) then cl\<lparr>cl_ambiguous := cl_ambiguous cl @ [e]\<rparr>
        else cl\<lparr>cl_residue := cl_residue cl @ [e]\<rparr>)"

definition classify_processes :: "(nat list \<Rightarrow> nat list) \<Rightarrow> int \<Rightarrow> probes \<Rightarrow> reclaim_error + classes" where
  "classify_processes enum kill_min pb =
     bind_result (live_pids pb) (\<lambda>live.
       Inr (foldl (classify_one pb live) \<lparr>cl_live = [], cl_ambiguous = [], cl_residue = []\<rparr> (enum (candidates kill_min pb))))"

definition SCOPES :: "string list" where
  "SCOPES = [''residue'', ''ambiguous'', ''inference'', ''all'']"

definition INFERENCE_COMMS :: "string list" where
  "INFERENCE_COMMS =
     [''llama-server'', ''rpc-server'', ''ollama'', ''ollama_llama_se'', ''greenboost-cli'', ''vllm'', ''sglang'']"

definition INFERENCE_CMDLINE_HINTS :: "string list" where
  "INFERENCE_CMDLINE_HINTS =
     [''ai-forge'', ''comfyui'', ''gb_diffusion_server'', ''gb_longlive_server'',
      ''gb_synapse'', ''greenboost_cli'', ''diffusers'', ''longlive'',
      ''art_wizard'', ''run_character_pipeline'', ''run_spherical_pipeline'']"

text \<open>\<open>pb_cmdline\<close> is the raw command line with its zero bytes, empty when it cannot be read.\<close>

definition proc_cmdline :: "probes \<Rightarrow> nat \<Rightarrow> string" where
  "proc_cmdline pb p = str_lower (map (\<lambda>c. if c = CHR 0x00 then CHR '' '' else c) (pb_cmdline pb p))"

definition is_inference_process :: "probes \<Rightarrow> nat \<Rightarrow> string \<Rightarrow> bool" where
  "is_inference_process pb p name \<longleftrightarrow>
     (if name \<in> set INFERENCE_COMMS then True
      else list_ex (\<lambda>h. contains h (proc_cmdline pb p)) INFERENCE_CMDLINE_HINTS)"

definition scope_targets :: "string \<Rightarrow> probes \<Rightarrow> classes \<Rightarrow> holder list" where
  "scope_targets scope pb cl =
     (if scope = ''residue'' then cl_residue cl
      else if scope = ''ambiguous'' then cl_residue cl @ cl_ambiguous cl
      else if scope = ''inference'' then
        filter (\<lambda>e. is_inference_process pb (ho_pid e) (ho_name e)) (cl_residue cl @ cl_ambiguous cl @ cl_live cl)
      else cl_residue cl @ cl_ambiguous cl @ cl_live cl)"

definition plan_reclaim :: "(nat list \<Rightarrow> nat list) \<Rightarrow> string \<Rightarrow> int \<Rightarrow> probes \<Rightarrow> reclaim_error + holder list \<times> classes" where
  "plan_reclaim enum scope kill_min pb =
     (if scope \<notin> set SCOPES then Inl BadScope
      else bind_result (classify_processes enum kill_min pb) (\<lambda>cl. Inr (scope_targets scope pb cl, cl)))"

section \<open>The run\<close>

datatype sig = SIGTERM | SIGKILL

record proc =
  px_start :: nat
  px_ours :: bool

record node =
  nd_time :: nat
  nd_procs :: "nat \<Rightarrow> proc option"
  nd_log :: "(nat \<times> sig \<times> proc) list"

text \<open>What else happens on the node before a call: processes end, start, take over a free number.\<close>

type_synonym surroundings = "nat \<Rightarrow> (nat \<Rightarrow> proc option) \<Rightarrow> nat \<Rightarrow> proc option"

definition elapse :: "surroundings \<Rightarrow> node \<Rightarrow> node" where
  "elapse env nd = nd\<lparr>nd_time := Suc (nd_time nd), nd_procs := env (nd_time nd) (nd_procs nd)\<rparr>"

datatype outcome = Done | NoSuchProcess | Denied

text \<open>\<open>os.kill\<close>; no signal is the signal 0, which only asks.\<close>

definition os_kill :: "surroundings \<Rightarrow> nat \<Rightarrow> sig option \<Rightarrow> node \<Rightarrow> outcome \<times> node" where
  "os_kill env p s nd =
     (let nd = elapse env nd in
      case nd_procs nd p of
        None \<Rightarrow> (NoSuchProcess, nd)
      | Some q \<Rightarrow>
          if \<not> px_ours q then (Denied, nd)
          else (Done, case s of None \<Rightarrow> nd | Some s \<Rightarrow> nd\<lparr>nd_log := nd_log nd @ [(p, s, q)]\<rparr>))"

fun term_all :: "surroundings \<Rightarrow> holder list \<Rightarrow> node \<Rightarrow> holder list \<times> node" where
  "term_all env [] nd = ([], nd)"
| "term_all env (e # es) nd =
     (case os_kill env (ho_pid e) (Some SIGTERM) nd of (r, nd) \<Rightarrow>
      case term_all env es nd of (refused, nd) \<Rightarrow> (if r = Denied then e # refused else refused, nd))"

text \<open>The second pass; \<open>failed\<close> starts with those that the first one could not signal. A refused question is not caught.\<close>

fun kill_all :: "surroundings \<Rightarrow> holder list \<Rightarrow> holder list \<Rightarrow> holder list \<Rightarrow> node \<Rightarrow>
    (reclaim_error + holder list \<times> holder list) \<times> node" where
  "kill_all env [] killed failed nd = (Inr (killed, failed), nd)"
| "kill_all env (e # es) killed failed nd =
     (if e \<in> set failed then kill_all env es killed failed nd
      else case os_kill env (ho_pid e) None nd of (r, nd) \<Rightarrow>
        (case r of
           NoSuchProcess \<Rightarrow> kill_all env es (killed @ [e]) failed nd
         | Denied \<Rightarrow> (Inl (KillDenied (ho_pid e)), nd)
         | Done \<Rightarrow>
             (case os_kill env (ho_pid e) (Some SIGKILL) nd of (r, nd) \<Rightarrow>
                if r = Done then kill_all env es (killed @ [e]) failed nd
                else kill_all env es killed (failed @ [e]) nd)))"

text \<open>
  What the graceful half meets: the models that Ollama has loaded, whether a lease blocks an unload, whether the
  request to unload succeeds, the servers that gb-synapse lists at that moment (\<open>None\<close> when that fails) and what
  stopping one answers (\<open>None\<close> when it raises). What these do to the processes is the surroundings'.
\<close>

record services =
  sr_loaded :: "string list"
  sr_blocked :: "string \<Rightarrow> bool"
  sr_unload :: "string \<Rightarrow> bool"
  sr_ps :: "server list option"
  sr_stop :: "string \<Rightarrow> bool option"

definition ollama_unload :: "services \<Rightarrow> string \<Rightarrow> bool" where
  "ollama_unload sr m \<longleftrightarrow> (if m = [] then False else if sr_blocked sr m then False else sr_unload sr m)"

definition unload_models :: "services \<Rightarrow> holder list \<Rightarrow> string list" where
  "unload_models sr targets =
     (if list_ex (\<lambda>e. ho_name e = ''ollama'') targets
      then filter (\<lambda>m. m \<noteq> [] \<and> ollama_unload sr m) (sr_loaded sr) else [])"

definition stop_servers :: "services \<Rightarrow> nat list \<Rightarrow> string list" where
  "stop_servers sr pids =
     (case sr_ps sr of None \<Rightarrow> []
      | Some ss \<Rightarrow>
          map sv_model (filter (\<lambda>s. (sv_llama s \<in> Some ` set pids \<or> sv_proxy s \<in> Some ` set pids) \<and>
            sr_stop sr (sv_model s) = Some True) ss))"

record reclaim_result =
  re_killed :: "holder list"
  re_unloaded :: "string list"
  re_stopped :: "string list"
  re_failed :: "holder list"
  re_spared :: "holder list"

definition all_holders :: "classes \<Rightarrow> holder list" where
  "all_holders cl = cl_live cl @ cl_ambiguous cl @ cl_residue cl"

definition run_reclaim :: "(nat list \<Rightarrow> nat list) \<Rightarrow> surroundings \<Rightarrow> services \<Rightarrow> string \<Rightarrow> int \<Rightarrow> probes \<Rightarrow> node \<Rightarrow>
    (reclaim_error + reclaim_result) \<times> node" where
  "run_reclaim enum env sr scope kill_min pb nd =
     (case plan_reclaim enum scope kill_min pb of
        Inl e \<Rightarrow> (Inl e, nd)
      | Inr (targets, cl) \<Rightarrow>
          let unloaded = unload_models sr targets; pids = map ho_pid targets; stopped = stop_servers sr pids in
          case term_all env targets nd of (refused, nd) \<Rightarrow>
          case kill_all env targets [] refused nd of (r, nd) \<Rightarrow>
            (bind_result r (\<lambda>(killed, failed).
               Inr \<lparr>re_killed = killed, re_unloaded = unloaded, re_stopped = stopped, re_failed = failed,
                 re_spared = filter (\<lambda>e. ho_pid e \<notin> set pids) (all_holders cl)\<rparr>), nd))"

section \<open>What a classification holds\<close>

definition accepted :: "probes \<Rightarrow> nat \<Rightarrow> bool" where
  "accepted pb p \<longleftrightarrow> p \<notin> set (ancestor_pids pb) \<and> p \<noteq> 1 \<and> pb_name pb p \<noteq> [] \<and> \<not> gb_proc_is_protected (pb_name pb p)"

lemma classify_fold:
  "foldl (classify_one pb live) cl ps =
     \<lparr>cl_live = cl_live cl @ map (entry_of pb) (filter (\<lambda>p. accepted pb p \<and> p \<in> set live) ps),
      cl_ambiguous = cl_ambiguous cl @
        map (entry_of pb) (filter (\<lambda>p. accepted pb p \<and> p \<notin> set live \<and> p \<in> set (recent_dataflux_pids pb)) ps),
      cl_residue = cl_residue cl @
        map (entry_of pb) (filter (\<lambda>p. accepted pb p \<and> p \<notin> set live \<and> p \<notin> set (recent_dataflux_pids pb)) ps)\<rparr>"
  by (induction ps arbitrary: cl) (auto simp: classify_one_def accepted_def Let_def)

lemma ho_entry [simp]: "ho_pid (entry_of pb p) = p" "ho_name (entry_of pb p) = pb_name pb p"
  by (simp_all add: entry_of_def)

lemma plan_reclaim_cases:
  assumes "plan_reclaim enum scope kill_min pb = Inr (targets, cl)" "enumerates enum"
  obtains live where "live_pids pb = Inr live" "scope \<in> set SCOPES" "targets = scope_targets scope pb cl"
    "cl_live cl = map (entry_of pb) (filter (\<lambda>p. accepted pb p \<and> p \<in> set live) (enum (candidates kill_min pb)))"
    "cl_ambiguous cl = map (entry_of pb)
       (filter (\<lambda>p. accepted pb p \<and> p \<notin> set live \<and> p \<in> set (recent_dataflux_pids pb)) (enum (candidates kill_min pb)))"
    "cl_residue cl = map (entry_of pb)
       (filter (\<lambda>p. accepted pb p \<and> p \<notin> set live \<and> p \<notin> set (recent_dataflux_pids pb)) (enum (candidates kill_min pb)))"
  using assms by (auto simp: plan_reclaim_def classify_processes_def classify_fold bind_result_Inr_iff split: if_splits)

lemma target_facts:
  assumes "plan_reclaim enum scope kill_min pb = Inr (targets, cl)" "enumerates enum" "e \<in> set targets"
  shows "e = entry_of pb (ho_pid e)" "ho_pid e \<in> set (candidates kill_min pb)" "accepted pb (ho_pid e)"
    "\<exists>live. live_pids pb = Inr live \<and> (scope \<in> {''residue'', ''ambiguous''} \<longrightarrow> ho_pid e \<notin> set live)"
    "scope = ''residue'' \<longrightarrow> ho_pid e \<notin> set (recent_dataflux_pids pb)"
    "scope = ''inference'' \<longrightarrow> is_inference_process pb (ho_pid e) (pb_name pb (ho_pid e))"
  using assms(1,2) by (elim plan_reclaim_cases; use assms(2,3) in \<open>auto simp: scope_targets_def enumerates_def split: if_splits\<close>)+

lemma targets_distinct:
  assumes "plan_reclaim enum scope kill_min pb = Inr (targets, cl)" "enumerates enum"
  shows "distinct (map ho_pid targets)" "set targets \<subseteq> set (all_holders cl)" "distinct (map ho_pid (all_holders cl))"
proof -
  from assms obtain live where f: "live_pids pb = Inr live" "scope \<in> set SCOPES" "targets = scope_targets scope pb cl"
    "cl_live cl = map (entry_of pb) (filter (\<lambda>p. accepted pb p \<and> p \<in> set live) (enum (candidates kill_min pb)))"
    "cl_ambiguous cl = map (entry_of pb)
       (filter (\<lambda>p. accepted pb p \<and> p \<notin> set live \<and> p \<in> set (recent_dataflux_pids pb)) (enum (candidates kill_min pb)))"
    "cl_residue cl = map (entry_of pb)
       (filter (\<lambda>p. accepted pb p \<and> p \<notin> set live \<and> p \<notin> set (recent_dataflux_pids pb)) (enum (candidates kill_min pb)))"
    by (rule plan_reclaim_cases)
  have d: "distinct (enum (candidates kill_min pb))" using assms(2) by (simp add: enumerates_def)
  have c: "map ho_pid (map (entry_of pb) ps) = ps" for ps by (induction ps) simp_all
  show all: "distinct (map ho_pid (all_holders cl))"
    unfolding all_holders_def f(4-6) map_append c using d by auto
  have "distinct (map ho_pid (cl_residue cl @ cl_ambiguous cl @ cl_live cl))"
    unfolding f(4-6) map_append c using d by auto
  then show "distinct (map ho_pid targets)"
    by (auto simp: f(3) scope_targets_def distinct_map_filter)
  show "set targets \<subseteq> set (all_holders cl)" by (auto simp: f(3) scope_targets_def all_holders_def)
qed

section \<open>The caller's own tree\<close>

fun ancestor :: "(nat \<Rightarrow> string option) \<Rightarrow> nat \<Rightarrow> nat \<Rightarrow> nat option" where
  "ancestor stat p 0 = Some p"
| "ancestor stat p (Suc k) = Option.bind (parent_of stat p) (\<lambda>q. ancestor stat q k)"

lemma walk_keeps: "set out \<subseteq> set (ancestor_walk n stat p out)"
proof (induction n arbitrary: p out)
  case (Suc n)
  then show ?case by (fastforce split: option.split)
qed simp

lemma closed_ancestor:
  "p \<in> S \<Longrightarrow> \<forall>x \<in> S. \<forall>y. parent_of stat x = Some y \<longrightarrow> y \<in> S \<Longrightarrow> ancestor stat p k = Some a \<Longrightarrow> a \<in> S"
  by (induction k arbitrary: p) (auto simp: bind_eq_Some_conv)

text \<open>Below the bound of 64 steps every ancestor is met: when the walk stops at a number it knows, the rest is known too.\<close>

lemma walk_reaches:
  assumes "\<forall>x \<in> set out. \<forall>y. parent_of stat x = Some y \<longrightarrow> y \<in> insert p (set out)"
    and "k < n" "ancestor stat p k = Some a" "\<forall>j \<le> k. \<forall>b. ancestor stat p j = Some b \<longrightarrow> 1 < b"
  shows "a \<in> set (ancestor_walk n stat p out)"
  using assms
proof (induction n arbitrary: p out k)
  case (Suc n)
  from Suc.prems(4) [rule_format, of 0 p] have p: "1 < p" by simp
  show ?case
  proof (cases "p \<in> set out")
    case True
    then have "insert p (set out) = set out" by auto
    with Suc.prems(1) have "\<forall>x \<in> set out. \<forall>y. parent_of stat x = Some y \<longrightarrow> y \<in> set out" by simp
    then have "a \<in> set out" by (rule closed_ancestor [OF True _ Suc.prems(3)])
    with True show ?thesis by simp
  next
    case new: False
    show ?thesis
    proof (cases k)
      case 0
      with Suc.prems(3) p new walk_keeps [of "p # out" n stat] show ?thesis by (auto split: option.split)
    next
      case (Suc j)
      with Suc.prems(3) obtain q where q: "parent_of stat p = Some q" "ancestor stat q j = Some a"
        by (auto simp: bind_eq_Some_conv)
      have "a \<in> set (ancestor_walk n stat q (p # out))"
      proof (rule Suc.IH)
        show "\<forall>x \<in> set (p # out). \<forall>y. parent_of stat x = Some y \<longrightarrow> y \<in> insert q (set (p # out))"
          using Suc.prems(1) q(1) by auto
        show "\<forall>i \<le> j. \<forall>b. ancestor stat q i = Some b \<longrightarrow> 1 < b"
        proof (intro allI impI)
          fix i b assume "i \<le> j" "ancestor stat q i = Some b"
          with q(1) Suc show "1 < b" by (intro Suc.prems(4) [rule_format, of "Suc i" b]) simp_all
        qed
      qed (use Suc.prems(2) Suc q in simp_all)
      with p new q(1) show ?thesis by simp
    qed
  qed
qed simp

corollary ancestors_are_known:
  "k < 64 \<Longrightarrow> ancestor (pb_stat pb) (pb_self pb) k = Some a \<Longrightarrow>
   \<forall>j \<le> k. \<forall>b. ancestor (pb_stat pb) (pb_self pb) j = Some b \<longrightarrow> 1 < b \<Longrightarrow> a \<in> set (ancestor_pids pb)"
  unfolding ancestor_pids_def by (rule walk_reaches) simp_all

section \<open>The signals of a run\<close>

text \<open>A signal of the run goes to one of the numbers; without reuse of numbers to the process that had it before.\<close>

definition no_reuse :: "surroundings \<Rightarrow> bool" where
  "no_reuse env \<longleftrightarrow> (\<forall>t pr p. env t pr p = None \<or> env t pr p = pr p)"

definition aimed :: "nat set \<Rightarrow> surroundings \<Rightarrow> node \<Rightarrow> node \<Rightarrow> bool" where
  "aimed ps env nd nd' \<longleftrightarrow>
     (\<exists>new. nd_log nd' = nd_log nd @ new \<and> fst ` set new \<subseteq> ps \<and>
       (no_reuse env \<longrightarrow>
         (\<forall>(p, s, q) \<in> set new. nd_procs nd p = Some q) \<and> (\<forall>p. nd_procs nd' p \<in> {None, nd_procs nd p})))"

lemma aimed_refl [simp]: "aimed ps env nd nd"
  by (simp add: aimed_def)

lemma aimed_trans: "aimed ps env nd nd1 \<Longrightarrow> aimed ps env nd1 nd2 \<Longrightarrow> aimed ps env nd nd2"
proof -
  assume a: "aimed ps env nd nd1" "aimed ps env nd1 nd2"
  from a(1) obtain l1 where 1: "nd_log nd1 = nd_log nd @ l1" "fst ` set l1 \<subseteq> ps"
    "no_reuse env \<longrightarrow>
       (\<forall>(p, s, q) \<in> set l1. nd_procs nd p = Some q) \<and> (\<forall>p. nd_procs nd1 p \<in> {None, nd_procs nd p})"
    unfolding aimed_def by blast
  from a(2) obtain l2 where 2: "nd_log nd2 = nd_log nd1 @ l2" "fst ` set l2 \<subseteq> ps"
    "no_reuse env \<longrightarrow>
       (\<forall>(p, s, q) \<in> set l2. nd_procs nd1 p = Some q) \<and> (\<forall>p. nd_procs nd2 p \<in> {None, nd_procs nd1 p})"
    unfolding aimed_def by blast
  have "(\<forall>(p, s, q) \<in> set (l1 @ l2). nd_procs nd p = Some q) \<and> (\<forall>p. nd_procs nd2 p \<in> {None, nd_procs nd p})"
    if "no_reuse env"
  proof -
    note k1 = 1(3) [THEN mp, OF that] and k2 = 2(3) [THEN mp, OF that]
    have "nd_procs nd p = Some q" if "nd_procs nd1 p = Some q" for p q
      using k1 that by (metis empty_iff insert_iff option.distinct(1))
    then have "\<forall>(p, s, q) \<in> set l2. nd_procs nd p = Some q" using k2 by blast
    moreover have "nd_procs nd2 p \<in> {None, nd_procs nd p}" for p using k1 k2 by (metis insert_iff singletonD)
    ultimately show ?thesis using k1 by auto
  qed
  with 1(1,2) 2(1,2) show ?thesis unfolding aimed_def by (intro exI [of _ "l1 @ l2"]) auto
qed

lemma aimed_kill: "os_kill env p s nd = (r, nd') \<Longrightarrow> p \<in> ps \<Longrightarrow> aimed ps env nd nd'"
proof -
  assume k: "os_kill env p s nd = (r, nd')" "p \<in> ps"
  let ?new = "case (s, env (nd_time nd) (nd_procs nd) p) of (Some s, Some q) \<Rightarrow> if px_ours q then [(p, s, q)] else [] | _ \<Rightarrow> []"
  have "nd_log nd' = nd_log nd @ ?new" "nd_procs nd' = env (nd_time nd) (nd_procs nd)"
    using k(1) by (auto simp: os_kill_def elapse_def Let_def split: option.splits if_splits)
  moreover have "fst ` set ?new \<subseteq> ps" using k(2) by (auto split: option.split)
  moreover have "nd_procs nd p = Some q" if "no_reuse env" "env (nd_time nd) (nd_procs nd) p = Some q" for q
    using that unfolding no_reuse_def by (metis option.distinct(1))
  moreover have "env (nd_time nd) (nd_procs nd) p \<in> {None, nd_procs nd p}" if "no_reuse env" for p
    using that by (auto simp: no_reuse_def)
  ultimately show ?thesis
    unfolding aimed_def by (intro exI [of _ ?new]) (auto split: option.split_asm if_splits)
qed

lemma aimed_term: "term_all env es nd = (refused, nd') \<Longrightarrow> ho_pid ` set es \<subseteq> ps \<Longrightarrow> aimed ps env nd nd'"
  by (induction es arbitrary: nd refused nd') (auto split: prod.splits if_splits intro: aimed_trans aimed_kill)

lemma aimed_kill_all:
  "kill_all env es killed failed nd = (r, nd') \<Longrightarrow> ho_pid ` set es \<subseteq> ps \<Longrightarrow> aimed ps env nd nd'"
proof (induction es arbitrary: killed failed nd)
  case (Cons e es)
  then have p: "ho_pid e \<in> ps" "ho_pid ` set es \<subseteq> ps" by simp_all
  show ?case
  proof (cases "e \<in> set failed")
    case True
    with Cons p show ?thesis by simp
  next
    case False
    obtain r1 nd1 where k: "os_kill env (ho_pid e) None nd = (r1, nd1)" by fastforce
    obtain r2 nd2 where k2: "os_kill env (ho_pid e) (Some SIGKILL) nd1 = (r2, nd2)" by fastforce
    note a = aimed_kill [OF k p(1)] aimed_kill [OF k2 p(1)]
    show ?thesis
      using Cons.prems(1) False k k2 a Cons.IH [OF _ p(2)]
      by (auto split: outcome.splits if_splits intro: aimed_trans)
  qed
qed simp

lemma run_aimed:
  assumes "run_reclaim enum env sr scope kill_min pb nd = (res, nd')" "plan_reclaim enum scope kill_min pb = Inr (targets, cl)"
  shows "aimed (ho_pid ` set targets) env nd nd'"
proof -
  obtain refused nd1 where t: "term_all env targets nd = (refused, nd1)" by fastforce
  obtain r nd2 where k: "kill_all env targets [] refused nd1 = (r, nd2)" by fastforce
  from assms t k have "nd' = nd2" by (simp add: run_reclaim_def Let_def)
  with aimed_term [OF t, of "ho_pid ` set targets"] aimed_kill_all [OF k, of "ho_pid ` set targets"]
  show ?thesis by (auto intro: aimed_trans)
qed


text \<open>A terminal running the reclaim, a tracked server, a python left over by a job, and a shell that may not be touched.\<close>

definition sample_probes :: probes where
  "sample_probes =
     \<lparr>pb_fuser = Some '' 20 31 44'', pb_smi = Some [''31, 900'', ''50, 4000'', ''60, 100''],
      pb_name = (\<lambda>p. if p = 50 then ''gnome-shell'' else if p = 44 then ''llama-server'' else ''python3''),
      pb_cmdline = (\<lambda>p. []), pb_stat = (\<lambda>p. if p = 21 then Some ''21 (py (x) y) S 20 1'' else None), pb_self = 21,
      pb_ps = Some [\<lparr>sv_model = ''m'', sv_llama = Some 44, sv_proxy = None, sv_embed = Some 0\<rparr>], pb_ps_raises = False,
      pb_events = Some []\<rparr>"

definition sample_node :: node where
  "sample_node = \<lparr>nd_time = 0, nd_procs = (\<lambda>p. Some \<lparr>px_start = p, px_ours = True\<rparr>), nd_log = []\<rparr>"

definition idle_services :: services where
  "idle_services = \<lparr>sr_loaded = [], sr_blocked = (\<lambda>_. False), sr_unload = (\<lambda>_. True), sr_ps = Some [], sr_stop = (\<lambda>_. None)\<rparr>"

lemma remdups_enumerates: "enumerates remdups"
  by (simp add: enumerates_def)


section \<open>The account of a run\<close>

lemma term_all_refused: "term_all env es nd = (refused, nd') \<Longrightarrow> set refused \<subseteq> set es \<and> (distinct es \<longrightarrow> distinct refused)"
proof (induction es arbitrary: nd refused)
  case (Cons e es)
  then show ?case by (auto split: prod.splits if_splits) blast+
qed simp

lemma kill_all_account:
  "kill_all env es killed failed nd = (Inr (killed', failed'), nd') \<Longrightarrow> distinct es \<Longrightarrow> distinct (killed @ failed) \<Longrightarrow>
   set es \<inter> set killed = {} \<Longrightarrow>
   distinct (killed' @ failed') \<and> set killed' \<union> set failed' = set killed \<union> set failed \<union> set es \<and>
   set failed \<subseteq> set failed'"
proof (induction es arbitrary: killed failed nd)
  case (Cons e es)
  obtain r1 nd1 where k: "os_kill env (ho_pid e) None nd = (r1, nd1)" by fastforce
  obtain r2 nd2 where k2: "os_kill env (ho_pid e) (Some SIGKILL) nd1 = (r2, nd2)" by fastforce
  show ?case
  proof (cases "e \<in> set failed")
    case True
    with Cons.prems Cons.IH [of killed failed nd] show ?thesis by auto
  next
    case False
    show ?thesis
    proof (cases "r1 = NoSuchProcess \<or> r1 = Done \<and> r2 = Done")
      case True
      with Cons.prems(1) False k k2 have "\<exists>nd. kill_all env es (killed @ [e]) failed nd = (Inr (killed', failed'), nd')" by auto
      with Cons.IH [of "killed @ [e]" failed] Cons.prems False show ?thesis by auto
    next
      case n: False
      with Cons.prems(1) False k k2 have "\<exists>nd. kill_all env es killed (failed @ [e]) nd = (Inr (killed', failed'), nd')"
        by (cases r1) (auto split: if_splits)
      with Cons.IH [of killed "failed @ [e]"] Cons.prems False show ?thesis by auto
    qed
  qed
qed simp

text \<open>
  Nothing is counted twice and nothing is left out: when a run returns, every process of the classification is
  exactly once in its answer, killed or failed when it was targeted and spared when it was not.
\<close>

theorem reclaim_accounts_for_all:
  assumes "run_reclaim enum env sr scope kill_min pb nd = (Inr r, nd')" and "enumerates enum"
  shows "\<exists>targets cl. plan_reclaim enum scope kill_min pb = Inr (targets, cl) \<and>
    distinct (map ho_pid (re_killed r @ re_failed r @ re_spared r)) \<and>
    set (re_killed r @ re_failed r) = set targets \<and>
    set (re_killed r @ re_failed r @ re_spared r) = set (all_holders cl)"
proof -
  from assms(1) obtain targets cl where plan: "plan_reclaim enum scope kill_min pb = Inr (targets, cl)"
    by (auto simp: run_reclaim_def split: sum.splits)
  obtain refused nd1 where t: "term_all env targets nd = (refused, nd1)" by fastforce
  from assms(1) plan t obtain nd2 where k: "kill_all env targets [] refused nd1 = (Inr (re_killed r, re_failed r), nd2)"
    and sp: "re_spared r = filter (\<lambda>e. ho_pid e \<notin> set (map ho_pid targets)) (all_holders cl)"
    by (auto simp: run_reclaim_def Let_def bind_result_Inr_iff split: prod.splits)
  note d = targets_distinct [OF plan assms(2)]
  from d(1) have dt: "distinct targets" by (simp add: distinct_map)
  from kill_all_account [OF k dt] term_all_refused [OF t] dt
  have a: "distinct (re_killed r @ re_failed r)" "set (re_killed r @ re_failed r) = set targets" by auto
  have i: "inj_on ho_pid (set (all_holders cl))" using d(3) by (simp add: distinct_map)
  have s: "set (re_spared r) = set (all_holders cl) - set targets"
  proof -
    have "ho_pid e \<in> ho_pid ` set targets \<longleftrightarrow> e \<in> set targets" if "e \<in> set (all_holders cl)" for e
      using inj_on_image_mem_iff [OF i that d(2)] .
    then show ?thesis by (auto simp: sp)
  qed
  have "distinct (re_spared r)" using d(3) by (simp add: sp distinct_map)
  with a s have "distinct (re_killed r @ re_failed r @ re_spared r)" by auto
  moreover have "set (re_killed r @ re_failed r @ re_spared r) = set (all_holders cl)" using a(2) s d(2) by auto
  ultimately show ?thesis using plan a(2) i by (intro exI [of _ targets] exI [of _ cl]) (simp only: distinct_map)
qed

theorem reclaim_accounts_for_all_witness:
  "\<exists>r. fst (run_reclaim remdups (\<lambda>t pr. pr) idle_services ''residue'' 512 sample_probes sample_node) = Inr r \<and>
     map ho_pid (re_killed r) = [31] \<and> map ho_pid (re_spared r) = [44] \<and>
     distinct (map ho_pid (re_killed r @ re_failed r @ re_spared r))"
proof -
  let ?run = "run_reclaim remdups (\<lambda>t pr. pr) idle_services ''residue'' 512 sample_probes sample_node"
  have v: "map ho_pid (re_killed (projr (fst ?run))) = [31]" "map ho_pid (re_spared (projr (fst ?run))) = [44]"
    "isl (fst ?run) = False" by code_simp+
  then have "?run = (Inr (projr (fst ?run)), snd ?run)" by (cases "fst ?run") (auto simp: prod_eq_iff)
  from reclaim_accounts_for_all [OF this remdups_enumerates] v show ?thesis by (metis sum.collapse(2))
qed

text \<open>
  Three things the run gets wrong: a process that ends between the question and the kill is reported as failed; one
  whose number is taken over by a process of somebody else while it waits makes the question raise, and the rest is
  never looked at; and one taken over by a new process of ours is killed without ever having been asked to end.
\<close>

lemma gone_counts_as_failed:
  "map ho_pid (re_failed (projr (fst (run_reclaim remdups (\<lambda>t pr p. if t \<ge> 2 then None else pr p) idle_services ''residue'' 512
     sample_probes sample_node)))) = [31]"
  by code_simp

lemma foreign_reuse_raises:
  "fst (run_reclaim remdups (\<lambda>t pr p. if t \<ge> 1 then Some \<lparr>px_start = 99, px_ours = False\<rparr> else pr p) idle_services ''residue'' 512
     sample_probes sample_node) = Inl (KillDenied 31)"
  by code_simp

lemma reuse_is_killed_unasked:
  "nd_log (snd (run_reclaim remdups (\<lambda>t pr p. if t \<ge> 1 then Some \<lparr>px_start = 99, px_ours = True\<rparr> else pr p) idle_services ''residue'' 512
     sample_probes sample_node)) =
   [(31, SIGTERM, \<lparr>px_start = 31, px_ours = True\<rparr>), (31, SIGKILL, \<lparr>px_start = 99, px_ours = True\<rparr>)]"
  by code_simp

end
