(* ===== verification/Control.thy ===== *)
theory Control
  imports Py_Text "HOL-Library.Word"
begin

text \<open>
  The runtime levers of \<^verbatim>\<open>gb_control.py\<close>: the one place that changes how GreenBoost runs. The state of the class is
  \<open>ctl\<close>; what it writes (kernel parameters, \<^verbatim>\<open>/proc/sys\<close>, ioctls, nvidia-smi commands, the control file, the
  baseline) is \<open>machine\<close>; what the host lets it do is \<open>powers\<close>. The monotonic clock is an argument of every call.
\<close>

section \<open>Command numbers\<close>

unbundle bit_operations_syntax

definition IOC :: "32 word \<Rightarrow> nat \<Rightarrow> char \<Rightarrow> nat \<Rightarrow> 32 word" where
  "IOC dir bytes magic nr = push_bit 30 dir OR push_bit 16 (of_nat bytes) OR push_bit 8 (of_nat (of_char magic)) OR of_nat nr"

definition IO :: "char \<Rightarrow> nat \<Rightarrow> 32 word" where
  "IO magic nr = push_bit 8 (of_nat (of_char magic)) OR of_nat nr"

definition IOW :: "char \<Rightarrow> nat \<Rightarrow> nat \<Rightarrow> 32 word" where "IOW magic nr bytes = IOC 1 bytes magic nr"
definition IOWR :: "char \<Rightarrow> nat \<Rightarrow> nat \<Rightarrow> 32 word" where "IOWR magic nr bytes = IOC 3 bytes magic nr"

text \<open>A request with the fields its structure carries.\<close>

datatype request = SetKvReserve int | EvictBuf int | ResetOom | SetPoolCap int | ResetPhase | ReleasePid int
  | SetT3Cap int | GamingMode int

definition command :: "request \<Rightarrow> 32 word" where
  "command r =
     (case r of
        ResetOom \<Rightarrow> IO (CHR ''G'') 3
      | EvictBuf _ \<Rightarrow> IOW (CHR ''G'') 5 8
      | SetKvReserve _ \<Rightarrow> IOW (CHR ''G'') 9 8
      | SetPoolCap _ \<Rightarrow> IOWR (CHR ''G'') 11 16
      | ResetPhase \<Rightarrow> IO (CHR ''G'') 15
      | ReleasePid _ \<Rightarrow> IOW (CHR ''G'') 16 8
      | SetT3Cap _ \<Rightarrow> IOWR (CHR ''G'') 17 16
      | GamingMode _ \<Rightarrow> IOW (CHR ''G'') 20 8)"

section \<open>State\<close>

datatype lval = IntV int | StrV string | ClockV int int

datatype why = Unchanged | RateLimited | DryRun | Done | ApplyFailed

record actuator_result =
  ar_lever :: string
  ar_applied :: bool
  ar_old :: "lval option"
  ar_new :: "lval option"
  ar_why :: why

record ctl =
  ct_actuate :: bool
  ct_dry :: bool
  ct_interval :: pyfloat
  ct_priv :: bool
  ct_last :: "(string, lval \<times> pyfloat) pydict"

definition new_ctl :: "string option \<Rightarrow> bool \<Rightarrow> pyfloat \<Rightarrow> nat \<Rightarrow> ctl" where
  "new_ctl orch_actuate dry interval euid =
     \<lparr>ct_actuate = (orch_actuate = Some ''1'' \<and> \<not> dry), ct_dry = dry, ct_interval = interval, ct_priv = (euid = 0), ct_last = []\<rparr>"

text \<open>What the baseline file holds for a lever: the text that was read, or \<open>True\<close> for unlocked clocks.\<close>

datatype bval = BText string | BTrue

datatype bfile = NoBaseline | Damaged | Baseline "(string, bval) pydict"

record machine =
  mc_files :: "string \<Rightarrow> string option"
  mc_requests :: "request list"
  mc_smi :: "string list list"
  mc_control :: "string option"
  mc_baseline :: bfile
  mc_dropin :: "string option"
  mc_nice :: "(int \<times> int) list"

text \<open>\<open>pw_write\<close>: the path opens for writing; \<open>pw_cpus\<close>: the directories the cpufreq pattern matches.\<close>

record powers =
  pw_write :: "string \<Rightarrow> bool"
  pw_dev :: bool
  pw_request :: "request \<Rightarrow> bool"
  pw_smi :: "string list \<Rightarrow> bool"
  pw_cpus :: "string list"
  pw_control :: bool
  pw_baseline :: bool
  pw_query :: "string \<Rightarrow> string option"
  pw_nice :: "int \<Rightarrow> bool"

section \<open>Backends\<close>

definition write_raw :: "string \<Rightarrow> string \<Rightarrow> machine \<Rightarrow> machine" where
  "write_raw path v m = m\<lparr>mc_files := (mc_files m)(path \<mapsto> v)\<rparr>"

definition write_sysfs :: "powers \<Rightarrow> ctl \<Rightarrow> string \<Rightarrow> string \<Rightarrow> machine \<Rightarrow> bool \<times> machine" where
  "write_sysfs pw ct path v m =
     (if \<not> ct_priv ct then (False, m)
      else if pw_write pw path then (True, write_raw path (v @ [CHR 0x0A]) m) else (False, m))"

definition do_ioctl :: "powers \<Rightarrow> ctl \<Rightarrow> request \<Rightarrow> machine \<Rightarrow> bool \<times> machine" where
  "do_ioctl pw ct r m =
     (if \<not> ct_priv ct \<and> command r \<noteq> command (GamingMode 0) then (False, m)
      else if \<not> pw_dev pw then (False, m)
      else if pw_request pw r then (True, m\<lparr>mc_requests := mc_requests m @ [r]\<rparr>) else (False, m))"

definition write_control :: "powers \<Rightarrow> string \<Rightarrow> int \<Rightarrow> machine \<Rightarrow> bool \<times> machine" where
  "write_control pw k v m =
     (let existing = (case mc_control m of None \<Rightarrow> [] | Some t \<Rightarrow> read_kv (\<lambda>l. CHR ''='' \<in> set l) (splitlines t));
          body = print_kv (dict_set k (show_int v) existing)
      in if pw_control pw then (True, m\<lparr>mc_control := Some body\<rparr>) else (False, m))"

definition write_path :: "powers \<Rightarrow> ctl \<Rightarrow> string \<Rightarrow> string \<Rightarrow> machine \<Rightarrow> bool \<times> machine" where
  "write_path pw ct path v m =
     (if \<not> ct_priv ct then (False, m)
      else if pw_write pw path then (True, write_raw path v m) else (False, m))"

definition glob_write :: "powers \<Rightarrow> ctl \<Rightarrow> string \<Rightarrow> string \<Rightarrow> machine \<Rightarrow> bool \<times> machine" where
  "glob_write pw ct file v m =
     (if \<not> ct_priv ct then (False, m)
      else foldl (\<lambda>(ok, m) d. if pw_write pw (d @ ''/'' @ file) then (True, write_raw (d @ ''/'' @ file) v m) else (ok, m))
        (False, m) (pw_cpus pw))"

definition run_nvsmi :: "powers \<Rightarrow> ctl \<Rightarrow> string list \<Rightarrow> machine \<Rightarrow> bool \<times> machine" where
  "run_nvsmi pw ct argv m =
     (if \<not> ct_priv ct then (False, m)
      else if pw_smi pw argv then (True, m\<lparr>mc_smi := mc_smi m @ [argv]\<rparr>) else (False, m))"

definition capture_baseline :: "powers \<Rightarrow> string \<Rightarrow> bval \<Rightarrow> machine \<Rightarrow> machine" where
  "capture_baseline pw key current m =
     (case mc_baseline m of
        Damaged \<Rightarrow> m
      | b \<Rightarrow>
          let d = (case b of Baseline d \<Rightarrow> d | _ \<Rightarrow> []) in
          if dict_get d key \<noteq> None then m
          else if pw_baseline pw then m\<lparr>mc_baseline := Baseline (dict_set key current d)\<rparr> else m)"

section \<open>The bounded lever\<close>

definition clampv :: "(int \<times> int) option \<Rightarrow> lval \<Rightarrow> lval" where
  "clampv bounds v = (case (bounds, v) of (Some (lo, hi), IntV n) \<Rightarrow> IntV (max lo (min hi n)) | _ \<Rightarrow> v)"

definition stepped :: "(int \<times> int) option \<Rightarrow> int option \<Rightarrow> lval option \<Rightarrow> lval \<Rightarrow> lval" where
  "stepped bounds step old new =
     (case (step, old, new) of
        (Some s, Some (IntV o'), IntV n) \<Rightarrow> clampv bounds (IntV (o' + max (- s) (min s (n - o'))))
      | _ \<Rightarrow> new)"

definition last_of :: "ctl \<Rightarrow> string \<Rightarrow> lval option \<times> pyfloat" where
  "last_of ct name = (case dict_get (ct_last ct) name of None \<Rightarrow> (None, 0) | Some (v, t) \<Rightarrow> (Some v, t))"

definition remember :: "string \<Rightarrow> lval \<Rightarrow> pyfloat \<Rightarrow> ctl \<Rightarrow> ctl" where
  "remember name v now ct = ct\<lparr>ct_last := dict_set name (v, now) (ct_last ct)\<rparr>"

definition report :: "string \<Rightarrow> bool \<Rightarrow> lval option \<Rightarrow> lval option \<Rightarrow> why \<Rightarrow> actuator_result" where
  "report name applied old new w = \<lparr>ar_lever = name, ar_applied = applied, ar_old = old, ar_new = new, ar_why = w\<rparr>"

text \<open>From the idempotence test on; one-shot levers have no such test and come in one step later.\<close>

definition rated :: "ctl \<Rightarrow> machine \<Rightarrow> pyfloat \<Rightarrow> string \<Rightarrow> pyfloat \<Rightarrow> lval \<Rightarrow> (machine \<Rightarrow> bool \<times> machine) \<Rightarrow>
    actuator_result \<times> ctl \<times> machine" where
  "rated ct m now name interval new apply =
     (case last_of ct name of (old, t) \<Rightarrow>
        if now - t < interval then (report name False old (Some new) RateLimited, ct, m)
        else if ct_dry ct \<or> \<not> ct_actuate ct then (report name False old (Some new) DryRun, remember name new now ct, m)
        else case apply m of (ok, m) \<Rightarrow>
          (report name ok old (Some new) (if ok then Done else ApplyFailed), if ok then remember name new now ct else ct, m))"

definition lever :: "ctl \<Rightarrow> machine \<Rightarrow> pyfloat \<Rightarrow> string \<Rightarrow> lval \<Rightarrow> (int \<times> int) option \<Rightarrow> int option \<Rightarrow>
    (lval \<Rightarrow> machine \<Rightarrow> bool \<times> machine) \<Rightarrow> actuator_result \<times> ctl \<times> machine" where
  "lever ct m now name new bounds step apply =
     (let old = fst (last_of ct name); new = stepped bounds step old (clampv bounds new)
      in if Some new = old then (report name False old (Some new) Unchanged, ct, m)
         else rated ct m now name (ct_interval ct) new (apply new))"

section \<open>The levers\<close>

definition int_of_lval :: "lval \<Rightarrow> int" where
  "int_of_lval v = (case v of IntV n \<Rightarrow> n | _ \<Rightarrow> 0)"

definition text_of_lval :: "lval \<Rightarrow> string" where
  "text_of_lval v = (case v of IntV n \<Rightarrow> show_int n | StrV s \<Rightarrow> s | ClockV _ _ \<Rightarrow> [])"

definition on_off :: "lval \<Rightarrow> string" where
  "on_off v = (if int_of_lval v \<noteq> 0 then ''1'' else ''0'')"

definition sysfs :: "string \<Rightarrow> string" where "sysfs p = ''/sys/module/greenboost/parameters/'' @ p"
definition proc_vm :: "string \<Rightarrow> string" where "proc_vm p = ''/proc/sys/vm/'' @ p"
definition proc_kernel :: "string \<Rightarrow> string" where "proc_kernel p = ''/proc/sys/kernel/'' @ p"

definition read_proc_sys :: "string \<Rightarrow> string \<Rightarrow> machine \<Rightarrow> string" where
  "read_proc_sys path dflt m = (case mc_files m path of None \<Rightarrow> dflt | Some s \<Rightarrow> strip s)"

definition read_cpufreq :: "powers \<Rightarrow> string \<Rightarrow> string \<Rightarrow> machine \<Rightarrow> string" where
  "read_cpufreq pw file dflt m =
     (case List.map_filter (\<lambda>d. mc_files m (d @ ''/'' @ file)) (sort (pw_cpus pw)) of [] \<Rightarrow> dflt | s # _ \<Rightarrow> strip s)"

text \<open>\<open>pw_query\<close> is the output of a query that succeeds.\<close>

definition read_nvsmi_query :: "powers \<Rightarrow> string \<Rightarrow> string \<Rightarrow> string" where
  "read_nvsmi_query pw field dflt =
     (case pw_query pw field of None \<Rightarrow> dflt
      | Some s \<Rightarrow> (case splitlines (strip s) of [] \<Rightarrow> dflt | l # _ \<Rightarrow> l))"

type_synonym call = "powers \<Rightarrow> ctl \<Rightarrow> machine \<Rightarrow> pyfloat \<Rightarrow> actuator_result \<times> ctl \<times> machine"

definition set_kv_reserve_mb :: "int \<Rightarrow> call" where
  "set_kv_reserve_mb mb pw ct m now =
     lever ct m now ''kv_reserve_mb'' (IntV mb) (Some (0, 65536)) (Some 512)
       (\<lambda>v m. case do_ioctl pw ct (SetKvReserve (int_of_lval v)) m of (ok, m) \<Rightarrow>
          (True, snd (write_control pw ''kv_reserve_mb'' (int_of_lval v) m)))"

definition set_safety_reserve_gb :: "int \<Rightarrow> call" where
  "set_safety_reserve_gb gb pw ct m now =
     lever ct m now ''safety_reserve_gb'' (IntV gb) (Some (1, 64)) (Some 1)
       (\<lambda>v. write_sysfs pw ct (sysfs ''safety_reserve_gb'') (text_of_lval v))"

definition set_workstation_reserve_mb :: "int \<Rightarrow> call" where
  "set_workstation_reserve_mb mb pw ct m now =
     lever ct m now ''workstation_reserve_mb'' (IntV mb) (Some (0, 8192)) (Some 256)
       (\<lambda>v. write_control pw ''workstation_reserve_mb'' (int_of_lval v))"

definition set_virtual_vram_gb :: "int \<Rightarrow> call" where
  "set_virtual_vram_gb gb pw ct m now =
     lever ct m now ''virtual_vram_gb'' (IntV gb) (Some (0, 512)) (Some 2)
       (\<lambda>v. write_sysfs pw ct (sysfs ''virtual_vram_gb'') (text_of_lval v))"

definition set_gaming_mode :: "bool \<Rightarrow> call" where
  "set_gaming_mode on pw ct m now =
     lever ct m now ''gaming_mode'' (IntV (of_bool on)) (Some (0, 1)) None
       (\<lambda>v m. case do_ioctl pw ct (GamingMode (int_of_lval v)) m of (ok, m) \<Rightarrow>
          (ok, snd (write_sysfs pw ct (sysfs ''gaming_mode'') (on_off v) m)))"

definition set_pool_cap_mb :: "int \<Rightarrow> call" where
  "set_pool_cap_mb mb pw ct m now =
     lever ct m now ''pool_cap_mb'' (IntV mb) (Some (4096, 2 ^ 20)) (Some 2048)
       (\<lambda>v. do_ioctl pw ct (SetPoolCap (int_of_lval v)))"

definition set_t3_cap_mb :: "int \<Rightarrow> call" where
  "set_t3_cap_mb mb pw ct m now =
     lever ct m now ''t3_cap_mb'' (IntV mb) (Some (0, 2 ^ 20)) (Some 4096)
       (\<lambda>v. do_ioctl pw ct (SetT3Cap (int_of_lval v)))"

definition set_idle_cleanup_sec :: "int \<Rightarrow> call" where
  "set_idle_cleanup_sec s pw ct m now =
     lever ct m now ''idle_cleanup_sec'' (IntV s) (Some (5, 3600)) (Some 30)
       (\<lambda>v. write_sysfs pw ct (sysfs ''idle_cleanup_sec'') (text_of_lval v))"

definition set_debug_mode :: "bool \<Rightarrow> call" where
  "set_debug_mode on pw ct m now =
     lever ct m now ''debug_mode'' (IntV (of_bool on)) (Some (0, 1)) None
       (\<lambda>v. write_sysfs pw ct (sysfs ''debug_mode'') (on_off v))"

definition evict_cold :: "int \<Rightarrow> call" where
  "evict_cold buf pw ct m now =
     rated ct m now ''evict_cold'' (ct_interval ct * 3) (IntV buf) (do_ioctl pw ct (EvictBuf buf))"

definition request_phase_reset :: call where
  "request_phase_reset pw ct m now =
     rated ct m now ''phase_reset'' (ct_interval ct * 3) (IntV 1) (do_ioctl pw ct ResetPhase)"

definition reset_oom_guard :: call where
  "reset_oom_guard pw ct m now = rated ct m now ''oom_reset'' (ct_interval ct) (IntV 1) (do_ioctl pw ct ResetOom)"

definition release_pid :: "int \<Rightarrow> call" where
  "release_pid pid pw ct m now =
     rated ct m now (''release_pid_'' @ show_int pid) (ct_interval ct) (IntV pid) (do_ioctl pw ct (ReleasePid pid))"

definition set_kv_size_threshold_mb :: "int \<Rightarrow> call" where
  "set_kv_size_threshold_mb mb pw ct m now =
     lever ct m now ''kv_size_threshold_mb'' (IntV mb) (Some (1, 4096)) (Some 16)
       (\<lambda>v. write_control pw ''kv_size_threshold_mb'' (int_of_lval v))"

definition set_swa_window_mb :: "int \<Rightarrow> call" where
  "set_swa_window_mb mb pw ct m now =
     lever ct m now ''swa_window_mb'' (IntV mb) (Some (0, 65536)) (Some 1024)
       (\<lambda>v. write_control pw ''swa_window_mb'' (int_of_lval v))"

definition set_prefetch_throttle :: "bool \<Rightarrow> call" where
  "set_prefetch_throttle on pw ct m now =
     lever ct m now ''prefetch_throttle'' (IntV (of_bool on)) (Some (0, 1)) None
       (\<lambda>v. write_control pw ''prefetch_throttle'' (int_of_lval v))"

definition set_phase_detect :: "bool \<Rightarrow> call" where
  "set_phase_detect on pw ct m now =
     lever ct m now ''phase_detect'' (IntV (of_bool on)) (Some (0, 1)) None
       (\<lambda>v. write_control pw ''phase_detect'' (int_of_lval v))"

section \<open>The operating system's levers\<close>

definition set_cpu_governor :: "string \<Rightarrow> call" where
  "set_cpu_governor gov pw ct m now =
     lever ct m now ''cpu_governor'' (StrV gov) None None
       (\<lambda>v m. glob_write pw ct ''scaling_governor'' (text_of_lval v)
          (capture_baseline pw ''cpu_governor'' (BText (read_cpufreq pw ''scaling_governor'' ''schedutil'' m)) m))"

definition set_energy_perf_pref :: "string \<Rightarrow> call" where
  "set_energy_perf_pref epp pw ct m now =
     lever ct m now ''energy_perf_pref'' (StrV epp) None None
       (\<lambda>v m. glob_write pw ct ''energy_performance_preference'' (text_of_lval v)
          (capture_baseline pw ''energy_perf_pref''
             (BText (read_cpufreq pw ''energy_performance_preference'' ''balance_performance'' m)) m))"

definition set_numa_balancing :: "bool \<Rightarrow> call" where
  "set_numa_balancing on pw ct m now =
     lever ct m now ''numa_balancing'' (IntV (of_bool on)) (Some (0, 1)) None
       (\<lambda>v m. write_path pw ct (proc_kernel ''numa_balancing'') (on_off v)
          (capture_baseline pw ''numa_balancing'' (BText (read_proc_sys (proc_kernel ''numa_balancing'') ''1'' m)) m))"

definition set_swappiness :: "int \<Rightarrow> call" where
  "set_swappiness n pw ct m now =
     lever ct m now ''swappiness'' (IntV n) (Some (1, 100)) (Some 20)
       (\<lambda>v m. write_path pw ct (proc_vm ''swappiness'') (text_of_lval v)
          (capture_baseline pw ''swappiness'' (BText (read_proc_sys (proc_vm ''swappiness'') ''60'' m)) m))"

definition set_dirty_background_ratio :: "int \<Rightarrow> call" where
  "set_dirty_background_ratio n pw ct m now =
     lever ct m now ''dirty_background_ratio'' (IntV n) (Some (1, 40)) (Some 10)
       (\<lambda>v m. write_path pw ct (proc_vm ''dirty_background_ratio'') (text_of_lval v)
          (capture_baseline pw ''dirty_background_ratio'' (BText (read_proc_sys (proc_vm ''dirty_background_ratio'') ''10'' m)) m))"

definition set_watermark_scale_factor :: "int \<Rightarrow> call" where
  "set_watermark_scale_factor n pw ct m now =
     lever ct m now ''watermark_scale_factor'' (IntV n) (Some (10, 300)) (Some 50)
       (\<lambda>v m. write_path pw ct (proc_vm ''watermark_scale_factor'') (text_of_lval v)
          (capture_baseline pw ''watermark_scale_factor'' (BText (read_proc_sys (proc_vm ''watermark_scale_factor'') ''10'' m)) m))"

definition set_gpu_persistence :: "bool \<Rightarrow> call" where
  "set_gpu_persistence on pw ct m now =
     lever ct m now ''gpu_persistence'' (IntV (of_bool on)) (Some (0, 1)) None (\<lambda>v. run_nvsmi pw ct [''-pm'', on_off v])"

definition lock_gpu_clocks :: "int \<Rightarrow> int \<Rightarrow> call" where
  "lock_gpu_clocks lo hi pw ct m now =
     (case last_of ct ''gpu_clocks_locked'' of (old, t) \<Rightarrow>
        if Some (ClockV lo hi) = old then (report ''gpu_clocks_locked'' False old (Some (ClockV lo hi)) Unchanged, ct, m)
        else if now - t < ct_interval ct then (report ''gpu_clocks_locked'' False old (Some (ClockV lo hi)) RateLimited, ct, m)
        else rated ct (capture_baseline pw ''gpu_clocks_locked'' BTrue m) now ''gpu_clocks_locked'' (ct_interval ct) (ClockV lo hi)
          (run_nvsmi pw ct [''-lgc'', show_int lo @ '','' @ show_int hi]))"

definition reset_gpu_clocks :: call where
  "reset_gpu_clocks pw ct m now =
     (let name = ''gpu_clocks_locked''; old = fst (last_of ct name); forget = ct\<lparr>ct_last := dict_del name (ct_last ct)\<rparr> in
      if old = None then (report name False old None Unchanged, ct, m)
      else if ct_dry ct \<or> \<not> ct_actuate ct then (report name False old None DryRun, forget, m)
      else case run_nvsmi pw ct [''-rgc''] m of (ok, m) \<Rightarrow>
        (report name ok old None (if ok then Done else ApplyFailed), if ok then forget else ct, m))"

definition set_gpu_power_limit :: "int \<Rightarrow> call" where
  "set_gpu_power_limit w pw ct m now =
     lever ct m now ''gpu_power_limit_w'' (IntV w) (Some (50, 600)) (Some 15)
       (\<lambda>v m. run_nvsmi pw ct [''-pl'', text_of_lval v]
          (capture_baseline pw ''gpu_power_limit_w''
             (BText (case words (read_nvsmi_query pw ''power.limit'' ''0'') of [] \<Rightarrow> ''0'' | q # _ \<Rightarrow> q)) m))"

definition steer_irqs :: "int list \<Rightarrow> string \<Rightarrow> call" where
  "steer_irqs irqs cpus pw ct m now =
     (if ct_dry ct \<or> \<not> ct_actuate ct then (report ''irq_affinity'' False None (Some (StrV cpus)) DryRun, ct, m)
      else case foldl (\<lambda>(any, m) irq. case write_path pw ct (''/proc/irq/'' @ show_int irq @ ''/smp_affinity_list'') cpus m of
          (ok, m) \<Rightarrow> (ok \<or> any, m)) (False, m) irqs of (any, m) \<Rightarrow>
        (report ''irq_affinity'' any None (Some (StrV cpus)) (if any then Done else ApplyFailed), ct, m))"

text \<open>The call of \<^verbatim>\<open>ionice\<close> that follows has no say in the answer.\<close>

definition set_proc_priority :: "int \<Rightarrow> int \<Rightarrow> call" where
  "set_proc_priority pid nice pw ct m now =
     (let name = ''proc_priority_'' @ show_int pid in
      if ct_dry ct \<or> \<not> ct_actuate ct then (report name False None (Some (IntV nice)) DryRun, ct, m)
      else if pw_nice pw pid then (report name True None (Some (IntV nice)) Done, ct, m\<lparr>mc_nice := mc_nice m @ [(pid, nice)]\<rparr>)
      else (report name False None (Some (IntV nice)) ApplyFailed, ct, m))"

section \<open>Undoing and persisting\<close>

text \<open>\<open>None\<close> is the \<open>ValueError\<close> of a text that is no integer.\<close>

definition int_of_bval :: "bval \<Rightarrow> int option" where
  "int_of_bval b = (case b of BTrue \<Rightarrow> Some 1 | BText s \<Rightarrow> int_text s)"

definition text_of_bval :: "bval \<Rightarrow> string" where
  "text_of_bval b = (case b of BTrue \<Rightarrow> ''True'' | BText s \<Rightarrow> s)"

definition restore_int :: "bval \<Rightarrow> (int \<Rightarrow> machine \<Rightarrow> bool \<times> machine) \<Rightarrow> machine \<Rightarrow> bool option \<times> machine" where
  "restore_int b f m = (case int_of_bval b of None \<Rightarrow> (None, m) | Some i \<Rightarrow> map_prod Some id (f i m))"

definition restore_one :: "powers \<Rightarrow> ctl \<Rightarrow> string \<Rightarrow> bval \<Rightarrow> machine \<Rightarrow> bool option \<times> machine" where
  "restore_one pw ct key b m =
     (if key = ''cpu_governor'' then map_prod Some id (glob_write pw ct ''scaling_governor'' (text_of_bval b) m)
      else if key = ''energy_perf_pref'' then map_prod Some id (glob_write pw ct ''energy_performance_preference'' (text_of_bval b) m)
      else if key = ''numa_balancing'' then restore_int b (\<lambda>i. write_path pw ct (proc_kernel ''numa_balancing'') (show_int i)) m
      else if key = ''swappiness'' then restore_int b (\<lambda>i. write_path pw ct (proc_vm ''swappiness'') (show_int i)) m
      else if key = ''dirty_background_ratio'' then restore_int b (\<lambda>i. write_path pw ct (proc_vm ''dirty_background_ratio'') (show_int i)) m
      else if key = ''watermark_scale_factor'' then restore_int b (\<lambda>i. write_path pw ct (proc_vm ''watermark_scale_factor'') (show_int i)) m
      else if key = ''gpu_power_limit_w'' then restore_int b (\<lambda>i. run_nvsmi pw ct [''-pl'', show_int i]) m
      else if key = ''gpu_clocks_locked'' then map_prod Some id (run_nvsmi pw ct [''-rgc''] m)
      else (Some False, m))"

datatype restore_error = NotAnInteger string

fun restore_all :: "powers \<Rightarrow> ctl \<Rightarrow> (string, bval) pydict \<Rightarrow> (restore_error + (string, bool) pydict) \<times> machine \<Rightarrow>
    (restore_error + (string, bool) pydict) \<times> machine" where
  "restore_all pw ct [] (res, m) = (res, m)"
| "restore_all pw ct ((key, b) # rest) (res, m) =
     (case restore_one pw ct key b m of
        (None, m) \<Rightarrow> (Inl (NotAnInteger key), m)
      | (Some ok, m) \<Rightarrow> restore_all pw ct rest (map_sum id (dict_set key ok) res, m))"

definition restore_baseline :: "powers \<Rightarrow> ctl \<Rightarrow> machine \<Rightarrow> (restore_error + (string, bool) pydict) \<times> ctl \<times> machine" where
  "restore_baseline pw ct m =
     (case mc_baseline m of
        Baseline d \<Rightarrow>
          (case restore_all pw ct d (Inr [], m) of
             (Inl e, m) \<Rightarrow> (Inl e, ct, m)
           | (Inr res, m) \<Rightarrow> (Inr res, ct\<lparr>ct_last := []\<rparr>, m))
      | _ \<Rightarrow> (Inr [], ct, m))"

definition persisted :: "(string \<times> string) list" where
  "persisted =
     [(''swappiness'', ''vm.swappiness''), (''dirty_background_ratio'', ''vm.dirty_background_ratio''),
      (''watermark_scale_factor'', ''vm.watermark_scale_factor''), (''numa_balancing'', ''kernel.numa_balancing'')]"

definition persist :: "powers \<Rightarrow> ctl \<Rightarrow> machine \<Rightarrow> bool \<times> machine" where
  "persist pw ct m =
     (let ls = List.map_filter (\<lambda>(k, s). map_option (\<lambda>(v, _). s @ '' = '' @ show_int (int_of_lval v)) (dict_get (ct_last ct) k)) persisted in
      if ls = [] then (False, m)
      else if \<not> ct_priv ct then (False, m)
      else if pw_write pw ''/etc/sysctl.d/99-zzz-greenboost-dynamic.conf''
        then (True, m\<lparr>mc_dropin := Some (concat (map (\<lambda>l. l @ [CHR 0x0A]) ls))\<rparr>) else (False, m))"

section \<open>Every lever by name\<close>

datatype lever_call =
    KvReserve int | SafetyReserve int | WorkstationReserve int | VirtualVram int | Gaming bool | PoolCap int | T3Cap int
  | IdleCleanup int | DebugMode bool | EvictCold int | PhaseReset | OomReset | ReleaseOf int | KvThreshold int | SwaWindow int
  | PrefetchThrottle bool | PhaseDetect bool | Governor string | EnergyPref string | NumaBalancing bool | Swappiness int
  | DirtyRatio int | Watermark int | Persistence bool | LockClocks int int | ResetClocks | PowerLimit int
  | SteerIrqs "int list" string | ProcPriority int int

fun do_call :: "lever_call \<Rightarrow> call" where
  "do_call (KvReserve n) = set_kv_reserve_mb n"
| "do_call (SafetyReserve n) = set_safety_reserve_gb n"
| "do_call (WorkstationReserve n) = set_workstation_reserve_mb n"
| "do_call (VirtualVram n) = set_virtual_vram_gb n"
| "do_call (Gaming b) = set_gaming_mode b"
| "do_call (PoolCap n) = set_pool_cap_mb n"
| "do_call (T3Cap n) = set_t3_cap_mb n"
| "do_call (IdleCleanup n) = set_idle_cleanup_sec n"
| "do_call (DebugMode b) = set_debug_mode b"
| "do_call (EvictCold n) = evict_cold n"
| "do_call PhaseReset = request_phase_reset"
| "do_call OomReset = reset_oom_guard"
| "do_call (ReleaseOf n) = release_pid n"
| "do_call (KvThreshold n) = set_kv_size_threshold_mb n"
| "do_call (SwaWindow n) = set_swa_window_mb n"
| "do_call (PrefetchThrottle b) = set_prefetch_throttle b"
| "do_call (PhaseDetect b) = set_phase_detect b"
| "do_call (Governor g) = set_cpu_governor g"
| "do_call (EnergyPref g) = set_energy_perf_pref g"
| "do_call (NumaBalancing b) = set_numa_balancing b"
| "do_call (Swappiness n) = set_swappiness n"
| "do_call (DirtyRatio n) = set_dirty_background_ratio n"
| "do_call (Watermark n) = set_watermark_scale_factor n"
| "do_call (Persistence b) = set_gpu_persistence b"
| "do_call (LockClocks lo hi) = lock_gpu_clocks lo hi"
| "do_call ResetClocks = reset_gpu_clocks"
| "do_call (PowerLimit n) = set_gpu_power_limit n"
| "do_call (SteerIrqs irqs cpus) = steer_irqs irqs cpus"
| "do_call (ProcPriority pid nice) = set_proc_priority pid nice"

text \<open>A controller at work: calls at given times, and what each answered.\<close>

fun run_calls :: "powers \<Rightarrow> (pyfloat \<times> lever_call) list \<Rightarrow> ctl \<Rightarrow> machine \<Rightarrow> (pyfloat \<times> actuator_result) list \<times> ctl \<times> machine" where
  "run_calls pw [] ct m = ([], ct, m)"
| "run_calls pw ((now, c) # cs) ct m =
     (case do_call c pw ct m now of (r, ct, m) \<Rightarrow>
      case run_calls pw cs ct m of (rs, ct, m) \<Rightarrow> ((now, r) # rs, ct, m))"

section \<open>Small steps, far apart, within bounds\<close>

abbreviation actuating :: "ctl \<Rightarrow> bool" where
  "actuating ct \<equiv> ct_actuate ct \<and> \<not> ct_dry ct"

text \<open>Bounds and step of every lever that has a number or a switch.\<close>

definition limits :: "string \<Rightarrow> ((int \<times> int) \<times> int option) option" where
  "limits = map_of
     [(''kv_reserve_mb'', ((0, 65536), Some 512)), (''safety_reserve_gb'', ((1, 64), Some 1)),
      (''workstation_reserve_mb'', ((0, 8192), Some 256)), (''virtual_vram_gb'', ((0, 512), Some 2)),
      (''gaming_mode'', ((0, 1), None)), (''pool_cap_mb'', ((4096, 2 ^ 20), Some 2048)),
      (''t3_cap_mb'', ((0, 2 ^ 20), Some 4096)), (''idle_cleanup_sec'', ((5, 3600), Some 30)),
      (''debug_mode'', ((0, 1), None)), (''kv_size_threshold_mb'', ((1, 4096), Some 16)),
      (''swa_window_mb'', ((0, 65536), Some 1024)), (''prefetch_throttle'', ((0, 1), None)),
      (''phase_detect'', ((0, 1), None)), (''numa_balancing'', ((0, 1), None)), (''swappiness'', ((1, 100), Some 20)),
      (''dirty_background_ratio'', ((1, 40), Some 10)), (''watermark_scale_factor'', ((10, 300), Some 50)),
      (''gpu_persistence'', ((0, 1), None)), (''gpu_power_limit_w'', ((50, 600), Some 15))]"

lemmas setter_defs = set_kv_reserve_mb_def set_safety_reserve_gb_def set_workstation_reserve_mb_def set_virtual_vram_gb_def
  set_gaming_mode_def set_pool_cap_mb_def set_t3_cap_mb_def set_idle_cleanup_sec_def set_debug_mode_def
  set_kv_size_threshold_mb_def set_swa_window_mb_def set_prefetch_throttle_def set_phase_detect_def
  set_cpu_governor_def set_energy_perf_pref_def set_numa_balancing_def set_swappiness_def set_dirty_background_ratio_def
  set_watermark_scale_factor_def set_gpu_persistence_def set_gpu_power_limit_def

lemmas oneshot_defs = evict_cold_def request_phase_reset_def reset_oom_guard_def release_pid_def

lemma limits_positive: "limits name = Some ((lo, hi), step) \<Longrightarrow> lo \<le> hi \<and> (\<forall>s. step = Some s \<longrightarrow> 0 < s)"
  by (auto simp: limits_def split: if_splits)

lemma clampv_in: "lo \<le> hi \<Longrightarrow> \<exists>n'. clampv (Some (lo, hi)) (IntV n) = IntV n' \<and> lo \<le> n' \<and> n' \<le> hi"
  by (auto simp: clampv_def)

text \<open>The value a bounded lever comes to: in bounds, and no further than a step from a value in bounds.\<close>

lemma stepped_in:
  assumes "lo \<le> hi" "\<forall>s. step = Some s \<longrightarrow> 0 < s"
  shows "\<exists>v. stepped (Some (lo, hi)) step old (clampv (Some (lo, hi)) (IntV n)) = IntV v \<and> lo \<le> v \<and> v \<le> hi \<and>
    (\<forall>o' s. old = Some (IntV o') \<longrightarrow> step = Some s \<longrightarrow> lo \<le> o' \<longrightarrow> o' \<le> hi \<longrightarrow> \<bar>v - o'\<bar> \<le> s)"
proof -
  obtain n' where n: "clampv (Some (lo, hi)) (IntV n) = IntV n'" "lo \<le> n'" "n' \<le> hi" using clampv_in [OF assms(1)] by blast
  show ?thesis
  proof (cases "\<exists>s o'. step = Some s \<and> old = Some (IntV o')")
    case False
    then have "stepped (Some (lo, hi)) step old (IntV n') = IntV n'"
      by (auto simp: stepped_def split: option.split lval.split)
    with n False show ?thesis by auto
  next
    case True
    then obtain s o' where so: "step = Some s" "old = Some (IntV o')" by blast
    with assms(2) have "0 < s" by simp
    let ?d = "o' + max (- s) (min s (n' - o'))"
    have "stepped (Some (lo, hi)) step old (IntV n') = IntV (max lo (min hi ?d))"
      by (simp add: so stepped_def clampv_def)
    moreover have "\<bar>max lo (min hi ?d) - o'\<bar> \<le> s" if "lo \<le> o'" "o' \<le> hi" using that \<open>0 < s\<close> by linarith
    ultimately show ?thesis using n(1) assms(1) so by auto
  qed
qed

lemma rated_frame:
  assumes "rated ct m now name interval new apply = (r, ct', m')"
  shows "ct_actuate ct' = ct_actuate ct" "ct_dry ct' = ct_dry ct" "ct_interval ct' = ct_interval ct" "ct_priv ct' = ct_priv ct"
    and "ar_lever r = name" and "x \<noteq> name \<Longrightarrow> dict_get (ct_last ct') x = dict_get (ct_last ct) x"
    and "ar_applied r \<Longrightarrow> actuating ct \<and> ar_new r = Some new \<and> dict_get (ct_last ct') name = Some (new, now) \<and>
      interval \<le> now - snd (last_of ct name)"
    and "actuating ct \<Longrightarrow> \<not> ar_applied r \<Longrightarrow> ct' = ct" and "\<not> actuating ct \<Longrightarrow> m' = m \<and> \<not> ar_applied r"
    and "m' = m \<or> m' = snd (apply m)"
  using assms by (auto simp: rated_def report_def remember_def split: prod.splits if_splits)

lemma lever_rated:
  assumes "lever ct m now name new bounds step apply = (r, ct', m')"
  shows "(ct' = ct \<and> m' = m \<and> ar_lever r = name \<and> \<not> ar_applied r) \<or>
    (let v = stepped bounds step (fst (last_of ct name)) (clampv bounds new) in
       fst (last_of ct name) \<noteq> Some v \<and> rated ct m now name (ct_interval ct) v (apply v) = (r, ct', m'))"
  using assms by (auto simp: lever_def Let_def report_def split: if_splits)

lemma lever_frame:
  assumes "lever ct m now name new bounds step apply = (r, ct', m')"
  shows "ct_actuate ct' = ct_actuate ct \<and> ct_dry ct' = ct_dry ct \<and> ct_interval ct' = ct_interval ct \<and> ct_priv ct' = ct_priv ct"
    and "ar_lever r = name" and "x \<noteq> name \<Longrightarrow> dict_get (ct_last ct') x = dict_get (ct_last ct) x"
    and "\<not> actuating ct \<Longrightarrow> m' = m \<and> \<not> ar_applied r" and "m' = m \<or> (\<exists>v. m' = snd (apply v m))"
proof -
  have "(ct' = ct \<and> m' = m \<and> ar_lever r = name \<and> \<not> ar_applied r) \<or>
      (\<exists>v. rated ct m now name (ct_interval ct) v (apply v) = (r, ct', m'))"
    using lever_rated [OF assms] by (auto simp: Let_def)
  then consider "ct' = ct" "m' = m" "ar_lever r = name" "\<not> ar_applied r"
    | v where "rated ct m now name (ct_interval ct) v (apply v) = (r, ct', m')" by blast
  note c = this
  show "ct_actuate ct' = ct_actuate ct \<and> ct_dry ct' = ct_dry ct \<and> ct_interval ct' = ct_interval ct \<and> ct_priv ct' = ct_priv ct"
    by (rule c) (simp_all add: rated_frame(1-4))
  show "ar_lever r = name" by (rule c) (simp_all add: rated_frame(5))
  show "x \<noteq> name \<Longrightarrow> dict_get (ct_last ct') x = dict_get (ct_last ct) x" by (rule c) (simp_all add: rated_frame(6))
  show "\<not> actuating ct \<Longrightarrow> m' = m \<and> \<not> ar_applied r" by (rule c) (auto dest: rated_frame(9))
  show "m' = m \<or> (\<exists>v. m' = snd (apply v m))" by (rule c) (auto dest: rated_frame(10))
qed

text \<open>What a call does to the lever \<open>name\<close>: nothing, or the bounded lever with the limits of that name.\<close>

definition shape :: "string \<Rightarrow> (int \<times> int) \<Rightarrow> int option \<Rightarrow> ctl \<Rightarrow> machine \<Rightarrow> pyfloat \<Rightarrow> actuator_result \<times> ctl \<times> machine \<Rightarrow> bool" where
  "shape name bounds step ct m now res \<longleftrightarrow>
     (case res of (r, ct', m') \<Rightarrow>
        (ct_actuate ct' = ct_actuate ct \<and> ct_dry ct' = ct_dry ct \<and> ct_interval ct' = ct_interval ct \<and> ct_priv ct' = ct_priv ct) \<and>
        ((ar_lever r \<noteq> name \<and> dict_get (ct_last ct') name = dict_get (ct_last ct) name) \<or>
         (\<exists>n apply. lever ct m now name (IntV n) (Some bounds) step apply = (r, ct', m'))))"

lemma shape_lever:
  assumes "limits nm = Some (b, s)" "limits name = Some (bounds, step)"
  shows "shape name bounds step ct m now (lever ct m now nm (IntV n) (Some b) s apply)"
proof -
  obtain r ct' m' where l: "lever ct m now nm (IntV n) (Some b) s apply = (r, ct', m')" by (metis prod_cases3)
  show ?thesis
  proof (cases "nm = name")
    case True
    with assms have "b = bounds" "s = step" by simp_all
    with l lever_frame(1) [OF l] True show ?thesis by (auto simp: shape_def)
  next
    case False
    with l lever_frame(1,2) [OF l] lever_frame(3) [OF l, of name] show ?thesis by (simp add: shape_def)
  qed
qed

lemma shape_text:
  "limits nm = None \<Longrightarrow> limits name = Some (bounds, step) \<Longrightarrow> shape name bounds step ct m now (lever ct m now nm v b s apply)"
proof -
  assume n: "limits nm = None" "limits name = Some (bounds, step)"
  then have ne: "name \<noteq> nm" by auto
  obtain r ct' m' where l: "lever ct m now nm v b s apply = (r, ct', m')" by (metis prod_cases3)
  with lever_frame(1,2) [OF l] lever_frame(3) [OF l ne] ne show ?thesis by (simp add: shape_def)
qed

lemma shape_rated:
  "limits nm = None \<Longrightarrow> limits name = Some (bounds, step) \<Longrightarrow> shape name bounds step ct m now (rated ct m1 now nm i v apply)"
proof -
  assume n: "limits nm = None" "limits name = Some (bounds, step)"
  then have ne: "name \<noteq> nm" by auto
  obtain r ct' m' where l: "rated ct m1 now nm i v apply = (r, ct', m')" by (metis prod_cases3)
  with rated_frame(1-5) [OF l] rated_frame(6) [OF l ne] ne show ?thesis by (simp add: shape_def)
qed

lemma shape_skip:
  "limits nm = None \<Longrightarrow> limits name = Some (bounds, step) \<Longrightarrow> shape name bounds step ct m now (report nm a old new w, ct, m')"
  "limits nm = None \<Longrightarrow> limits name = Some (bounds, step) \<Longrightarrow>
   shape name bounds step ct m now (report nm a old new w, ct\<lparr>ct_last := dict_del nm (ct_last ct)\<rparr>, m')"
  by (auto simp: shape_def report_def)

lemma limits_other [simp]:
  "limits ''evict_cold'' = None" "limits ''phase_reset'' = None" "limits ''oom_reset'' = None" "limits (''release_pid_'' @ s) = None"
  "limits ''cpu_governor'' = None" "limits ''energy_perf_pref'' = None" "limits ''gpu_clocks_locked'' = None"
  "limits ''irq_affinity'' = None" "limits (''proc_priority_'' @ s) = None"
  by (simp_all add: limits_def)

lemma call_shape:
  assumes "limits name = Some (bounds, step)"
  shows "shape name bounds step ct m now (do_call c pw ct m now)"
proof (cases c)
  case (LockClocks lo hi)
  note k = shape_rated [OF limits_other(7) assms] shape_skip(1) [OF limits_other(7) assms]
  obtain old t where "last_of ct ''gpu_clocks_locked'' = (old, t)" by fastforce
  then show ?thesis unfolding LockClocks do_call.simps lock_gpu_clocks_def by (simp del: append.simps) (auto intro: k)
next
  case ResetClocks
  note k = shape_skip [OF limits_other(7) assms]
  obtain ok m2 where "run_nvsmi pw ct [''-rgc''] m = (ok, m2)" by fastforce
  then show ?thesis unfolding ResetClocks do_call.simps reset_gpu_clocks_def Let_def by (auto intro: k)
next
  case (SteerIrqs irqs cpus)
  note k = shape_skip(1) [OF limits_other(8) assms]
  show ?thesis unfolding SteerIrqs do_call.simps steer_irqs_def by (auto intro: k split: prod.split)
next
  case (ProcPriority pid nice)
  note k = shape_skip(1) [OF limits_other(9) assms]
  show ?thesis unfolding ProcPriority do_call.simps set_proc_priority_def Let_def by (auto intro: k simp del: append.simps)
qed (simp_all only: do_call.simps setter_defs oneshot_defs,
     (rule shape_lever [OF _ assms] shape_text [OF _ assms] shape_rated [OF _ assms], simp add: limits_def)+)

definition moved :: "string \<Rightarrow> pyfloat \<times> actuator_result \<Rightarrow> (int \<times> pyfloat) option" where
  "moved name e =
     (if ar_lever (snd e) = name \<and> ar_applied (snd e)
      then (case ar_new (snd e) of Some (IntV v) \<Rightarrow> Some (v, fst e) | _ \<Rightarrow> None) else None)"

text \<open>The values a lever was set to, with the times.\<close>

definition history :: "string \<Rightarrow> (pyfloat \<times> actuator_result) list \<Rightarrow> (int \<times> pyfloat) list" where
  "history name trace = List.map_filter (moved name) trace"

definition gentle :: "int option \<Rightarrow> pyfloat \<Rightarrow> int \<times> pyfloat \<Rightarrow> int \<times> pyfloat \<Rightarrow> bool" where
  "gentle step interval p q \<longleftrightarrow>
     fst q \<noteq> fst p \<and> (\<forall>s. step = Some s \<longrightarrow> \<bar>fst q - fst p\<bar> \<le> s) \<and> interval \<le> snd q - snd p"

lemma history_Cons: "history name (e # tr) = (case moved name e of None \<Rightarrow> history name tr | Some p \<Rightarrow> p # history name tr)"
  by (simp add: history_def List.map_filter_simps split: option.split)

text \<open>One call of a controller that actuates: the lever keeps its last value, or is moved a step on.\<close>

lemma call_moves:
  assumes "do_call c pw ct m now = (r, ct', m')" "limits name = Some ((lo, hi), step)" "actuating ct"
    and "dict_get (ct_last ct) name = map_option (\<lambda>(v, t). (IntV v, t)) prev" "\<forall>p. prev = Some p \<longrightarrow> lo \<le> fst p \<and> fst p \<le> hi"
  shows "actuating ct'" "ct_interval ct' = ct_interval ct"
    and "moved name (now, r) = None \<and> dict_get (ct_last ct') name = dict_get (ct_last ct) name \<or>
      (\<exists>v. moved name (now, r) = Some (v, now) \<and> dict_get (ct_last ct') name = Some (IntV v, now) \<and> lo \<le> v \<and> v \<le> hi \<and>
         (\<forall>p. prev = Some p \<longrightarrow> gentle step (ct_interval ct) p (v, now)))"
proof -
  from call_shape [OF assms(2), of ct m now c pw] assms(1)
  have fr: "ct_actuate ct' = ct_actuate ct" "ct_dry ct' = ct_dry ct" "ct_interval ct' = ct_interval ct"
    and sh: "(ar_lever r \<noteq> name \<and> dict_get (ct_last ct') name = dict_get (ct_last ct) name) \<or>
      (\<exists>n apply. lever ct m now name (IntV n) (Some (lo, hi)) step apply = (r, ct', m'))"
    by (simp_all add: shape_def)
  from fr assms(3) show act: "actuating ct'" and "ct_interval ct' = ct_interval ct" by simp_all
  from sh show "moved name (now, r) = None \<and> dict_get (ct_last ct') name = dict_get (ct_last ct) name \<or>
      (\<exists>v. moved name (now, r) = Some (v, now) \<and> dict_get (ct_last ct') name = Some (IntV v, now) \<and> lo \<le> v \<and> v \<le> hi \<and>
         (\<forall>p. prev = Some p \<longrightarrow> gentle step (ct_interval ct) p (v, now)))"
  proof
    assume "ar_lever r \<noteq> name \<and> dict_get (ct_last ct') name = dict_get (ct_last ct) name"
    then show ?thesis by (simp add: moved_def)
  next
    assume "\<exists>n apply. lever ct m now name (IntV n) (Some (lo, hi)) step apply = (r, ct', m')"
    then obtain n ap where l: "lever ct m now name (IntV n) (Some (lo, hi)) step ap = (r, ct', m')" by blast
    let ?old = "fst (last_of ct name)"
    from limits_positive [OF assms(2)] have lim: "lo \<le> hi" "\<forall>s. step = Some s \<longrightarrow> 0 < s" by simp_all
    from stepped_in [OF lim, of ?old n] obtain v where
      v: "stepped (Some (lo, hi)) step ?old (clampv (Some (lo, hi)) (IntV n)) = IntV v" "lo \<le> v" "v \<le> hi"
      and st: "\<forall>o' s. ?old = Some (IntV o') \<longrightarrow> step = Some s \<longrightarrow> lo \<le> o' \<longrightarrow> o' \<le> hi \<longrightarrow> \<bar>v - o'\<bar> \<le> s" by blast
    show ?thesis
    proof (cases "ar_applied r")
      case False
      with lever_rated [OF l] rated_frame(8) assms(3) have "ct' = ct" by (auto simp: Let_def)
      with False show ?thesis by (simp add: moved_def)
    next
      case True
      with lever_rated [OF l] v(1) have ra: "?old \<noteq> Some (IntV v)"
          "rated ct m now name (ct_interval ct) (IntV v) (ap (IntV v)) = (r, ct', m')" by (auto simp: Let_def)
      note f = rated_frame(5) [OF ra(2)] rated_frame(7) [OF ra(2) True]
      have "gentle step (ct_interval ct) p (v, now)" if "prev = Some p" for p
        using that assms(4,5) ra(1) st f(2) by (auto simp: gentle_def last_of_def split: prod.splits)
      with f v True show ?thesis by (auto simp: moved_def)
    qed
  qed
qed

lemma run_moves:
  assumes "run_calls pw cs ct m = (trace, ct', m')" "limits name = Some ((lo, hi), step)" "actuating ct"
    and "dict_get (ct_last ct) name = map_option (\<lambda>(v, t). (IntV v, t)) prev" "\<forall>p. prev = Some p \<longrightarrow> lo \<le> fst p \<and> fst p \<le> hi"
  shows "successively (gentle step (ct_interval ct)) ((case prev of None \<Rightarrow> [] | Some p \<Rightarrow> [p]) @ history name trace) \<and>
    (\<forall>(v, t) \<in> set (history name trace). lo \<le> v \<and> v \<le> hi)"
  using assms
proof (induction cs arbitrary: ct m trace prev)
  case Nil
  then show ?case by (cases prev) (auto simp: history_def List.map_filter_simps)
next
  case (Cons e cs)
  obtain now c where e: "e = (now, c)" by fastforce
  obtain r ct1 m1 where k: "do_call c pw ct m now = (r, ct1, m1)" by (metis prod_cases3)
  obtain tr ct2 m2 where k2: "run_calls pw cs ct1 m1 = (tr, ct2, m2)" by (metis prod_cases3)
  from Cons.prems(1) k k2 e have t: "trace = (now, r) # tr" "(tr, ct2, m2) = (tr, ct', m')" by simp_all
  note cm = call_moves [OF k Cons.prems(2-5)]
  from cm(3) show ?case
  proof
    assume n: "moved name (now, r) = None \<and> dict_get (ct_last ct1) name = dict_get (ct_last ct) name"
    with Cons.IH [OF k2 [unfolded t(2)] Cons.prems(2) cm(1) _ Cons.prems(5)] Cons.prems(4) cm(2)
    show ?thesis by (simp add: t(1) history_Cons)
  next
    assume "\<exists>v. moved name (now, r) = Some (v, now) \<and> dict_get (ct_last ct1) name = Some (IntV v, now) \<and> lo \<le> v \<and> v \<le> hi \<and>
         (\<forall>p. prev = Some p \<longrightarrow> gentle step (ct_interval ct) p (v, now))"
    then obtain v where v: "moved name (now, r) = Some (v, now)" "dict_get (ct_last ct1) name = Some (IntV v, now)"
      "lo \<le> v" "v \<le> hi" "\<forall>p. prev = Some p \<longrightarrow> gentle step (ct_interval ct) p (v, now)" by blast
    from Cons.IH [OF k2 [unfolded t(2)] Cons.prems(2) cm(1), of "Some (v, now)"] v cm(2)
    have "successively (gentle step (ct_interval ct)) ((v, now) # history name tr) \<and>
        (\<forall>(v, t) \<in> set (history name tr). lo \<le> v \<and> v \<le> hi)" by simp
    with v show ?thesis by (cases prev) (auto simp: t(1) history_Cons)
  qed
qed

text \<open>A controller that may not actuate applies nothing; of the machine it changes at most the baseline file.\<close>

lemma call_frame:
  assumes "do_call c pw ct m now = (r, ct', m')"
  shows "ct_actuate ct' = ct_actuate ct" "ct_dry ct' = ct_dry ct" "ct_interval ct' = ct_interval ct" "ct_priv ct' = ct_priv ct"
proof -
  have "limits ''swappiness'' = Some ((1, 100), Some 20)" by (simp add: limits_def)
  from call_shape [OF this, of ct m now c pw] assms
  show "ct_actuate ct' = ct_actuate ct" "ct_dry ct' = ct_dry ct" "ct_interval ct' = ct_interval ct" "ct_priv ct' = ct_priv ct"
    by (simp_all add: shape_def)
qed

definition still :: "actuator_result \<times> ctl \<times> machine \<Rightarrow> machine \<Rightarrow> bool" where
  "still res m \<longleftrightarrow> \<not> ar_applied (fst res) \<and> snd (snd res) = m"

lemma still_lever: "\<not> actuating ct \<Longrightarrow> still (lever ct m now nm v b s apply) m"
  using lever_frame(4) [of ct m now nm v b s "apply"] by (cases "lever ct m now nm v b s apply") (auto simp: still_def)

lemma still_rated: "\<not> actuating ct \<Longrightarrow> still (rated ct m now nm i v apply) m"
  using rated_frame(9) [of ct m now nm i v "apply"] by (cases "rated ct m now nm i v apply") (auto simp: still_def)

lemma still_skip: "still (report nm False old new w, ct', m) m"
  by (simp add: still_def report_def)

lemma observing_call:
  assumes "\<not> actuating ct"
  shows "\<exists>b. still (do_call c pw ct m now) (m\<lparr>mc_baseline := b\<rparr>) \<and> ((\<forall>lo hi. c \<noteq> LockClocks lo hi) \<longrightarrow> b = mc_baseline m)"
proof (cases "\<exists>lo hi. c = LockClocks lo hi")
  case True
  then obtain lo hi where c: "c = LockClocks lo hi" by blast
  obtain b where b: "capture_baseline pw ''gpu_clocks_locked'' BTrue m = m\<lparr>mc_baseline := b\<rparr>"
  proof
    show "capture_baseline pw ''gpu_clocks_locked'' BTrue m = m\<lparr>mc_baseline := mc_baseline (capture_baseline pw ''gpu_clocks_locked'' BTrue m)\<rparr>"
      by (simp add: capture_baseline_def Let_def split: bfile.split)
  qed
  have "\<exists>b. still (lock_gpu_clocks lo hi pw ct m now) (m\<lparr>mc_baseline := b\<rparr>)"
  proof -
    have 1: "\<exists>b. still (rated ct (m\<lparr>mc_baseline := b'\<rparr>) now nm i v ap) (m\<lparr>mc_baseline := b\<rparr>)" for nm i v ap b'
      using still_rated [OF assms] by blast
    have 2: "\<exists>b. still (report nm False old new w, ct, m) (m\<lparr>mc_baseline := b\<rparr>)" for nm old new w
      by (intro exI [of _ "mc_baseline m"]) (simp add: still_skip)
    show ?thesis unfolding lock_gpu_clocks_def b by (simp only: 1 2 split: prod.split if_split) simp
  qed
  with c show ?thesis by simp
next
  case False
  then have "still (do_call c pw ct m now) m"
    using assms
    by (cases c; simp only: do_call.simps setter_defs oneshot_defs reset_gpu_clocks_def steer_irqs_def set_proc_priority_def Let_def)
      (auto intro: still_lever still_rated still_skip)
  then show ?thesis by (intro exI [of _ "mc_baseline m"]) simp
qed

lemma observing_run:
  assumes "run_calls pw cs ct m = (trace, ct', m')" "\<not> actuating ct"
  shows "(\<forall>(t, r) \<in> set trace. \<not> ar_applied r) \<and> (\<exists>b. m' = m\<lparr>mc_baseline := b\<rparr>) \<and>
    ((\<forall>(t, c) \<in> set cs. \<forall>lo hi. c \<noteq> LockClocks lo hi) \<longrightarrow> m' = m)"
  using assms
proof (induction cs arbitrary: ct m trace)
  case Nil
  then show ?case by (auto intro: exI [of _ "mc_baseline m"])
next
  case (Cons e cs)
  obtain now c where e: "e = (now, c)" by fastforce
  obtain r ct1 m1 where k: "do_call c pw ct m now = (r, ct1, m1)" by (metis prod_cases3)
  obtain tr ct2 m2 where k2: "run_calls pw cs ct1 m1 = (tr, ct2, m2)" by (metis prod_cases3)
  from Cons.prems(1) k k2 e have t: "trace = (now, r) # tr" "(tr, ct2, m2) = (tr, ct', m')" by simp_all
  from call_frame(1,2) [OF k] Cons.prems(2) have "\<not> actuating ct1" by simp
  from Cons.IH [OF k2 [unfolded t(2)] this]
  have ih: "\<forall>(t, r) \<in> set tr. \<not> ar_applied r" "\<exists>b. m' = m1\<lparr>mc_baseline := b\<rparr>"
    "(\<forall>(t, c) \<in> set cs. \<forall>lo hi. c \<noteq> LockClocks lo hi) \<longrightarrow> m' = m1" by blast+
  from observing_call [OF Cons.prems(2), of c pw m now] k
  obtain b where b: "\<not> ar_applied r" "m1 = m\<lparr>mc_baseline := b\<rparr>" "(\<forall>lo hi. c \<noteq> LockClocks lo hi) \<longrightarrow> b = mc_baseline m"
    by (auto simp: still_def)
  have "\<exists>b. m' = m\<lparr>mc_baseline := b\<rparr>" using ih(2) b(2) by auto
  moreover have "m1 = m" if "\<forall>lo hi. c \<noteq> LockClocks lo hi" using b(2,3) that by simp
  ultimately show ?case using ih b(1) by (simp add: t(1) e)
qed


definition bare_machine :: machine where
  "bare_machine = \<lparr>mc_files = (\<lambda>p. if p = proc_vm ''swappiness'' then Some (''60'' @ [CHR 0x0A]) else None), mc_requests = [], mc_smi = [],
     mc_control = None, mc_baseline = NoBaseline, mc_dropin = None, mc_nice = []\<rparr>"

definition open_powers :: powers where
  "open_powers = \<lparr>pw_write = (\<lambda>p. True), pw_dev = True, pw_request = (\<lambda>r. True), pw_smi = (\<lambda>a. True), pw_cpus = [],
     pw_control = True, pw_baseline = True, pw_query = (\<lambda>q. Some ''320.00''), pw_nice = (\<lambda>p. True)\<rparr>"


section \<open>The undo\<close>

definition sysctl_levers :: "(string \<times> string) list" where
  "sysctl_levers =
     [(''numa_balancing'', proc_kernel ''numa_balancing''), (''swappiness'', proc_vm ''swappiness''),
      (''dirty_background_ratio'', proc_vm ''dirty_background_ratio''),
      (''watermark_scale_factor'', proc_vm ''watermark_scale_factor'')]"

definition baseline_dict :: "machine \<Rightarrow> (string, bval) pydict" where
  "baseline_dict m = (case mc_baseline m of Baseline d \<Rightarrow> d | _ \<Rightarrow> [])"

definition integral :: "string \<Rightarrow> bval \<Rightarrow> bool" where
  "integral k b \<longleftrightarrow> k \<in> set (map fst sysctl_levers) \<or> k = ''gpu_power_limit_w'' \<longrightarrow> int_of_bval b \<noteq> None"

text \<open>What the calls keep: a lever that has not been captured has its first value, one that has been is on file with it.\<close>

definition undoable :: "machine \<Rightarrow> machine \<Rightarrow> bool" where
  "undoable m0 m \<longleftrightarrow>
     mc_baseline m \<noteq> Damaged \<and> dict_wf (baseline_dict m) \<and> (\<forall>(k, b) \<in> set (baseline_dict m). integral k b) \<and>
     (\<forall>k p. (k, p) \<in> set sysctl_levers \<longrightarrow>
        (dict_get (baseline_dict m) k = None \<longrightarrow> mc_files m p = mc_files m0 p) \<and>
        (\<forall>b s. dict_get (baseline_dict m) k = Some b \<longrightarrow> mc_files m0 p = Some s \<longrightarrow> b = BText (strip s)))"

text \<open>A change that leaves these files and the baseline alone.\<close>

definition unrelated :: "machine \<Rightarrow> machine \<Rightarrow> bool" where
  "unrelated m m' \<longleftrightarrow> mc_baseline m' = mc_baseline m \<and> (\<forall>k p. (k, p) \<in> set sysctl_levers \<longrightarrow> mc_files m' p = mc_files m p)"

lemma unrelated_refl [simp]: "unrelated m m"
  by (simp add: unrelated_def)

lemma unrelated_trans: "unrelated m m1 \<Longrightarrow> unrelated m1 m2 \<Longrightarrow> unrelated m m2"
  by (simp add: unrelated_def)

lemma undoable_unrelated: "undoable m0 m \<Longrightarrow> unrelated m m' \<Longrightarrow> undoable m0 m'"
  unfolding undoable_def unrelated_def baseline_dict_def by metis

lemma sysctl_paths:
  "(k, p) \<in> set sysctl_levers \<Longrightarrow> p \<noteq> ''/sys/'' @ x" "(k, p) \<in> set sysctl_levers \<Longrightarrow> p \<noteq> ''/proc/irq/'' @ x"
  by (auto simp: sysctl_levers_def proc_vm_def proc_kernel_def)

lemma unrelated_write: "(\<And>k p. (k, p) \<in> set sysctl_levers \<Longrightarrow> p \<noteq> path) \<Longrightarrow> unrelated m (write_raw path v m)"
  by (auto simp: unrelated_def write_raw_def)

lemma unrelated_sysfs: "unrelated m (snd (write_sysfs pw ct (sysfs x) v m))"
  by (auto simp: write_sysfs_def sysfs_def intro!: unrelated_write dest: sysctl_paths(1) [of _ _ "''module/greenboost/parameters/'' @ x"])

lemma unrelated_backends:
  "unrelated m (snd (do_ioctl pw ct r m))" "unrelated m (snd (write_control pw k i m))" "unrelated m (snd (run_nvsmi pw ct a m))"
  by (auto simp: do_ioctl_def write_control_def run_nvsmi_def unrelated_def Let_def)

lemma unrelated_glob:
  assumes "\<forall>d \<in> set (pw_cpus pw). starts_with ''/sys/'' d"
  shows "unrelated m (snd (glob_write pw ct file v m))"
proof -
  have "unrelated m (snd (foldl (\<lambda>(ok, m) d. if pw_write pw (d @ ''/'' @ file) then (True, write_raw (d @ ''/'' @ file) v m) else (ok, m))
      (ok, m) ds))" if "\<forall>d \<in> set ds. starts_with ''/sys/'' d" for ok ds
    using that
  proof (induction ds arbitrary: ok m)
    case (Cons d ds)
    then have "starts_with ''/sys/'' d" by simp
    then obtain x where "d = ''/sys/'' @ x" unfolding starts_with_iff by blast
    then have "unrelated m (write_raw (d @ ''/'' @ file) v m)"
      using sysctl_paths(1) by (intro unrelated_write) (metis append_assoc)
    with Cons show ?case by (auto intro: unrelated_trans)
  qed simp
  from this [OF assms] show ?thesis by (simp add: glob_write_def)
qed

lemma unrelated_irqs:
  "unrelated m (snd (foldl (\<lambda>(any, m) irq. case write_path pw ct (''/proc/irq/'' @ show_int irq @ ''/smp_affinity_list'') cpus m of
      (ok, m) \<Rightarrow> (ok \<or> any, m)) (any, m) irqs))"
proof (induction irqs arbitrary: any m)
  case (Cons irq irqs)
  have "unrelated m (snd (write_path pw ct (''/proc/irq/'' @ show_int irq @ ''/smp_affinity_list'') cpus m))"
    using sysctl_paths(2) by (auto simp: write_path_def intro!: unrelated_write simp del: append.simps)
  with Cons show ?case by (auto split: prod.split intro: unrelated_trans simp del: append.simps)
qed simp

lemma capture_cases:
  "capture_baseline pw key b m = m \<or>
   dict_get (baseline_dict m) key = None \<and>
   capture_baseline pw key b m = m\<lparr>mc_baseline := Baseline (dict_set key b (baseline_dict m))\<rparr>"
  by (cases "mc_baseline m") (simp_all add: capture_baseline_def baseline_dict_def Let_def split: if_split)

lemma undoable_capture:
  assumes "undoable m0 m" "integral key b" "\<forall>p s. (key, p) \<in> set sysctl_levers \<longrightarrow> mc_files m p = Some s \<longrightarrow> b = BText (strip s)"
  shows "undoable m0 (capture_baseline pw key b m)"
proof -
  have "undoable m0 (m\<lparr>mc_baseline := Baseline (dict_set key b (baseline_dict m))\<rparr>)" if "dict_get (baseline_dict m) key = None"
  proof -
    have new: "key \<notin> set (dict_keys (baseline_dict m))" using that by (simp add: dict_get_None_iff)
    have d: "baseline_dict (m\<lparr>mc_baseline := Baseline (dict_set key b (baseline_dict m))\<rparr>) = baseline_dict m @ [(key, b)]"
      using new by (simp add: baseline_dict_def dict_set_append_new)
    have g: "dict_get (baseline_dict m @ [(key, b)]) k = (if k = key then Some b else dict_get (baseline_dict m) k)" for k
      using that by (auto simp: map_add_def split: option.split)
    have "b = BText (strip s)" if "(key, p) \<in> set sysctl_levers" "mc_files m0 p = Some s" for p s
      using assms(1,3) that \<open>dict_get (baseline_dict m) key = None\<close> unfolding undoable_def by metis
    then show ?thesis unfolding undoable_def d g using assms(1,2) new by (auto simp: undoable_def split: if_splits)
  qed
  with capture_cases [of pw key b m] assms(1) show ?thesis by auto
qed

lemma undoable_set:
  assumes "undoable m0 m" "(key, p) \<in> set sysctl_levers" "dict_get (baseline_dict m) key \<noteq> None"
  shows "undoable m0 (snd (write_path pw ct p v m))"
proof -
  have "distinct (map snd sysctl_levers)" by (simp add: sysctl_levers_def proc_vm_def proc_kernel_def)
  then have "k = key" if "(k, p) \<in> set sysctl_levers" for k
    using that assms(2) by (metis distinct_map inj_on_eq_iff prod.inject snd_conv)
  moreover have "mc_baseline (snd (write_path pw ct p v m)) = mc_baseline m"
    "q \<noteq> p \<Longrightarrow> mc_files (snd (write_path pw ct p v m)) q = mc_files m q" for q
    by (simp_all add: write_path_def write_raw_def)
  ultimately show ?thesis using assms unfolding undoable_def baseline_dict_def by metis
qed

lemma captured: "pw_baseline pw \<Longrightarrow> mc_baseline m \<noteq> Damaged \<Longrightarrow> dict_get (baseline_dict (capture_baseline pw key b m)) key \<noteq> None"
  by (auto simp: capture_baseline_def baseline_dict_def Let_def split: bfile.split)

text \<open>The texts that the undo has to read: numbers in the files, a whole number for the power limit.\<close>

definition readable :: "powers \<Rightarrow> machine \<Rightarrow> bool" where
  "readable pw m0 \<longleftrightarrow>
     (\<forall>k p s. (k, p) \<in> set sysctl_levers \<longrightarrow> mc_files m0 p = Some s \<longrightarrow> int_text s \<noteq> None) \<and>
     (\<forall>l. words (read_nvsmi_query pw ''power.limit'' ''0'') = l \<longrightarrow> l \<noteq> [] \<longrightarrow> int_text (hd l) \<noteq> None)"

lemma strip_strip: "strip (strip s) = strip s"
proof (cases "strip s = []")
  case False
  then have h: "\<not> py_space (hd (strip s))" by (rule strip_hd)
  let ?r = "rev (dropWhile py_space s)"
  have r: "rev (strip s) = dropWhile py_space ?r" by (simp add: strip_def)
  with False have "dropWhile py_space ?r \<noteq> []" by (metis rev_is_Nil_conv)
  then have "\<not> py_space (hd (dropWhile py_space ?r))" using hd_dropWhile [of py_space ?r] by auto
  then have "\<not> py_space (last (strip s))" by (simp add: r [symmetric] hd_rev)
  with h show ?thesis by (intro strip_id) simp
qed (metis strip_id)

lemma int_text_strip: "int_text (strip s) = int_text s"
  by (simp add: int_text_def strip_strip)

lemma undoable_sysctl:
  assumes "undoable m0 m" "readable pw m0" "pw_baseline pw" "(key, p) \<in> set sysctl_levers" "int_text dflt \<noteq> None"
  shows "undoable m0 (snd (write_path pw ct p v (capture_baseline pw key (BText (read_proc_sys p dflt m)) m)))"
proof -
  have d: "distinct (map fst sysctl_levers)" by (simp add: sysctl_levers_def)
  show ?thesis
  proof (cases "dict_get (baseline_dict m) key")
    case (Some b)
    then have "capture_baseline pw key (BText (read_proc_sys p dflt m)) m = m" using capture_cases [of pw key _ m] by auto
    with assms(1,4) Some show ?thesis by (simp add: undoable_set)
  next
    case None
    have f: "mc_files m p = mc_files m0 p" using assms(1,4) None unfolding undoable_def by blast
    have "integral key (BText (read_proc_sys p dflt m))"
      using assms(2,4,5) f by (auto simp: integral_def int_of_bval_def read_proc_sys_def readable_def int_text_strip split: option.split)
    moreover have "q = p" if "(key, q) \<in> set sysctl_levers" for q using d assms(4) that by (metis eq_key_imp_eq_value)
    ultimately have "undoable m0 (capture_baseline pw key (BText (read_proc_sys p dflt m)) m)"
      using assms(1) by (intro undoable_capture) (auto simp: read_proc_sys_def)
    moreover have "mc_baseline m \<noteq> Damaged" using assms(1) by (simp add: undoable_def)
    then have "dict_get (baseline_dict (capture_baseline pw key (BText (read_proc_sys p dflt m)) m)) key \<noteq> None"
      using assms(3) by (intro captured)
    ultimately show ?thesis using assms(4) by (intro undoable_set)
  qed
qed

lemma lever_undoable:
  "undoable m0 m \<Longrightarrow> (\<And>v. undoable m0 (snd (apply v m))) \<Longrightarrow> undoable m0 (snd (snd (lever ct m now nm v b s apply)))"
  using lever_frame(5) [of ct m now nm v b s "apply"] by (cases "lever ct m now nm v b s apply") auto

lemma rated_undoable:
  "undoable m0 m \<Longrightarrow> undoable m0 (snd (apply m)) \<Longrightarrow> undoable m0 (snd (snd (rated ct m now nm i v apply)))"
  using rated_frame(10) [of ct m now nm i v "apply"] by (cases "rated ct m now nm i v apply") auto

lemma unrelated_pair:
  "unrelated m (snd (write_control pw k i (snd (do_ioctl pw ct r m))))"
  "unrelated m (snd (write_sysfs pw ct (sysfs x) v (snd (do_ioctl pw ct r m))))"
  using unrelated_trans [OF unrelated_backends(1)] unrelated_backends(2) unrelated_sysfs by blast+

lemma call_undoable:
  assumes "undoable m0 m" "readable pw m0" "pw_baseline pw" "\<forall>d \<in> set (pw_cpus pw). starts_with ''/sys/'' d"
  shows "undoable m0 (snd (snd (do_call c pw ct m now)))"
proof -
  note u = undoable_unrelated [OF assms(1)]
  note l = lever_undoable [OF assms(1)] and r = rated_undoable [OF assms(1)]
  note s = undoable_sysctl [OF assms(1-3)]
  note b = unrelated_backends
  have other: "undoable m0 (capture_baseline pw key bv m)" if "key \<notin> set (map fst sysctl_levers)" "integral key bv" for key bv
    using that by (intro undoable_capture [OF assms(1)]) force+
  have names: "''cpu_governor'' \<notin> set (map fst sysctl_levers)" "''energy_perf_pref'' \<notin> set (map fst sysctl_levers)"
    "''gpu_power_limit_w'' \<notin> set (map fst sysctl_levers)" "''gpu_clocks_locked'' \<notin> set (map fst sysctl_levers)"
    by (simp_all add: sysctl_levers_def)
  show ?thesis
  proof (cases c)
    case (KvReserve n)
    have "undoable m0 (snd (case do_ioctl pw ct r m of (ok, m) \<Rightarrow> (True, snd (write_control pw k i m))))" for r k i
      by (simp add: u unrelated_pair split_beta)
    then show ?thesis unfolding KvReserve do_call.simps set_kv_reserve_mb_def by (intro l)
  next
    case (Gaming on)
    have "undoable m0 (snd (case do_ioctl pw ct r m of (ok, m) \<Rightarrow> (ok, snd (write_sysfs pw ct (sysfs x) v m))))" for r x v
      by (simp add: u unrelated_pair split_beta)
    then show ?thesis unfolding Gaming do_call.simps set_gaming_mode_def by (intro l)
  next
    case (Governor g)
    show ?thesis unfolding Governor do_call.simps set_cpu_governor_def
      by (intro l undoable_unrelated [OF other unrelated_glob [OF assms(4)]] names) (simp add: integral_def sysctl_levers_def)
  next
    case (EnergyPref g)
    show ?thesis unfolding EnergyPref do_call.simps set_energy_perf_pref_def
      by (intro l undoable_unrelated [OF other unrelated_glob [OF assms(4)]] names) (simp add: integral_def sysctl_levers_def)
  next
    case (PowerLimit w)
    have z: "int_text ''0'' \<noteq> None" by code_simp
    have "int_of_bval (BText (case words (read_nvsmi_query pw ''power.limit'' ''0'') of [] \<Rightarrow> ''0'' | q # _ \<Rightarrow> q)) \<noteq> None"
      using assms(2) z by (cases "words (read_nvsmi_query pw ''power.limit'' ''0'')") (simp_all add: readable_def int_of_bval_def)
    then have "integral ''gpu_power_limit_w'' (BText (case words (read_nvsmi_query pw ''power.limit'' ''0'') of [] \<Rightarrow> ''0'' | q # _ \<Rightarrow> q))"
      unfolding integral_def by blast
    then show ?thesis unfolding PowerLimit do_call.simps set_gpu_power_limit_def
      by (intro l undoable_unrelated [OF other b(3)] names)
  next
    case (LockClocks lo hi)
    have i: "integral ''gpu_clocks_locked'' BTrue" by (simp add: integral_def sysctl_levers_def)
    have "undoable m0 (snd (snd (rated ct (capture_baseline pw ''gpu_clocks_locked'' BTrue m) now nm iv v (run_nvsmi pw ct a))))"
      for nm iv v a by (intro rated_undoable other names i undoable_unrelated [OF other b(3)])
    with assms(1) show ?thesis unfolding LockClocks do_call.simps lock_gpu_clocks_def by (simp split: prod.split)
  next
    case ResetClocks
    show ?thesis unfolding ResetClocks do_call.simps reset_gpu_clocks_def Let_def
      using assms(1) u [OF b(3), of pw ct "[''-rgc'']"] by (simp split: prod.split) (metis snd_conv)
  next
    case (SteerIrqs irqs cpus)
    show ?thesis unfolding SteerIrqs do_call.simps steer_irqs_def
      using assms(1) u [OF unrelated_irqs, of pw ct cpus False irqs] by (simp split: prod.split del: append.simps) (metis snd_conv)
  next
    case (ProcPriority pid nice)
    have "unrelated m (m\<lparr>mc_nice := x\<rparr>)" for x by (simp add: unrelated_def)
    with assms(1) u show ?thesis unfolding ProcPriority do_call.simps set_proc_priority_def Let_def by simp
  next
    case (NumaBalancing on)
    have "int_text ''1'' \<noteq> None" by code_simp
    then show ?thesis unfolding NumaBalancing do_call.simps set_numa_balancing_def by (intro l s) (simp add: sysctl_levers_def)
  next
    case (Swappiness n)
    have "int_text ''60'' \<noteq> None" by code_simp
    then show ?thesis unfolding Swappiness do_call.simps set_swappiness_def by (intro l s) (simp add: sysctl_levers_def)
  next
    case (DirtyRatio n)
    have "int_text ''10'' \<noteq> None" by code_simp
    then show ?thesis unfolding DirtyRatio do_call.simps set_dirty_background_ratio_def by (intro l s) (simp add: sysctl_levers_def)
  next
    case (Watermark n)
    have "int_text ''10'' \<noteq> None" by code_simp
    then show ?thesis unfolding Watermark do_call.simps set_watermark_scale_factor_def by (intro l s) (simp add: sysctl_levers_def)
  qed (simp only: do_call.simps setter_defs oneshot_defs, rule l r, rule u, rule unrelated_sysfs b)+
qed

lemma run_undoable:
  "run_calls pw cs ct m = (trace, ct', m') \<Longrightarrow> undoable m0 m \<Longrightarrow> readable pw m0 \<Longrightarrow> pw_baseline pw \<Longrightarrow>
   \<forall>d \<in> set (pw_cpus pw). starts_with ''/sys/'' d \<Longrightarrow> undoable m0 m' \<and> ct_priv ct' = ct_priv ct"
proof (induction cs arbitrary: ct m trace)
  case (Cons e cs)
  obtain now c where e: "e = (now, c)" by fastforce
  obtain r ct1 m1 where k: "do_call c pw ct m now = (r, ct1, m1)" by (metis prod_cases3)
  obtain tr ct2 m2 where k2: "run_calls pw cs ct1 m1 = (tr, ct2, m2)" by (metis prod_cases3)
  from Cons.prems(1) k k2 e have k2': "run_calls pw cs ct1 m1 = (tr, ct', m')" by simp
  from call_undoable [OF Cons.prems(2-5), of c ct now] k have "undoable m0 m1" by simp
  from Cons.IH [OF k2' this Cons.prems(3-5)] call_frame(4) [OF k] show ?case by simp
qed simp

definition sysctl_path :: "string \<Rightarrow> string option" where
  "sysctl_path = map_of sysctl_levers"

lemma restore_sysctl:
  "(key, p) \<in> set sysctl_levers \<Longrightarrow>
   restore_one pw ct key b m = restore_int b (\<lambda>i. write_path pw ct p (show_int i)) m"
  by (auto simp: sysctl_levers_def restore_one_def)

lemma restore_elsewhere:
  assumes "key \<notin> set (map fst sysctl_levers)" "integral key b" "\<forall>d \<in> set (pw_cpus pw). starts_with ''/sys/'' d"
  shows "\<exists>ok m'. restore_one pw ct key b m = (Some ok, m') \<and> unrelated m m'"
proof -
  have ne: "key \<noteq> ''numa_balancing''" "key \<noteq> ''swappiness''" "key \<noteq> ''dirty_background_ratio''" "key \<noteq> ''watermark_scale_factor''"
    using assms(1) by (auto simp: sysctl_levers_def)
  have g: "\<exists>ok m'. map_prod Some id r = (Some ok, m') \<and> unrelated m m'" if "unrelated m (snd r)" for r :: "bool \<times> machine"
    using that by (cases r) simp
  have p: "\<exists>ok m'. restore_int b (\<lambda>i. run_nvsmi pw ct (a i)) m = (Some ok, m') \<and> unrelated m m'" if "key = ''gpu_power_limit_w''" for a
    using assms(2) that g [OF unrelated_backends(3)] by (auto simp: integral_def restore_int_def)
  have "\<exists>ok m'. (Some False, m) = (Some ok, m') \<and> unrelated m m'" by auto
  then show ?thesis
    unfolding restore_one_def using ne p by (simp add: g unrelated_glob [OF assms(3)] unrelated_backends(3))
qed

text \<open>What a restore leaves in the file of one lever: the number on file for it, or what was there.\<close>

lemma restore_all_file:
  assumes "(key, p) \<in> set sysctl_levers" "ct_priv ct" "pw_write pw p" "\<forall>d \<in> set (pw_cpus pw). starts_with ''/sys/'' d"
    and "dict_wf d" "\<forall>(k, b) \<in> set d. integral k b"
  shows "\<exists>res' m'. restore_all pw ct d (Inr res, m) = (Inr res', m') \<and>
    mc_files m' p = (case dict_get d key of None \<Rightarrow> mc_files m p | Some b \<Rightarrow> map_option show_int (int_of_bval b))"
  using assms(5,6)
proof (induction d arbitrary: res m)
  case (Cons e d)
  obtain k b where e: "e = (k, b)" by fastforce
  with Cons.prems have pr: "dict_wf d" "\<forall>(k, b) \<in> set d. integral k b" "integral k b" "k \<notin> set (dict_keys d)" by auto
  have "\<exists>ok m1. restore_one pw ct k b m = (Some ok, m1) \<and>
      mc_files m1 p = (if k = key then map_option show_int (int_of_bval b) else mc_files m p)"
  proof (cases "k \<in> set (map fst sysctl_levers)")
    case False
    with assms(1) have "k \<noteq> key" by force
    with restore_elsewhere [OF False pr(3) assms(4)] assms(1) show ?thesis by (fastforce simp: unrelated_def)
  next
    case True
    then obtain q where q: "(k, q) \<in> set sysctl_levers" by force
    have "distinct (map snd sysctl_levers)" "distinct (map fst sysctl_levers)"
      by (simp_all add: sysctl_levers_def proc_vm_def proc_kernel_def)
    with q assms(1) have "q = p \<longleftrightarrow> k = key" by (metis distinct_map inj_on_eq_iff prod.inject snd_conv eq_key_imp_eq_value)
    moreover obtain i where "int_of_bval b = Some i" using pr(3) True by (auto simp: integral_def)
    ultimately show ?thesis using assms(2,3) restore_sysctl [OF q]
      by (auto simp: restore_int_def write_path_def write_raw_def)
  qed
  then obtain ok m1 where r: "restore_one pw ct k b m = (Some ok, m1)"
    "mc_files m1 p = (if k = key then map_option show_int (int_of_bval b) else mc_files m p)" by blast
  from Cons.IH [OF pr(1,2), of "dict_set k ok res" m1] r e pr(4) show ?case
    by (auto simp: dict_get_None_iff split: option.splits if_splits dest: dict_get_in_keys)
qed simp


definition whole_watts :: powers where
  "whole_watts = open_powers\<lparr>pw_query := (\<lambda>q. Some ''320'')\<rparr>"


text \<open>
  Where the undo and the dry run fall short: a power limit as nvidia-smi prints it stops the restore, and what comes
  after it on file is not undone; a controller in dry-run notes a baseline, and persists values that it never
  applied; the KV reserve counts as set although nothing could be written; and cores with governors of their own all
  get the first one's back.
\<close>

lemma fractional_watts_stop_the_undo:
  "case run_calls open_powers [(20, PowerLimit 200), (20, Swappiness 100)] (new_ctl (Some ''1'') False 10 0) bare_machine of
     (trace, ct1, m1) \<Rightarrow> (case restore_baseline open_powers ct1 m1 of (res, ct2, m2) \<Rightarrow>
        res = Inl (NotAnInteger ''gpu_power_limit_w'') \<and> mc_files m2 (proc_vm ''swappiness'') = Some ''100'')"
  by code_simp

lemma dry_run_writes:
  "case run_calls open_powers [(20, LockClocks 1000 2000), (20, Swappiness 100)] (new_ctl (Some ''1'') True 10 0) bare_machine of
     (trace, ct1, m1) \<Rightarrow> (case persist open_powers ct1 m1 of (ok, m2) \<Rightarrow>
        ok \<and> mc_baseline m1 = Baseline [(''gpu_clocks_locked'', BTrue)] \<and>
        mc_dropin m2 = Some (''vm.swappiness = 100'' @ [CHR 0x0A]))"
  by code_simp

lemma unwritten_reserve_counts:
  "case run_calls (open_powers\<lparr>pw_dev := False, pw_control := False\<rparr>) [(20, KvReserve 4096)] (new_ctl (Some ''1'') False 10 1000) bare_machine of
     (trace, ct1, m1) \<Rightarrow> map (ar_applied \<circ> snd) trace = [True] \<and> mc_requests m1 = [] \<and> mc_control m1 = None"
  by code_simp

lemma governors_are_levelled:
  "case run_calls (open_powers\<lparr>pw_cpus := [''/sys/c0'', ''/sys/c1'']\<rparr>) [(20, Governor ''performance'')] (new_ctl (Some ''1'') False 10 0)
       (bare_machine\<lparr>mc_files := [''/sys/c0/scaling_governor'' \<mapsto> ''schedutil'', ''/sys/c1/scaling_governor'' \<mapsto> ''powersave'']\<rparr>) of
     (trace, ct1, m1) \<Rightarrow> (case restore_baseline (open_powers\<lparr>pw_cpus := [''/sys/c0'', ''/sys/c1'']\<rparr>) ct1 m1 of (res, ct2, m2) \<Rightarrow>
        mc_files m2 ''/sys/c1/scaling_governor'' = Some ''schedutil'')"
  by code_simp

end
