(* ===== verification/Actuation.thy ===== *)
theory Actuation
  imports Reclaim Control
begin

text \<open>
  The write actions an agent can drive, \<^verbatim>\<open>gb_actuation.py\<close>: the gate (intent, environment, authorization that the
  request cannot give itself), the token file, the shared environment file, and the verbs. The cluster, the model
  server, the shim's environment and the run of a command are parameters; the levers and the reclaim are the models of
  their files.
\<close>

section \<open>The host\<close>

text \<open>\<open>in_text\<close> is what the first 4096 bytes of the file decode to.\<close>

record inode =
  in_regular :: bool
  in_mode :: "16 word"
  in_uid :: nat
  in_text :: string

datatype deed = Provisioned string | Served string int | Ran "string list"

text \<open>\<open>hs_auth\<close> is the context variable; \<open>hs_token\<close> and \<open>hs_envfile\<close> are \<open>None\<close> when they cannot be opened.\<close>

record host =
  hs_env :: "(string, string) pydict"
  hs_auth :: string
  hs_euid :: nat
  hs_token :: "inode option"
  hs_envfile :: "string option"
  hs_writable :: bool
  hs_machine :: machine
  hs_node :: Reclaim.node
  hs_done :: "deed list"

section \<open>Authorization\<close>

datatype token_problem = NotUsable | NotRegular | BadMode | NotOwned | TooShort

definition token_owners :: "host \<Rightarrow> nat list" where
  "token_owners h =
     [0, hs_euid h] @ (case dict_get (hs_env h) ''GB_OWNER_UID'' of None \<Rightarrow> [] | Some u \<Rightarrow> if isdigit u then [int_of u] else [])"

definition expected_token :: "host \<Rightarrow> token_problem + string" where
  "expected_token h =
     (case hs_token h of
        None \<Rightarrow> Inl NotUsable
      | Some f \<Rightarrow>
          if \<not> in_regular f then Inl NotRegular
          else if in_mode f AND 63 \<noteq> 0 then Inl BadMode
          else if in_uid f \<notin> set (token_owners h) then Inl NotOwned
          else if length (strip (in_text f)) < 16 then Inl TooShort
          else Inr (strip (in_text f)))"

definition token_matches :: "string \<Rightarrow> host \<Rightarrow> bool" where
  "token_matches presented h \<longleftrightarrow>
     (case expected_token h of Inl _ \<Rightarrow> False | Inr tok \<Rightarrow> tok \<noteq> [] \<and> presented \<noteq> [] \<and> presented = tok)"

text \<open>A context around a body: the variable is set when the caller is authorized and put back after, whatever happens.\<close>

definition in_context :: "string \<Rightarrow> bool \<Rightarrow> (bool \<Rightarrow> host \<Rightarrow> 'a \<times> host) \<Rightarrow> host \<Rightarrow> 'a \<times> host" where
  "in_context via authorized body h =
     (case body authorized (if authorized then h\<lparr>hs_auth := via\<rparr> else h) of
        (r, h') \<Rightarrow> (r, if authorized then h'\<lparr>hs_auth := hs_auth h\<rparr> else h'))"

definition actuation_auth :: "string \<Rightarrow> (bool \<Rightarrow> host \<Rightarrow> 'a \<times> host) \<Rightarrow> host \<Rightarrow> 'a \<times> host" where
  "actuation_auth presented body h = in_context ''token'' (token_matches presented h) body h"

text \<open>\<open>answer\<close> is the line typed on the terminal, \<open>None\<close> without a terminal.\<close>

definition interactive_auth :: "string option \<Rightarrow> (bool \<Rightarrow> host \<Rightarrow> 'a \<times> host) \<Rightarrow> host \<Rightarrow> 'a \<times> host" where
  "interactive_auth answer body h =
     in_context ''interactive'' (case answer of None \<Rightarrow> False | Some l \<Rightarrow> str_lower (strip l) = ''yes'') body h"

datatype gate = DryNotConfirmed | DryNotEnabled | DryNotAuthorized | DryRootAll | Allowed string

definition actuation_gate :: "bool \<Rightarrow> host \<Rightarrow> gate" where
  "actuation_gate confirm h =
     (if \<not> confirm then DryNotConfirmed
      else if dict_get (hs_env h) ''GB_ORCH_ACTUATE'' \<noteq> Some ''1'' then DryNotEnabled
      else if hs_auth h = [] then DryNotAuthorized
      else Allowed (hs_auth h))"

definition allowed :: "gate \<Rightarrow> bool" where
  "allowed g \<longleftrightarrow> (case g of Allowed _ \<Rightarrow> True | _ \<Rightarrow> False)"

section \<open>The environment file\<close>

definition env_line :: "string \<Rightarrow> bool" where
  "env_line l \<longleftrightarrow> l \<noteq> [] \<and> \<not> starts_with ''#'' l \<and> CHR ''='' \<in> set l"

definition read_env_file :: "host \<Rightarrow> (string, string) pydict" where
  "read_env_file h = (case hs_envfile h of None \<Rightarrow> [] | Some t \<Rightarrow> read_kv env_line (map strip (splitlines t)))"

definition env_header :: string where
  "env_header = ''# Written by gb_actuation , GreenBoost inference policy''"

definition write_env_file :: "(string, string) pydict \<Rightarrow> host \<Rightarrow> bool \<times> host" where
  "write_env_file updates h =
     (let env = fold (\<lambda>(k, v). dict_set k v) updates (read_env_file h) in
      if hs_writable h then (True, h\<lparr>hs_envfile := Some (env_header @ [CHR 0x0A] @ print_kv env)\<rparr>) else (False, h))"

section \<open>What the verbs use\<close>

record feeder_view =
  fv_host :: "string option"
  fv_ip :: string
  fv_online :: bool
  fv_util :: pyfloat

datatype served = ServeRaised | ProxyDown | ProxyUp

datatype run_outcome = LeaseDenied | TimedOut | RunRaised | Exited int string string

text \<open>\<open>None\<close> is a call that raises. The probes of a reclaim are taken at its plan and again at its run.\<close>

record backends =
  bk_feeders :: "string list option"
  bk_ready :: "string \<Rightarrow> bool option"
  bk_snapshot :: "feeder_view list option"
  bk_port :: int
  bk_serve :: "string \<Rightarrow> int \<Rightarrow> served"
  bk_shim :: "string \<Rightarrow> bool \<Rightarrow> (string, string) pydict option"
  bk_run :: "string list \<Rightarrow> run_outcome"
  bk_powers :: powers
  bk_clock :: pyfloat
  bk_enum :: "nat list \<Rightarrow> nat list"
  bk_around :: surroundings
  bk_services :: services
  bk_probes :: "bool \<Rightarrow> probes"

datatype verb_error = NoFeeder | CallRaised | UnknownLever | ProxyDidNotComeUp | NotRun run_outcome

datatype verb_data =
    NoData
  | Eligible "string list" "string list option"
  | Updates "(string, string) pydict" bool
  | LeverMoved why
  | Repointed string "bool option"
  | Overlay "(string, string) pydict"
  | Ran_As "string list" "(int \<times> string \<times> string) option"
  | Targets "holder list" "(holder list \<times> string list \<times> holder list) option"

record plan =
  pl_verb :: string
  pl_gate :: "gate option"
  pl_dry :: bool
  pl_applied :: "bool option"
  pl_error :: "verb_error option"
  pl_data :: verb_data

definition plan_for :: "string \<Rightarrow> gate option \<Rightarrow> verb_data \<Rightarrow> plan" where
  "plan_for verb g d = \<lparr>pl_verb = verb, pl_gate = g, pl_dry = False, pl_applied = None, pl_error = None, pl_data = d\<rparr>"

definition dry :: "plan \<Rightarrow> plan" where "dry p = p\<lparr>pl_dry := True\<rparr>"
definition failed_with :: "verb_error \<Rightarrow> plan \<Rightarrow> plan" where "failed_with e p = p\<lparr>pl_error := Some e\<rparr>"

section \<open>The verbs\<close>

definition cluster_ensure_feeder_ready :: "backends \<Rightarrow> string \<Rightarrow> bool \<Rightarrow> host \<Rightarrow> plan \<times> host" where
  "cluster_ensure_feeder_ready bk ip confirm h =
     (let g = actuation_gate confirm h; p = plan_for ''cluster_ensure_feeder_ready'' (Some g) NoData in
      if \<not> allowed g then (dry p, h)
      else case bk_feeders bk of
        None \<Rightarrow> (failed_with CallRaised p, h)
      | Some ips \<Rightarrow>
          if ip \<notin> set ips then (failed_with NoFeeder p, h)
          else case bk_ready bk ip of
            None \<Rightarrow> (failed_with CallRaised p, h)
          | Some r \<Rightarrow> (p\<lparr>pl_applied := Some r\<rparr>, h\<lparr>hs_done := hs_done h @ [Provisioned ip]\<rparr>))"

definition feeder_name :: "feeder_view \<Rightarrow> string" where
  "feeder_name f = (case fv_host f of Some n \<Rightarrow> if n = [] then fv_ip f else n | None \<Rightarrow> fv_ip f)"

definition eligible :: "feeder_view list \<Rightarrow> feeder_view list" where
  "eligible fs = filter (\<lambda>f. fv_online f \<and> fv_util f < 85) fs"

fun provision :: "backends \<Rightarrow> feeder_view list \<Rightarrow> host \<Rightarrow> string list \<times> host" where
  "provision bk [] h = ([], h)"
| "provision bk (f # fs) h =
     (case cluster_ensure_feeder_ready bk (fv_ip f) True h of (r, h) \<Rightarrow>
      case provision bk fs h of (names, h) \<Rightarrow>
        (if pl_applied r = Some True then feeder_name f # names else names, h))"

definition cluster_dispatch_plan :: "backends \<Rightarrow> bool \<Rightarrow> host \<Rightarrow> plan \<times> host" where
  "cluster_dispatch_plan bk confirm h =
     (let g = actuation_gate confirm h; p = plan_for ''cluster_dispatch_plan'' (Some g) NoData in
      case bk_snapshot bk of
        None \<Rightarrow> (failed_with CallRaised p, h)
      | Some fs \<Rightarrow>
          let es = eligible fs; names = map feeder_name es in
          if \<not> allowed g then (dry (p\<lparr>pl_data := Eligible names None\<rparr>), h)
          else case provision bk es h of (provisioned, h) \<Rightarrow> (p\<lparr>pl_data := Eligible names (Some provisioned)\<rparr>, h))"

definition QUALITY_TIERS :: "string list" where
  "QUALITY_TIERS = [''near_lossless'', ''balanced'', ''compact'']"

datatype bits = Bits int | Named string

definition normalize_bits_token :: "string \<Rightarrow> bits" where
  "normalize_bits_token token =
     (let t = str_lower (strip token) in
      if t = ''int4'' \<or> t = ''4'' then Bits 4
      else if t = ''int8'' \<or> t = ''8'' then Bits 8
      else if t = ''fp8'' \<or> t = ''e4m3'' then Named ''fp8''
      else if t = ''nvfp4'' then Named ''nvfp4''
      else if t = ''tq3'' \<or> t = ''3'' then Named ''tq3''
      else if t = ''tq2'' \<or> t = ''2'' then Named ''tq2''
      else if t = ''bf16'' then Bits 16
      else if t = ''auto'' then Named ''auto''
      else Named ''fp8'')"

definition below_fp8 :: "bits \<Rightarrow> bool" where
  "below_fp8 b \<longleftrightarrow> b \<in> {Bits 8, Bits 4, Named ''nvfp4'', Named ''tq3'', Named ''tq2''}"

definition show_bits :: "bits \<Rightarrow> string" where
  "show_bits b = (case b of Bits n \<Rightarrow> show_int n | Named s \<Rightarrow> s)"

text \<open>A number with one decimal.\<close>

definition show_tenths :: "pyfloat \<Rightarrow> string" where
  "show_tenths x =
     (let n = nat (py_round (\<bar>x\<bar> * 10)) in
      (if x < 0 then ''-'' else []) @ show_nat (n div 10) @ ''.'' @ show_nat (n mod 10))"

definition quant_updates :: "pyfloat option \<Rightarrow> string option \<Rightarrow> (string, string) pydict \<times> bool" where
  "quant_updates budget quality =
     (let u = (case budget of None \<Rightarrow> [] | Some b \<Rightarrow> [(''GB_QUANT_BUDGET_GB'', show_tenths b)]) in
      case quality of
        None \<Rightarrow> (u, False)
      | Some q \<Rightarrow>
          let q = str_lower (strip q) in
          if q \<in> set QUALITY_TIERS then (u @ [(''GB_QUALITY'', q)], False)
          else (u @ [(''GB_QUANT_BITS'', show_bits (normalize_bits_token q))], below_fp8 (normalize_bits_token q)))"

definition set_quant_policy :: "pyfloat option \<Rightarrow> string option \<Rightarrow> bool \<Rightarrow> host \<Rightarrow> plan \<times> host" where
  "set_quant_policy budget quality confirm h =
     (let g = actuation_gate confirm h in
      case quant_updates budget quality of (updates, tradeoff) \<Rightarrow>
        let p = plan_for ''set_quant_policy'' (Some g) (Updates updates tradeoff) in
        if \<not> allowed g then (dry p, h)
        else case write_env_file updates h of (ok, h) \<Rightarrow> (p\<lparr>pl_applied := Some ok\<rparr>, h))"

definition tier_lever :: "string \<Rightarrow> (int \<Rightarrow> lever_call) option" where
  "tier_lever = map_of
     [(''kv_reserve_mb'', KvReserve), (''safety_reserve_gb'', SafetyReserve), (''workstation_reserve_mb'', WorkstationReserve),
      (''virtual_vram_gb'', VirtualVram), (''pool_cap_mb'', PoolCap)]"

text \<open>Each call makes a controller of its own.\<close>

definition tier_actuate :: "backends \<Rightarrow> string \<Rightarrow> int \<Rightarrow> bool \<Rightarrow> host \<Rightarrow> plan \<times> host" where
  "tier_actuate bk name v confirm h =
     (let g = actuation_gate confirm h; p = plan_for ''tier_actuate'' (Some g) NoData in
      case tier_lever name of
        None \<Rightarrow> (failed_with UnknownLever p, h)
      | Some c \<Rightarrow>
          if \<not> allowed g then (dry p, h)
          else let ct = new_ctl (dict_get (hs_env h) ''GB_ORCH_ACTUATE'') False 10 (hs_euid h) in
            case do_call (c v) (bk_powers bk) ct (hs_machine h) (bk_clock bk) of (r, ct, m) \<Rightarrow>
              (p\<lparr>pl_applied := Some (ar_applied r), pl_data := LeverMoved (ar_why r)\<rparr>, h\<lparr>hs_machine := m\<rparr>))"

definition serve_and_repoint :: "backends \<Rightarrow> string \<Rightarrow> int \<Rightarrow> string option \<Rightarrow> bool \<Rightarrow> host \<Rightarrow> plan \<times> host" where
  "serve_and_repoint bk model port target confirm h =
     (let port = (if port = 0 then bk_port bk else port); g = actuation_gate confirm h;
          url = (case target of Some t \<Rightarrow> if t = [] then ''127.0.0.1:'' @ show_int port else t | None \<Rightarrow> ''127.0.0.1:'' @ show_int port);
          p = plan_for ''serve_and_repoint'' (Some g) (Repointed url None) in
      if \<not> allowed g then (dry p, h)
      else case bk_serve bk model port of
        ServeRaised \<Rightarrow> (failed_with CallRaised p, h)
      | ProxyDown \<Rightarrow> (failed_with ProxyDidNotComeUp (p\<lparr>pl_data := Repointed url (Some False)\<rparr>), h\<lparr>hs_done := hs_done h @ [Served model port]\<rparr>)
      | ProxyUp \<Rightarrow>
          (case write_env_file [(''FORGE_OLLAMA_URL'', url)] (h\<lparr>hs_done := hs_done h @ [Served model port]\<rparr>) of
             (ok, h) \<Rightarrow> (p\<lparr>pl_data := Repointed url (Some ok)\<rparr>, h)))"

definition shim_env :: "backends \<Rightarrow> string \<Rightarrow> bool \<Rightarrow> host \<Rightarrow> plan \<times> host" where
  "shim_env bk workload enabled h =
     (case bk_shim bk workload enabled of
        None \<Rightarrow> (failed_with CallRaised (plan_for ''shim_env'' None NoData), h)
      | Some env \<Rightarrow> (plan_for ''shim_env'' None (Overlay env), h))"

datatype command_arg = Argv "string list" | Line string

datatype verb_exception = ValueRaised | TypeRaised | OtherRaised

definition argv_of :: "command_arg \<Rightarrow> verb_exception + string list" where
  "argv_of c = (case c of Argv a \<Rightarrow> Inr a | Line s \<Rightarrow> (case shlex_split s of None \<Rightarrow> Inl ValueRaised | Some a \<Rightarrow> Inr a))"

definition last_chars :: "nat \<Rightarrow> string \<Rightarrow> string" where
  "last_chars n s = drop (length s - n) s"

definition run_under_greenboost :: "backends \<Rightarrow> command_arg \<Rightarrow> string \<Rightarrow> bool \<Rightarrow> host \<Rightarrow> (verb_exception + plan) \<times> host" where
  "run_under_greenboost bk cmd workload confirm h =
     (let g = actuation_gate confirm h in
      case argv_of cmd of
        Inl e \<Rightarrow> (Inl e, h)
      | Inr argv \<Rightarrow>
          let p = plan_for ''run_under_greenboost'' (Some g) (Ran_As argv None) in
          if \<not> allowed g then (Inr (dry p), h)
          else case bk_shim bk workload True of
            None \<Rightarrow> (Inr (failed_with CallRaised p), h)
          | Some env \<Rightarrow>
              (case bk_run bk argv of
                 Exited code out err \<Rightarrow>
                   (Inr (p\<lparr>pl_data := Ran_As argv (Some (code, last_chars 4000 out, last_chars 4000 err))\<rparr>),
                    h\<lparr>hs_done := hs_done h @ [Ran argv]\<rparr>)
               | LeaseDenied \<Rightarrow> (Inr (failed_with (NotRun LeaseDenied) p), h)
               | TimedOut \<Rightarrow> (Inr (failed_with (NotRun TimedOut) p), h\<lparr>hs_done := hs_done h @ [Ran argv]\<rparr>)
               | RunRaised \<Rightarrow> (Inr (failed_with (NotRun RunRaised) p), h)))"

definition raised :: "reclaim_error \<Rightarrow> verb_exception" where
  "raised e = (case e of BadScope \<Rightarrow> ValueRaised | _ \<Rightarrow> OtherRaised)"

definition reclaim_plan :: "backends \<Rightarrow> string \<Rightarrow> int \<Rightarrow> host \<Rightarrow> (verb_exception + plan) \<times> host" where
  "reclaim_plan bk scope kill_min h =
     (case plan_reclaim (bk_enum bk) scope kill_min (bk_probes bk False) of
        Inl e \<Rightarrow> (Inl (raised e), h)
      | Inr (targets, cl) \<Rightarrow> (Inr (plan_for ''reclaim_plan'' None (Targets targets None)), h))"

definition root_all :: "host \<Rightarrow> bool" where
  "root_all h \<longleftrightarrow> dict_get (hs_env h) ''GB_ACTUATION_ROOT_ALL'' = Some ''1''"

definition reclaim_run :: "backends \<Rightarrow> string \<Rightarrow> int \<Rightarrow> bool \<Rightarrow> host \<Rightarrow> (verb_exception + plan) \<times> host" where
  "reclaim_run bk scope kill_min confirm h =
     (let g = actuation_gate confirm h;
          g = (if allowed g \<and> scope = ''all'' \<and> hs_euid h = 0 \<and> \<not> root_all h then DryRootAll else g) in
      case plan_reclaim (bk_enum bk) scope kill_min (bk_probes bk False) of
        Inl e \<Rightarrow> (Inl (raised e), h)
      | Inr (targets, cl) \<Rightarrow>
          let p = plan_for ''reclaim_run'' (Some g) (Targets targets None) in
          if \<not> allowed g then (Inr (dry p), h)
          else case run_reclaim (bk_enum bk) (bk_around bk) (bk_services bk) scope kill_min (bk_probes bk True) (hs_node h) of
            (Inl e, nd) \<Rightarrow> (Inl (raised e), h\<lparr>hs_node := nd\<rparr>)
          | (Inr r, nd) \<Rightarrow>
              (Inr (p\<lparr>pl_applied := Some True, pl_data := Targets targets (Some (re_killed r, re_unloaded r, re_failed r))\<rparr>),
               h\<lparr>hs_node := nd\<rparr>))"

section \<open>The table of verbs\<close>

datatype verb_call =
    ClusterEnsure string | DispatchPlan | SetQuantPolicy "pyfloat option" "string option" | TierActuate string int
  | ServeAndRepoint string int "string option" | ShimEnv string bool | RunUnder command_arg string
  | ReclaimPlan string int | ReclaimRun string int

fun verb_name :: "verb_call \<Rightarrow> string" where
  "verb_name (ClusterEnsure _) = ''cluster_ensure_feeder_ready''"
| "verb_name DispatchPlan = ''cluster_dispatch_plan''"
| "verb_name (SetQuantPolicy _ _) = ''set_quant_policy''"
| "verb_name (TierActuate _ _) = ''tier_actuate''"
| "verb_name (ServeAndRepoint _ _ _) = ''serve_and_repoint''"
| "verb_name (ShimEnv _ _) = ''shim_env''"
| "verb_name (RunUnder _ _) = ''run_under_greenboost''"
| "verb_name (ReclaimPlan _ _) = ''reclaim_plan''"
| "verb_name (ReclaimRun _ _) = ''reclaim_run''"

fun do_verb :: "backends \<Rightarrow> verb_call \<Rightarrow> bool \<Rightarrow> host \<Rightarrow> (verb_exception + plan) \<times> host" where
  "do_verb bk (ClusterEnsure ip) confirm h = map_prod Inr id (cluster_ensure_feeder_ready bk ip confirm h)"
| "do_verb bk DispatchPlan confirm h = map_prod Inr id (cluster_dispatch_plan bk confirm h)"
| "do_verb bk (SetQuantPolicy b q) confirm h = map_prod Inr id (set_quant_policy b q confirm h)"
| "do_verb bk (TierActuate l v) confirm h = map_prod Inr id (tier_actuate bk l v confirm h)"
| "do_verb bk (ServeAndRepoint m p t) confirm h = map_prod Inr id (serve_and_repoint bk m p t confirm h)"
| "do_verb bk (ShimEnv w e) confirm h = map_prod Inr id (shim_env bk w e h)"
| "do_verb bk (RunUnder c w) confirm h = run_under_greenboost bk c w confirm h"
| "do_verb bk (ReclaimPlan s k) confirm h = reclaim_plan bk s k h"
| "do_verb bk (ReclaimRun s k) confirm h = reclaim_run bk s k confirm h"

definition VERBS :: "string list" where
  "VERBS =
     [''cluster_ensure_feeder_ready'', ''cluster_dispatch_plan'', ''set_quant_policy'', ''tier_actuate'',
      ''serve_and_repoint'', ''shim_env'', ''run_under_greenboost'', ''reclaim_plan'', ''reclaim_run'']"

definition served_verbs :: "string list \<Rightarrow> bool \<Rightarrow> host \<Rightarrow> string list" where
  "served_verbs table as_root h = (if as_root \<and> \<not> root_all h then filter (\<lambda>v. v \<noteq> ''run_under_greenboost'') table else table)"

text \<open>The two queries have no parameter \<open>confirm\<close>.\<close>

definition takes_confirm :: "verb_call \<Rightarrow> bool" where
  "takes_confirm c \<longleftrightarrow> (case c of ShimEnv _ _ \<Rightarrow> False | ReclaimPlan _ _ \<Rightarrow> False | _ \<Rightarrow> True)"

text \<open>The command line: a person at the terminal; the JSON parameters lose a \<open>confirm\<close> of their own and get the answer's.\<close>

definition apply_interactively :: "backends \<Rightarrow> string option \<Rightarrow> verb_call \<Rightarrow> host \<Rightarrow> (verb_exception + plan) option \<times> host" where
  "apply_interactively bk answer c h =
     (if verb_name c \<notin> set (served_verbs VERBS (hs_euid h = 0) h) then (None, h)
      else case interactive_auth answer (\<lambda>ok h. if takes_confirm c then do_verb bk c ok h else (Inl TypeRaised, h)) h of (r, h) \<Rightarrow>
        (Some r, h))"

section \<open>Nothing happens outside the gate\<close>

lemma not_allowed_iff: "allowed (actuation_gate confirm h) \<longleftrightarrow>
    confirm \<and> dict_get (hs_env h) ''GB_ORCH_ACTUATE'' = Some ''1'' \<and> hs_auth h \<noteq> []"
  by (simp add: actuation_gate_def allowed_def)

text \<open>What a verb may leave behind when the gate is closed: the host as it was.\<close>

lemma ensure_gated: "\<not> allowed (actuation_gate confirm h) \<Longrightarrow> snd (cluster_ensure_feeder_ready bk ip confirm h) = h"
  by (simp add: cluster_ensure_feeder_ready_def Let_def)

lemma verb_gated: "\<not> allowed (actuation_gate confirm h) \<Longrightarrow> snd (do_verb bk c confirm h) = h"
  by (cases c) (simp_all add: ensure_gated cluster_dispatch_plan_def set_quant_policy_def tier_actuate_def serve_and_repoint_def
      shim_env_def run_under_greenboost_def reclaim_plan_def reclaim_run_def Let_def split: option.split prod.split sum.split)

lemma queries_only_read: "snd (do_verb bk (ShimEnv w e) confirm h) = h" "snd (do_verb bk (ReclaimPlan s k) confirm h) = h"
  by (simp_all add: shim_env_def reclaim_plan_def split: option.split sum.split prod.split)

text \<open>What no verb touches: the environment, the token file, the user, and the authorization.\<close>

definition fixed :: "host \<Rightarrow> (string, string) pydict \<times> inode option \<times> nat \<times> string" where
  "fixed h = (hs_env h, hs_token h, hs_euid h, hs_auth h)"

lemma fixed_update [simp]:
  "fixed (h\<lparr>hs_done := x\<rparr>) = fixed h" "fixed (h\<lparr>hs_machine := y\<rparr>) = fixed h" "fixed (h\<lparr>hs_node := z\<rparr>) = fixed h"
  "fixed (h\<lparr>hs_envfile := t\<rparr>) = fixed h"
  by (simp_all add: fixed_def)

lemma fixed_parts [simp]:
  "fixed (snd (cluster_ensure_feeder_ready bk ip confirm h)) = fixed h" "fixed (snd (write_env_file u h)) = fixed h"
  by (simp_all add: cluster_ensure_feeder_ready_def write_env_file_def Let_def split: option.split)

lemma fixed_provision [simp]: "fixed (snd (provision bk fs h)) = fixed h"
  by (induction fs arbitrary: h) (simp_all add: case_prod_beta)

lemma verb_keeps_fixed: "fixed (snd (do_verb bk c confirm h)) = fixed h"
  by (cases c) (simp_all add: cluster_dispatch_plan_def set_quant_policy_def tier_actuate_def serve_and_repoint_def
      shim_env_def run_under_greenboost_def reclaim_plan_def reclaim_run_def Let_def case_prod_beta
      split: option.split sum.split run_outcome.split served.split)

lemma verb_keeps_auth: "hs_auth (snd (do_verb bk c confirm h)) = hs_auth h"
  using verb_keeps_fixed [of bk c confirm h] by (simp add: fixed_def)

text \<open>The context variable is as it was after every context, and only an authorized one sets it.\<close>

lemma context_closes:
  assumes "\<And>b g. hs_auth (snd (body b g)) = hs_auth g"
  shows "hs_auth (snd (in_context via authorized body h)) = hs_auth h"
  using assms by (simp add: in_context_def case_prod_beta)

lemma unauthorized_verb_is_dry:
  "hs_auth h = [] \<Longrightarrow> snd (in_context via False (\<lambda>ok. do_verb bk c (f ok)) h) = h"
  by (simp add: in_context_def case_prod_beta verb_gated not_allowed_iff)

section \<open>The environment file keeps what it holds\<close>

lemma clean_strip_parts:
  assumes "\<forall>c \<in> set l. \<not> line_break c"
  shows "clean (strip (before (CHR ''='') l))" "CHR ''='' \<notin> set (strip (before (CHR ''='') l))" "clean (strip (after (CHR ''='') l))"
proof -
  have sub: "set (strip x) \<subseteq> set x" for x using strip_decomp [of x] by (metis Un_iff set_append subsetI)
  have b: "set (before (CHR ''='') l) \<subseteq> set l" "CHR ''='' \<notin> set (before (CHR ''='') l)"
    by (auto simp: before_def dest: set_takeWhileD)
  have a: "set (after (CHR ''='') l) \<subseteq> set l" by (auto simp: after_def dest!: in_set_dropD set_dropWhileD)
  show "clean (strip (before (CHR ''='') l))" "CHR ''='' \<notin> set (strip (before (CHR ''='') l))" "clean (strip (after (CHR ''='') l))"
    using assms sub b a unfolding clean_def strip_strip by blast+
qed

lemma lines_have_no_break: "\<forall>c \<in> set acc. \<not> line_break c \<Longrightarrow> l \<in> set (lines_from acc s) \<Longrightarrow> c \<in> set l \<Longrightarrow> \<not> line_break c"
  by (induction acc s arbitrary: l rule: lines_from.induct) (auto split: if_splits)

text \<open>A pair that a line of the file carries: a comment sign at the start of the key would hide it.\<close>

definition carried :: "string \<times> string \<Rightarrow> bool" where
  "carried p \<longleftrightarrow> clean_pair p \<and> \<not> starts_with ''#'' (fst p)"

lemma kv_line_strip: "clean_pair p \<Longrightarrow> strip (kv_line p) = kv_line p"
proof (rule strip_id)
  assume c: "clean_pair p"
  have ends: "s \<noteq> [] \<Longrightarrow> \<not> py_space (hd s) \<and> \<not> py_space (last s)" if "strip s = s" for s
  proof -
    assume "s \<noteq> []"
    with that have "\<not> py_space (hd s)" using strip_hd [of s] by simp
    moreover from that \<open>s \<noteq> []\<close> have "\<not> py_space (last s)"
    proof -
      have "rev s = dropWhile py_space (rev (dropWhile py_space s))" using that by (simp add: strip_def rev_swap)
      with \<open>s \<noteq> []\<close> have "\<not> py_space (hd (rev s))" by (metis hd_dropWhile hd_in_set rev_is_Nil_conv dropWhile_eq_Nil_conv)
      then show ?thesis by (simp add: hd_rev)
    qed
    ultimately show ?thesis ..
  qed
  have "\<not> py_space (hd (kv_line p))" using c ends [of "fst p"] by (cases "fst p") (auto simp: kv_line_def clean_pair_def clean_def py_space_def)
  moreover have "\<not> py_space (last (kv_line p))" using c ends [of "snd p"] by (cases "snd p") (auto simp: kv_line_def clean_pair_def clean_def py_space_def)
  ultimately show "kv_line p = [] \<or> \<not> py_space (hd (kv_line p)) \<and> \<not> py_space (last (kv_line p))" by simp
qed

lemma env_line_kv: "carried p \<Longrightarrow> env_line (kv_line p)"
  by (cases "fst p") (auto simp: carried_def env_line_def kv_line_def)

lemma field_carried:
  assumes "env_line (strip l)" "\<forall>c \<in> set l. \<not> line_break c"
  shows "carried (kv_field (strip l))"
proof -
  have sub: "set (strip l) \<subseteq> set l" using strip_decomp [of l] by (metis Un_iff set_append subsetI)
  then have nb: "\<forall>c \<in> set (strip l). \<not> line_break c" using assms(2) by blast
  let ?k = "before (CHR ''='') (strip l)"
  have "\<not> starts_with ''#'' (strip ?k)"
  proof (cases "?k = []")
    case False
    then have h: "hd ?k = hd (strip l)" "strip l \<noteq> []" by (cases "strip l"; auto simp: before_def split: if_splits)+
    with strip_hd [of l] False strip_starts [of ?k] obtain b where b: "?k = strip ?k @ b" by auto
    show ?thesis
    proof (cases "strip ?k")
      case (Cons x xs)
      with b h(1) have "x = hd (strip l)" by (metis append_Cons list.sel(1))
      with assms(1) h(2) Cons show ?thesis by (cases "strip l") (auto simp: env_line_def)
    qed simp
  qed (simp add: strip_def)
  with clean_strip_parts [OF nb] show ?thesis by (simp add: carried_def clean_pair_def kv_field_def)
qed

lemma read_kv_all:
  assumes "\<forall>l \<in> set ls. wanted l \<longrightarrow> Q (kv_field l)"
  shows "dict_wf (read_kv wanted ls) \<and> (\<forall>p \<in> set (read_kv wanted ls). Q p)"
proof -
  have s: "\<forall>p \<in> set (dict_set k v d). p = (k, v) \<or> p \<in> set d" for k :: string and v :: string and d
    by (induction d) auto
  have "dict_wf (foldl (\<lambda>d l. if wanted l then dict_set (fst (kv_field l)) (snd (kv_field l)) d else d) d ls) \<and>
      (\<forall>p \<in> set (foldl (\<lambda>d l. if wanted l then dict_set (fst (kv_field l)) (snd (kv_field l)) d else d) d ls). Q p)"
    if "dict_wf d" "\<forall>p \<in> set d. Q p" for d
    using that assms
  proof (induction ls arbitrary: d)
    case (Cons l ls)
    have "\<forall>p \<in> set (dict_set (fst (kv_field l)) (snd (kv_field l)) d). Q p" if "wanted l"
      using s [of "fst (kv_field l)" "snd (kv_field l)" d] Cons.prems that by (metis list.set_intros(1) prod.collapse)
    then show ?case
      using Cons.IH [of "if wanted l then dict_set (fst (kv_field l)) (snd (kv_field l)) d else d"] Cons.prems by simp
  qed simp
  from this [of "[]"] show ?thesis by (simp add: read_kv_def)
qed

lemma read_env_carried: "dict_wf (read_env_file h) \<and> (\<forall>p \<in> set (read_env_file h). carried p)"
proof (cases "hs_envfile h")
  case (Some t)
  have "\<forall>l \<in> set (map strip (splitlines t)). env_line l \<longrightarrow> carried (kv_field l)"
    using field_carried lines_have_no_break [of "[]"] by auto
  from read_kv_all [OF this] Some show ?thesis by (simp add: read_env_file_def)
qed (simp add: read_env_file_def)

lemma fold_set_carried:
  "dict_wf d \<Longrightarrow> \<forall>p \<in> set d. carried p \<Longrightarrow> \<forall>p \<in> set ups. carried p \<Longrightarrow>
   dict_wf (fold (\<lambda>(k, v). dict_set k v) ups d) \<and> (\<forall>p \<in> set (fold (\<lambda>(k, v). dict_set k v) ups d). carried p)"
proof (induction ups arbitrary: d)
  case (Cons u ups)
  obtain k v where u: "u = (k, v)" by fastforce
  have "\<forall>p \<in> set (dict_set k v d). p = (k, v) \<or> p \<in> set d" by (induction d) auto
  with Cons.prems u have "dict_wf (dict_set k v d)" "\<forall>p \<in> set (dict_set k v d). carried p" "\<forall>p \<in> set ups. carried p" by auto
  from Cons.IH [OF this] u show ?case by simp
qed simp

lemma fold_set_get: "dict_wf ups \<Longrightarrow> dict_get (fold (\<lambda>(k, v). dict_set k v) ups d) = dict_get d ++ dict_get ups"
proof (induction ups arbitrary: d)
  case (Cons u ups)
  obtain k v where u: "u = (k, v)" by fastforce
  with Cons.prems have "dict_get ups k = None" by (simp add: dict_get_None_iff)
  with Cons u show ?case by (auto simp: map_add_def fun_eq_iff split: option.split)
qed simp

text \<open>
  C20. The shared environment file: what was written is read back. When the write goes through, reading the file gives
  what it held before with the updates put over it, for any updates whose keys and values fit on a line; values that
  the file held and the updates do not name are kept.
\<close>

theorem env_file_round_trip:
  assumes "write_env_file updates h = (True, h')" and "dict_wf updates" and "\<forall>p \<in> set updates. carried p"
  shows "dict_get (read_env_file h') = dict_get (read_env_file h) ++ dict_get updates"
proof -
  define env where "env = fold (\<lambda>(k, v). dict_set k v) updates (read_env_file h)"
  from read_env_carried [of h] fold_set_carried [of "read_env_file h" updates] assms(3)
  have env: "dict_wf env" "\<forall>p \<in> set env. carried p" by (simp_all add: env_def)
  from assms(1) have f: "hs_envfile h' = Some (env_header @ [CHR 0x0A] @ print_kv env)"
    by (auto simp: write_env_file_def env_def Let_def split: if_splits)
  let ?ls = "map kv_line (sort_key fst env)"
  have hd: "\<forall>c \<in> set env_header. \<not> line_break c" "strip env_header = env_header" "\<not> env_line env_header" by code_simp+
  have "env_header @ [CHR 0x0A] @ print_kv env = concat (map (\<lambda>l. l @ [CHR 0x0A]) (env_header # ?ls))"
    by (simp add: print_kv_def comp_def)
  moreover have "\<forall>l \<in> set (env_header # ?ls). \<forall>c \<in> set l. \<not> line_break c"
    using env(2) hd(1) by (auto simp: carried_def kv_line_no_break)
  ultimately have sl: "splitlines (env_header @ [CHR 0x0A] @ print_kv env) = env_header # ?ls"
    by (metis splitlines_unlines)
  have st: "map strip ?ls = ?ls" using env(2) by (auto simp: carried_def kv_line_strip)
  have "read_env_file h' = read_kv env_line (map strip (env_header # ?ls))" by (simp only: read_env_file_def f option.case sl)
  also have "\<dots> = read_kv env_line (env_header # ?ls)" by (simp only: list.map(2) st hd(2))
  also have "\<dots> = foldl (\<lambda>d l. if env_line l then dict_set (fst (kv_field l)) (snd (kv_field l)) d else d) [] ?ls"
    using hd(3) by (simp add: read_kv_def)
  also have "\<dots> = sort_key fst env"
  proof -
    have "mset (map fst (sort_key fst env)) = mset (map fst env)" by simp
    with env(1) have "distinct (map fst (sort_key fst env))" using mset_eq_imp_distinct_iff by blast
    with env(2) show ?thesis
      using read_kv_fold [of "[]" "sort_key fst env" env_line] by (simp add: env_line_kv carried_def)
  qed
  finally show ?thesis using dict_get_sort [OF env(1)] fold_set_get [OF assms(2), of "read_env_file h"] by (simp add: env_def)
qed

definition sample_host :: host where
  "sample_host = \<lparr>hs_env = [(''GB_ORCH_ACTUATE'', ''1'')], hs_auth = [], hs_euid = 1000,
     hs_token = Some \<lparr>in_regular = True, in_mode = 384, in_uid = 1000, in_text = ''0123456789abcdef'' @ [CHR 0x0A]\<rparr>,
     hs_envfile = Some (''# old'' @ [CHR 0x0A] @ ''GB_QUALITY = compact'' @ [CHR 0x0A] @ ''FORGE_OLLAMA_URL=h:1''),
     hs_writable = True, hs_machine = bare_machine, hs_node = sample_node, hs_done = []\<rparr>"

theorem env_file_round_trip_witness:
  "\<exists>h'. write_env_file [(''GB_QUALITY'', ''balanced'')] sample_host = (True, h') \<and>
     dict_get (read_env_file h') ''GB_QUALITY'' = Some ''balanced'' \<and>
     dict_get (read_env_file h') ''FORGE_OLLAMA_URL'' = Some ''h:1''"
proof -
  let ?h = "snd (write_env_file [(''GB_QUALITY'', ''balanced'')] sample_host)"
  have w: "write_env_file [(''GB_QUALITY'', ''balanced'')] sample_host = (True, ?h)"
    by (simp add: write_env_file_def sample_host_def Let_def)
  have "clean_pair (''GB_QUALITY'', ''balanced'')" by code_simp
  then have "\<forall>p \<in> set [(''GB_QUALITY'', ''balanced'')]. carried p" by (simp add: carried_def)
  from env_file_round_trip [OF w _ this]
  have "dict_get (read_env_file ?h) = dict_get (read_env_file sample_host) ++ dict_get [(''GB_QUALITY'', ''balanced'')]" by simp
  moreover have "dict_get (read_env_file sample_host) ''FORGE_OLLAMA_URL'' = Some ''h:1''" by code_simp
  ultimately show ?thesis using w by (intro exI [of _ ?h]) (simp add: map_add_def)
qed

text \<open>
  A caller that may repoint the pipelines can set any variable of the file: the URL is written as it comes, a line break
  in it starts a line of its own. A reclaim is planned twice, so the targets it reports need not be those it kills. And
  since every call makes a new controller, the step of a lever binds nobody who comes through this verb. The two queries
  cannot be asked from the command line, which gives every verb a \<open>confirm\<close>.
\<close>

lemma url_sets_other_variables:
  "dict_get (read_env_file (snd (write_env_file [(''FORGE_OLLAMA_URL'', ''h:1'' @ [CHR 0x0A] @ ''GB_QUANT_BITS=2'')] sample_host))) ''GB_QUANT_BITS''
     = Some ''2''"
  by code_simp

definition sample_backends :: backends where
  "sample_backends =
     \<lparr>bk_feeders = Some [''10.0.0.2''], bk_ready = (\<lambda>_. Some True), bk_snapshot = None, bk_port = 11435, bk_serve = (\<lambda>_ _. ProxyUp),
      bk_shim = (\<lambda>_ _. Some []), bk_run = (\<lambda>_. Exited 0 [] []), bk_powers = open_powers, bk_clock = 1000, bk_enum = remdups,
      bk_around = (\<lambda>t pr. pr), bk_services = idle_services,
      bk_probes = (\<lambda>again. if again then sample_probes\<lparr>pb_fuser := Some '' 77''\<rparr> else sample_probes)\<rparr>"

lemma query_from_the_terminal_raises:
  "fst (apply_interactively sample_backends (Some ''yes'') (ReclaimPlan ''residue'' 512) sample_host) = Some (Inl TypeRaised)"
  by code_simp

lemma reports_other_targets:
  "case reclaim_run sample_backends ''residue'' 1000 True (sample_host\<lparr>hs_auth := ''token''\<rparr>) of
     (Inr p, h) \<Rightarrow> (case pl_data p of
        Targets targets (Some (killed, _, _)) \<Rightarrow> map ho_pid targets = [31] \<and> map ho_pid killed = [77]
      | _ \<Rightarrow> False)
   | _ \<Rightarrow> False"
  by code_simp

lemma lever_jumps_through_the_verb:
  "case tier_actuate sample_backends ''workstation_reserve_mb'' 0 True (sample_host\<lparr>hs_auth := ''token''\<rparr>) of
     (p1, h1) \<Rightarrow> (case tier_actuate sample_backends ''workstation_reserve_mb'' 400 True h1 of
        (p2, h2) \<Rightarrow> pl_applied p1 = Some True \<and> pl_applied p2 = Some True \<and>
          mc_control (hs_machine h2) = Some (''workstation_reserve_mb=400'' @ [CHR 0x0A]))"
  by code_simp

end
