(* ===== verification/Gateway.thy ===== *)
theory Gateway
  imports Actuation
begin

text \<open>
  The agent gateway, \<^verbatim>\<open>gb_a2a.py\<close>: an HTTP server that dispatches JSON-RPC requests to the verbs. A request is the
  headers the handler reads and what its body parses to; Python's binding of the JSON parameters to a verb's signature
  is part of the request, \<open>None\<close> where it raises \<open>TypeError\<close>.
\<close>

section \<open>The rate limit\<close>

type_synonym hits = "(string, pyfloat list) pydict"

definition recent_hits :: "pyfloat \<Rightarrow> string \<Rightarrow> hits \<Rightarrow> pyfloat list" where
  "recent_hits now client hits = filter (\<lambda>t. now - t < 60) (case dict_get hits client of None \<Rightarrow> [] | Some ts \<Rightarrow> ts)"

text \<open>A table of more than 1024 clients loses those that have been silent for a minute.\<close>

definition bound_table :: "pyfloat \<Rightarrow> hits \<Rightarrow> hits" where
  "bound_table now hits =
     (if length hits > 1024 then filter (\<lambda>(k, v). \<not> (v = [] \<or> now - last v \<ge> 60)) hits else hits)"

definition rate_ok :: "int \<Rightarrow> pyfloat \<Rightarrow> string \<Rightarrow> hits \<Rightarrow> bool \<times> hits" where
  "rate_ok per_min now client hits =
     (let hits = bound_table now hits; ts = recent_hits now client hits in
      if int (length ts) \<ge> per_min then (False, dict_set client ts hits) else (True, dict_set client (ts @ [now]) hits))"

section \<open>Requests and replies\<close>

record gateway =
  gw_bind :: string
  gw_per_min :: int
  gw_max_body :: int
  gw_served :: "string list"

datatype rpc_method = Method string | NotHashable

text \<open>\<open>BadKeywords\<close>: \<open>fn(**params)\<close> raises \<open>TypeError\<close>; otherwise the call and the truth of \<open>confirm\<close>.\<close>

datatype rpc_params = NotAnObject | BadKeywords bool | Keywords verb_call bool

datatype http_body = NotJson | NotARequest | Rpc rpc_method rpc_params

text \<open>Absent headers are empty texts; \<open>rq_length\<close> is \<open>None\<close> when it is no integer.\<close>

record http_request =
  rq_client :: string
  rq_origin :: string
  rq_host :: string
  rq_authorization :: string
  rq_type :: string
  rq_length :: "int option"
  rq_body :: http_body

datatype reply =
    Status nat
  | RpcError int
  | RpcResult plan bool

text \<open>\<open>rpartition(":")\<close>; \<open>None\<close> is the \<open>ValueError\<close> of a port that is no number.\<close>

definition bind_parts :: "string \<Rightarrow> (string \<times> int) option" where
  "bind_parts bind =
     (let (host, port) = (if CHR '':'' \<in> set bind then rpartition (CHR '':'') bind else ([], bind));
          host = (if host = [] then ''127.0.0.1'' else host)
      in if port = [] then Some (host, 8790) else map_option (\<lambda>p. (host, p)) (int_text port))"

definition is_loopback :: "string \<Rightarrow> bool" where
  "is_loopback host \<longleftrightarrow> host \<in> {''127.0.0.1'', ''localhost'', ''::1''}"

definition authed :: "http_request \<Rightarrow> host \<Rightarrow> bool" where
  "authed rq h \<longleftrightarrow>
     (case dict_get (hs_env h) ''GB_A2A_TOKEN'' of None \<Rightarrow> True
      | Some token \<Rightarrow> token = [] \<or> rq_authorization rq = ''Bearer '' @ token)"

definition bearer :: "http_request \<Rightarrow> string" where
  "bearer rq =
     (if str_lower (take 7 (rq_authorization rq)) = ''bearer '' then strip (drop 7 (rq_authorization rq)) else [])"

definition own_names :: "int \<Rightarrow> string list" where
  "own_names port = map (\<lambda>n. n @ '':'' @ show_int port) [''127.0.0.1'', ''localhost'', ''[::1]'']"

definition browser_like :: "gateway \<Rightarrow> http_request \<Rightarrow> bool option" where
  "browser_like gw rq =
     (if rq_origin rq \<noteq> [] then Some True
      else case bind_parts (gw_bind gw) of
        None \<Rightarrow> None
      | Some (host, port) \<Rightarrow> Some (if \<not> is_loopback host then False else rq_host rq \<notin> set (own_names port)))"

definition media_type :: "string \<Rightarrow> string" where
  "media_type t = str_lower (strip (before (CHR '';'') t))"

section \<open>The handlers\<close>

text \<open>One verb, in the context that the bearer token opens.\<close>

definition dispatch :: "backends \<Rightarrow> http_request \<Rightarrow> rpc_params \<Rightarrow> host \<Rightarrow> reply \<times> host" where
  "dispatch bk rq params h =
     (case params of
        NotAnObject \<Rightarrow> (RpcError (-32602), h)
      | BadKeywords confirm \<Rightarrow> (RpcError (-32602), h)
      | Keywords c confirm \<Rightarrow>
          (case actuation_auth (bearer rq) (\<lambda>ok h. case do_verb bk c confirm h of (r, h) \<Rightarrow> ((ok, r), h)) h of
             ((ok, Inl e), h) \<Rightarrow> (RpcError (-32000), h)
           | ((ok, Inr p), h) \<Rightarrow> (RpcResult p (confirm \<and> \<not> ok), h)))"

text \<open>\<open>None\<close>: the handler raises, and the connection closes without an answer.\<close>

definition do_POST :: "gateway \<Rightarrow> backends \<Rightarrow> pyfloat \<Rightarrow> http_request \<Rightarrow> hits \<Rightarrow> host \<Rightarrow> reply option \<times> hits \<times> host" where
  "do_POST gw bk now rq hits h =
     (case rate_ok (gw_per_min gw) now (rq_client rq) hits of (ok, hits) \<Rightarrow>
        if \<not> ok then (Some (Status 429), hits, h)
        else case browser_like gw rq of
          None \<Rightarrow> (None, hits, h)
        | Some True \<Rightarrow> (Some (Status 403), hits, h)
        | Some False \<Rightarrow>
            if \<not> authed rq h then (Some (Status 401), hits, h)
            else if media_type (rq_type rq) \<noteq> ''application/json'' then (Some (Status 415), hits, h)
            else case rq_length rq of
              None \<Rightarrow> (Some (Status 400), hits, h)
            | Some n \<Rightarrow>
                if n < 0 \<or> n > gw_max_body gw then (Some (Status 413), hits, h)
                else case rq_body rq of
                  NotJson \<Rightarrow> (Some (Status 400), hits, h)
                | NotARequest \<Rightarrow> (Some (Status 400), hits, h)
                | Rpc method params \<Rightarrow>
                    (case (params, method) of
                       (NotAnObject, _) \<Rightarrow> (Some (RpcError (-32602)), hits, h)
                     | (_, NotHashable) \<Rightarrow> (None, hits, h)
                     | (_, Method name) \<Rightarrow>
                         if name \<notin> set (gw_served gw) then (Some (RpcError (-32601)), hits, h)
                         else case dispatch bk rq params h of (r, h) \<Rightarrow> (Some r, hits, h)))"

definition card_paths :: "string list" where
  "card_paths = [''/.well-known/agent'', ''/.well-known/agent.json'', ''/.well-known/agent-card.json'']"

definition rstrip_slash :: "string \<Rightarrow> string" where
  "rstrip_slash p = rev (dropWhile (\<lambda>c. c = CHR ''/'') (rev p))"

definition do_GET :: "gateway \<Rightarrow> pyfloat \<Rightarrow> string \<Rightarrow> http_request \<Rightarrow> hits \<Rightarrow> host \<Rightarrow> reply option \<times> hits" where
  "do_GET gw now file rq hits h =
     (case rate_ok (gw_per_min gw) now (rq_client rq) hits of (ok, hits) \<Rightarrow>
        if \<not> ok then (Some (Status 429), hits)
        else case browser_like gw rq of
          None \<Rightarrow> (None, hits)
        | Some True \<Rightarrow> (Some (Status 403), hits)
        | Some False \<Rightarrow>
            if rstrip_slash file \<in> set card_paths then
              (Some (Status (if authed rq h then 200 else 401)), hits)
            else (Some (Status 404), hits))"

text \<open>Whether the server starts: a bind beyond the loopback needs a token.\<close>

definition serve_starts :: "gateway \<Rightarrow> host \<Rightarrow> bool" where
  "serve_starts gw h \<longleftrightarrow>
     (case bind_parts (gw_bind gw) of None \<Rightarrow> False
      | Some (host, port) \<Rightarrow>
          is_loopback host \<or> (case dict_get (hs_env h) ''GB_A2A_TOKEN'' of None \<Rightarrow> False | Some t \<Rightarrow> t \<noteq> []))"

section \<open>What it takes to change the host\<close>

lemma token_matches_iff: "token_matches t h \<longleftrightarrow> expected_token h = Inr t \<and> t \<noteq> []"
  by (auto simp: token_matches_def split: sum.splits)

lemma dispatch_effect:
  assumes "dispatch bk rq params h = (r, h')" "hs_auth h = []"
  shows "hs_auth h' = [] \<and> (h' \<noteq> h \<longrightarrow>
    (\<exists>c tok. params = Keywords c True \<and> expected_token h = Inr tok \<and> bearer rq = tok \<and> tok \<noteq> [] \<and>
       dict_get (hs_env h) ''GB_ORCH_ACTUATE'' = Some ''1''))"
proof (cases params)
  case (Keywords c confirm)
  let ?body = "\<lambda>ok h. case do_verb bk c confirm h of (r, h) \<Rightarrow> ((ok, r), h)"
  let ?ok = "token_matches (bearer rq) h"
  have b: "snd (?body ok g) = snd (do_verb bk c confirm g)" for ok g by (simp add: case_prod_beta)
  have a: "snd (actuation_auth (bearer rq) ?body h) = h'"
    using assms(1) Keywords by (auto simp: dispatch_def split: prod.splits sum.splits)
  have "hs_auth (snd (actuation_auth (bearer rq) ?body h)) = hs_auth h"
    unfolding actuation_auth_def by (rule context_closes) (simp add: b verb_keeps_auth)
  with a assms(2) have "hs_auth h' = []" by simp
  moreover have "h' = h" if "\<not> ?ok"
    using a that assms(2) by (simp add: actuation_auth_def in_context_def case_prod_beta verb_gated not_allowed_iff)
  moreover have "h' = h" if "?ok" "\<not> allowed (actuation_gate confirm (h\<lparr>hs_auth := ''token''\<rparr>))"
    using a that by (simp add: actuation_auth_def in_context_def case_prod_beta verb_gated)
  ultimately show ?thesis
    using Keywords by (auto simp: not_allowed_iff token_matches_iff)
qed (use assms in \<open>auto simp: dispatch_def\<close>)

lemma served_is_gated:
  assumes "do_POST gw bk now rq hits h = (r, hits', h')" "h' \<noteq> h"
  obtains name params where "rq_body rq = Rpc (Method name) params" "name \<in> set (gw_served gw)"
    "\<exists>r. dispatch bk rq params h = (r, h')" "fst (rate_ok (gw_per_min gw) now (rq_client rq) hits)"
    "browser_like gw rq = Some False" "authed rq h" "media_type (rq_type rq) = ''application/json''"
    "\<exists>n. rq_length rq = Some n \<and> 0 \<le> n \<and> n \<le> gw_max_body gw"
  using assms by (auto simp: do_POST_def split: prod.splits if_splits option.splits bool.splits http_body.splits rpc_params.splits rpc_method.splits)

lemma expected_token_safe:
  "expected_token h = Inr tok \<Longrightarrow> \<exists>f. hs_token h = Some f \<and> in_regular f \<and> in_mode f AND 63 = 0 \<and>
     in_uid f \<in> set (token_owners h) \<and> tok = strip (in_text f) \<and> 16 \<le> length tok"
  by (auto simp: expected_token_def split: option.splits if_splits)

text \<open>
  C4. What it takes to change the host through the gateway: a request in a fresh thread that leaves the host other than
  it found it carried \<open>confirm\<close> and, as bearer token, exactly the text of a regular file that nobody but its owner
  can touch, owned by root, the service's user or the owner; the environment enables actuation; the client was under
  its rate; the request was none a web page could have caused, had the JSON type and a bounded body; and
  the verb was served. Afterwards the thread is as unauthorized as before, whatever the verb did.
\<close>

theorem gateway_needs_the_token:
  assumes "do_POST gw bk now rq hits h = (r, hits', h')" and "hs_auth h = []"
  shows "hs_auth h' = [] \<and> (h' \<noteq> h \<longrightarrow>
    (\<exists>name c f. rq_body rq = Rpc (Method name) (Keywords c True) \<and> name \<in> set (gw_served gw) \<and>
       dict_get (hs_env h) ''GB_ORCH_ACTUATE'' = Some ''1'' \<and>
       hs_token h = Some f \<and> in_regular f \<and> in_mode f AND 63 = 0 \<and> in_uid f \<in> set (token_owners h) \<and>
       bearer rq = strip (in_text f) \<and> 16 \<le> length (bearer rq)) \<and>
    fst (rate_ok (gw_per_min gw) now (rq_client rq) hits) \<and> rq_origin rq = [] \<and> authed rq h \<and>
    media_type (rq_type rq) = ''application/json'' \<and> (\<exists>n. rq_length rq = Some n \<and> 0 \<le> n \<and> n \<le> gw_max_body gw))"
proof (cases "h' = h")
  case True
  with assms(2) show ?thesis by simp
next
  case False
  obtain name params where g: "rq_body rq = Rpc (Method name) params" "name \<in> set (gw_served gw)"
    "\<exists>r. dispatch bk rq params h = (r, h')" "fst (rate_ok (gw_per_min gw) now (rq_client rq) hits)"
    "browser_like gw rq = Some False" "authed rq h" "media_type (rq_type rq) = ''application/json''"
    "\<exists>n. rq_length rq = Some n \<and> 0 \<le> n \<and> n \<le> gw_max_body gw"
    by (rule served_is_gated [OF assms(1) False])
  from g(3) obtain r where d: "dispatch bk rq params h = (r, h')" by blast
  from dispatch_effect [OF d assms(2)] False obtain c tok where c: "hs_auth h' = []" "params = Keywords c True"
    "expected_token h = Inr tok" "bearer rq = tok" "dict_get (hs_env h) ''GB_ORCH_ACTUATE'' = Some ''1''" by blast
  have "rq_origin rq = []" using g(5) by (auto simp: browser_like_def split: if_splits)
  with g c expected_token_safe [OF c(3)] show ?thesis by auto
qed

definition sample_gateway :: gateway where
  "sample_gateway = \<lparr>gw_bind = ''127.0.0.1:80'', gw_per_min = 30, gw_max_body = 1048576,
     gw_served = served_verbs VERBS False sample_host\<rparr>"

definition sample_request :: http_request where
  "sample_request = \<lparr>rq_client = ''127.0.0.1'', rq_origin = [], rq_host = ''localhost:80'',
     rq_authorization = ''Bearer 0123456789abcdef'', rq_type = ''application/json; charset=utf-8'', rq_length = Some 80,
     rq_body = Rpc (Method ''cluster_ensure_feeder_ready'') (Keywords (ClusterEnsure ''10.0.0.2'') True)\<rparr>"

theorem gateway_needs_the_token_witness:
  "hs_done (snd (snd (do_POST sample_gateway sample_backends 100 sample_request [] sample_host))) = [Provisioned ''10.0.0.2''] \<and>
   snd (snd (do_POST sample_gateway sample_backends 100 (sample_request\<lparr>rq_authorization := ''Bearer 0123456789abcdeg''\<rparr>) [] sample_host)) = sample_host \<and>
   bearer sample_request = ''0123456789abcdef''"
proof -
  let ?run = "\<lambda>rq. do_POST sample_gateway sample_backends 100 rq [] sample_host"
  let ?bad = "sample_request\<lparr>rq_authorization := ''Bearer 0123456789abcdeg''\<rparr>"
  have d: "hs_done (snd (snd (?run sample_request))) = [Provisioned ''10.0.0.2'']" by code_simp
  have b: "bearer sample_request = ''0123456789abcdef''" "bearer ?bad = ''0123456789abcdeg''" by code_simp+
  have t: "the (hs_token sample_host) = \<lparr>in_regular = True, in_mode = 384, in_uid = 1000, in_text = ''0123456789abcdef'' @ [CHR 0x0A]\<rparr>"
    by (simp add: sample_host_def)
  have s: "strip (''0123456789abcdef'' @ [CHR 0x0A]) = ''0123456789abcdef''" by code_simp
  have e: "?run ?bad = (fst (?run ?bad), fst (snd (?run ?bad)), snd (snd (?run ?bad)))" by simp
  have "hs_auth sample_host = []" by (simp add: sample_host_def)
  note g = gateway_needs_the_token [OF e this]
  have "snd (snd (?run ?bad)) = sample_host"
  proof (rule ccontr)
    assume "snd (snd (?run ?bad)) \<noteq> sample_host"
    with g obtain f where "hs_token sample_host = Some f" "bearer ?bad = strip (in_text f)" by blast
    with t s b(2) show False by simp
  qed
  with d b show ?thesis by simp
qed

text \<open>
  Where the gateway asks for a token of its own, the header must carry that one and the file's at once: unless the two
  are one and the same, nothing is ever applied. And a method that is no text is looked up before anything is caught.
\<close>

lemma two_tokens_must_agree:
  assumes "do_POST gw bk now rq hits h = (r, hits', h')" "hs_auth h = []" "h' \<noteq> h"
    and "dict_get (hs_env h) ''GB_A2A_TOKEN'' = Some token" "token \<noteq> []"
  shows "\<exists>f. hs_token h = Some f \<and> strip token = strip (in_text f)"
proof -
  from gateway_needs_the_token [OF assms(1,2)] assms(3) obtain f where f: "hs_token h = Some f" "bearer rq = strip (in_text f)"
    and "authed rq h" by blast
  with assms(4,5) have "rq_authorization rq = ''Bearer '' @ token" by (simp add: authed_def)
  moreover have "take 7 (''Bearer '' @ token) = ''Bearer ''" "drop 7 (''Bearer '' @ token) = token" by simp_all
  moreover have "str_lower ''Bearer '' = ''bearer ''" by code_simp
  ultimately have "bearer rq = strip token" by (simp only: bearer_def refl if_True)
  with f show ?thesis by auto
qed

lemma list_as_method_gets_no_answer:
  "fst (do_POST sample_gateway sample_backends 100 (sample_request\<lparr>rq_body := Rpc NotHashable (BadKeywords False)\<rparr>) [] sample_host) = None"
  by code_simp

section \<open>The rate is kept\<close>

fun knock :: "int \<Rightarrow> (pyfloat \<times> string) list \<Rightarrow> hits \<Rightarrow> bool list" where
  "knock per_min [] hits = []"
| "knock per_min ((now, client) # rs) hits =
     (case rate_ok per_min now client hits of (ok, hits) \<Rightarrow> ok # knock per_min rs hits)"

text \<open>When a client was let through.\<close>

definition accepted_at :: "int \<Rightarrow> string \<Rightarrow> (pyfloat \<times> string) list \<Rightarrow> hits \<Rightarrow> pyfloat list" where
  "accepted_at per_min c rs hits = map (fst \<circ> fst) (filter (\<lambda>((t, d), ok). d = c \<and> ok) (zip rs (knock per_min rs hits)))"

definition in_minute :: "pyfloat \<Rightarrow> pyfloat list \<Rightarrow> pyfloat list" where
  "in_minute t ts = filter (\<lambda>s. t - 60 < s \<and> s \<le> t) ts"

definition hits_of :: "string \<Rightarrow> hits \<Rightarrow> pyfloat list" where
  "hits_of c hits = (case dict_get hits c of None \<Rightarrow> [] | Some ts \<Rightarrow> ts)"

text \<open>The table knows every hit of the last minute.\<close>

definition remembers :: "string \<Rightarrow> pyfloat \<Rightarrow> hits \<Rightarrow> pyfloat list \<Rightarrow> bool" where
  "remembers c now hits acc \<longleftrightarrow>
     dict_wf hits \<and> sorted (hits_of c hits) \<and> (\<forall>s \<in> set (hits_of c hits). s \<le> now) \<and> (\<forall>s \<in> set acc. s \<le> now) \<and>
     filter (\<lambda>s. now - s < 60) (hits_of c hits) = filter (\<lambda>s. now - s < 60) acc"

lemma filter_later: "now \<le> now' \<Longrightarrow> filter (\<lambda>s. now' - s < 60) (filter (\<lambda>s. now - s < 60) ts) = filter (\<lambda>s. now' - s < 60) ts"
  for ts :: "pyfloat list"
  by (induction ts) auto

lemma remembers_later: "remembers c now hits acc \<Longrightarrow> now \<le> now' \<Longrightarrow> remembers c now' hits acc"
  unfolding remembers_def using filter_later [of now now' "hits_of c hits"] filter_later [of now now' acc] by fastforce

lemma map_of_filter_wf: "dict_wf d \<Longrightarrow> dict_get (filter P d) k = (case dict_get d k of None \<Rightarrow> None | Some v \<Rightarrow> if P (k, v) then Some v else None)"
  by (induction d) (auto simp: dict_get_None_iff split: option.split)

lemma remembers_bounded: "remembers c now hits acc \<Longrightarrow> remembers c now (bound_table now hits) acc"
proof -
  assume r: "remembers c now hits acc"
  have w: "dict_wf (filter P hits)" for P using r by (auto simp: remembers_def intro: distinct_map_filter)
  have l: "now - s \<ge> 60" if "s \<in> set v" "sorted v" "now - last v \<ge> 60" for s v
  proof -
    from that(1,2) have "s \<le> last v" by (metis last_ConsR list.set_sel(1) in_set_conv_nth last_conv_nth length_pos_if_in_set
      less_Suc_eq_le One_nat_def Suc_pred diff_less list.size(3) less_nat_zero_code sorted_nth_mono zero_less_one)
    with that(3) show ?thesis by linarith
  qed
  show ?thesis
  proof (cases "length hits > 1024 \<and> (\<exists>v. dict_get hits c = Some v \<and> (v = [] \<or> now - last v \<ge> 60))")
    case True
    then obtain v where v: "dict_get hits c = Some v" "v = [] \<or> now - last v \<ge> 60" and "length hits > 1024" by blast
    then have "hits_of c (bound_table now hits) = []" using r
      by (simp add: hits_of_def bound_table_def map_of_filter_wf remembers_def)
    moreover have "filter (\<lambda>s. now - s < 60) v = []"
    proof (cases "v = []")
      case False
      have "sorted v" using r v(1) by (simp add: remembers_def hits_of_def)
      with False v(2) l [of _ v] show ?thesis by (simp add: filter_empty_conv not_less)
    qed simp
    moreover have "filter (\<lambda>s. now - s < 60) (hits_of c hits) = filter (\<lambda>s. now - s < 60) acc" "\<forall>s \<in> set acc. s \<le> now"
      using r by (simp_all add: remembers_def)
    moreover have "dict_wf (bound_table now hits)" using w r by (simp add: bound_table_def remembers_def)
    ultimately show ?thesis using v(1) unfolding remembers_def by (simp add: hits_of_def)
  next
    case False
    then have "hits_of c (bound_table now hits) = hits_of c hits" using r
      by (auto simp: hits_of_def bound_table_def map_of_filter_wf remembers_def split: option.split)
    with r w show ?thesis by (simp add: remembers_def bound_table_def)
  qed
qed

lemma accepted_within_rate:
  assumes "remembers c now0 hits acc" "sorted (now0 # map fst rs)" "\<forall>t. length (in_minute t acc) \<le> nat per_min"
  shows "length (in_minute t (acc @ accepted_at per_min c rs hits)) \<le> nat per_min"
  using assms
proof (induction rs arbitrary: now0 hits acc)
  case Nil
  then show ?case by (simp add: accepted_at_def)
next
  case (Cons r rs)
  obtain now d where rd: "r = (now, d)" by fastforce
  from Cons.prems(2) rd have now: "now0 \<le> now" "sorted (now # map fst rs)" by simp_all
  let ?hits = "bound_table now hits" and ?ts = "recent_hits now d (bound_table now hits)"
  have m: "remembers c now ?hits acc" by (rule remembers_bounded) (rule remembers_later [OF Cons.prems(1) now(1)])
  have ts: "?ts = filter (\<lambda>s. now - s < 60) (hits_of d ?hits)" by (simp add: recent_hits_def hits_of_def)
  obtain ok hits' where k: "rate_ok per_min now d hits = (ok, hits')" by fastforce
  have acc: "accepted_at per_min c (r # rs) hits = (if d = c \<and> ok then [now] else []) @ accepted_at per_min c rs hits'"
    using rd k by (simp add: accepted_at_def)
  show ?case
  proof (cases "d = c")
    case False
    have "remembers c now hits' acc"
    proof -
      have "\<exists>us. snd (rate_ok per_min now d hits) = dict_set d us ?hits"
        unfolding rate_ok_def Let_def if_distrib [of snd] snd_conv by (cases "per_min \<le> int (length ?ts)") auto
      then obtain us where "hits' = dict_set d us ?hits" unfolding k snd_conv by blast
      then have "hits_of c hits' = hits_of c ?hits" "dict_wf ?hits \<Longrightarrow> dict_wf hits'"
        using False by (simp_all add: hits_of_def)
      with m show ?thesis unfolding remembers_def by metis
    qed
    from Cons.IH [OF this now(2) Cons.prems(3)] False show ?thesis by (simp add: acc)
  next
    case same: True
    have tsc: "?ts = filter (\<lambda>s. now - s < 60) acc" "sorted ?ts" "\<forall>s \<in> set ?ts. s \<le> now"
      using m ts same sorted_filter [of id "hits_of c ?hits" "\<lambda>s. now - s < 60"] by (simp_all add: remembers_def)
    show ?thesis
    proof (cases ok)
      case False
      then have "hits' = dict_set c ?ts ?hits" using k same by (auto simp: rate_ok_def Let_def split: if_splits)
      then have "remembers c now hits' acc" using m tsc by (auto simp: remembers_def hits_of_def)
      from Cons.IH [OF this now(2) Cons.prems(3)] False show ?thesis by (simp add: acc)
    next
      case True
      then have h: "hits' = dict_set c (?ts @ [now]) ?hits" "int (length ?ts) < per_min"
        using k same by (auto simp: rate_ok_def Let_def split: if_splits)
      have "remembers c now hits' (acc @ [now])" using m tsc h(1) by (auto simp: remembers_def hits_of_def sorted_append)
      moreover have "length (in_minute t (acc @ [now])) \<le> nat per_min" for t
      proof (cases "t - 60 < now \<and> now \<le> t")
        case False
        with Cons.prems(3) show ?thesis by (auto simp: in_minute_def)
      next
        case True
        then have "length (in_minute t acc) \<le> length ?ts"
          unfolding tsc(1) in_minute_def by (induction acc) auto
        with True h(2) show ?thesis by (simp add: in_minute_def)
      qed
      ultimately show ?thesis using Cons.IH [of now hits' "acc @ [now]"] now(2) same True by (simp add: acc)
    qed
  qed
qed

text \<open>
  The rate limit: as long as the clock does not go back, no client is let through more often within any
  minute than the limit says, whatever others do meanwhile and although the table of clients is cleared when it grows.
\<close>

theorem rate_is_kept:
  assumes "sorted (map fst rs)"
  shows "length (in_minute t (accepted_at per_min c rs [])) \<le> nat per_min"
proof (cases rs)
  case Nil
  then show ?thesis by (simp add: accepted_at_def in_minute_def)
next
  case (Cons r rs')
  have "remembers c (fst r) [] []" by (simp add: remembers_def hits_of_def)
  moreover have "sorted (fst r # map fst rs)" using assms Cons by auto
  ultimately show ?thesis using accepted_within_rate [of c "fst r" "[]" "[]" rs per_min t] by (simp add: in_minute_def)
qed

theorem rate_is_kept_witness:
  "knock 2 [(0, ''a''), (1, ''a''), (2, ''b''), (30, ''a''), (60, ''a'')] [] = [True, True, True, False, True] \<and>
   length (in_minute 60 (accepted_at 2 ''a'' [(0, ''a''), (1, ''a''), (2, ''b''), (30, ''a''), (60, ''a'')] [])) \<le> nat 2"
proof -
  have "sorted (map fst [(0 :: pyfloat, ''a''), (1, ''a''), (2, ''b''), (30, ''a''), (60, ''a'')])" by simp
  from rate_is_kept [OF this] show ?thesis by (intro conjI) (code_simp, blast)
qed

end
