(* ===== verification/Serve_Fit.thy ===== *)
theory Serve_Fit
  imports Shell_Text
begin

text \<open>
  What of a model goes where when it is served, the arithmetic of \<^verbatim>\<open>gb_synapse.py\<close>: the size of its KV cache and of
  its recurrent state, how many layers or experts the cards hold, and the context that is left. What is read from the
  environment is a record (\<open>fit_conf\<close>); sizes are bytes or exact rational GiB.
\<close>

section \<open>Models\<close>

record model_entry =
  me_name :: string
  me_quant :: string
  me_arch :: string
  me_bytes :: int
  me_layers :: int
  me_moe :: bool
  me_experts :: int
  me_experts_used :: int
  me_ctx_length :: int
  me_kv_heads :: int
  me_head_dim :: int
  me_kv_layers :: int
  me_recurrent :: int
  me_recurrent_only :: bool
  me_d_conv :: int
  me_conv_width :: int
  me_state_elems :: int

text \<open>\<open>fc_reserve\<close> and \<open>fc_topology\<close>: the reserve the environment names, if it is a number, and whether
  \<^verbatim>\<open>gb_topology\<close> can be imported. \<open>fc_kv\<close> is the pinned KV type.\<close>

record fit_conf =
  fc_reserve :: "pyfloat option"
  fc_topology :: bool
  fc_margin :: pyfloat
  fc_floor :: int
  fc_kv :: "string option"

abbreviation GiB :: pyfloat where
  "GiB \<equiv> 1073741824"

definition weights_gb :: "model_entry \<Rightarrow> pyfloat" where
  "weights_gb e = of_int (me_bytes e) / GiB"

definition BITS_PER_PARAM :: "(string, pyfloat) pydict" where
  "BITS_PER_PARAM =
     [(''F32'', 32), (''F16'', 16), (''BF16'', 16), (''Q8_0'', 8.5), (''Q6_K'', 6.6), (''Q5_K_M'', 5.7), (''Q5_0'', 5.7),
      (''Q4_K_M'', 4.83), (''Q4_K_S'', 4.58), (''Q4_0'', 4.5), (''IQ4_XS'', 4.25), (''Q3_K_M'', 3.9), (''Q3_K_S'', 3.5),
      (''IQ3_XS'', 3.3), (''Q2_K'', 2.63), (''IQ2_XS'', 2.4)]"

definition ascii_upper :: "char \<Rightarrow> char" where
  "ascii_upper c = (let n = of_char c :: nat in if 97 \<le> n \<and> n \<le> 122 then char_of (n - 32) else c)"

definition approx_param_count_b :: "int \<Rightarrow> string \<Rightarrow> pyfloat" where
  "approx_param_count_b n_bytes quant =
     (let bits = (case dict_get BITS_PER_PARAM (map ascii_upper quant) of None \<Rightarrow> 4.83 | Some b \<Rightarrow> b)
      in of_int (n_bytes * 8) / bits / 1000000000)"

text \<open>\<open>n_layers\<close> is \<open>None\<close> when the caller does not give it. An \<open>or\<close> of integers takes the first that is not 0.\<close>

definition effective_kv_layers :: "model_entry \<Rightarrow> int option \<Rightarrow> int" where
  "effective_kv_layers e n_layers =
     (if me_recurrent_only e then 0
      else let fallback = (case n_layers of Some n \<Rightarrow> n | None \<Rightarrow> me_layers e)
           in if me_kv_layers e \<noteq> 0 then me_kv_layers e else fallback)"

definition bucket_bytes :: "pyfloat \<Rightarrow> int" where
  "bucket_bytes params_b =
     (if params_b \<ge> 100 then 3584 else if params_b \<ge> 60 then 2560 else if params_b \<ge> 25 then 1331
      else if params_b \<ge> 10 then 819 else if params_b \<ge> 5 then 512 else if params_b \<ge> 2 then 256 else 128) div 2"

definition estimate_kv_gb :: "int \<Rightarrow> int \<Rightarrow> string \<Rightarrow> int \<Rightarrow> int \<Rightarrow> int \<Rightarrow> pyfloat \<Rightarrow> pyfloat" where
  "estimate_kv_gb ctx n_bytes quant n_layers n_kv_heads head_dim elem =
     (if n_layers > 0 \<and> n_kv_heads > 0 \<and> head_dim > 0
      then of_int ctx * (of_int (2 * n_layers * n_kv_heads * head_dim) * elem) / GiB
      else of_int (ctx * bucket_bytes (approx_param_count_b n_bytes quant)) / GiB)"

definition estimate_ssm_state_gb :: "int \<Rightarrow> int \<Rightarrow> int \<Rightarrow> int \<Rightarrow> int \<Rightarrow> pyfloat" where
  "estimate_ssm_state_gb n_recurrent d_conv conv_width state_elems n_seq_max =
     (if n_recurrent \<le> 0 \<or> d_conv \<le> 0 then 0
      else let n_embd_r = (d_conv - 1) * conv_width; n_embd_s = state_elems
           in of_int (4 * n_recurrent * (n_embd_r + n_embd_s) * max 1 n_seq_max) / GiB)"

definition entry_ssm_gb :: "model_entry \<Rightarrow> int \<Rightarrow> pyfloat" where
  "entry_ssm_gb e n_seq_max =
     estimate_ssm_state_gb (me_recurrent e) (me_d_conv e) (me_conv_width e) (me_state_elems e) n_seq_max"

text \<open>The KV cache of an entry, as the callers ask for it.\<close>

definition entry_kv_gb :: "model_entry \<Rightarrow> int \<Rightarrow> pyfloat \<Rightarrow> pyfloat" where
  "entry_kv_gb e ctx elem =
     estimate_kv_gb ctx (me_bytes e) (me_quant e) (effective_kv_layers e None) (me_kv_heads e) (me_head_dim e) elem"

section \<open>Layers and experts\<close>

definition topology_reserve_gb :: "pyfloat \<Rightarrow> pyfloat" where
  "topology_reserve_gb mb = max 0.75 (0.08 * mb / 1024)"

definition compute_reserve_gb :: "fit_conf \<Rightarrow> pyfloat \<Rightarrow> pyfloat" where
  "compute_reserve_gb c mb =
     (case fc_reserve c of Some r \<Rightarrow> r | None \<Rightarrow> if fc_topology c then topology_reserve_gb mb else 1.5)"

text \<open>The workspace of all devices, each as large as the mean of the budget.\<close>

definition devices_reserve_gb :: "fit_conf \<Rightarrow> pyfloat \<Rightarrow> int \<Rightarrow> pyfloat" where
  "devices_reserve_gb c budget_gb n_devices =
     (let n_dev = max 1 n_devices in compute_reserve_gb c (budget_gb * 1024 / of_int n_dev) * of_int n_dev)"

text \<open>The gguf_tensors of the file with their bytes; \<open>None\<close> when it cannot be read.\<close>

type_synonym gguf_tensors = "(string \<times> int) list option"

definition moe_expert_gb_per_layer :: "gguf_tensors \<Rightarrow> pyfloat" where
  "moe_expert_gb_per_layer gguf_tensors =
     (case gguf_tensors of None \<Rightarrow> 0
      | Some tm \<Rightarrow>
          let expert_bytes = sum_list (map snd (filter (\<lambda>(name, n). contains ''exps'' name) tm));
              layers = map (\<lambda>(name, n). py_split ''.'' name ! 1)
                (filter (\<lambda>(name, n). starts_with ''blk.'' name \<and> contains ''exps'' name) tm)
          in if expert_bytes = 0 then 0
             else of_int expert_bytes / GiB / of_int (max 1 (int (length (remdups layers)))))"

definition fit_cpu_moe_layers :: "fit_conf \<Rightarrow> model_entry \<Rightarrow> gguf_tensors \<Rightarrow> pyfloat \<Rightarrow> pyfloat \<Rightarrow> int \<Rightarrow> int" where
  "fit_cpu_moe_layers c e gguf_tensors budget_gb kv_gb n_devices =
     (let per_layer = moe_expert_gb_per_layer gguf_tensors; n_layers = me_layers e in
      if per_layer \<le> 0 \<or> n_layers \<le> 0 then 0
      else let room = budget_gb - kv_gb - devices_reserve_gb c budget_gb n_devices;
               deficit = weights_gb e - room * fc_margin c
           in if deficit \<le> 0 then 0 else max 0 (min n_layers \<lceil>deficit / per_layer\<rceil>))"

text \<open>\<open>None\<close> is the \<open>ZeroDivisionError\<close> of an entry without bytes.\<close>

definition fit_gpu_layers :: "fit_conf \<Rightarrow> model_entry \<Rightarrow> pyfloat \<Rightarrow> pyfloat \<Rightarrow> int \<Rightarrow> pyfloat \<Rightarrow> int option" where
  "fit_gpu_layers c e budget_gb kv_gb n_devices t2_gb =
     (let n_layers = me_layers e in
      if n_layers \<le> 0 then Some 999
      else let per_layer_gb = weights_gb e / of_int n_layers;
               usable = budget_gb - kv_gb - devices_reserve_gb c budget_gb n_devices + t2_gb
           in if usable \<le> 0 then Some 0
              else if per_layer_gb = 0 then None
              else Some (max 0 (min n_layers (py_int (usable * fc_margin c / per_layer_gb)))))"

definition pick_kv_type :: "fit_conf \<Rightarrow> int \<Rightarrow> model_entry \<Rightarrow> pyfloat \<Rightarrow> string" where
  "pick_kv_type c ctx e budget_gb =
     (case fc_kv c of
        Some pin \<Rightarrow> pin
      | None \<Rightarrow> if weights_gb e + entry_kv_gb e ctx 2 \<le> budget_gb then ''f16'' else ''q8_0'')"

section \<open>The context\<close>

definition down_256 :: "int \<Rightarrow> int" where
  "down_256 n = n div 256 * 256"

definition clamp_ctx_to_budget :: "int \<Rightarrow> model_entry \<Rightarrow> pyfloat \<Rightarrow> int" where
  "clamp_ctx_to_budget requested e budget_gb =
     (let kv_budget = max (budget_gb - weights_gb e - entry_ssm_gb e 1) 0.25;
          kv_gb = entry_kv_gb e requested 1
      in if kv_gb \<le> kv_budget then requested
         else max 2048 (down_256 (py_int (of_int requested * kv_budget / kv_gb))))"

text \<open>The context that the layers on the card leave room for.\<close>

definition ctx_beside :: "pyfloat \<Rightarrow> pyfloat \<Rightarrow> pyfloat \<Rightarrow> pyfloat \<Rightarrow> int \<Rightarrow> int" where
  "ctx_beside room t2_gb per_layer_gb bytes_per_tok ngl =
     (let kv_budget = max (room - per_layer_gb * of_int ngl) 0 + t2_gb
      in max 0 (down_256 (py_int (kv_budget * GiB / bytes_per_tok))))"

text \<open>The rescue of the floor: layers are traded for context, one at a time.\<close>

function rescue :: "int \<Rightarrow> (int \<Rightarrow> int) \<Rightarrow> int \<Rightarrow> int \<Rightarrow> int \<times> int" where
  "rescue fl solve ctx ngl =
     (if ctx < fl \<and> ngl > 0 then rescue fl solve (solve (ngl - 1)) (ngl - 1) else (ctx, ngl))"
  by pat_completeness auto

termination rescue
  by (relation "measure (\<lambda>(_, _, _, ngl). nat ngl)") auto

declare rescue.simps [simp del]

text \<open>\<open>beside\<close> is the context beside a number of layers.\<close>

definition trade_for_floor :: "int \<Rightarrow> int \<Rightarrow> (int \<Rightarrow> int) \<Rightarrow> int \<Rightarrow> int \<times> int" where
  "trade_for_floor fl requested beside ngl =
     (let max_ctx = beside ngl; ctx = (if max_ctx > 0 then max 2048 (min requested max_ctx) else 2048) in
      if 0 < ctx \<and> ctx < fl \<and> ngl > 0
      then case rescue fl (\<lambda>n. min requested (beside n)) ctx ngl of (ctx, ngl) \<Rightarrow> (max 2048 ctx, ngl)
      else (ctx, ngl))"

definition kv_bytes_per_tok :: "model_entry \<Rightarrow> pyfloat \<Rightarrow> pyfloat" where
  "kv_bytes_per_tok e elem = of_int (2 * effective_kv_layers e (Some (me_layers e)) * me_kv_heads e * me_head_dim e) * elem"

definition solve_ctx_and_layers ::
  "fit_conf \<Rightarrow> model_entry \<Rightarrow> pyfloat \<Rightarrow> int \<Rightarrow> int \<Rightarrow> pyfloat \<Rightarrow> pyfloat \<Rightarrow> (int \<times> int) option" where
  "solve_ctx_and_layers c e vram_gb requested n_devices t2_gb elem =
     (let n_layers = me_layers e in
      if n_layers \<le> 0 \<or> requested \<le> 0 then Some (requested, 999)
      else let per_layer_gb = weights_gb e / of_int n_layers;
               bytes_per_tok = kv_bytes_per_tok e elem;
               ssm_gb = entry_ssm_gb e 1;
               layers = fit_gpu_layers c e vram_gb ssm_gb n_devices t2_gb in
        if bytes_per_tok \<le> 0 then
          (if me_recurrent_only e then map_option (Pair requested) layers
           else map_option (Pair (clamp_ctx_to_budget requested e (vram_gb + t2_gb))) layers)
        else case layers of None \<Rightarrow> None
        | Some ngl \<Rightarrow>
            let room = vram_gb - devices_reserve_gb c vram_gb n_devices - ssm_gb
            in Some (trade_for_floor (fc_floor c) requested (ctx_beside room t2_gb per_layer_gb bytes_per_tok) ngl))"

section \<open>Layers and experts fit\<close>

lemma py_int_floor: "0 \<le> x \<Longrightarrow> of_int (py_int x) \<le> x"
  by (simp add: py_int_def)

lemma down_256: "down_256 n \<le> n" "n < down_256 n + 256" "down_256 n mod 256 = 0"
  unfolding down_256_def by presburger+

lemma fit_gpu_layers_range:
  assumes "fit_gpu_layers c e budget_gb kv_gb n_devices t2_gb = Some n" "0 < me_layers e"
  shows "0 \<le> n \<and> n \<le> me_layers e"
  using assms by (auto simp: fit_gpu_layers_def Let_def split: if_splits)

lemma fit_gpu_layers_holds:
  assumes "fit_gpu_layers c e budget_gb kv_gb n_devices t2_gb = Some n" and "0 < me_layers e" "0 \<le> me_bytes e"
    and "0 \<le> fc_margin c" "fc_margin c \<le> 1"
  shows "weights_gb e / of_int (me_layers e) * of_int n \<le> max 0 (budget_gb - kv_gb - devices_reserve_gb c budget_gb n_devices + t2_gb)"
proof -
  define u w where "u = budget_gb - kv_gb - devices_reserve_gb c budget_gb n_devices + t2_gb"
    and "w = weights_gb e / of_int (me_layers e)"
  have w: "0 \<le> w" using assms(2,3) by (simp add: w_def weights_gb_def)
  show ?thesis
  proof (cases "u \<le> 0")
    case True
    with assms(1,2) have "n = 0" by (simp add: fit_gpu_layers_def u_def Let_def)
    then show ?thesis by simp
  next
    case False
    with assms(1,2) w have "0 < w" and n: "n = max 0 (min (me_layers e) (py_int (u * fc_margin c / w)))"
      by (auto simp: fit_gpu_layers_def Let_def u_def [symmetric] w_def [symmetric] less_le split: if_splits)
    have "0 \<le> u * fc_margin c / w" using False \<open>0 < w\<close> assms(4) by simp
    then have "of_int (py_int (u * fc_margin c / w)) \<le> u * fc_margin c / w" by (rule py_int_floor)
    moreover have "of_int n \<le> max 0 (of_int (py_int (u * fc_margin c / w)) :: pyfloat)" unfolding n by (simp add: max_def min_def)
    ultimately have "of_int n \<le> u * fc_margin c / w" using \<open>0 \<le> u * fc_margin c / w\<close> by linarith
    then have "w * of_int n \<le> u * fc_margin c" using \<open>0 < w\<close> by (simp add: pos_le_divide_eq mult.commute)
    also have "\<dots> \<le> u" using False assms(5) by (simp add: mult_left_le)
    finally show ?thesis by (simp add: u_def w_def)
  qed
qed

text \<open>
  The experts that leave the card are enough and no more: with \<open>n\<close> layers of experts in host memory the rest of the
  weights fits the margin of what cache and workspace leave, unless every layer has moved, and one layer fewer would not do.
\<close>

theorem experts_moved_suffice:
  fixes c e gguf_tensors budget_gb kv_gb n_devices
  assumes "0 < moe_expert_gb_per_layer gguf_tensors" "0 < me_layers e"
  defines "n \<equiv> fit_cpu_moe_layers c e gguf_tensors budget_gb kv_gb n_devices"
    and "room \<equiv> (budget_gb - kv_gb - devices_reserve_gb c budget_gb n_devices) * fc_margin c"
    and "left_gb \<equiv> \<lambda>k. weights_gb e - of_int k * moe_expert_gb_per_layer gguf_tensors"
  shows "0 \<le> n \<and> n \<le> me_layers e \<and> (left_gb n \<le> room \<or> n = me_layers e) \<and> (n > 0 \<longrightarrow> left_gb (n - 1) > room)"
proof -
  define p d where "p = moe_expert_gb_per_layer gguf_tensors" and "d = weights_gb e - room"
  have p: "0 < p" using assms(1) by (simp add: p_def)
  have n: "n = (if d \<le> 0 then 0 else max 0 (min (me_layers e) \<lceil>d / p\<rceil>))"
    unfolding n_def fit_cpu_moe_layers_def Let_def d_def room_def p_def using assms(1,2) by (simp add: not_le)
  show ?thesis
  proof (cases "d \<le> 0")
    case True
    then show ?thesis using assms(2) by (simp add: n left_gb_def d_def)
  next
    case False
    then have c: "0 < \<lceil>d / p\<rceil>" using p by simp
    then have n': "n = min (me_layers e) \<lceil>d / p\<rceil>" using False assms(2) by (simp add: n)
    have "d \<le> of_int \<lceil>d / p\<rceil> * p" using p by (simp add: pos_divide_le_eq [symmetric])
    then have "left_gb n \<le> room" if "n = \<lceil>d / p\<rceil>" using that by (simp add: left_gb_def d_def p_def)
    moreover have "left_gb (n - 1) > room"
    proof -
      have "of_int (n - 1) < d / p" using n' by linarith
      then have "of_int (n - 1) * p < d" using p by (simp add: pos_less_divide_eq)
      then show ?thesis by (simp add: left_gb_def d_def p_def)
    qed
    ultimately show ?thesis using n' c assms(2) by (auto simp: min_def)
  qed
qed

definition demo_fit_conf :: fit_conf where
  "demo_fit_conf = \<lparr>fc_reserve = None, fc_topology = True, fc_margin = 0.85, fc_floor = 16384, fc_kv = None\<rparr>"

definition demo_model :: model_entry where
  "demo_model = \<lparr>me_name = ''m'', me_quant = ''Q4_K_M'', me_arch = ''qwen35'', me_bytes = 15129403392, me_layers = 65,
     me_moe = False, me_experts = 0, me_experts_used = 0, me_ctx_length = 262144, me_kv_heads = 4, me_head_dim = 256,
     me_kv_layers = 16, me_recurrent = 0, me_recurrent_only = False, me_d_conv = 0, me_conv_width = 0, me_state_elems = 0\<rparr>"

definition demo_tensors :: gguf_tensors where
  "demo_tensors = Some [(''blk.0.ffn_up_exps'', 1073741824), (''blk.1.ffn_up_exps'', 1073741824), (''blk.1.attn_q'', 4096)]"

text \<open>Two layers of experts of one GiB each, on a model of 14 GiB, a card of 14 GiB and no cache.\<close>

theorem experts_moved_suffice_witness:
  "\<exists>n. n = fit_cpu_moe_layers demo_fit_conf demo_model demo_tensors 14 0 1 \<and> n = 4 \<and>
     weights_gb demo_model - 4 * 1 \<le> (14 - devices_reserve_gb demo_fit_conf 14 1) * fc_margin demo_fit_conf"
proof -
  have p: "moe_expert_gb_per_layer demo_tensors = 1" by code_simp
  have n: "fit_cpu_moe_layers demo_fit_conf demo_model demo_tensors 14 0 1 = 4" by code_simp
  have "0 < moe_expert_gb_per_layer demo_tensors" "0 < me_layers demo_model" by (simp_all add: p demo_model_def)
  from experts_moved_suffice [OF this, of demo_fit_conf 14 0 1] show ?thesis unfolding n p by (auto simp: demo_model_def)
qed

section \<open>The context\<close>

lemma rescue_trades:
  assumes "rescue fl solve ctx ngl = (ctx', ngl')" "0 \<le> ngl"
  shows "0 \<le> ngl' \<and> ngl' \<le> ngl \<and> (fl \<le> ctx' \<or> ngl' = 0) \<and> (ngl' = ngl \<longrightarrow> ctx' = ctx) \<and>
    (ngl' < ngl \<longrightarrow> ctx' = solve ngl' \<and> ctx < fl \<and> (\<forall>j. ngl' < j \<longrightarrow> j < ngl \<longrightarrow> solve j < fl))"
  using assms
proof (induction fl solve ctx ngl rule: rescue.induct)
  case (1 fl solve ctx ngl)
  show ?case
  proof (cases "ctx < fl \<and> ngl > 0")
    case True
    with 1 (2) have r: "rescue fl solve (solve (ngl - 1)) (ngl - 1) = (ctx', ngl')" by (simp add: rescue.simps [of _ _ ctx])
    with 1 (1) True have *: "0 \<le> ngl' \<and> ngl' \<le> ngl - 1 \<and> (fl \<le> ctx' \<or> ngl' = 0) \<and> (ngl' = ngl - 1 \<longrightarrow> ctx' = solve (ngl - 1)) \<and>
      (ngl' < ngl - 1 \<longrightarrow> ctx' = solve ngl' \<and> solve (ngl - 1) < fl \<and> (\<forall>j. ngl' < j \<longrightarrow> j < ngl - 1 \<longrightarrow> solve j < fl))"
      by simp
    have "solve j < fl" if "ngl' < j" "j < ngl" for j
      using * that by (cases "j = ngl - 1") auto
    with * True show ?thesis by (cases "ngl' = ngl - 1") auto
  next
    case False
    with 1 show ?thesis by (auto simp: rescue.simps)
  qed
qed

lemma trade_for_floor_spec:
  assumes "trade_for_floor fl requested beside fit = (ctx, ngl)" "0 \<le> fit"
  shows "0 \<le> ngl \<and> ngl \<le> fit \<and> (2048 < ctx \<longrightarrow> ctx \<le> min requested (beside ngl)) \<and>
    (\<forall>j. ngl < j \<longrightarrow> j < fit \<longrightarrow> min requested (beside j) < fl) \<and> (requested < fl \<longrightarrow> 2048 < fl \<longrightarrow> ngl = 0)"
proof -
  define ctx0 where "ctx0 = (if beside fit > 0 then max 2048 (min requested (beside fit)) else 2048)"
  let ?f = "\<lambda>n. min requested (beside n)"
  have c0: "ctx0 \<le> ?f fit" if "2048 < ctx0" using that by (auto simp: ctx0_def split: if_splits)
  have lt: "0 < ctx0" "requested < fl \<Longrightarrow> 2048 < fl \<Longrightarrow> ctx0 < fl" by (auto simp: ctx0_def)
  have t: "trade_for_floor fl requested beside fit =
    (if 0 < ctx0 \<and> ctx0 < fl \<and> fit > 0 then case rescue fl ?f ctx0 fit of (ctx, ngl) \<Rightarrow> (max 2048 ctx, ngl) else (ctx0, fit))"
    unfolding trade_for_floor_def Let_def ctx0_def ..
  show ?thesis
  proof (cases "0 < ctx0 \<and> ctx0 < fl \<and> fit > 0")
    case True
    obtain c1 n1 where r: "rescue fl ?f ctx0 fit = (c1, n1)" by fastforce
    with t True assms(1) have c: "ctx = max 2048 c1" "ngl = n1" by simp_all
    have "n1 = 0" if "requested < fl" "2048 < fl"
    proof (rule ccontr)
      assume "n1 \<noteq> 0"
      with rescue_trades [OF r assms(2)] have "fl \<le> c1" "n1 = fit \<longrightarrow> c1 = ctx0" "n1 < fit \<longrightarrow> c1 = ?f n1" "n1 \<le> fit" by simp_all
      with lt(2) [OF that] that show False by (cases "n1 = fit") auto
    qed
    with c rescue_trades [OF r assms(2)] c0 show ?thesis by (cases "n1 = fit") auto
  next
    case False
    with t assms(1) have "ctx = ctx0" "ngl = fit" by simp_all
    with False lt assms(2) c0 show ?thesis by auto
  qed
qed

lemma ctx_beside_fits:
  assumes "0 < b"
  shows "of_int (ctx_beside room t2 w b n) * b / GiB \<le> max 0 (max (room - w * of_int n) 0 + t2)" "0 \<le> ctx_beside room t2 w b n"
proof -
  define k where "k = max (room - w * of_int n) 0 + t2"
  have "of_int (down_256 (py_int (k * GiB / b))) * b \<le> max 0 k * GiB"
  proof (cases "0 \<le> k")
    case True
    then have "of_int (py_int (k * GiB / b)) \<le> k * GiB / b" using assms by (intro py_int_floor) simp
    moreover have "of_int (down_256 (py_int (k * GiB / b))) \<le> (of_int (py_int (k * GiB / b)) :: pyfloat)"
      using down_256(1) by (simp only: of_int_le_iff)
    ultimately have "of_int (down_256 (py_int (k * GiB / b))) \<le> k * GiB / b" by linarith
    then show ?thesis using assms True by (simp add: pos_le_divide_eq)
  next
    case False
    then have "k * GiB / b \<le> 0" using assms by (simp add: divide_nonpos_pos)
    then have "py_int (k * GiB / b) \<le> 0" by (simp add: py_int_def)
    with down_256(1) [of "py_int (k * GiB / b)"] have "down_256 (py_int (k * GiB / b)) \<le> 0" by linarith
    then have "of_int (down_256 (py_int (k * GiB / b))) * b \<le> 0" using assms by (simp add: mult_nonpos_nonneg)
    with False show ?thesis by simp
  qed
  then show "of_int (ctx_beside room t2 w b n) * b / GiB \<le> max 0 (max (room - w * of_int n) 0 + t2)"
    unfolding ctx_beside_def Let_def k_def [symmetric]
    by (cases "0 \<le> down_256 (py_int (k * GiB / b))") (simp_all add: max_def [of 0 "down_256 _"])
  show "0 \<le> ctx_beside room t2 w b n" by (simp add: ctx_beside_def Let_def)
qed

lemma solved_by_trade:
  assumes "solve_ctx_and_layers c e vram_gb requested n_devices t2_gb elem = Some (ctx, ngl)"
    and "0 < me_layers e" "0 < requested" "0 < kv_bytes_per_tok e elem"
  shows "\<exists>fit. fit_gpu_layers c e vram_gb (entry_ssm_gb e 1) n_devices t2_gb = Some fit \<and>
    trade_for_floor (fc_floor c) requested
      (ctx_beside (vram_gb - devices_reserve_gb c vram_gb n_devices - entry_ssm_gb e 1) t2_gb
        (weights_gb e / of_int (me_layers e)) (kv_bytes_per_tok e elem)) fit = (ctx, ngl)"
  using assms
  by (cases "fit_gpu_layers c e vram_gb (entry_ssm_gb e 1) n_devices t2_gb") (auto simp: solve_ctx_and_layers_def Let_def split: if_splits)



text \<open>
  Who asks for less than the floor loses every layer: the rescue tries to reach the floor, which the request itself
  forbids. A card that holds two of four layers then holds none.
\<close>

lemma small_request_loses_all_layers:
  assumes "solve_ctx_and_layers c e vram_gb requested n_devices t2_gb elem = Some (ctx, ngl)"
    and "0 < me_layers e" "0 < requested" "0 < kv_bytes_per_tok e elem" "requested < fc_floor c" "2048 < fc_floor c"
  shows "ngl = 0"
  using solved_by_trade [OF assms(1-4)] assms(2,5,6) fit_gpu_layers_range trade_for_floor_spec by blast

lemma small_request_example:
  "(let e = demo_model\<lparr>me_layers := 4\<rparr> in
     map_option snd (solve_ctx_and_layers demo_fit_conf e 10 16384 1 0 1) = Some 2 \<and>
     solve_ctx_and_layers demo_fit_conf e 10 8192 1 0 1 = Some (8192, 0))"
  unfolding Let_def by (rule conjI) code_simp+

text \<open>The DDR pool is counted twice, once for the layers and once for the cache.\<close>

lemma pool_is_counted_twice:
  "\<exists>ctx ngl. solve_ctx_and_layers demo_fit_conf demo_model 10 262144 1 8 1 = Some (ctx, ngl) \<and>
     weights_gb demo_model / 65 * of_int ngl + of_int ctx * kv_bytes_per_tok demo_model 1 / GiB > 10 + 8"
proof -
  have s: "solve_ctx_and_layers demo_fit_conf demo_model 10 262144 1 8 1 = Some (262144, 65)" by code_simp
  have "weights_gb demo_model / 65 * of_int 65 + of_int 262144 * kv_bytes_per_tok demo_model 1 / GiB > 10 + 8" by code_simp
  with s show ?thesis by blast
qed

end
