(* ===== verification/Fit_Report.thy ===== *)
theory Fit_Report
  imports Serve_Fit Placement Py_Text "HOL-Library.Product_Lexorder"
begin

text \<open>
  The rest of the fit arithmetic of \<^verbatim>\<open>gb_synapse.py\<close>: the shares of the devices (\<open>--tensor-split\<close>), the quant to
  download, the measured decode rates with their keys and their rolling window, the estimate where nothing was
  measured, and \<open>recommend\<close>, which ranks the models of the manifest. What NVML, the topology and the environment
  answer are arguments; the telemetry events are left out.
\<close>

section \<open>The shares of the devices\<close>

text \<open>A feeder that is online; \<open>fe_topology_gb\<close> is the VRAM its topology names, \<open>fe_link\<close> its measured link.\<close>

record split_feeder =
  fe_free :: int
  fe_total :: int
  fe_topology_gb :: "pyfloat option"
  fe_link :: pyfloat

definition feeder_vram_mb :: "split_feeder \<Rightarrow> int" where
  "feeder_vram_mb f =
     (if fe_free f > 0 then fe_free f
      else case fe_topology_gb f of None \<Rightarrow> 0 | Some gb \<Rightarrow> if gb \<noteq> 0 then py_int gb * 1024 else 0)"

definition weight_room :: "fit_conf \<Rightarrow> int \<Rightarrow> int \<Rightarrow> int" where
  "weight_room c free_mb of_mb = max (py_int (of_int free_mb - compute_reserve_gb c (of_int of_mb) * 1024)) 1"

definition free_rooms :: "fit_conf \<Rightarrow> int \<Rightarrow> split_feeder list \<Rightarrow> int list" where
  "free_rooms c host_free_mb feeders =
     weight_room c host_free_mb host_free_mb #
     map (\<lambda>f. weight_room c (feeder_vram_mb f) (if fe_total f \<noteq> 0 then fe_total f else feeder_vram_mb f)) feeders"

definition round_share :: "pyfloat \<Rightarrow> int" where
  "round_share s = max (py_round s) 1"

definition shares_v2 :: "int list \<Rightarrow> pyfloat \<Rightarrow> pyfloat \<Rightarrow> int list" where
  "shares_v2 free kv_total_gb host_bias =
     (let total_free = (if sum_list free = 0 then 1 else sum_list free); kv_mb = max 0 kv_total_gb * 1024;
          shares = map (\<lambda>f. max (of_int f - kv_mb * (of_int f / of_int total_free)) 1) free
      in map round_share (shares[0 := shares ! 0 * host_bias]))"

definition link_factor :: "pyfloat \<Rightarrow> pyfloat \<Rightarrow> pyfloat" where
  "link_factor ref_mbps link = (if ref_mbps > 0 \<and> link > 0 then min 1 (link / ref_mbps) else 1)"

text \<open>\<open>host_bias\<close> is 1 when the environment holds no number; \<open>ref_mbps\<close> is 0 when the host's link is unknown.\<close>

definition compute_tensor_split ::
  "fit_conf \<Rightarrow> int \<Rightarrow> split_feeder list \<Rightarrow> pyfloat \<Rightarrow> bool \<Rightarrow> pyfloat \<Rightarrow> bool \<Rightarrow> pyfloat \<Rightarrow> int list" where
  "compute_tensor_split c host_free_mb feeders kv_total_gb v2 host_bias v3 ref_mbps =
     (let free = free_rooms c host_free_mb feeders;
          shares = (if \<not> v2 \<and> host_bias = 1 then free else shares_v2 free kv_total_gb host_bias)
      in if v3 \<and> feeders \<noteq> []
         then map2 (\<lambda>s factor. round_share (of_int s * factor)) shares (1 # map (link_factor ref_mbps \<circ> fe_link) feeders)
         else shares)"

section \<open>Quants\<close>

text \<open>A file of the repository, its size \<open>None\<close> when it is not known.\<close>

type_synonym repo_file = "string \<times> int option"

datatype quant_pick = NoFile | Fits repo_file | Spills repo_file pyfloat

definition size_of :: "repo_file \<Rightarrow> int" where
  "size_of f = (case snd f of None \<Rightarrow> 0 | Some n \<Rightarrow> n)"

definition select_quant_by_fit :: "repo_file list \<Rightarrow> pyfloat \<Rightarrow> quant_pick" where
  "select_quant_by_fit files budget_gb =
     (let sized = filter (\<lambda>f. size_of f > 0) files;
          fitting = filter (\<lambda>f. of_int (size_of f) / GiB \<le> budget_gb) sized
      in case min_by (\<lambda>f. - size_of f) fitting of
           Some best \<Rightarrow> Fits best
         | None \<Rightarrow> (case min_by size_of sized of
               None \<Rightarrow> NoFile
             | Some best \<Rightarrow> Spills best (py_round_n 2 (of_int (size_of best) / GiB - budget_gb))))"

text \<open>\<open>None\<close> is NVML missing. \<open>measured\<close> are the keys of the KV measurements with the MiB they hold.\<close>

definition zero_spill_weight_budget_gb ::
  "int option \<Rightarrow> (string \<times> pyfloat) list \<Rightarrow> int \<Rightarrow> pyfloat \<Rightarrow> pyfloat \<Rightarrow> pyfloat" where
  "zero_spill_weight_budget_gb free measured ctx kv_gb activation_gb =
     (case free of None \<Rightarrow> 0
      | Some free_mb \<Rightarrow>
          let kv = (if kv_gb \<le> 0 \<and> ctx \<noteq> 0
                then foldl (\<lambda>m (k, mb). if contains (''::'' @ show_int ctx @ ''::'') k then max m (mb / 1024) else m) 0 measured
                else kv_gb);
              act = (if activation_gb \<le> 0 then of_int free_mb / 1024 * 0.03 else activation_gb)
          in max 0 (of_int free_mb / 1024 - kv - act))"

definition SPEC_TYPES_KNOWN :: "string list" where
  "SPEC_TYPES_KNOWN =
     [''none'', ''draft-simple'', ''draft-eagle3'', ''draft-mtp'', ''draft-dflash'', ''ngram-simple'', ''ngram-map-k'',
      ''ngram-map-k4v'', ''ngram-mod'', ''ngram-cache'']"

definition spec_types :: "string list \<Rightarrow> string \<Rightarrow> string list" where
  "spec_types base extra =
     foldl (\<lambda>out t. if t = [] \<or> t \<notin> set SPEC_TYPES_KNOWN \<or> t \<in> set out then out else out @ [t]) []
       (base @ map strip (py_split '','' extra))"

fun comma_join :: "string \<Rightarrow> string list \<Rightarrow> string" where
  "comma_join sep [] = []"
| "comma_join sep [t] = t"
| "comma_join sep (t # u # ts) = t @ sep @ comma_join sep (u # ts)"

definition spec_type_list :: "string list \<Rightarrow> string \<Rightarrow> string" where
  "spec_type_list base extra = comma_join '','' (spec_types base extra)"

section \<open>Measured decode rates\<close>

text \<open>Model, then configuration, then the samples, the newest last.\<close>

type_synonym samples = "(string, (string, pyfloat list) pydict) pydict"

text \<open>The file: unreadable, or a list of samples (the old format) or a dictionary for each model, or something else.\<close>

datatype rate_entry = OldList "pyfloat list" | Keyed "(string, pyfloat list) pydict" | OtherJson

definition TOK_S_LEGACY_KEY :: string where
  "TOK_S_LEGACY_KEY = ''unknown-quant::0::''"

definition load_tok_s_samples :: "(string \<times> rate_entry) list option \<Rightarrow> samples" where
  "load_tok_s_samples raw =
     (case raw of None \<Rightarrow> []
      | Some items \<Rightarrow> foldl (\<lambda>out (model, v). case v of
            OldList l \<Rightarrow> dict_set model [(TOK_S_LEGACY_KEY, l)] out
          | Keyed d \<Rightarrow> dict_set model d out
          | OtherJson \<Rightarrow> out) [] items)"

definition or_unknown :: "string \<Rightarrow> string" where
  "or_unknown quant = (if quant = [] then ''unknown-quant'' else quant)"

definition tok_s_key :: "string \<Rightarrow> int \<Rightarrow> string \<Rightarrow> string" where
  "tok_s_key quant ctx kv_type = or_unknown quant @ ''::'' @ show_int ctx @ ''::'' @ kv_type"

text \<open>The configuration a model was last served with, for what the caller does not say; \<open>bound\<close> is \<open>None\<close> when it
  cannot be told.\<close>

definition or_served :: "'a option \<Rightarrow> 'a \<Rightarrow> 'a" where
  "or_served given served = (case given of Some x \<Rightarrow> x | None \<Rightarrow> served)"

definition tok_s_sanity_ceiling :: "model_entry option \<Rightarrow> pyfloat \<Rightarrow> pyfloat option" where
  "tok_s_sanity_ceiling entry bw_gb_s =
     (case entry of None \<Rightarrow> None
      | Some e \<Rightarrow> if me_bytes e \<le> 0 \<or> me_layers e \<le> 0 \<or> bw_gb_s \<le> 0 then None
          else Some (bw_gb_s * 1000000000 / (of_int (me_bytes e) / of_int (me_layers e))))"

definition MAX_SAMPLES :: nat where
  "MAX_SAMPLES = 20"

definition newest :: "nat \<Rightarrow> 'a list \<Rightarrow> 'a list" where
  "newest n xs = drop (length xs - n) xs"

definition record_measured_tok_s ::
  "string \<Rightarrow> pyfloat \<Rightarrow> string option \<times> int option \<times> string option \<Rightarrow> (string \<times> int \<times> string) option \<Rightarrow>
     pyfloat option \<Rightarrow> samples \<Rightarrow> samples" where
  "record_measured_tok_s model tok_s given served bound samples =
     (case given of (quant, ctx, kv_type) \<Rightarrow>
      if tok_s \<le> 0 then samples
      else case (if quant = None \<or> ctx = None \<or> kv_type = None then served else Some ([], 0, [])) of
        None \<Rightarrow> samples
      | Some (squant, sctx, skv) \<Rightarrow>
          let key = tok_s_key (or_served quant squant) (or_served ctx sctx) (or_served kv_type skv);
              per_model = (case dict_get samples model of None \<Rightarrow> [] | Some d \<Rightarrow> d);
              history = (case dict_get per_model key of None \<Rightarrow> [] | Some h \<Rightarrow> h) @ [py_round_n 1 tok_s]
          in if (case bound of None \<Rightarrow> False | Some x \<Rightarrow> tok_s > x) then samples
             else dict_set model (dict_set key (newest MAX_SAMPLES history) per_model) samples)"

text \<open>What is before and after the first separator.\<close>

fun cut :: "string \<Rightarrow> string \<Rightarrow> (string \<times> string) option" where
  "cut sep [] = None"
| "cut sep (c # s) =
     (if starts_with sep (c # s) then Some ([], drop (length sep) (c # s))
      else map_option (\<lambda>(a, b). (c # a, b)) (cut sep s))"

text \<open>\<open>(key.split("::", 2) + ["", "", ""])[:3]\<close>.\<close>

definition key_parts :: "string \<Rightarrow> string \<times> string \<times> string" where
  "key_parts key =
     (case cut ''::'' key of
        None \<Rightarrow> (key, [], [])
      | Some (quant, rest) \<Rightarrow> (case cut ''::'' rest of None \<Rightarrow> (quant, rest, []) | Some (ctx, kv) \<Rightarrow> (quant, ctx, kv)))"

definition key_matches :: "string option \<Rightarrow> int option \<Rightarrow> string option \<Rightarrow> string \<Rightarrow> bool" where
  "key_matches quant ctx kv_type key =
     (case key_parts key of (k_quant, k_ctx, k_kv) \<Rightarrow>
        (quant = None \<or> k_quant = or_unknown (the quant)) \<and> (ctx = None \<or> k_ctx = show_int (the ctx)) \<and>
        (kv_type = None \<or> k_kv = the kv_type))"

definition measured_tok_s :: "samples \<Rightarrow> string \<Rightarrow> string option \<Rightarrow> int option \<Rightarrow> string option \<Rightarrow> pyfloat option" where
  "measured_tok_s samples model quant ctx kv_type =
     (case dict_get samples model of
        None \<Rightarrow> None
      | Some per_model \<Rightarrow>
          let history = concat (dict_values
                (if quant = None \<and> ctx = None then per_model
                 else filter (\<lambda>(key, h). key_matches quant ctx kv_type key) per_model))
          in if history = [] then None else Some (py_round_n 1 (sum_list history / of_nat (length history))))"

section \<open>The report\<close>

text \<open>Bandwidth of the card and of the bus; 0 is unknown.\<close>

definition link_bandwidths :: "pyfloat \<Rightarrow> pyfloat option \<Rightarrow> int \<Rightarrow> pyfloat \<times> pyfloat" where
  "link_bandwidths vram_bw per_lane lanes =
     (vram_bw, (case per_lane of None \<Rightarrow> 0 | Some x \<Rightarrow> x) * of_int lanes * 0.78)"

definition estimate_tok_s :: "pyfloat \<times> pyfloat \<Rightarrow> pyfloat \<Rightarrow> pyfloat \<Rightarrow> pyfloat" where
  "estimate_tok_s bw active_gb budget_gb =
     (case bw of (vram_bw, pcie_bw) \<Rightarrow>
      if active_gb \<le> 0 then 0 else if vram_bw \<le> 0 then 0
      else let overflow = min 1 ((active_gb - budget_gb) / active_gb);
               eff_bw = (if active_gb \<le> budget_gb then vram_bw else vram_bw * (1 - overflow) + pcie_bw * overflow)
           in max 0.5 (py_round_n 1 (eff_bw / active_gb)))"

datatype fit_note = NoteMoE | NoteSplit | NotePartial nat int | NoteMeasured | NoteNoBandwidth

record fit_report =
  fr_name :: string
  fr_quant :: string
  fr_weights_gb :: pyfloat
  fr_kv_gb :: pyfloat
  fr_total_gb :: pyfloat
  fr_fits :: bool
  fr_overflow_gb :: pyfloat
  fr_est_tok_s :: pyfloat
  fr_ctx :: int
  fr_notes :: "fit_note list"
  fr_measured :: bool
  fr_ssm_gb :: pyfloat

text \<open>What the doctor reports of the node and of the feeders that are online.\<close>

record node_report =
  nr_aggregate_mb :: int
  nr_host_total_mb :: int
  nr_device_free_mb :: "int list"

definition fit_of :: "node_report \<Rightarrow> samples \<Rightarrow> pyfloat \<times> pyfloat \<Rightarrow> int \<Rightarrow> model_entry \<Rightarrow> fit_report" where
  "fit_of d samples bw ctx e =
     (let budget_gb = of_int (nr_aggregate_mb d) / 1024; host_gb = of_int (nr_host_total_mb d) / 1024;
          kv_gb = entry_kv_gb e ctx 1; ssm_gb = entry_ssm_gb e 1; total_gb = weights_gb e + kv_gb + ssm_gb;
          moe = me_moe e \<and> me_experts e \<noteq> 0 \<and> me_experts_used e \<noteq> 0;
          active_gb = (if moe then weights_gb e * of_int (me_experts_used e) / of_int (me_experts e) else weights_gb e);
          fits = (total_gb \<le> budget_gb);
          partial = (if \<not> fits \<and> me_layers e > 0
            then (case capacity_fit (replicate (nat (me_layers e)) (weights_gb e / of_int (me_layers e)))
                    (map (\<lambda>mb. of_int mb / 1024) (nr_device_free_mb d)) None None 16 of
                 Inl _ \<Rightarrow> [] | Inr cf \<Rightarrow> [NotePartial (ca_offload cf) (me_layers e)])
            else []);
          measured = measured_tok_s samples (me_name e) (Some (me_quant e)) (Some ctx) None;
          est = (case measured of Some x \<Rightarrow> x | None \<Rightarrow> estimate_tok_s bw (active_gb + kv_gb) budget_gb)
      in \<lparr>fr_name = me_name e, fr_quant = me_quant e, fr_weights_gb = py_round_n 2 (weights_gb e),
          fr_kv_gb = py_round_n 2 kv_gb, fr_total_gb = py_round_n 2 total_gb, fr_fits = fits,
          fr_overflow_gb = py_round_n 2 (max 0 (total_gb - budget_gb)), fr_est_tok_s = est, fr_ctx = ctx,
          fr_notes = (if moe then [NoteMoE] else []) @ (if fits \<and> total_gb > host_gb then [NoteSplit] else []) @ partial @
            (if measured \<noteq> None then [NoteMeasured] else if est \<le> 0 then [NoteNoBandwidth] else []),
          fr_measured = (measured \<noteq> None), fr_ssm_gb = py_round_n 3 ssm_gb\<rparr>)"

definition recommend :: "node_report \<Rightarrow> samples \<Rightarrow> pyfloat \<times> pyfloat \<Rightarrow> int \<Rightarrow> model_entry list \<Rightarrow> fit_report list" where
  "recommend d samples bw ctx models =
     sort_key (\<lambda>r. (\<not> fr_fits r, fr_overflow_gb r)) (map (fit_of d samples bw ctx) models)"

section \<open>What the shares promise\<close>

lemma round_share_ge: "1 \<le> round_share s"
  by (simp add: round_share_def)

lemma py_round_le_int: "s \<le> of_int n \<Longrightarrow> py_round s \<le> n"
  by (simp add: py_round_def Let_def) linarith

lemma round_share_le: "1 \<le> n \<Longrightarrow> s \<le> of_int n \<Longrightarrow> round_share s \<le> n"
  by (simp add: round_share_def py_round_le_int)

lemma free_rooms_ge: "x \<in> set (free_rooms c host feeders) \<Longrightarrow> 1 \<le> x"
  by (auto simp: free_rooms_def weight_room_def)

lemma link_factor_range: "0 < link_factor ref_mbps link \<and> link_factor ref_mbps link \<le> 1"
  by (simp add: link_factor_def)

text \<open>
  Every device gets a share of at least one and there is one for each; a measured link only takes from a feeder
  and leaves the host its share. By default a share is the room the device has for weights.
\<close>

lemma tensor_split_shares:
  fixes c host feeders kv v2 bias ref_mbps
  defines "plain \<equiv> compute_tensor_split c host feeders kv v2 bias False ref_mbps"
    and "linked \<equiv> compute_tensor_split c host feeders kv v2 bias True ref_mbps"
  shows "length plain = Suc (length feeders)" "length linked = Suc (length feeders)"
    "\<forall>x \<in> set plain \<union> set linked. 1 \<le> x" "list_all2 (\<le>) linked plain" "hd linked = hd plain"
    "\<not> v2 \<Longrightarrow> bias = 1 \<Longrightarrow> plain = free_rooms c host feeders"
proof -
  let ?fs = "1 # map (link_factor ref_mbps \<circ> fe_link) feeders"
  have len: "length (free_rooms c host feeders) = Suc (length feeders)" by (simp add: free_rooms_def)
  have ge: "\<forall>x \<in> set plain. 1 \<le> x"
    by (auto simp: plain_def compute_tensor_split_def Let_def shares_v2_def round_share_ge dest: free_rooms_ge)
  show pl: "length plain = Suc (length feeders)" by (simp add: plain_def compute_tensor_split_def Let_def shares_v2_def len)
  have linked: "linked = (if feeders = [] then plain else map2 (\<lambda>s factor. round_share (of_int s * factor)) plain ?fs)"
    unfolding linked_def plain_def compute_tensor_split_def Let_def by simp
  show "length linked = Suc (length feeders)" using pl by (simp add: linked)
  show "\<forall>x \<in> set plain \<union> set linked. 1 \<le> x" using ge by (auto simp: linked round_share_ge split: if_splits)
  have le: "round_share (of_int (plain ! i) * ?fs ! i) \<le> plain ! i" if "i < length plain" for i
  proof (rule round_share_le)
    show i: "1 \<le> plain ! i" using ge that by simp
    have "?fs ! i \<le> 1" using that pl link_factor_range by (cases i) simp_all
    with i show "of_int (plain ! i) * ?fs ! i \<le> of_int (plain ! i)" by (simp add: mult_left_le)
  qed
  show "list_all2 (\<le>) linked plain"
  proof (cases "feeders = []")
    case False
    then show ?thesis using le pl unfolding linked by (simp add: list_all2_conv_all_nth del: nth_Cons_Suc)
  qed (simp add: linked list_all2_refl)
  have "1 \<le> plain ! 0" using ge pl by (cases plain) auto
  then have "round_share (of_int (plain ! 0)) = plain ! 0" by (simp add: round_share_def)
  then show "hd linked = hd plain" using pl unfolding linked by (cases plain) auto
qed (simp add: plain_def compute_tensor_split_def)

text \<open>The quant that is picked is the largest that fits, and the smallest of all only when none does.\<close>

lemma quant_pick_is_best:
  "case select_quant_by_fit files budget_gb of
     Fits f \<Rightarrow> f \<in> set files \<and> of_int (size_of f) / GiB \<le> budget_gb \<and>
       (\<forall>g \<in> set files. size_of f < size_of g \<longrightarrow> of_int (size_of g) / GiB > budget_gb)
   | Spills f over \<Rightarrow> f \<in> set files \<and> (\<forall>g \<in> set files. size_of g > 0 \<longrightarrow> of_int (size_of g) / GiB > budget_gb \<and> size_of f \<le> size_of g)
   | NoFile \<Rightarrow> \<forall>g \<in> set files. size_of g \<le> 0"
proof -
  let ?sized = "filter (\<lambda>f. size_of f > 0) files"
  let ?fitting = "filter (\<lambda>f. of_int (size_of f) / GiB \<le> budget_gb) ?sized"
  show ?thesis
  proof (cases "min_by (\<lambda>f. - size_of f) ?fitting")
    case None
    then have none: "?fitting = []" by simp
    show ?thesis
    proof (cases "min_by size_of ?sized")
      case None
      with none show ?thesis by (simp add: select_quant_by_fit_def Let_def filter_empty_conv not_less)
    next
      case (Some best)
      with none min_by_in [OF Some] min_by_le [OF Some] show ?thesis
        by (auto simp: select_quant_by_fit_def Let_def filter_empty_conv not_le)
    qed
  next
    case (Some best)
    have "budget_gb < of_int (size_of g) / GiB" if "g \<in> set files" "size_of best < size_of g" for g
    proof (rule ccontr)
      assume "\<not> ?thesis"
      with that min_by_in [OF Some] have "g \<in> set ?fitting" by auto
      from min_by_le [OF Some this] that(2) show False by simp
    qed
    with min_by_in [OF Some] show ?thesis unfolding select_quant_by_fit_def Let_def Some option.case quant_pick.case by auto
  qed
qed

section \<open>A recorded rate is the rate that is read\<close>

lemma cut_first:
  assumes "CHR '':'' \<notin> set q"
  shows "cut ''::'' (q @ ''::'' @ r) = Some (q, r)"
  using assms by (induction q) auto

lemma show_int_no_colon: "CHR '':'' \<notin> set (show_int i)"
proof -
  have "CHR '':'' \<notin> set (show_nat n)" for n
    using show_nat_digits [of n] by (auto simp: isdigit_def list_all_iff)
  then show ?thesis by (simp add: show_int_def)
qed

lemma show_int_inject: "show_int i = show_int j \<longleftrightarrow> i = j"
  by (metis int_text_show option.inject)

lemma key_parts_tok_s_key:
  assumes "CHR '':'' \<notin> set q"
  shows "key_parts (tok_s_key q ctx kv) = (or_unknown q, show_int ctx, kv)"
proof -
  have "CHR '':'' \<notin> set (or_unknown q)" using assms by (simp add: or_unknown_def)
  then show ?thesis
    using cut_first [of "or_unknown q" "show_int ctx @ ''::'' @ kv"] cut_first [OF show_int_no_colon, of ctx kv]
    by (simp add: key_parts_def tok_s_key_def)
qed

definition well_keyed :: "string \<Rightarrow> bool" where
  "well_keyed key \<longleftrightarrow> (case key_parts key of (q, ctx, kv) \<Rightarrow> key = q @ ''::'' @ ctx @ ''::'' @ kv)"

lemma key_matches_unique:
  assumes "well_keyed key" "CHR '':'' \<notin> set q"
  shows "key_matches (Some q) (Some ctx) (Some kv) key \<longleftrightarrow> key = tok_s_key q ctx kv"
proof
  assume "key = tok_s_key q ctx kv"
  then show "key_matches (Some q) (Some ctx) (Some kv) key"
    by (simp add: key_matches_def key_parts_tok_s_key [OF assms(2)])
next
  assume m: "key_matches (Some q) (Some ctx) (Some kv) key"
  obtain a b v where "key_parts key = (a, b, v)" by (rule prod_cases3)
  with m assms(1) show "key = tok_s_key q ctx kv"
    unfolding key_matches_def well_keyed_def tok_s_key_def by simp
qed

lemma filter_one_key:
  assumes "dict_wf d" "\<forall>k \<in> set (dict_keys d). P k \<longleftrightarrow> k = key"
  shows "concat (dict_values (filter (\<lambda>(k, h). P k) d)) = (case dict_get d key of None \<Rightarrow> [] | Some h \<Rightarrow> h)"
  using assms
proof (induction d)
  case (Cons p d)
  obtain k h where p: "p = (k, h)" by fastforce
  have ih: "concat (dict_values (filter (\<lambda>(k, h). P k) d)) = (case dict_get d key of None \<Rightarrow> [] | Some h \<Rightarrow> h)"
    using Cons by simp
  show ?case
  proof (cases "k = key")
    case True
    then have "dict_get d key = None" using Cons.prems(1) p by (simp add: dict_get_None_iff)
    then show ?thesis using ih Cons.prems(2) p True by simp
  next
    case False
    then show ?thesis using ih Cons.prems(2) p by simp
  qed
qed simp

text \<open>A rate asked for in full is the mean of the samples under its one key.\<close>

lemma one_rate:
  assumes "dict_get s model = Some e" "dict_wf e" "\<forall>k \<in> set (dict_keys e). well_keyed k" "CHR '':'' \<notin> set p"
  shows "measured_tok_s s model (Some p) (Some x) (Some v) =
    (let hs = (case dict_get e (tok_s_key p x v) of None \<Rightarrow> [] | Some hs \<Rightarrow> hs)
     in if hs = [] then None else Some (py_round_n 1 (sum_list hs / of_nat (length hs))))"
proof -
  have "\<forall>k \<in> set (dict_keys e). key_matches (Some p) (Some x) (Some v) k \<longleftrightarrow> k = tok_s_key p x v"
    using assms(3,4) key_matches_unique by blast
  from filter_one_key [OF assms(2) this] show ?thesis using assms(1) by (simp add: measured_tok_s_def Let_def)
qed

text \<open>
  C25. What is recorded is what is read: the rate of a configuration is the mean of its last twenty samples, the one just
  recorded among them; every other configuration of the model and every other model keeps its rate.
\<close>

theorem recorded_rate_is_read:
  fixes model tok_s q ctx kv served bound samples
  defines "updated \<equiv> record_measured_tok_s model tok_s (Some q, Some ctx, Some kv) served bound samples"
    and "d \<equiv> (case dict_get samples model of None \<Rightarrow> [] | Some d \<Rightarrow> d)"
  defines "h \<equiv> newest MAX_SAMPLES ((case dict_get d (tok_s_key q ctx kv) of None \<Rightarrow> [] | Some h \<Rightarrow> h) @ [py_round_n 1 tok_s])"
  assumes "0 < tok_s" "case bound of None \<Rightarrow> True | Some b \<Rightarrow> tok_s \<le> b"
    and "CHR '':'' \<notin> set q" "CHR '':'' \<notin> set q'" and "dict_wf d" "list_all well_keyed (dict_keys d)"
  shows "measured_tok_s updated model (Some q) (Some ctx) (Some kv) = Some (py_round_n 1 (sum_list h / of_nat (length h))) \<and>
    length h \<le> 20 \<and> h \<noteq> [] \<and> last h = py_round_n 1 tok_s \<and>
    ((or_unknown q', ctx', kv') \<noteq> (or_unknown q, ctx, kv) \<longrightarrow>
       measured_tok_s updated model (Some q') (Some ctx') (Some kv') = measured_tok_s samples model (Some q') (Some ctx') (Some kv')) \<and>
    (model' \<noteq> model \<longrightarrow> measured_tok_s updated model' = measured_tok_s samples model')"
proof -
  define key where "key = tok_s_key q ctx kv"
  have ok: "\<not> tok_s \<le> 0" "\<not> (case bound of None \<Rightarrow> False | Some x \<Rightarrow> tok_s > x)"
    using assms(4,5) by (auto split: option.splits)
  have a: "updated = dict_set model (dict_set key h d) samples"
    unfolding updated_def record_measured_tok_s_def using ok by (simp add: or_served_def Let_def d_def [symmetric] key_def h_def)
  have "well_keyed key"
    using key_parts_tok_s_key [OF assms(6), of ctx kv] by (simp add: well_keyed_def key_def tok_s_key_def)
  then have wk: "\<forall>k \<in> set (dict_keys (dict_set key h d)). well_keyed k"
    using assms(9) unfolding dict_keys_set_set list_all_iff by blast
  have wf: "dict_wf (dict_set key h d)" using assms(8) by simp
  have h: "h \<noteq> []" "length h \<le> 20" "last h = py_round_n 1 tok_s"
    by (auto simp: h_def newest_def MAX_SAMPLES_def)
  have new: "measured_tok_s updated model (Some q) (Some ctx) (Some kv) = Some (py_round_n 1 (sum_list h / of_nat (length h)))"
    using one_rate [of updated model "dict_set key h d" q ctx kv] wf wk assms(6) h(1) by (simp add: a key_def)
  have other: "measured_tok_s updated model (Some q') (Some ctx') (Some kv') = measured_tok_s samples model (Some q') (Some ctx') (Some kv')"
    if "(or_unknown q', ctx', kv') \<noteq> (or_unknown q, ctx, kv)"
  proof -
    have "tok_s_key q' ctx' kv' \<noteq> key"
      using that key_parts_tok_s_key [OF assms(6), of ctx kv] key_parts_tok_s_key [OF assms(7), of ctx' kv']
      by (auto simp: key_def show_int_inject)
    then have "dict_get (dict_set key h d) (tok_s_key q' ctx' kv') = dict_get d (tok_s_key q' ctx' kv')" by simp
    with one_rate [of updated model "dict_set key h d" q' ctx' kv'] wf wk assms(7)
    have "measured_tok_s updated model (Some q') (Some ctx') (Some kv') =
        (let hs = (case dict_get d (tok_s_key q' ctx' kv') of None \<Rightarrow> [] | Some hs \<Rightarrow> hs)
         in if hs = [] then None else Some (py_round_n 1 (sum_list hs / of_nat (length hs))))" by (simp add: a)
    then show ?thesis
      using one_rate [of samples model d q' ctx' kv'] assms(7,8,9)
      by (cases "dict_get samples model") (simp_all add: d_def measured_tok_s_def list_all_iff)
  qed
  have "measured_tok_s updated model' = measured_tok_s samples model'" if "model' \<noteq> model"
    using that by (intro ext) (simp add: a measured_tok_s_def)
  with new other h show ?thesis by blast
qed

theorem recorded_rate_is_read_witness:
  "\<exists>s. s = record_measured_tok_s ''m'' 20 (Some ''Q4'', Some 512, Some ''q8_0'') None (Some 50)
           [(''m'', [(tok_s_key ''Q4'' 512 ''q8_0'', [10]), (tok_s_key ''Q8'' 512 ''f16'', [7])])] \<and>
     measured_tok_s s ''m'' (Some ''Q4'') (Some 512) (Some ''q8_0'') = Some 15 \<and>
     measured_tok_s s ''m'' (Some ''Q8'') (Some 512) (Some ''f16'') = Some 7"
proof -
  let ?d = "[(tok_s_key ''Q4'' 512 ''q8_0'', [10]), (tok_s_key ''Q8'' 512 ''f16'', [7])]"
  let ?s0 = "[(''m'', ?d)]"
  have d: "(case dict_get ?s0 ''m'' of None \<Rightarrow> [] | Some d \<Rightarrow> d) = ?d" by simp
  have c: "CHR '':'' \<notin> set ''Q4''" "CHR '':'' \<notin> set ''Q8''" by simp_all
  have w: "dict_wf ?d" "list_all well_keyed (dict_keys ?d)" by code_simp+
  have n: "(or_unknown ''Q8'', 512, ''f16'') \<noteq> (or_unknown ''Q4'', 512 :: int, ''q8_0'')" by simp
  have m: "(case dict_get ?d (tok_s_key ''Q4'' 512 ''q8_0'') of None \<Rightarrow> [] | Some h \<Rightarrow> h) = [10]" by simp
  have r: "py_round_n 1 (sum_list [10, 20] / of_nat (length [10 :: pyfloat, 20])) = 15" "py_round_n 1 20 = 20"
    "newest MAX_SAMPLES ([10] @ [20]) = [10 :: pyfloat, 20]"
    "measured_tok_s ?s0 ''m'' (Some ''Q8'') (Some 512) (Some ''f16'') = Some 7" by code_simp+
  note t = recorded_rate_is_read [of 20 "Some 50" "''Q4''" "''Q8''" ?s0 "''m''" 512 "''q8_0''" None 512 "''f16''" "''m''", unfolded d m r(2,3)]
  from t c w n r(1,4) show ?thesis by simp
qed

section \<open>The report ranks\<close>

text \<open>One report for each model, those that fit first, then by what spills; what fits is what the cluster's cards hold.\<close>

lemma recommend_ranks:
  fixes d samples bw ctx models
  defines "rs \<equiv> recommend d samples bw ctx models"
  shows "mset rs = image_mset (fit_of d samples bw ctx) (mset models)"
    "i < j \<Longrightarrow> j < length rs \<Longrightarrow> fr_fits (rs ! j) \<Longrightarrow> fr_fits (rs ! i) \<and> fr_overflow_gb (rs ! i) \<le> fr_overflow_gb (rs ! j)"
    "fr_fits (fit_of d samples bw ctx e) \<longleftrightarrow> weights_gb e + entry_kv_gb e ctx 1 + entry_ssm_gb e 1 \<le> of_int (nr_aggregate_mb d) / 1024"
    "fr_measured (fit_of d samples bw ctx e) \<longleftrightarrow> measured_tok_s samples (me_name e) (Some (me_quant e)) (Some ctx) None \<noteq> None"
proof -
  show "mset rs = image_mset (fit_of d samples bw ctx) (mset models)" by (simp add: rs_def recommend_def)
  show "fr_fits (rs ! i) \<and> fr_overflow_gb (rs ! i) \<le> fr_overflow_gb (rs ! j)" if "i < j" "j < length rs" "fr_fits (rs ! j)"
  proof -
    have "sorted (map (\<lambda>r. (\<not> fr_fits r, fr_overflow_gb r)) rs)" by (simp add: rs_def recommend_def)
    from sorted_nth_mono [OF this, of i j] that show ?thesis by (auto simp: less_eq_prod_def)
  qed
qed (simp_all add: fit_of_def Let_def)

end
