(* ===== verification/Serve_Plan.thy ===== *)
theory Serve_Plan
  imports Serve_Fit
begin

text \<open>
  Where \<^verbatim>\<open>gb_synapse_backends.py\<close> puts a model it serves with llama.cpp (\<open>LlamaCppBackend.serve\<close>): the context, the KV
  type, the layers on the card, the experts off it, the gate in front of every placement that leaves layers to the
  CPU, and the second try after an out-of-memory error. The card, the shim and the answers of the engine are
  arguments; the expert cache, speculation, vision and the caller's extra arguments are left out.
\<close>

section \<open>What decides\<close>

datatype ngl_override = AllLayers | Layers int

text \<open>\<open>sh_t2_gb\<close> is the share of the DDR pool; \<open>sh_ram_gb\<close> the free host memory of the node and its feeders;
  \<open>sh_measured\<close> the KV footprint in MiB a former serve of this context and type measured.\<close>

record serve_host =
  sh_budget_gb :: pyfloat
  sh_shim :: bool
  sh_t2_gb :: pyfloat
  sh_ram_gb :: pyfloat
  sh_devices :: int
  sh_force_split :: bool
  sh_allow_offload :: bool
  sh_ctx_cap :: int
  sh_measured :: "int \<Rightarrow> string \<Rightarrow> pyfloat option"

record serve_call =
  sc_ctx :: int
  sc_kv :: "string option"
  sc_layers :: "ngl_override option"
  sc_cpu_moe :: "int option"

definition ARCH_CPU_SPLIT_BROKEN :: "string list" where
  "ARCH_CPU_SPLIT_BROKEN = [''qwen35moe'']"

definition MODEL_CTX_KV_DEFAULTS :: "(string, int \<times> string) pydict" where
  "MODEL_CTX_KV_DEFAULTS =
     [(''Qwen3.6-27B-Fable-Fusion-711-Uncensored-Heretic-NM-DAU-NEO-MAX-MTP-GGUF'', 32768, ''q8_0'')]"

text \<open>\<open>None\<close> is a variable that is not an integer.\<close>

definition default_ctx_cap :: "int option \<Rightarrow> int" where
  "default_ctx_cap env = (case env of None \<Rightarrow> 16384 | Some n \<Rightarrow> max 512 n)"

definition fits_vram :: "serve_host \<Rightarrow> model_entry \<Rightarrow> bool" where
  "fits_vram h e \<longleftrightarrow> weights_gb e \<le> sh_budget_gb h \<or> sh_shim h"

definition cpu_quirk :: "serve_host \<Rightarrow> model_entry \<Rightarrow> bool" where
  "cpu_quirk h e \<longleftrightarrow> \<not> fits_vram h e \<and> me_arch e \<in> set ARCH_CPU_SPLIT_BROKEN \<and> \<not> sh_force_split h"

definition ctx_budget_gb :: "serve_host \<Rightarrow> model_entry \<Rightarrow> pyfloat" where
  "ctx_budget_gb h e = (if cpu_quirk h e then max (sh_budget_gb h) (sh_ram_gb h) else sh_budget_gb h)"

definition wanted_ctx :: "serve_host \<Rightarrow> model_entry \<Rightarrow> serve_call \<Rightarrow> int" where
  "wanted_ctx h e q =
     (if sc_ctx q \<le> 0
      then min (case dict_get MODEL_CTX_KV_DEFAULTS (me_name e) of
          Some (n, kv) \<Rightarrow> n
        | None \<Rightarrow> if me_ctx_length e \<noteq> 0 then me_ctx_length e else 65536) (sh_ctx_cap h)
      else sc_ctx q)"

definition t2_extra_gb :: "serve_host \<Rightarrow> model_entry \<Rightarrow> pyfloat" where
  "t2_extra_gb h e = (if sh_shim h \<and> \<not> cpu_quirk h e then sh_t2_gb h else 0)"

text \<open>The context and, where layers stay with the CPU, how many the card gets.\<close>

definition serve_ctx :: "fit_conf \<Rightarrow> serve_host \<Rightarrow> model_entry \<Rightarrow> serve_call \<Rightarrow> (int \<times> int option) option" where
  "serve_ctx c h e q =
     (let ctx = wanted_ctx h e q in
      if \<not> fits_vram h e \<and> \<not> cpu_quirk h e \<and> \<not> me_moe e
      then map_option (\<lambda>(ctx, ngl). (ctx, Some ngl))
        (solve_ctx_and_layers c e (ctx_budget_gb h e) ctx (sh_devices h) (t2_extra_gb h e) 1)
      else Some (clamp_ctx_to_budget ctx e (ctx_budget_gb h e + t2_extra_gb h e), None))"

definition serve_kv_type :: "fit_conf \<Rightarrow> serve_host \<Rightarrow> model_entry \<Rightarrow> serve_call \<Rightarrow> int \<Rightarrow> string" where
  "serve_kv_type c h e q ctx =
     (case sc_kv q of
        Some kv \<Rightarrow> kv
      | None \<Rightarrow>
          (case dict_get MODEL_CTX_KV_DEFAULTS (me_name e) of
             Some (n, kv) \<Rightarrow> if fc_kv c = None then kv else pick_kv_type c ctx e (ctx_budget_gb h e + t2_extra_gb h e)
           | None \<Rightarrow> pick_kv_type c ctx e (ctx_budget_gb h e + t2_extra_gb h e)))"

definition serve_kv_gb :: "serve_host \<Rightarrow> model_entry \<Rightarrow> int \<Rightarrow> string \<Rightarrow> pyfloat" where
  "serve_kv_gb h e ctx kv_type =
     (case sh_measured h ctx kv_type of
        Some mb \<Rightarrow> if mb \<noteq> 0 then mb / 1024
          else (if me_recurrent_only e then 0 else entry_kv_gb e ctx (if kv_type = ''f16'' then 2 else 1)) + entry_ssm_gb e 1
      | None \<Rightarrow> (if me_recurrent_only e then 0 else entry_kv_gb e ctx (if kv_type = ''f16'' then 2 else 1)) + entry_ssm_gb e 1)"

section \<open>The placement\<close>

text \<open>What is put on the command line, whether the gate stands before it, and the layer count of a dense split.\<close>

record serve_placement =
  sp_ctx :: int
  sp_kv :: string
  sp_kv_gb :: pyfloat
  sp_ngl :: int
  sp_cpu_moe :: "int option"
  sp_hidden :: bool
  sp_gate :: "string option"
  sp_split :: "int option"

definition serve_place :: "fit_conf \<Rightarrow> serve_host \<Rightarrow> model_entry \<Rightarrow> gguf_tensors \<Rightarrow> serve_call \<Rightarrow> serve_placement option" where
  "serve_place c h e gguf_tensors q =
     (case serve_ctx c h e q of None \<Rightarrow> None
      | Some (ctx, solved) \<Rightarrow>
          let kv_type = serve_kv_type c h e q ctx; kv_gb = serve_kv_gb h e ctx kv_type;
              moe_fit = (\<lambda>budget. fit_cpu_moe_layers c e gguf_tensors budget kv_gb (sh_devices h));
              p = \<lparr>sp_ctx = ctx, sp_kv = kv_type, sp_kv_gb = kv_gb, sp_ngl = 999, sp_cpu_moe = None, sp_hidden = False,
                sp_gate = None, sp_split = None\<rparr>
          in if cpu_quirk h e then Some (p\<lparr>sp_ngl := 0, sp_hidden := True\<rparr>)
          else case sc_layers q of
            Some AllLayers \<Rightarrow>
              Some (if me_moe e \<and> sc_cpu_moe q \<noteq> None
                then p\<lparr>sp_cpu_moe := Some (max (the (sc_cpu_moe q)) (moe_fit (max 0 (sh_budget_gb h - 1))))\<rparr> else p)
          | Some (Layers n) \<Rightarrow>
              Some (if me_moe e then p\<lparr>sp_ngl := n, sp_cpu_moe := sc_cpu_moe q\<rparr>
                else p\<lparr>sp_ngl := n, sp_gate := Some ''dense_partial_offload_override''\<rparr>)
          | None \<Rightarrow>
              if fits_vram h e then
                (let n = (if me_moe e then moe_fit (sh_budget_gb h) else 0)
                 in Some (if n > 0 then p\<lparr>sp_cpu_moe := Some n\<rparr> else p))
              else if me_moe e then
                (let n = moe_fit (sh_budget_gb h)
                 in Some (p\<lparr>sp_cpu_moe := Some n, sp_gate := (if n \<noteq> 0 then None else Some ''dense_partial_offload'')\<rparr>))
              else map_option (\<lambda>n. p\<lparr>sp_ngl := n, sp_split := Some n, sp_gate := Some ''dense_partial_offload''\<rparr>)
                (case solved of Some n \<Rightarrow> Some n
                 | None \<Rightarrow> fit_gpu_layers c e (sh_budget_gb h) kv_gb (sh_devices h) 0))"

section \<open>The launches\<close>

text \<open>The engine comes up, runs out of memory, or fails for another reason.\<close>

datatype engine_answer = Up | OutOfMemory | Fails

datatype serve_result = Serving int | Refused string | Crashed

text \<open>A launch hands the engine a layer count; the answers come in the order of the launches. \<open>None\<close> is an exception
  of the fit itself.\<close>

definition gated :: "serve_host \<Rightarrow> string option \<Rightarrow> bool" where
  "gated h event \<longleftrightarrow> event \<noteq> None \<and> \<not> sh_allow_offload h"

definition retry_with :: "serve_host \<Rightarrow> string \<Rightarrow> int \<Rightarrow> engine_answer \<Rightarrow> serve_result \<times> int list" where
  "retry_with h event ngl answer =
     (if gated h (Some event) then (Refused event, [])
      else (case answer of Up \<Rightarrow> Serving ngl | _ \<Rightarrow> Crashed, [ngl]))"

definition serve_launch ::
  "fit_conf \<Rightarrow> serve_host \<Rightarrow> model_entry \<Rightarrow> serve_placement \<Rightarrow> engine_answer \<Rightarrow> engine_answer \<Rightarrow> (serve_result \<times> int list) option" where
  "serve_launch c h e p first second =
     (if gated h (sp_gate p) then Some (Refused (the (sp_gate p)), [])
      else case first of
        Up \<Rightarrow> Some (Serving (sp_ngl p), [sp_ngl p])
      | Fails \<Rightarrow> Some (Crashed, [sp_ngl p])
      | OutOfMemory \<Rightarrow>
          if fits_vram h e
          then map_option (\<lambda>n. case retry_with h ''vram_fragmentation_oom_retry'' n second of (r, ns) \<Rightarrow> (r, sp_ngl p # ns))
            (fit_gpu_layers c e (sh_budget_gb h * 0.7) (sp_kv_gb p) (sh_devices h) 0)
          else (case sp_split p of
              None \<Rightarrow> Some (Crashed, [sp_ngl p])
            | Some n \<Rightarrow>
                if n = 0 then Some (Crashed, [sp_ngl p])
                else let n' = max 0 (n - max 1 \<lceil>of_int n * (0.15 :: pyfloat)\<rceil>)
                  in Some (case retry_with h ''compute_graph_oom_retry'' n' second of (r, ns) \<Rightarrow> (r, sp_ngl p # ns))))"

definition serve_gguf :: "fit_conf \<Rightarrow> serve_host \<Rightarrow> model_entry \<Rightarrow> gguf_tensors \<Rightarrow> serve_call \<Rightarrow> engine_answer \<Rightarrow> engine_answer \<Rightarrow>
  (serve_result \<times> int list) option" where
  "serve_gguf c h e gguf_tensors q first second =
     (case serve_place c h e gguf_tensors q of None \<Rightarrow> None | Some p \<Rightarrow> serve_launch c h e p first second)"

section \<open>No layer goes to the CPU in silence\<close>

lemma launches_within_gate:
  assumes "serve_launch c h e p first second = Some (r, ns)" "\<not> sh_allow_offload h"
  shows "(sp_gate p \<noteq> None \<and> r = Refused (the (sp_gate p)) \<and> ns = []) \<or>
    (sp_gate p = None \<and> ns = [sp_ngl p] \<and> (\<forall>n. r = Serving n \<longrightarrow> n = sp_ngl p))"
  using assms
  by (cases first; cases "sp_split p")
    (auto simp: serve_launch_def gated_def retry_with_def Let_def split: if_splits option.splits)

lemma serve_place_gate:
  assumes "serve_place c h e gguf_tensors q = Some p" "\<not> cpu_quirk h e" "sp_gate p = None"
    and "\<not> (me_moe e \<and> (\<exists>n. sc_layers q = Some (Layers n)))"
  shows "sp_ngl p = 999"
  using assms
  by (auto simp: serve_place_def Let_def split: option.splits ngl_override.splits if_splits prod.splits)

lemma dense_split_is_gated:
  assumes "serve_place c h e gguf_tensors q = Some p" "\<not> cpu_quirk h e" "\<not> fits_vram h e" "\<not> me_moe e" "sc_layers q = None"
  shows "sp_gate p = Some ''dense_partial_offload''"
  using assms by (auto simp: serve_place_def Let_def split: option.splits prod.splits)


definition demo_host :: "bool \<Rightarrow> bool \<Rightarrow> serve_host" where
  "demo_host shim allow =
     \<lparr>sh_budget_gb = 10, sh_shim = shim, sh_t2_gb = 8, sh_ram_gb = 32, sh_devices = 1, sh_force_split = False,
       sh_allow_offload = allow, sh_ctx_cap = 16384, sh_measured = (\<lambda>_ _. None)\<rparr>"

definition demo_call :: "int \<Rightarrow> serve_call" where
  "demo_call ctx = \<lparr>sc_ctx = ctx, sc_kv = None, sc_layers = None, sc_cpu_moe = None\<rparr>"


text \<open>A layer count for a mixture of experts passes the gate; a count for a dense model meets it even when the count is
  every layer of the model.\<close>

lemma moe_count_passes_the_gate:
  "serve_gguf demo_fit_conf (demo_host False False) (demo_model\<lparr>me_moe := True\<rparr>) None ((demo_call 16384)\<lparr>sc_layers := Some (Layers 3)\<rparr>) Up Up
     = Some (Serving 3, [3])"
  by code_simp

lemma full_count_meets_the_gate:
  "serve_gguf demo_fit_conf (demo_host True False) demo_model None ((demo_call 16384)\<lparr>sc_layers := Some (Layers 65)\<rparr>) Up Up
     = Some (Refused ''dense_partial_offload_override'', [])"
  by code_simp

end
