(* ===== verification/Cluster_Map.thy ===== *)
theory Cluster_Map
  imports Placement
begin

text \<open>
  The shared work queue of \<^verbatim>\<open>gb_cluster.py\<close>: \<open>cluster_map\<close> and \<open>parallel_map_with_feeder\<close> drain one queue
  with the host's thread and a thread per feeder. Every access to the queue and to the results is one step, and the
  threads' steps come in any order. What \<open>run_local\<close> and \<open>run_remote\<close> answer, when a pull times out and what the
  progress callback does is decided by the run.
\<close>

section \<open>Chunks\<close>

definition DEFAULT_CHUNK :: nat where
  "DEFAULT_CHUNK = 4"

text \<open>\<open>chunk\<close> is \<open>None\<close> for \<open>auto\<close>.\<close>

definition chunk_size :: "nat \<Rightarrow> nat \<Rightarrow> int option \<Rightarrow> nat" where
  "chunk_size n feeders chunk =
     (case chunk of
        Some c \<Rightarrow> nat (max 1 c)
      | None \<Rightarrow> max 1 (min DEFAULT_CHUNK (let p = 1 + feeders in (n + p - 1) div p)))"

type_synonym 'a work_chunk = "nat \<times> 'a list"

function chunks_from :: "nat \<Rightarrow> nat \<Rightarrow> 'a list \<Rightarrow> 'a work_chunk list" where
  "chunks_from idx k xs = (if xs = [] \<or> k = 0 then [] else (idx, take k xs) # chunks_from (idx + k) k (drop k xs))"
  by pat_completeness auto

termination chunks_from
  by (relation "measure (\<lambda>(idx, k, xs). length xs)") auto

declare chunks_from.simps [simp del]

text \<open>The results of the pulled chunks, cut out of the answer; an answer that is too short leaves holes.\<close>

fun store_chunks :: "'a work_chunk list \<Rightarrow> 'b list \<Rightarrow> (nat \<rightharpoonup> 'b) \<Rightarrow> (nat \<rightharpoonup> 'b)" where
  "store_chunks [] out res = res"
| "store_chunks ((start, b) # cs) out res =
     store_chunks cs (drop (length b) out) (fold (\<lambda>(j, r) m. m(start + j \<mapsto> r)) (enumerate 0 (take (length b) out)) res)"

section \<open>How much a node pulls\<close>

definition ewma_update :: "(string, pyfloat) pydict \<Rightarrow> string \<Rightarrow> pyfloat \<Rightarrow> (string, pyfloat) pydict" where
  "ewma_update store key x =
     dict_set key (case dict_get store key of None \<Rightarrow> x | Some prev \<Rightarrow> 0.3 * x + (1 - 0.3) * prev) store"

fun position :: "'a \<Rightarrow> 'a list \<Rightarrow> nat" where
  "position x [] = 0"
| "position x (y # ys) = (if x = y then 0 else Suc (position x ys))"

text \<open>\<open>weighted\<close> is the switch \<^verbatim>\<open>GB_CLUSTER_CHUNK_WEIGHTED\<close>. A node is one of the participants.\<close>

definition adaptive_pull_count :: "bool \<Rightarrow> (string, pyfloat) pydict \<Rightarrow> string \<Rightarrow> string list \<Rightarrow> placement_error + int" where
  "adaptive_pull_count weighted ewma key all_keys =
     (let weights = map (\<lambda>k. case dict_get ewma k of None \<Rightarrow> 0 | Some w \<Rightarrow> w) all_keys in
      if \<not> weighted \<or> (\<forall>w \<in> set weights. w = 0) then Inr 1
      else let total_pulls = max 1 (2 * int (length all_keys)) in
        bind_result (proportional_split total_pulls (map (\<lambda>w. if w = 0 then 0.01 else w) weights)
            (Some (replicate (length all_keys) 1)))
          (\<lambda>counts. Inr (max 1 (counts ! position key all_keys))))"

lemma adaptive_pull_count_ge: "\<exists>n. adaptive_pull_count weighted ewma key all_keys = Inr n \<and> 1 \<le> n"
  by (simp add: adaptive_pull_count_def proportional_split_def Let_def)

section \<open>The threads\<close>

datatype 'a feeder_pc = Idle | Pulling nat "'a work_chunk list" | Working "'a work_chunk list" | Counting "'a work_chunk list"
  | Requeueing "'a work_chunk list" | Retired

datatype 'a host_pc = HostIdle | HostPulling nat "'a work_chunk list" | TimedOut | HostWorking "'a work_chunk list"
  | HostCounting "'a work_chunk list" | Returned | Raised

record ('a, 'b) cluster =
  cm_queue :: "'a work_chunk list"
  cm_results :: "nat \<rightharpoonup> 'b"
  cm_feeders :: "'a feeder_pc list"
  cm_host :: "'a host_pc"

text \<open>\<open>Decide n\<close>: the thread will pull up to \<open>n\<close> chunks. \<open>Get\<close>: one access to the queue. \<open>Reply out\<close>: the run answers
  and the results are stored. \<open>Break\<close>: the run or the callback raises. \<open>Put\<close>: a chunk is put back. \<open>Wait\<close>: the
  blocking pull times out. \<open>Look\<close>: the host asks whether a feeder's thread is alive.\<close>

datatype 'b thread_act = Decide nat | Get | Reply "'b list" | Counted | Break | Put | Wait | Look

fun feeder_next :: "'b thread_act \<Rightarrow> 'a feeder_pc \<Rightarrow> 'a work_chunk list \<Rightarrow> (nat \<rightharpoonup> 'b) \<Rightarrow>
    ('a feeder_pc \<times> 'a work_chunk list \<times> (nat \<rightharpoonup> 'b)) option" where
  "feeder_next (Decide n) Idle q res = (if n = 0 then None else Some (Pulling n [], q, res))"
| "feeder_next Get (Pulling n cs) q res =
     (if n = 0 then Some (Working cs, q, res)
      else case q of
        [] \<Rightarrow> Some (if cs = [] then Retired else Working cs, q, res)
      | c # q' \<Rightarrow> Some (Pulling (n - 1) (cs @ [c]), q', res))"
| "feeder_next (Reply out) (Working cs) q res = Some (Counting cs, q, store_chunks cs out res)"
| "feeder_next Break (Working cs) q res = Some (Requeueing cs, q, res)"
| "feeder_next Counted (Counting cs) q res = Some (Idle, q, res)"
| "feeder_next Break (Counting cs) q res = Some (Requeueing cs, q, res)"
| "feeder_next Put (Requeueing []) q res = Some (Retired, q, res)"
| "feeder_next Put (Requeueing (c # cs)) q res = Some (Requeueing cs, q @ [c], res)"
| "feeder_next _ _ q res = None"

fun host_next :: "'b thread_act \<Rightarrow> bool \<Rightarrow> 'a host_pc \<Rightarrow> 'a work_chunk list \<Rightarrow> (nat \<rightharpoonup> 'b) \<Rightarrow>
    ('a host_pc \<times> 'a work_chunk list \<times> (nat \<rightharpoonup> 'b)) option" where
  "host_next (Decide n) dead HostIdle q res = (if n = 0 then None else Some (HostPulling n [], q, res))"
| "host_next Get dead (HostPulling n cs) q res =
     (if n = 0 then Some (HostWorking cs, q, res)
      else case q of
        [] \<Rightarrow> if cs = [] then None else Some (HostWorking cs, q, res)
      | c # q' \<Rightarrow> Some (HostPulling (n - 1) (cs @ [c]), q', res))"
| "host_next Wait dead (HostPulling n []) [] res = Some (TimedOut, [], res)"
| "host_next Look dead TimedOut q res = Some (if dead then Returned else HostIdle, q, res)"
| "host_next (Reply out) dead (HostWorking cs) q res = Some (HostCounting cs, q, store_chunks cs out res)"
| "host_next Break dead (HostWorking cs) q res = Some (Raised, q, res)"
| "host_next Counted dead (HostCounting cs) q res = Some (HostIdle, q, res)"
| "host_next Break dead (HostCounting cs) q res = Some (Raised, q, res)"
| "host_next _ _ _ q res = None"

definition all_dead :: "('a, 'b) cluster \<Rightarrow> bool" where
  "all_dead s \<longleftrightarrow> list_all (\<lambda>f. f = Retired) (cm_feeders s)"

text \<open>\<open>None\<close> is the host's thread.\<close>

definition cluster_next :: "nat option \<Rightarrow> 'b thread_act \<Rightarrow> ('a, 'b) cluster \<Rightarrow> ('a, 'b) cluster option" where
  "cluster_next who a s =
     (case who of
        None \<Rightarrow> (case host_next a (all_dead s) (cm_host s) (cm_queue s) (cm_results s) of
            None \<Rightarrow> None
          | Some (h, q, res) \<Rightarrow> Some (s\<lparr>cm_host := h, cm_queue := q, cm_results := res\<rparr>))
      | Some i \<Rightarrow>
          if i < length (cm_feeders s)
          then (case feeder_next a (cm_feeders s ! i) (cm_queue s) (cm_results s) of
              None \<Rightarrow> None
            | Some (f, q, res) \<Rightarrow> Some (s\<lparr>cm_feeders := (cm_feeders s)[i := f], cm_queue := q, cm_results := res\<rparr>))
          else None)"

definition cluster_start :: "nat \<Rightarrow> nat \<Rightarrow> 'a list \<Rightarrow> ('a, 'b) cluster" where
  "cluster_start k feeders items =
     \<lparr>cm_queue = chunks_from 0 k items, cm_results = Map.empty, cm_feeders = replicate feeders Idle, cm_host = HostIdle\<rparr>"

text \<open>\<open>[results[i] for i in range(n)]\<close>, \<open>None\<close> for its \<open>KeyError\<close>; and \<open>[results[i] for i in sorted(results)]\<close>.\<close>

definition map_result :: "nat \<Rightarrow> ('a, 'b) cluster \<Rightarrow> 'b list option" where
  "map_result n s = those (map (cm_results s) [0..<n])"

definition parallel_result :: "nat \<Rightarrow> ('a, 'b) cluster \<Rightarrow> 'b list" where
  "parallel_result n s = List.map_filter (cm_results s) [0..<n]"

section \<open>Runs\<close>

text \<open>\<open>ok item result\<close>: what the run functions promise of each result. \<open>quiet\<close>: no chunk is put back between the host's
  time-out and its look at the threads.\<close>

definition batch_of :: "'a work_chunk list \<Rightarrow> 'a list" where
  "batch_of cs = concat (map snd cs)"

definition working_on :: "nat option \<Rightarrow> ('a, 'b) cluster \<Rightarrow> 'a work_chunk list" where
  "working_on who s =
     (case who of
        None \<Rightarrow> (case cm_host s of HostWorking cs \<Rightarrow> cs | _ \<Rightarrow> [])
      | Some i \<Rightarrow> (case cm_feeders s ! i of Working cs \<Rightarrow> cs | _ \<Rightarrow> []))"

definition lawful :: "('a \<Rightarrow> 'b \<Rightarrow> bool) \<Rightarrow> bool \<Rightarrow> nat option \<Rightarrow> 'b thread_act \<Rightarrow> ('a, 'b) cluster \<Rightarrow> bool" where
  "lawful ok quiet who a s \<longleftrightarrow>
     (case a of Reply out \<Rightarrow> list_all2 ok (batch_of (working_on who s)) out
      | Put \<Rightarrow> \<not> (quiet \<and> cm_host s = TimedOut)
      | _ \<Rightarrow> True)"

inductive cluster_run :: "('a \<Rightarrow> 'b \<Rightarrow> bool) \<Rightarrow> bool \<Rightarrow> ('a, 'b) cluster \<Rightarrow> ('a, 'b) cluster \<Rightarrow> bool"
  for ok quiet where
  run_refl: "cluster_run ok quiet s s"
| run_step: "cluster_run ok quiet s t \<Longrightarrow> lawful ok quiet who a t \<Longrightarrow> cluster_next who a t = Some u \<Longrightarrow> cluster_run ok quiet s u"

fun_cases feeder_nextE: "feeder_next a f q res = Some x"
fun_cases host_nextE: "host_next a dead h q res = Some x"

section \<open>What is stored, what is pending\<close>

definition spans :: "'a work_chunk \<Rightarrow> nat \<Rightarrow> bool" where
  "spans c i \<longleftrightarrow> fst c \<le> i \<and> i < fst c + length (snd c)"

definition covers :: "'a work_chunk list \<Rightarrow> nat \<Rightarrow> bool" where
  "covers cs i \<longleftrightarrow> (\<exists>c \<in> set cs. spans c i)"

lemma covers_simps [simp]:
  "\<not> covers [] i" "covers (c # cs) i \<longleftrightarrow> spans c i \<or> covers cs i" "covers (cs @ ds) i \<longleftrightarrow> covers cs i \<or> covers ds i"
  by (auto simp: covers_def)

definition part_of :: "'a list \<Rightarrow> 'a work_chunk \<Rightarrow> bool" where
  "part_of items c \<longleftrightarrow> (case c of (start, b) \<Rightarrow> start + length b \<le> length items \<and> (\<forall>j < length b. b ! j = items ! (start + j)))"

lemma fold_enumerate_upd:
  "fold (\<lambda>(j, r) m. m(start + j \<mapsto> r)) (enumerate k xs) res i =
     (if start + k \<le> i \<and> i < start + k + length xs then Some (xs ! (i - start - k)) else res i)"
proof (induction xs arbitrary: k res)
  case (Cons x xs)
  show ?case
    using Cons.IH [of "Suc k" "res(start + k \<mapsto> x)"]
    by (cases "i = start + k") (auto simp: nth_Cons' Suc_diff_Suc)
qed auto

lemma store_chunks_spec:
  assumes "list_all2 ok (batch_of cs) out" "\<forall>c \<in> set cs. part_of items c"
    and "\<forall>i r. res i = Some r \<longrightarrow> i < length items \<and> ok (items ! i) r"
  shows "(\<forall>i r. store_chunks cs out res i = Some r \<longrightarrow> i < length items \<and> ok (items ! i) r) \<and>
    (\<forall>i. covers cs i \<or> res i \<noteq> None \<longrightarrow> store_chunks cs out res i \<noteq> None)"
  using assms
proof (induction cs out res rule: store_chunks.induct)
  case (2 start b cs out res)
  define res' where "res' = fold (\<lambda>(j, r) m. m(start + j \<mapsto> r)) (enumerate 0 (take (length b) out)) res"
  have out: "list_all2 ok b (take (length b) out)" "list_all2 ok (batch_of cs) (drop (length b) out)"
    using 2(2) by (auto simp: batch_of_def list_all2_append1)
  then have len: "length (take (length b) out) = length b" using list_all2_lengthD by fastforce
  have res': "res' i = (if start \<le> i \<and> i < start + length b then Some (take (length b) out ! (i - start)) else res i)" for i
    unfolding res'_def fold_enumerate_upd len by simp
  have b: "start + length b \<le> length items" "\<And>j. j < length b \<Longrightarrow> b ! j = items ! (start + j)"
    using 2(3) by (simp_all add: part_of_def)
  have ok: "i < length items \<and> ok (items ! i) r" if "res' i = Some r" for i r
  proof (cases "start \<le> i \<and> i < start + length b")
    case True
    then have "ok (b ! (i - start)) (take (length b) out ! (i - start))"
      using list_all2_nthD [OF out(1), of "i - start"] by (simp add: less_diff_conv2)
    with True that b show ?thesis by (auto simp: res')
  next
    case False
    with that 2(4) show ?thesis by (auto simp: res' split: if_splits)
  qed
  have "covers ((start, b) # cs) i \<or> res i \<noteq> None \<longrightarrow> covers cs i \<or> res' i \<noteq> None" for i
    by (auto simp: spans_def res')
  with 2(1) [folded res'_def] 2(3) out(2) ok show ?case by (simp add: res'_def [symmetric]) blast
qed simp_all

fun chunks_of :: "'a feeder_pc \<Rightarrow> 'a work_chunk list" where
  "chunks_of (Pulling n cs) = cs"
| "chunks_of (Working cs) = cs"
| "chunks_of (Counting cs) = cs"
| "chunks_of (Requeueing cs) = cs"
| "chunks_of _ = []"

fun pending_of :: "'a feeder_pc \<Rightarrow> 'a work_chunk list" where
  "pending_of (Counting cs) = []"
| "pending_of f = chunks_of f"

fun host_chunks :: "'a host_pc \<Rightarrow> 'a work_chunk list" where
  "host_chunks (HostPulling n cs) = cs"
| "host_chunks (HostWorking cs) = cs"
| "host_chunks (HostCounting cs) = cs"
| "host_chunks _ = []"

fun host_pending :: "'a host_pc \<Rightarrow> 'a work_chunk list" where
  "host_pending (HostCounting cs) = []"
| "host_pending h = host_chunks h"

definition right_results :: "('a \<Rightarrow> 'b \<Rightarrow> bool) \<Rightarrow> 'a list \<Rightarrow> (nat \<rightharpoonup> 'b) \<Rightarrow> bool" where
  "right_results ok items res \<longleftrightarrow> (\<forall>i r. res i = Some r \<longrightarrow> i < length items \<and> ok (items ! i) r)"

text \<open>One step of one thread: its chunks come from itself and the queue, the results stay right, and nothing pending
  is lost.\<close>

definition thread_step_ok ::
  "('a \<Rightarrow> 'b \<Rightarrow> bool) \<Rightarrow> 'a list \<Rightarrow> 'a work_chunk list \<times> 'a work_chunk list \<times> 'a work_chunk list \<times> (nat \<rightharpoonup> 'b) \<Rightarrow>
     'a work_chunk list \<times> 'a work_chunk list \<times> 'a work_chunk list \<times> (nat \<rightharpoonup> 'b) \<Rightarrow> bool" where
  "thread_step_ok ok items s t =
     (case s of (has, owes, q, res) \<Rightarrow> case t of (has', owes', q', res') \<Rightarrow>
        set q' \<union> set has' \<subseteq> set q \<union> set has \<and>
        ((\<forall>c \<in> set has. part_of items c) \<longrightarrow> right_results ok items res \<longrightarrow> right_results ok items res') \<and>
        ((\<forall>c \<in> set has. part_of items c) \<longrightarrow> right_results ok items res \<longrightarrow>
          (\<forall>i. covers q i \<or> covers owes i \<or> res i \<noteq> None \<longrightarrow> covers q' i \<or> covers owes' i \<or> res' i \<noteq> None)))"

lemma stored_ok:
  assumes "list_all2 ok (batch_of cs) out"
  shows "thread_step_ok ok items (cs, cs, q, res) (cs, [], q, store_chunks cs out res)"
  unfolding thread_step_ok_def prod.case
proof (intro conjI impI)
  assume "\<forall>c \<in> set cs. part_of items c" "right_results ok items res"
  with store_chunks_spec [OF assms, of items res]
  show "right_results ok items (store_chunks cs out res)"
    "\<forall>i. covers q i \<or> covers cs i \<or> res i \<noteq> None \<longrightarrow> covers q i \<or> covers [] i \<or> store_chunks cs out res i \<noteq> None"
    unfolding right_results_def by blast+
qed simp

lemma moved_ok:
  assumes "set q' \<union> set has' \<subseteq> set q \<union> set has"
    and "\<And>i. covers q i \<or> covers owes i \<Longrightarrow> covers q' i \<or> covers owes' i"
  shows "thread_step_ok ok items (has, owes, q, res) (has', owes', q', res)"
  using assms unfolding thread_step_ok_def prod.case by blast

lemma feeder_step_ok:
  assumes "feeder_next a f q res = Some (f', q', res')"
    and "\<And>out cs. a = Reply out \<Longrightarrow> f = Working cs \<Longrightarrow> list_all2 ok (batch_of cs) out"
  shows "thread_step_ok ok items (chunks_of f, pending_of f, q, res) (chunks_of f', pending_of f', q', res')"
  by (rule feeder_nextE [OF assms(1)]) (use assms(2) in \<open>auto intro!: moved_ok stored_ok split: if_splits list.splits\<close>)

lemma host_step_ok:
  assumes "host_next a dead h q res = Some (h', q', res')" "h' \<noteq> Raised"
    and "\<And>out cs. a = Reply out \<Longrightarrow> h = HostWorking cs \<Longrightarrow> list_all2 ok (batch_of cs) out"
  shows "thread_step_ok ok items (host_chunks h, host_pending h, q, res) (host_chunks h', host_pending h', q', res')"
  by (rule host_nextE [OF assms(1)]) (use assms(2,3) in \<open>auto intro!: moved_ok stored_ok split: if_splits list.splits\<close>)

section \<open>The invariant\<close>

definition owned :: "('a, 'b) cluster \<Rightarrow> 'a work_chunk set" where
  "owned s = set (cm_queue s) \<union> (\<Union>f \<in> set (cm_feeders s). set (chunks_of f)) \<union> set (host_chunks (cm_host s))"

definition accounted :: "('a, 'b) cluster \<Rightarrow> nat \<Rightarrow> bool" where
  "accounted s i \<longleftrightarrow>
     cm_results s i \<noteq> None \<or> covers (cm_queue s) i \<or> (\<exists>f \<in> set (cm_feeders s). covers (pending_of f) i) \<or>
     covers (host_pending (cm_host s)) i"

definition cluster_inv :: "('a \<Rightarrow> 'b \<Rightarrow> bool) \<Rightarrow> 'a list \<Rightarrow> ('a, 'b) cluster \<Rightarrow> bool" where
  "cluster_inv ok items s \<longleftrightarrow>
     (\<forall>c \<in> owned s. part_of items c) \<and> right_results ok items (cm_results s) \<and>
     (cm_host s \<noteq> Raised \<longrightarrow> (\<forall>i < length items. accounted s i)) \<and> (cm_host s = Returned \<longrightarrow> all_dead s)"

lemma chunks_from_parts: "c \<in> set (chunks_from idx k xs) \<Longrightarrow> xs = drop idx items \<Longrightarrow> part_of items c"
proof (induction idx k xs rule: chunks_from.induct)
  case (1 idx k xs)
  show ?case
  proof (cases "xs = [] \<or> k = 0")
    case False
    with 1(2) have "c = (idx, take k xs) \<or> c \<in> set (chunks_from (idx + k) k (drop k xs))"
      by (subst (asm) chunks_from.simps) simp
    moreover have "part_of items (idx, take k xs)" using 1(3) False by (auto simp: part_of_def)
    moreover have "drop k xs = drop (idx + k) items" using 1(3) by (simp add: add.commute)
    ultimately show ?thesis using 1(1) [OF False] by blast
  qed (use 1(2) in \<open>simp add: chunks_from.simps\<close>)
qed

lemma chunks_from_covers: "idx \<le> i \<Longrightarrow> i < idx + length xs \<Longrightarrow> 0 < k \<Longrightarrow> covers (chunks_from idx k xs) i"
proof (induction idx k xs rule: chunks_from.induct)
  case (1 idx k xs)
  then have "xs \<noteq> []" "k \<noteq> 0" by auto
  with 1 show ?case
    by (subst chunks_from.simps) (cases "i < idx + k"; auto simp: spans_def)
qed

lemma start_inv: "0 < k \<Longrightarrow> cluster_inv ok items (cluster_start k feeders items)"
  using chunks_from_parts [of _ 0 k items items] chunks_from_covers [of 0 _ items k]
  by (auto simp: cluster_inv_def cluster_start_def owned_def accounted_def right_results_def)

lemma feeder_inv:
  assumes inv: "cluster_inv ok items s" and i: "i < length (cm_feeders s)"
    and ok: "thread_step_ok ok items (chunks_of (cm_feeders s ! i), pending_of (cm_feeders s ! i), cm_queue s, cm_results s)
      (chunks_of f, pending_of f, q, res)" and alive: "cm_feeders s ! i \<noteq> Retired"
  shows "cluster_inv ok items (s\<lparr>cm_feeders := (cm_feeders s)[i := f], cm_queue := q, cm_results := res\<rparr>)"
proof -
  let ?f = "cm_feeders s ! i" and ?t = "s\<lparr>cm_feeders := (cm_feeders s)[i := f], cm_queue := q, cm_results := res\<rparr>"
  have mem: "?f \<in> set (cm_feeders s)" using i by simp
  have part: "\<forall>c \<in> set (chunks_of ?f). part_of items c" and right: "right_results ok items (cm_results s)"
    using inv mem by (auto simp: cluster_inv_def owned_def)
  from ok have sub: "set q \<union> set (chunks_of f) \<subseteq> set (cm_queue s) \<union> set (chunks_of ?f)"
    and right': "right_results ok items res"
    and cov: "\<And>j. covers (cm_queue s) j \<or> covers (pending_of ?f) j \<or> cm_results s j \<noteq> None \<Longrightarrow>
      covers q j \<or> covers (pending_of f) j \<or> res j \<noteq> None"
    using part right unfolding thread_step_ok_def prod.case by blast+
  have "owned ?t \<subseteq> owned s"
    using sub mem set_update_subset_insert [of "cm_feeders s" i f] by (fastforce simp: owned_def)
  moreover have "accounted ?t j" if "accounted s j" for j
  proof -
    consider "covers (cm_queue s) j \<or> covers (pending_of ?f) j \<or> cm_results s j \<noteq> None"
      | k where "k < length (cm_feeders s)" "k \<noteq> i" "covers (pending_of (cm_feeders s ! k)) j" | "covers (host_pending (cm_host s)) j"
      using \<open>accounted s j\<close> unfolding accounted_def by (metis in_set_conv_nth)
    then show ?thesis
    proof cases
      case 1
      moreover have "f \<in> set (cm_feeders ?t)" using i by (simp add: set_update_memI)
      ultimately show ?thesis using cov unfolding accounted_def by fastforce
    next
      case 2
      then have "cm_feeders s ! k \<in> set (cm_feeders ?t)" by (metis (no_types, lifting) cluster.select_convs(3) cluster.surjective
            cluster.update_convs(1-3) length_list_update nth_list_update_neq nth_mem)
      with 2(3) show ?thesis by (auto simp: accounted_def)
    qed (simp add: accounted_def)
  qed
  moreover have "cm_host s \<noteq> Returned"
    using inv mem alive by (auto simp: cluster_inv_def all_dead_def list_all_iff)
  ultimately show ?thesis using inv right' unfolding cluster_inv_def by auto
qed

lemma host_inv:
  assumes inv: "cluster_inv ok items s"
    and ok: "h \<noteq> Raised \<Longrightarrow> thread_step_ok ok items (host_chunks (cm_host s), host_pending (cm_host s), cm_queue s, cm_results s)
      (host_chunks h, host_pending h, q, res)"
    and raised: "h = Raised \<Longrightarrow> q = cm_queue s \<and> res = cm_results s"
    and "h = Returned \<Longrightarrow> all_dead s"
    and "cm_host s \<noteq> Raised"
  shows "cluster_inv ok items (s\<lparr>cm_host := h, cm_queue := q, cm_results := res\<rparr>)"
proof (cases "h = Raised")
  case True
  with raised inv show ?thesis by (auto simp: cluster_inv_def owned_def)
next
  case False
  have part: "\<forall>c \<in> set (host_chunks (cm_host s)). part_of items c" and right: "right_results ok items (cm_results s)"
    using inv by (auto simp: cluster_inv_def owned_def)
  from ok [OF False] have sub: "set q \<union> set (host_chunks h) \<subseteq> set (cm_queue s) \<union> set (host_chunks (cm_host s))"
    and right': "right_results ok items res"
    and cov: "\<And>j. covers (cm_queue s) j \<or> covers (host_pending (cm_host s)) j \<or> cm_results s j \<noteq> None \<Longrightarrow>
      covers q j \<or> covers (host_pending h) j \<or> res j \<noteq> None"
    using part right unfolding thread_step_ok_def prod.case by blast+
  let ?t = "s\<lparr>cm_host := h, cm_queue := q, cm_results := res\<rparr>"
  have "owned ?t \<subseteq> owned s" using sub by (auto simp: owned_def)
  moreover have "accounted ?t j" if "accounted s j" for j
    using that cov [of j] unfolding accounted_def by auto
  ultimately show ?thesis using inv right' assms(4,5) unfolding cluster_inv_def all_dead_def by auto
qed

lemma next_inv:
  assumes inv: "cluster_inv ok items s" and law: "lawful ok quiet who a s" and nxt: "cluster_next who a s = Some t"
  shows "cluster_inv ok items t"
proof (cases who)
  case None
  with nxt obtain h q res where n: "host_next a (all_dead s) (cm_host s) (cm_queue s) (cm_results s) = Some (h, q, res)"
    and t: "t = s\<lparr>cm_host := h, cm_queue := q, cm_results := res\<rparr>"
    by (auto simp: cluster_next_def split: option.splits)
  have reply: "list_all2 ok (batch_of cs) out" if "a = Reply out" "cm_host s = HostWorking cs" for out cs
    using law None that by (simp add: lawful_def working_on_def)
  have "h = Raised \<Longrightarrow> q = cm_queue s \<and> res = cm_results s" "h = Returned \<Longrightarrow> all_dead s" "cm_host s \<noteq> Raised"
    by (rule host_nextE [OF n]; auto split: if_splits list.splits)+
  with host_inv [OF inv] host_step_ok [OF n _ reply] show ?thesis unfolding t by blast
next
  case (Some i)
  with nxt obtain f q res where n: "feeder_next a (cm_feeders s ! i) (cm_queue s) (cm_results s) = Some (f, q, res)"
    and i: "i < length (cm_feeders s)" and t: "t = s\<lparr>cm_feeders := (cm_feeders s)[i := f], cm_queue := q, cm_results := res\<rparr>"
    by (auto simp: cluster_next_def split: option.splits if_splits)
  have reply: "list_all2 ok (batch_of cs) out" if "a = Reply out" "cm_feeders s ! i = Working cs" for out cs
    using law Some that by (simp add: lawful_def working_on_def)
  have "cm_feeders s ! i \<noteq> Retired" by (rule feeder_nextE [OF n]) simp_all
  with feeder_inv [OF inv i feeder_step_ok [OF n reply]] show ?thesis unfolding t by blast
qed

lemma cluster_run_inv: "cluster_run ok quiet s t \<Longrightarrow> cluster_inv ok items s \<Longrightarrow> cluster_inv ok items t"
  by (induction rule: cluster_run.induct) (blast intro: next_inv)+

text \<open>In a quiet run nothing comes into the queue between the host's time-out and its look.\<close>

lemma quiet_queue:
  assumes "cluster_run ok True s t" "cm_host s \<notin> {TimedOut, Returned}" "cluster_inv ok items s"
  shows "cm_host t \<in> {TimedOut, Returned} \<longrightarrow> cm_queue t = []"
  using assms
proof (induction rule: cluster_run.induct)
  case (run_step s t who a u)
  have inv: "cluster_inv ok items t" using cluster_run_inv run_step by blast
  show ?case
  proof (cases who)
    case None
    with run_step(3) obtain h q res where n: "host_next a (all_dead t) (cm_host t) (cm_queue t) (cm_results t) = Some (h, q, res)"
      and u: "u = t\<lparr>cm_host := h, cm_queue := q, cm_results := res\<rparr>"
      by (auto simp: cluster_next_def split: option.splits)
    have "h \<in> {TimedOut, Returned} \<longrightarrow> q = []"
      using run_step by (intro impI) (rule host_nextE [OF n]; auto split: if_splits list.splits)
    then show ?thesis by (simp add: u)
  next
    case (Some i)
    with run_step(3) obtain f q res where n: "feeder_next a (cm_feeders t ! i) (cm_queue t) (cm_results t) = Some (f, q, res)"
      and i: "i < length (cm_feeders t)" and u: "u = t\<lparr>cm_feeders := (cm_feeders t)[i := f], cm_queue := q, cm_results := res\<rparr>"
      by (auto simp: cluster_next_def split: option.splits if_splits)
    have "q = []" if h: "cm_host t \<in> {TimedOut, Returned}"
    proof -
      have "cm_host t = TimedOut"
      proof (rule ccontr)
        assume "cm_host t \<noteq> TimedOut"
        with h inv i have "cm_feeders t ! i = Retired" by (auto simp: cluster_inv_def all_dead_def list_all_length)
        with n show False by (auto elim: feeder_nextE)
      qed
      with run_step(2) have "a \<noteq> Put" by (auto simp: lawful_def)
      with n run_step h show ?thesis by (auto elim!: feeder_nextE split: if_splits list.splits)
    qed
    then show ?thesis by (simp add: u)
  qed
qed simp

lemma those_map:
  "those (map g is) = Some rs \<longleftrightarrow> length rs = length is \<and> (\<forall>j < length is. g (is ! j) = Some (rs ! j))"
proof (induction "is" arbitrary: rs)
  case (Cons i "is")
  show ?case
  proof (cases rs)
    case Nil
    then show ?thesis by (auto split: option.splits)
  next
    case (Cons r rs')
    then show ?thesis using Cons.IH [of rs'] by (auto simp: nth_Cons split: option.splits nat.splits)
  qed
qed auto

lemma those_None: "those (map g is) = None \<longleftrightarrow> (\<exists>i \<in> set is. g i = None)"
  by (induction "is") (auto split: option.splits)

text \<open>
  C11. In every interleaving of the host and the feeders, with every failure of a feeder: when \<open>cluster_map\<close> returns a list, it
  has one result for each item, in the order of the items, each what a run function promised for its item. It does
  return one when no chunk is put back between the host's time-out and its look at the threads; otherwise what is
  missing is still in the queue.
\<close>

theorem cluster_map_in_order:
  fixes items :: "'a list" and ok :: "'a \<Rightarrow> 'b \<Rightarrow> bool"
  assumes "cluster_run ok quiet (cluster_start (chunk_size (length items) feeders chunk) feeders items) s" and "cm_host s = Returned"
  shows "(\<forall>rs. map_result (length items) s = Some rs \<longrightarrow> list_all2 ok items rs) \<and>
    (quiet \<longrightarrow> map_result (length items) s \<noteq> None) \<and>
    (map_result (length items) s = None \<longrightarrow> (\<exists>i < length items. cm_results s i = None \<and> covers (cm_queue s) i))"
proof -
  let ?s0 = "cluster_start (chunk_size (length items) feeders chunk) feeders items :: ('a, 'b) cluster"
  have k: "0 < chunk_size (length items) feeders chunk" by (auto simp: chunk_size_def less_max_iff_disj split: option.split)
  have inv: "cluster_inv ok items s" by (rule cluster_run_inv [OF assms(1) start_inv [OF k]])
  have "\<forall>f \<in> set (cm_feeders s). pending_of f = []"
    using inv assms(2) by (auto simp: cluster_inv_def all_dead_def list_all_iff)
  then have acc: "cm_results s i \<noteq> None \<or> covers (cm_queue s) i" if "i < length items" for i
    using inv assms(2) that by (auto simp: cluster_inv_def accounted_def)
  have right: "list_all2 ok items rs" if "map_result (length items) s = Some rs" for rs
    using that inv by (auto simp: map_result_def those_map list_all2_conv_all_nth cluster_inv_def right_results_def)
  have missing: "\<exists>i < length items. cm_results s i = None \<and> covers (cm_queue s) i" if "map_result (length items) s = None"
  proof -
    from that obtain i where "i < length items" "cm_results s i = None" by (auto simp: map_result_def those_None)
    with acc show ?thesis by blast
  qed
  have "map_result (length items) s \<noteq> None" if quiet
  proof -
    have "cm_host ?s0 \<notin> {TimedOut, Returned}" by (simp add: cluster_start_def)
    from quiet_queue [OF assms(1) [unfolded eqTrueI [OF that]] this start_inv [OF k]] assms(2) have "cm_queue s = []" by simp
    with missing show ?thesis by auto
  qed
  with right missing show ?thesis by blast
qed

text \<open>A run given as a list of steps.\<close>

fun cluster_acts :: "('a \<Rightarrow> 'b \<Rightarrow> bool) \<Rightarrow> bool \<Rightarrow> (nat option \<times> 'b thread_act) list \<Rightarrow> ('a, 'b) cluster \<Rightarrow> ('a, 'b) cluster option" where
  "cluster_acts ok quiet [] s = Some s"
| "cluster_acts ok quiet ((who, a) # acts) s =
     (if lawful ok quiet who a s then (case cluster_next who a s of None \<Rightarrow> None | Some t \<Rightarrow> cluster_acts ok quiet acts t) else None)"

lemma cluster_acts_run: "cluster_acts ok quiet acts t = Some u \<Longrightarrow> cluster_run ok quiet s t \<Longrightarrow> cluster_run ok quiet s u"
  by (induction ok quiet acts t rule: cluster_acts.induct) (auto split: if_splits option.splits intro: cluster_run.run_step)

definition doubled :: "nat \<Rightarrow> nat \<Rightarrow> bool" where
  "doubled x r \<longleftrightarrow> r = 2 * x"

text \<open>A feeder takes the first chunk, fails and puts it back; the host runs the rest and then that chunk.\<close>

definition demo_acts :: "(nat option \<times> nat thread_act) list" where
  "demo_acts =
     [(Some 0, Decide 1), (Some 0, Get), (Some 0, Get), (None, Decide 2), (None, Get), (None, Get), (Some 0, Break),
      (None, Reply [6]), (None, Counted), (Some 0, Put), (Some 0, Put), (None, Decide 1), (None, Get), (None, Get),
      (None, Reply [2, 4]), (None, Counted), (None, Decide 1), (None, Wait), (None, Look)]"

theorem cluster_map_in_order_witness:
  "\<exists>s. cluster_run doubled True (cluster_start (chunk_size 3 1 None) 1 [1, 2, 3]) s \<and> cm_host s = Returned \<and>
     map_result 3 s = Some [2, 4, 6] \<and> list_all2 doubled [1, 2, 3] [2, 4, 6]"
proof -
  let ?s0 = "cluster_start (chunk_size 3 1 None) 1 [1, 2, 3] :: (nat, nat) cluster"
  define s where "s = the (cluster_acts doubled True demo_acts ?s0)"
  have "cluster_acts doubled True demo_acts ?s0 \<noteq> None" "cm_host s = Returned" and r: "map_result 3 s = Some [2, 4, 6]"
    unfolding s_def by code_simp+
  then have run: "cluster_run doubled True ?s0 s"
    using cluster_acts_run [OF _ cluster_run.run_refl, of doubled True demo_acts ?s0 s] by (auto simp: s_def)
  have l: "length [1, 2, 3 :: nat] = 3" by simp
  from cluster_map_in_order [of doubled True "[1, 2, 3]" 1 None s, unfolded l, OF run \<open>cm_host s = Returned\<close>] r
  have "list_all2 doubled [1, 2, 3] [2, 4, 6]" by blast
  with run r \<open>cm_host s = Returned\<close> show ?thesis by blast
qed

text \<open>
  Work is lost when a feeder fails between the host's time-out and its look: the chunk is back in the queue, the thread
  is dead, and the host stops. \<open>cluster_map\<close> then raises \<open>KeyError\<close>; \<open>parallel_map_with_feeder\<close> returns a shorter list.
\<close>

definition race_acts :: "(nat option \<times> nat thread_act) list" where
  "race_acts =
     [(Some 0, Decide 1), (Some 0, Get), (Some 0, Get), (None, Decide 1), (None, Wait), (Some 0, Break), (Some 0, Put),
      (Some 0, Put), (None, Look)]"

lemma work_lost_in_the_race:
  "case cluster_acts doubled False race_acts (cluster_start 1 1 [7]) of
     None \<Rightarrow> False
   | Some s \<Rightarrow> cm_host s = Returned \<and> cm_queue s = [(0, [7])] \<and> map_result 1 s = None \<and> parallel_result 1 s = []"
  by code_simp

text \<open>A progress callback that raises on a feeder's thread puts back work that is done, and the host does it again.\<close>

lemma finished_work_is_requeued:
  "case cluster_acts doubled True [(Some 0, Decide 1), (Some 0, Get), (Some 0, Get), (Some 0, Reply [14]), (Some 0, Break), (Some 0, Put)]
      (cluster_start 1 1 [7]) of
     None \<Rightarrow> False
   | Some s \<Rightarrow> cm_queue s = [(0, [7])] \<and> cm_results s 0 = Some 14"
  by code_simp

section \<open>Without a feeder\<close>

text \<open>Batches in order on the caller's thread; \<open>Inl\<close> is what \<open>run_local\<close> raises.\<close>

fun local_batches :: "('a list \<Rightarrow> 'e + 'b list) \<Rightarrow> 'a work_chunk list \<Rightarrow> 'b list \<Rightarrow> 'e + 'b list" where
  "local_batches run_local [] results = Inr results"
| "local_batches run_local ((start, batch) # cs) results =
     bind_result (run_local batch) (\<lambda>out. local_batches run_local cs (results @ out))"

definition map_locally :: "('a list \<Rightarrow> 'e + 'b list) \<Rightarrow> int option \<Rightarrow> 'a list \<Rightarrow> 'e + 'b list" where
  "map_locally run_local chunk items =
     (let n = length items; k = (case chunk of None \<Rightarrow> n | Some c \<Rightarrow> nat (max 1 c))
      in if n = 0 then Inr [] else local_batches run_local (chunks_from 0 k items) [])"

lemma chunks_from_concat: "0 < k \<Longrightarrow> batch_of (chunks_from idx k xs) = xs"
proof (induction idx k xs rule: chunks_from.induct)
  case (1 idx k xs)
  then show ?case by (subst chunks_from.simps) (auto simp: batch_of_def)
qed

lemma local_batches_ok:
  assumes "\<And>b out. run_local b = Inr out \<Longrightarrow> list_all2 ok b out"
  shows "local_batches run_local cs results = Inr rs \<Longrightarrow> \<exists>out. rs = results @ out \<and> list_all2 ok (batch_of cs) out"
proof (induction cs arbitrary: results)
  case (Cons c cs)
  obtain start batch where c: "c = (start, batch)" by fastforce
  with Cons.prems obtain out where out: "run_local batch = Inr out" "local_batches run_local cs (results @ out) = Inr rs"
    by (auto simp: bind_result_Inr_iff)
  from Cons.IH [OF out(2)] obtain out' where "rs = (results @ out) @ out'" "list_all2 ok (batch_of cs) out'" by blast
  with assms [OF out(1)] show ?case by (intro exI [of _ "out @ out'"]) (simp add: c batch_of_def list_all2_appendI)
qed (simp add: batch_of_def)

lemma map_locally_in_order:
  assumes "\<And>b out. run_local b = Inr out \<Longrightarrow> list_all2 ok b out" "map_locally run_local chunk items = Inr rs"
  shows "list_all2 ok items rs"
proof (cases "items = []")
  case False
  define k where "k = (case chunk of None \<Rightarrow> length items | Some c \<Rightarrow> nat (max 1 c))"
  have "0 < k" using False by (auto simp: k_def less_max_iff_disj split: option.split)
  with assms(2) False have "local_batches run_local (chunks_from 0 k items) [] = Inr rs"
    by (simp add: map_locally_def Let_def k_def)
  from local_batches_ok [OF assms(1) this] \<open>0 < k\<close> show ?thesis by (auto simp: chunks_from_concat)
qed (use assms(2) in \<open>simp add: map_locally_def\<close>)

end
