(* ===== verification/Job_Queue.thy ===== *)
theory Job_Queue
  imports GB_Prelude
begin

text \<open>
  The job queue of \<^verbatim>\<open>gb_cluster.py\<close> for jobs that arrive one by one (\<open>ClusterJobQueue\<close>): the host's thread and a
  thread per feeder take jobs from one queue, each job has a future, and closing the queue puts a sentinel for each
  thread. Threads, clients that submit and a client that closes interleave; \<open>submit\<close> is two steps, the look at
  \<open>_closed\<close> and the put.
\<close>

datatype job = Job nat | Stop

datatype 'b future = Pending | Running | Done 'b | Failed | Cancelled

datatype worker = Free | Holding nat | Retrying nat | Ended

text \<open>Worker 0 is the host. \<open>jq_entered\<close> counts the clients between their look and their put, \<open>jq_closing\<close> the
  sentinels still to come.\<close>

record 'b jobs =
  jq_queue :: "job list"
  jq_futures :: "'b future list"
  jq_workers :: "worker list"
  jq_entered :: nat
  jq_closed :: bool
  jq_closing :: nat

datatype 'b jact = Enter | Submit | Cancel nat | Close | PutStop | Take nat | Answer nat 'b | Raise nat

definition start_jobs :: "nat \<Rightarrow> 'b jobs" where
  "start_jobs feeders =
     \<lparr>jq_queue = [], jq_futures = [], jq_workers = replicate (Suc feeders) Free, jq_entered = 0, jq_closed = False, jq_closing = 0\<rparr>"

text \<open>\<open>set_running_or_notify_cancel\<close>: a cancelled future is left, a pending one runs, any other raises in the thread.\<close>

definition take_job :: "nat \<Rightarrow> 'b jobs \<Rightarrow> 'b jobs option" where
  "take_job i s =
     (if i < length (jq_workers s) \<and> jq_workers s ! i = Free then
        (case jq_queue s of
           [] \<Rightarrow> None
         | Stop # q \<Rightarrow> Some (s\<lparr>jq_queue := q, jq_workers := (jq_workers s)[i := Ended]\<rparr>)
         | Job f # q \<Rightarrow>
             Some (case jq_futures s ! f of
                 Cancelled \<Rightarrow> s\<lparr>jq_queue := q\<rparr>
               | Pending \<Rightarrow> s\<lparr>jq_queue := q, jq_futures := (jq_futures s)[f := Running], jq_workers := (jq_workers s)[i := Holding f]\<rparr>
               | _ \<Rightarrow> s\<lparr>jq_queue := q, jq_workers := (jq_workers s)[i := Ended]\<rparr>))
      else None)"

text \<open>A feeder whose run raises runs the job once more on the host's behalf, settles it and ends.\<close>

definition finish_job :: "nat \<Rightarrow> 'b option \<Rightarrow> 'b jobs \<Rightarrow> 'b jobs option" where
  "finish_job i r s =
     (if i < length (jq_workers s) then
        (let settle = (\<lambda>f w. Some (s\<lparr>jq_futures := (jq_futures s)[f := (case r of None \<Rightarrow> Failed | Some x \<Rightarrow> Done x)],
              jq_workers := (jq_workers s)[i := w]\<rparr>)) in
         case jq_workers s ! i of
           Holding f \<Rightarrow> if r = None \<and> i > 0 then Some (s\<lparr>jq_workers := (jq_workers s)[i := Retrying f]\<rparr>) else settle f Free
         | Retrying f \<Rightarrow> settle f Ended
         | _ \<Rightarrow> None)
      else None)"

definition jobs_next :: "'b jact \<Rightarrow> 'b jobs \<Rightarrow> 'b jobs option" where
  "jobs_next a s =
     (case a of
        Enter \<Rightarrow> if jq_closed s then None else Some (s\<lparr>jq_entered := Suc (jq_entered s)\<rparr>)
      | Submit \<Rightarrow> if jq_entered s = 0 then None
          else Some (s\<lparr>jq_entered := jq_entered s - 1, jq_futures := jq_futures s @ [Pending],
            jq_queue := jq_queue s @ [Job (length (jq_futures s))]\<rparr>)
      | Cancel f \<Rightarrow> if f < length (jq_futures s) \<and> jq_futures s ! f = Pending
          then Some (s\<lparr>jq_futures := (jq_futures s)[f := Cancelled]\<rparr>) else None
      | Close \<Rightarrow> if jq_closed s then None else Some (s\<lparr>jq_closed := True, jq_closing := length (jq_workers s)\<rparr>)
      | PutStop \<Rightarrow> if jq_closing s = 0 then None
          else Some (s\<lparr>jq_closing := jq_closing s - 1, jq_queue := jq_queue s @ [Stop]\<rparr>)
      | Take i \<Rightarrow> take_job i s
      | Answer i r \<Rightarrow> finish_job i (Some r) s
      | Raise i \<Rightarrow> finish_job i None s)"

definition settled :: "'b future \<Rightarrow> bool" where
  "settled f \<longleftrightarrow> f \<noteq> Pending \<and> f \<noteq> Running"

text \<open>\<open>orderly\<close>: nobody puts a job after the queue was closed.\<close>

definition late :: "'b jact \<Rightarrow> 'b jobs \<Rightarrow> bool" where
  "late a s \<longleftrightarrow> (case a of Submit \<Rightarrow> jq_closed s | _ \<Rightarrow> False)"

lemma late_iff: "late a s \<longleftrightarrow> a = Submit \<and> jq_closed s"
  by (cases a) (simp_all add: late_def)

inductive jobs_run :: "bool \<Rightarrow> 'b jobs \<Rightarrow> 'b jobs \<Rightarrow> bool" for orderly where
  jobs_refl: "jobs_run orderly s s"
| jobs_step: "jobs_run orderly s t \<Longrightarrow> \<not> (orderly \<and> late a t) \<Longrightarrow> jobs_next a t = Some u \<Longrightarrow> jobs_run orderly s u"

section \<open>The invariant\<close>

definition held_by :: "'b jobs \<Rightarrow> nat \<Rightarrow> nat \<Rightarrow> bool" where
  "held_by s i f \<longleftrightarrow> i < length (jq_workers s) \<and> (jq_workers s ! i = Holding f \<or> jq_workers s ! i = Retrying f)"

definition futures_ok :: "'b jobs \<Rightarrow> bool" where
  "futures_ok s \<longleftrightarrow>
     distinct (filter (\<lambda>j. j \<noteq> Stop) (jq_queue s)) \<and>
     (\<forall>f. Job f \<in> set (jq_queue s) \<longrightarrow> f < length (jq_futures s) \<and> jq_futures s ! f \<in> {Pending, Cancelled}) \<and>
     (\<forall>f < length (jq_futures s). jq_futures s ! f = Pending \<longrightarrow> Job f \<in> set (jq_queue s)) \<and>
     (\<forall>f < length (jq_futures s). jq_futures s ! f = Running \<longrightarrow> (\<exists>i. held_by s i f)) \<and>
     (\<forall>i f. held_by s i f \<longrightarrow> f < length (jq_futures s) \<and> jq_futures s ! f = Running) \<and>
     (\<forall>i j f. held_by s i f \<longrightarrow> held_by s j f \<longrightarrow> i = j)"

definition order_ok :: "'b jobs \<Rightarrow> bool" where
  "order_ok s \<longleftrightarrow>
     jq_workers s \<noteq> [] \<and> (\<exists>js m. jq_queue s = map Job js @ replicate m Stop) \<and>
     (Stop \<in> set (jq_queue s) \<or> jq_closing s > 0 \<or> jq_workers s ! 0 = Ended \<longrightarrow> jq_closed s) \<and>
     (jq_workers s ! 0 = Ended \<longrightarrow> (\<forall>f. Job f \<notin> set (jq_queue s)))"

lemma futures_start: "futures_ok (start_jobs feeders)"
  by (auto simp: futures_ok_def start_jobs_def held_by_def nth_Cons split: nat.splits)

lemma futures_submit:
  assumes "futures_ok s"
  shows "futures_ok (s\<lparr>jq_entered := n, jq_futures := jq_futures s @ [Pending], jq_queue := jq_queue s @ [Job (length (jq_futures s))]\<rparr>)"
  using assms by (auto simp: futures_ok_def held_by_def nth_append less_Suc_eq)

lemma futures_cancel:
  assumes "futures_ok s" "f < length (jq_futures s)" "jq_futures s ! f = Pending"
  shows "futures_ok (s\<lparr>jq_futures := (jq_futures s)[f := Cancelled]\<rparr>)"
proof -
  have held: "held_by (s\<lparr>jq_futures := (jq_futures s)[f := Cancelled]\<rparr>) k g \<longleftrightarrow> held_by s k g" for k g
    by (simp add: held_by_def)
  show ?thesis using assms unfolding futures_ok_def held by (auto simp: nth_list_update)
qed

lemma futures_stop:
  assumes "futures_ok s"
  shows "futures_ok (s\<lparr>jq_closing := n, jq_queue := jq_queue s @ [Stop]\<rparr>)"
  using assms by (auto simp: futures_ok_def held_by_def)

lemma futures_ended:
  assumes "futures_ok s" "jq_queue s = Stop # q" "i < length (jq_workers s)" "jq_workers s ! i = Free"
  shows "futures_ok (s\<lparr>jq_queue := q, jq_workers := (jq_workers s)[i := Ended]\<rparr>)"
proof -
  have "held_by (s\<lparr>jq_queue := q, jq_workers := (jq_workers s)[i := Ended]\<rparr>) k f \<longleftrightarrow> held_by s k f" for k f
    using assms(3,4) by (auto simp: held_by_def nth_list_update)
  with assms(1,2) show ?thesis unfolding futures_ok_def by auto
qed

lemma futures_dropped:
  assumes "futures_ok s" "jq_queue s = Job f # q" "jq_futures s ! f = Cancelled"
  shows "futures_ok (s\<lparr>jq_queue := q\<rparr>)"
  using assms unfolding futures_ok_def held_by_def by auto

lemma futures_taken:
  assumes ok: "futures_ok s" and q: "jq_queue s = Job f # q" and i: "i < length (jq_workers s)" "jq_workers s ! i = Free"
    and "jq_futures s ! f = Pending"
  shows "futures_ok (s\<lparr>jq_queue := q, jq_futures := (jq_futures s)[f := Running], jq_workers := (jq_workers s)[i := Holding f]\<rparr>)"
    (is "futures_ok ?t")
proof -
  have f: "f < length (jq_futures s)" using ok q by (simp add: futures_ok_def)
  have none: "\<not> held_by s k f" for k using ok assms(5) by (auto simp: futures_ok_def)
  have held: "held_by ?t k g \<longleftrightarrow> (if k = i then g = f else held_by s k g)" for k g
    using i by (auto simp: held_by_def nth_list_update)
  have free: "\<not> held_by s i g" for g using i by (simp add: held_by_def)
  show ?thesis using ok q f none free unfolding futures_ok_def held
    by (auto simp: nth_list_update) metis
qed

lemma futures_settled:
  assumes ok: "futures_ok s" and "held_by s i f" "settled x" and w: "w \<in> {Free, Ended}"
  shows "futures_ok (s\<lparr>jq_futures := (jq_futures s)[f := x], jq_workers := (jq_workers s)[i := w]\<rparr>)" (is "futures_ok ?t")
proof -
  have f: "f < length (jq_futures s)" "jq_futures s ! f = Running" "\<And>k. held_by s k f \<Longrightarrow> k = i"
    using ok assms(2) unfolding futures_ok_def by blast+
  have own: "held_by s i g \<longleftrightarrow> g = f" for g using assms(2) by (auto simp: held_by_def)
  have held: "held_by ?t k g \<longleftrightarrow> k \<noteq> i \<and> held_by s k g" for k g
    using w assms(2) by (auto simp: held_by_def nth_list_update)
  have x: "x \<noteq> Pending" "x \<noteq> Running" using assms(3) by (auto simp: settled_def)
  show ?thesis using ok f own x unfolding futures_ok_def held
    by (auto simp: nth_list_update) metis
qed

lemma futures_retry:
  assumes "futures_ok s" "i < length (jq_workers s)" "jq_workers s ! i = Holding f"
  shows "futures_ok (s\<lparr>jq_workers := (jq_workers s)[i := Retrying f]\<rparr>)"
proof -
  have "held_by (s\<lparr>jq_workers := (jq_workers s)[i := Retrying f]\<rparr>) k g \<longleftrightarrow> held_by s k g" for k g
    using assms(2,3) by (auto simp: held_by_def nth_list_update)
  with assms(1) show ?thesis unfolding futures_ok_def by simp
qed

lemma finish_futures:
  assumes ok: "futures_ok s" and "finish_job i r s = Some t"
  shows "futures_ok t"
proof -
  have x: "settled (case r of None \<Rightarrow> Failed | Some x \<Rightarrow> Done x)" by (simp add: settled_def split: option.split)
  have i: "i < length (jq_workers s)" using assms(2) by (simp add: finish_job_def split: if_splits)
  show ?thesis
  proof (cases "jq_workers s ! i")
    case (Holding f)
    with i have "held_by s i f" by (simp add: held_by_def)
    with Holding i assms(2) futures_settled [OF ok _ x] futures_retry [OF ok i Holding] show ?thesis
      by (auto simp: finish_job_def split: if_splits)
  next
    case (Retrying f)
    with i have "held_by s i f" by (simp add: held_by_def)
    with Retrying i assms(2) futures_settled [OF ok _ x] show ?thesis by (auto simp: finish_job_def)
  qed (use assms(2) i in \<open>simp_all add: finish_job_def\<close>)
qed

lemma take_futures:
  assumes ok: "futures_ok s" and "take_job i s = Some t"
  shows "futures_ok t"
proof -
  have i: "i < length (jq_workers s)" "jq_workers s ! i = Free" using assms(2) by (auto simp: take_job_def split: if_splits)
  obtain j q where q: "jq_queue s = j # q" using assms(2) by (auto simp: take_job_def split: if_splits list.splits)
  show ?thesis
  proof (cases j)
    case (Job f)
    then have "jq_futures s ! f \<in> {Pending, Cancelled}" using ok q by (simp add: futures_ok_def)
    with Job i q assms(2) futures_taken [OF ok _ i] futures_dropped [OF ok] show ?thesis
      by (auto simp: take_job_def)
  qed (use assms(2) i q futures_ended [OF ok _ i] in \<open>simp add: take_job_def\<close>)
qed

lemma unchanged_futures:
  assumes "futures_ok s" "jq_queue t = jq_queue s" "jq_futures t = jq_futures s" "jq_workers t = jq_workers s"
  shows "futures_ok t"
proof -
  have "held_by t = held_by s" using assms(4) by (intro ext) (simp add: held_by_def)
  with assms show ?thesis unfolding futures_ok_def by simp
qed

lemma next_futures:
  assumes ok: "futures_ok s" and nxt: "jobs_next a s = Some t"
  shows "futures_ok t"
proof (cases a)
  case Submit
  with nxt futures_submit [OF ok, of "jq_entered s - 1"] show ?thesis by (auto simp: jobs_next_def split: if_splits)
next
  case (Cancel f)
  with nxt futures_cancel [OF ok, of f] show ?thesis by (auto simp: jobs_next_def split: if_splits)
next
  case PutStop
  with nxt futures_stop [OF ok, of "jq_closing s - 1"] show ?thesis by (auto simp: jobs_next_def split: if_splits)
qed (use nxt in \<open>auto simp: jobs_next_def split: if_splits intro: unchanged_futures [OF ok] take_futures [OF ok] finish_futures [OF ok]\<close>)

lemma held_settle_once:
  assumes "futures_ok s" "finish_job i r s = Some t" "f < length (jq_futures s)" "settled (jq_futures s ! f)"
  shows "jq_futures t ! f = jq_futures s ! f"
proof -
  have "jq_futures t = jq_futures s \<or> (\<exists>g x. held_by s i g \<and> jq_futures t = (jq_futures s)[g := x])"
    using assms(2) by (auto simp: finish_job_def held_by_def split: if_splits worker.splits)
  moreover have "g \<noteq> f" if "held_by s i g" for g
    using assms(1,4) that by (auto simp: futures_ok_def settled_def)
  ultimately show ?thesis by (auto simp: nth_list_update_neq)
qed

lemma settled_stays:
  assumes ok: "futures_ok s" and nxt: "jobs_next a s = Some t" and f: "f < length (jq_futures s)" "settled (jq_futures s ! f)"
  shows "f < length (jq_futures t) \<and> jq_futures t ! f = jq_futures s ! f"
proof -
  have len: "length (jq_futures s) \<le> length (jq_futures t)"
    using nxt by (cases a) (auto simp: jobs_next_def take_job_def finish_job_def split: if_splits list.splits job.splits future.splits worker.splits)
  have "jq_futures t ! f = jq_futures s ! f"
  proof (cases a)
    case (Take i)
    with nxt have "jq_futures t = jq_futures s \<or> (\<exists>g. jq_futures s ! g = Pending \<and> jq_futures t = (jq_futures s)[g := Running])"
      by (auto simp: jobs_next_def take_job_def split: if_splits list.splits job.splits future.splits)
    with f(2) show ?thesis by (metis nth_list_update_neq settled_def)
  qed (use nxt f held_settle_once [OF ok] in
      \<open>auto simp: jobs_next_def nth_append nth_list_update settled_def split: if_splits\<close>)
  with len f(1) show ?thesis by simp
qed

section \<open>Order\<close>

lemma order_start: "order_ok (start_jobs feeders)"
  by (simp add: order_ok_def start_jobs_def)

lemma tail_shape:
  assumes "j # q = map Job js @ replicate m Stop"
  shows "\<exists>js m. q = map Job js @ replicate m Stop"
proof (cases js)
  case Nil
  then have "q = map Job [] @ replicate (m - 1) Stop" using assms by (cases m) simp_all
  then show ?thesis by blast
next
  case (Cons a as)
  then show ?thesis using assms by auto
qed

lemma take_order:
  assumes "order_ok s" "futures_ok s" "take_job i s = Some t"
  shows "order_ok t"
proof -
  have i: "i < length (jq_workers s)" "jq_workers s ! i = Free" using assms(3) by (auto simp: take_job_def split: if_splits)
  obtain j q where q: "jq_queue s = j # q" using assms(3) by (auto simp: take_job_def split: if_splits list.splits)
  obtain js m where shape: "j # q = map Job js @ replicate m Stop" using assms(1) q by (auto simp: order_ok_def)
  have jf: "jq_futures s ! f \<in> {Pending, Cancelled}" if "j = Job f" for f
    using assms(2) q that by (simp add: futures_ok_def)
  have t: "jq_queue t = q \<and> jq_closed t = jq_closed s \<and> jq_closing t = jq_closing s \<and>
    length (jq_workers t) = length (jq_workers s)"
  proof (cases j)
    case (Job f)
    with jf assms(3) i q show ?thesis by (auto simp: take_job_def)
  qed (use assms(3) i q in \<open>auto simp: take_job_def\<close>)
  have ended: "j = Stop" if "jq_workers t ! 0 = Ended" "jq_workers s ! 0 \<noteq> Ended"
  proof (cases j)
    case (Job f)
    with jf that assms(3) i q show ?thesis by (cases "i = 0") (auto simp: take_job_def)
  qed
  have closed: "Stop \<in> set (jq_queue s) \<or> jq_closing s > 0 \<or> jq_workers s ! 0 = Ended \<longrightarrow> jq_closed s"
    and none: "jq_workers s ! 0 = Ended \<longrightarrow> (\<forall>f. Job f \<notin> set (jq_queue s))" and "jq_workers s \<noteq> []"
    using assms(1) unfolding order_ok_def by blast+
  have "Job f \<notin> set q" if "jq_workers t ! 0 = Ended" for f
  proof (cases "jq_workers s ! 0 = Ended")
    case False
    with ended that shape have "js = []" by (cases js) auto
    with shape show ?thesis by (cases m) auto
  qed (use none q in simp)
  moreover have "Stop \<in> set q \<or> jq_closing s > 0 \<or> jq_workers t ! 0 = Ended \<longrightarrow> jq_closed s"
    using closed ended q by auto
  moreover have "jq_workers t \<noteq> []" using t \<open>jq_workers s \<noteq> []\<close> by force
  ultimately show ?thesis using t tail_shape [OF shape] unfolding order_ok_def by simp
qed

lemma finish_order:
  assumes "order_ok s" "finish_job i r s = Some t" "i = 0 \<longrightarrow> (\<forall>f. jq_workers s ! 0 \<noteq> Retrying f)"
  shows "order_ok t"
proof -
  have t: "jq_queue t = jq_queue s \<and> jq_closed t = jq_closed s \<and> jq_closing t = jq_closing s \<and>
    length (jq_workers t) = length (jq_workers s) \<and> i < length (jq_workers s)"
    using assms(2) by (cases "i < length (jq_workers s)"; cases "jq_workers s ! i") (auto simp: finish_job_def split: if_splits)
  have "jq_workers t ! 0 = Ended \<longrightarrow> jq_workers s ! 0 = Ended"
  proof (cases "i = 0")
    case True
    with assms(2,3) t show ?thesis by (cases "jq_workers s ! 0") (auto simp: finish_job_def)
  next
    case False
    with assms(2) t show ?thesis by (cases "jq_workers s ! i") (auto simp: finish_job_def split: if_splits)
  qed
  moreover have "jq_workers t \<noteq> []" using t by force
  ultimately show ?thesis using assms(1) t unfolding order_ok_def by simp
qed

text \<open>The host never runs a job a second time.\<close>

lemma host_no_retry:
  assumes "jobs_next a s = Some t" "\<forall>f. jq_workers s ! 0 \<noteq> Retrying f"
  shows "jq_workers t ! 0 \<noteq> Retrying f"
proof -
  have 1: "jq_workers t ! 0 \<noteq> Retrying f" if "take_job i s = Some t" for i
    using that assms(2) by (cases "i = 0") (auto simp: take_job_def split: if_splits list.splits job.splits future.splits)
  have 2: "jq_workers t ! 0 \<noteq> Retrying f" if "finish_job i r s = Some t" for i r
    using that assms(2) by (cases "i = 0") (auto simp: finish_job_def Let_def split: if_splits worker.splits)
  show ?thesis
  proof (cases a)
    case (Take i)
    with assms(1) 1 show ?thesis by (simp add: jobs_next_def)
  next
    case (Answer i r)
    with assms(1) 2 show ?thesis by (simp add: jobs_next_def)
  next
    case (Raise i)
    with assms(1) 2 show ?thesis by (simp add: jobs_next_def)
  qed (use assms in \<open>auto simp: jobs_next_def split: if_splits\<close>)
qed

lemma next_order:
  assumes ok: "order_ok s" "futures_ok s" "\<forall>f. jq_workers s ! 0 \<noteq> Retrying f"
    and nxt: "jobs_next a s = Some t" and quiet: "\<not> (a = Submit \<and> jq_closed s)"
  shows "order_ok t"
proof (cases a)
  case Submit
  with nxt quiet have t: "t = s\<lparr>jq_entered := jq_entered s - 1, jq_futures := jq_futures s @ [Pending],
            jq_queue := jq_queue s @ [Job (length (jq_futures s))]\<rparr>" and open_queue: "\<not> jq_closed s"
    by (auto simp: jobs_next_def split: if_splits)
  obtain js m where "jq_queue s = map Job js @ replicate m Stop" using ok(1) by (auto simp: order_ok_def)
  moreover from this open_queue ok(1) have "m = 0" by (cases m) (auto simp: order_ok_def)
  ultimately have "jq_queue t = map Job (js @ [length (jq_futures s)]) @ replicate 0 Stop" by (simp add: t)
  then have "\<exists>js m. jq_queue t = map Job js @ replicate m Stop" by blast
  moreover have "Stop \<notin> set (jq_queue t)" "jq_closing t = 0" "jq_workers t ! 0 \<noteq> Ended" "jq_workers t \<noteq> []"
    using ok(1) open_queue by (auto simp: t order_ok_def)
  ultimately show ?thesis unfolding order_ok_def by simp
next
  case PutStop
  with nxt have t: "t = s\<lparr>jq_closing := jq_closing s - 1, jq_queue := jq_queue s @ [Stop]\<rparr>" and "0 < jq_closing s"
    by (auto simp: jobs_next_def split: if_splits)
  obtain js m where "jq_queue s = map Job js @ replicate m Stop" using ok(1) by (auto simp: order_ok_def)
  then have "jq_queue t = map Job js @ replicate (Suc m) Stop" by (simp add: t replicate_append_same)
  then have "\<exists>js m. jq_queue t = map Job js @ replicate m Stop" by blast
  with ok(1) \<open>0 < jq_closing s\<close> show ?thesis unfolding order_ok_def by (simp add: t)
next
  case (Take i)
  with nxt take_order [OF ok(1,2)] show ?thesis by (simp add: jobs_next_def)
next
  case (Answer i r)
  with nxt finish_order [OF ok(1)] ok(3) show ?thesis by (simp add: jobs_next_def)
next
  case (Raise i)
  with nxt finish_order [OF ok(1)] ok(3) show ?thesis by (simp add: jobs_next_def)
next
  case Close
  with nxt have t: "t = s\<lparr>jq_closed := True, jq_closing := length (jq_workers s)\<rparr>" by (simp add: jobs_next_def split: if_splits)
  from ok(1) show ?thesis unfolding t order_ok_def by simp
next
  case Enter
  with nxt have t: "t = s\<lparr>jq_entered := Suc (jq_entered s)\<rparr>" by (simp add: jobs_next_def split: if_splits)
  from ok(1) show ?thesis unfolding t order_ok_def by simp
next
  case (Cancel f)
  with nxt have t: "t = s\<lparr>jq_futures := (jq_futures s)[f := Cancelled]\<rparr>" by (simp add: jobs_next_def split: if_splits)
  from ok(1) show ?thesis unfolding t order_ok_def by simp
qed

lemma jobs_inv:
  assumes "jobs_run orderly (start_jobs feeders) s"
  shows "futures_ok s \<and> (\<forall>f. jq_workers s ! 0 \<noteq> Retrying f) \<and> (orderly \<longrightarrow> order_ok s)"
  using assms
proof (induction "start_jobs feeders :: 'a jobs" s rule: jobs_run.induct)
  case jobs_refl
  then show ?case using futures_start order_start by (auto simp: start_jobs_def)
next
  case (jobs_step t a u)
  then show ?case using next_futures host_no_retry next_order late_iff by metis
qed

text \<open>
  C17. Closing loses no job: in every interleaving in which nobody submits after the queue was closed, once all threads
  have ended every future is settled, whatever was raised and whichever feeder failed. And in every interleaving a
  future that is settled stays as it is.
\<close>

theorem closed_queue_settles_all:
  assumes "jobs_run orderly (start_jobs feeders) s"
  shows "(orderly \<and> list_all (\<lambda>w. w = Ended) (jq_workers s) \<longrightarrow> list_all settled (jq_futures s)) \<and>
    (\<forall>a t f. jobs_next a s = Some t \<longrightarrow> f < length (jq_futures s) \<longrightarrow> settled (jq_futures s ! f) \<longrightarrow>
       jq_futures t ! f = jq_futures s ! f)"
proof -
  have inv: "futures_ok s" "orderly \<Longrightarrow> order_ok s" using jobs_inv [OF assms] by blast+
  have "settled (jq_futures s ! f)" if "orderly" "list_all (\<lambda>w. w = Ended) (jq_workers s)" "f < length (jq_futures s)" for f
  proof -
    have "jq_workers s ! 0 = Ended" using that inv(2) by (auto simp: order_ok_def list_all_length)
    with inv(2) [OF that(1)] have "Job f \<notin> set (jq_queue s)" by (simp add: order_ok_def)
    moreover have "\<not> held_by s i f" for i using that(2) by (auto simp: held_by_def list_all_length)
    ultimately show ?thesis using inv(1) that(3) unfolding futures_ok_def settled_def by blast
  qed
  with settled_stays [OF inv(1)] show ?thesis by (auto simp: list_all_length)
qed

fun jobs_acts :: "bool \<Rightarrow> 'b jact list \<Rightarrow> 'b jobs \<Rightarrow> 'b jobs option" where
  "jobs_acts orderly [] s = Some s"
| "jobs_acts orderly (a # as) s =
     (if orderly \<and> late a s then None
      else case jobs_next a s of None \<Rightarrow> None | Some t \<Rightarrow> jobs_acts orderly as t)"

lemma jobs_acts_run: "jobs_acts orderly as t = Some u \<Longrightarrow> jobs_run orderly s t \<Longrightarrow> jobs_run orderly s u"
proof (induction orderly as t rule: jobs_acts.induct)
  case (2 orderly a as t)
  from 2(2) obtain v where v: "jobs_next a t = Some v" "jobs_acts orderly as v = Some u" "\<not> (orderly \<and> late a t)"
    by (auto split: if_splits option.splits)
  from 2(1) [OF v(3,1,2) jobs_run.jobs_step [OF 2(3) v(3,1)]] show ?case .
qed simp

text \<open>A feeder fails on the first of three jobs and the host's second try for it fails too; the second job is cancelled.\<close>

definition demo_jacts :: "nat jact list" where
  "demo_jacts =
     [Enter, Submit, Enter, Submit, Enter, Submit, Take 1, Cancel 1, Raise 1, Take 0, Take 0, Raise 1, Close, PutStop, PutStop,
      Answer 0 5, Take 0]"

theorem closed_queue_settles_all_witness:
  "\<exists>s. jobs_run True (start_jobs 1) s \<and> jq_futures s = [Failed, Cancelled, Done (5 :: nat)] \<and> list_all settled (jq_futures s)"
proof -
  define s where "s = the (jobs_acts True demo_jacts (start_jobs 1))"
  have "jobs_acts True demo_jacts (start_jobs 1) \<noteq> None" "list_all (\<lambda>w. w = Ended) (jq_workers s)"
    and f: "jq_futures s = [Failed, Cancelled, Done 5]" unfolding s_def by code_simp+
  then have run: "jobs_run True (start_jobs 1) s"
    using jobs_acts_run [OF _ jobs_run.jobs_refl, of True demo_jacts "start_jobs 1" s] by (auto simp: s_def)
  from closed_queue_settles_all [OF this] \<open>list_all _ (jq_workers s)\<close> have "list_all settled (jq_futures s)" by blast
  with run f show ?thesis by blast
qed

text \<open>A client that looked at \<open>_closed\<close> before the queue was closed and puts its job after the sentinels is never
  answered.\<close>

lemma late_submission_hangs:
  "case jobs_acts False [Enter, Close, PutStop, PutStop, Submit, Take 0, Take 1] (start_jobs 1 :: nat jobs) of
     None \<Rightarrow> False
   | Some s \<Rightarrow> list_all (\<lambda>w. w = Ended) (jq_workers s) \<and> jq_closing s = 0 \<and> jq_futures s = [Pending]"
  by code_simp

end
