(* ===== verification/Context_Trim.thy ===== *)
theory Context_Trim
  imports Py_Text
begin

text \<open>
  Keeping a conversation inside the window of the server, \<^verbatim>\<open>greenboost_cli/workflow/intelligence.py\<close>: the estimate of
  its tokens with the ratio learned from the server's counts, the clearing of stale tool results, the compaction of the
  middle into one memory block, and the last resort that trims until the request fits. The text that a compaction
  extracts from the messages it removes is the argument \<open>extract\<close>; the length of a dumped list of tool calls is
  \<open>dumps\<close>.
\<close>

section \<open>Messages\<close>

datatype role = RUser | RAssistant | RTool

text \<open>A content that is a list counts the texts of its blocks.\<close>

datatype content = CText string | CBlocks "string list"

record call =
  cl_id :: string
  cl_name :: string
  cl_input :: "(string, string) pydict"

record msg =
  mg_role :: role
  mg_name :: string
  mg_call_id :: string
  mg_content :: content
  mg_calls :: "call list"

definition text_of :: "content \<Rightarrow> string" where
  "text_of c = (case c of CText s \<Rightarrow> s | CBlocks _ \<Rightarrow> [])"

definition is_text :: "content \<Rightarrow> bool" where
  "is_text c = (case c of CText _ \<Rightarrow> True | CBlocks _ \<Rightarrow> False)"

definition plain_msg :: "role \<Rightarrow> string \<Rightarrow> msg" where
  "plain_msg r s = \<lparr>mg_role = r, mg_name = [], mg_call_id = [], mg_content = CText s, mg_calls = []\<rparr>"

section \<open>The estimate\<close>

definition CHARS_PER_TOKEN_DEFAULT :: pyfloat where "CHARS_PER_TOKEN_DEFAULT = 4"
definition CHARS_PER_TOKEN_MIN :: pyfloat where "CHARS_PER_TOKEN_MIN = 2"
definition CHARS_PER_TOKEN_MAX :: pyfloat where "CHARS_PER_TOKEN_MAX = 6"
definition CALIBRATION_ALPHA :: pyfloat where "CALIBRATION_ALPHA = 3 / 10"

text \<open>The ratio and the number of samples it rests on.\<close>

type_synonym calib = "pyfloat \<times> nat"

definition reset_calibration :: calib where
  "reset_calibration = (CHARS_PER_TOKEN_DEFAULT, 0)"

definition note_real_prompt_tokens :: "int \<Rightarrow> int \<Rightarrow> calib \<Rightarrow> pyfloat option \<times> calib" where
  "note_real_prompt_tokens actual estimated k =
     (if actual \<le> 0 \<or> estimated \<le> 0 then (None, k)
      else
        let observed = of_int estimated * fst k / of_int actual in
        if \<not> (CHARS_PER_TOKEN_MIN \<le> observed \<and> observed \<le> CHARS_PER_TOKEN_MAX) then (None, k)
        else
          let cpt = (1 - CALIBRATION_ALPHA) * fst k + CALIBRATION_ALPHA * observed in
          (Some cpt, (cpt, Suc (snd k))))"

definition msg_chars :: "(call list \<Rightarrow> nat) \<Rightarrow> msg \<Rightarrow> nat" where
  "msg_chars dumps m =
     (case mg_content m of CText s \<Rightarrow> length s | CBlocks bs \<Rightarrow> sum_list (map length bs)) +
     (if mg_calls m = [] then 0 else dumps (mg_calls m))"

definition hist_chars :: "(call list \<Rightarrow> nat) \<Rightarrow> msg list \<Rightarrow> nat" where
  "hist_chars dumps ms = sum_list (map (msg_chars dumps) ms)"

definition estimate_tokens :: "(call list \<Rightarrow> nat) \<Rightarrow> pyfloat \<Rightarrow> msg list \<Rightarrow> int" where
  "estimate_tokens dumps cpt ms = py_int (of_nat (hist_chars dumps ms) / cpt)"

text \<open>The whole request: \<open>fixed\<close> is the length of the system prompt and of the dumped tool schemas.\<close>

definition estimate_request_tokens :: "(call list \<Rightarrow> nat) \<Rightarrow> pyfloat \<Rightarrow> nat \<Rightarrow> msg list \<Rightarrow> int" where
  "estimate_request_tokens dumps cpt fixed ms = py_int (of_nat (fixed + hist_chars dumps ms) / cpt)"

section \<open>Clearing stale results\<close>

definition COMPACTABLE_TOOLS :: "string list" where
  "COMPACTABLE_TOOLS = [''Read'', ''Bash'', ''Grep'', ''Glob'', ''Semble'', ''WebFetch'', ''WebSearch'', ''Edit'', ''Write'']"

definition MICROCOMPACT_KEEP :: nat where "MICROCOMPACT_KEEP = 4"
definition MICROCOMPACT_MIN_CHARS :: nat where "MICROCOMPACT_MIN_CHARS = 400"

definition CLEARED :: string where
  "CLEARED = ''[Old tool result content cleared , re-run the tool if you need it again]''"

definition stale_result :: "msg \<Rightarrow> bool" where
  "stale_result m \<longleftrightarrow> mg_role m = RTool \<and> mg_name m \<in> set COMPACTABLE_TOOLS \<and> is_text (mg_content m) \<and>
     \<not> starts_with CLEARED (text_of (mg_content m)) \<and> MICROCOMPACT_MIN_CHARS \<le> length (text_of (mg_content m))"

definition stale_at :: "msg list \<Rightarrow> nat list" where
  "stale_at ms = filter (\<lambda>i. stale_result (ms ! i)) [0..<length ms]"

definition set_text :: "string \<Rightarrow> msg \<Rightarrow> msg" where
  "set_text s m = m\<lparr>mg_content := CText s\<rparr>"

definition microcompact :: "nat \<Rightarrow> msg list \<Rightarrow> msg list \<times> nat" where
  "microcompact keep ms =
     (let idxs = stale_at ms in
      if length idxs \<le> keep then (ms, 0)
      else
        let victims = take (length idxs - keep) idxs in
        (map (\<lambda>i. if i \<in> set victims then set_text CLEARED (ms ! i) else ms ! i) [0..<length ms],
         sum_list (map (\<lambda>i. length (text_of (mg_content (ms ! i))) - length CLEARED) victims)))"

definition COLD_CACHE_GAP_S :: pyfloat where "COLD_CACHE_GAP_S = 600"

definition microcompact_if_cold :: "pyfloat \<Rightarrow> pyfloat \<Rightarrow> msg list \<Rightarrow> msg list \<times> nat" where
  "microcompact_if_cold now last_turn ms =
     (if last_turn = 0 \<or> now - last_turn < COLD_CACHE_GAP_S then (ms, 0) else microcompact 1 ms)"

section \<open>The head that stays\<close>

definition HEAD_KEEP :: nat where "HEAD_KEEP = 2"
definition HEAD_TOKEN_FRACTION :: pyfloat where "HEAD_TOKEN_FRACTION = 1 / 10"
definition MIN_MIDDLE_MESSAGES :: nat where "MIN_MIDDLE_MESSAGES = 4"

fun head_loop :: "pyfloat \<Rightarrow> int \<Rightarrow> int \<Rightarrow> nat \<Rightarrow> msg list \<Rightarrow> nat" where
  "head_loop ratio budget spent n [] = n"
| "head_loop ratio budget spent n (m # ms) =
     (let chars = length (text_of (mg_content m)); cost = max 1 (py_round (of_nat chars / ratio)) in
      if HEAD_KEEP \<le> n \<and> spent + cost > budget then n
      else head_loop ratio budget (spent + cost) (Suc n) ms)"

text \<open>\<open>env_frac\<close> is what \<^verbatim>\<open>GB_HEAD_TOKEN_FRACTION\<close> holds, when it holds a number.\<close>

definition head_span :: "pyfloat option \<Rightarrow> msg list \<Rightarrow> int \<Rightarrow> pyfloat \<Rightarrow> nat" where
  "head_span env_frac ms ctx cpt =
     (let frac = max 0 (min (9 / 10) (case env_frac of Some f \<Rightarrow> f | None \<Rightarrow> HEAD_TOKEN_FRACTION)) in
      if ctx \<le> 0 \<or> frac \<le> 0 then HEAD_KEEP
      else
        let budget = py_int (of_int ctx * frac);
            ratio = max CHARS_PER_TOKEN_MIN (min CHARS_PER_TOKEN_MAX (if cpt = 0 then 4 else cpt));
            max_head = max HEAD_KEEP (length ms - 8 - MIN_MIDDLE_MESSAGES) in
        max HEAD_KEEP (head_loop ratio budget 0 0 (take max_head ms)))"

section \<open>Compaction\<close>

definition MEMORY_MARKER :: string where
  "MEMORY_MARKER = ''[Structured session memory , earlier conversation compacted]''"

definition MEMORY_LOADED :: string where
  "MEMORY_LOADED = ''[Structured memory loaded. Continuing task.]''"

definition is_memory :: "msg \<Rightarrow> bool" where
  "is_memory m \<longleftrightarrow> is_text (mg_content m) \<and> starts_with MEMORY_MARKER (text_of (mg_content m))"

definition is_loaded :: "msg \<Rightarrow> bool" where
  "is_loaded m \<longleftrightarrow> is_text (mg_content m) \<and> starts_with ''[Structured memory loaded'' (text_of (mg_content m))"

definition rstrip :: "string \<Rightarrow> string" where
  "rstrip s = rev (dropWhile py_space (rev s))"

text \<open>The last memory block of the middle.\<close>

definition prior_memory :: "msg list \<Rightarrow> string" where
  "prior_memory middle = foldl (\<lambda>p m. if is_memory m then text_of (mg_content m) else p) [] middle"

definition memory_text :: "(msg list \<Rightarrow> string) \<Rightarrow> string \<Rightarrow> msg list \<Rightarrow> string" where
  "memory_text extract prior old =
     (if prior \<noteq> [] then rstrip prior @ [CHR 0x0A, CHR 0x0A] @ extract old
      else MEMORY_MARKER @ [CHR 0x0A, CHR 0x0A] @ extract old)"

definition keep_count :: nat where "keep_count = 8"

definition COMPRESS_THRESHOLD :: int where "COMPRESS_THRESHOLD = 60000"

text \<open>\<open>ctx\<close> is the window of the served model, \<open>None\<close> where asking for it raises.\<close>

record trim_env =
  te_dumps :: "call list \<Rightarrow> nat"
  te_extract :: "msg list \<Rightarrow> string"
  te_frac :: "pyfloat option"
  te_ctx :: "int option"

definition compact_threshold :: "int option \<Rightarrow> int" where
  "compact_threshold ctx = (case ctx of Some c \<Rightarrow> max 4096 (py_int (of_int c * (1 / 2))) | None \<Rightarrow> COMPRESS_THRESHOLD)"

definition rebuild :: "trim_env \<Rightarrow> pyfloat \<Rightarrow> msg list \<Rightarrow> msg list" where
  "rebuild e cpt ms =
     (let head = take (head_span (te_frac e) ms (case te_ctx e of Some c \<Rightarrow> c | None \<Rightarrow> 0) cpt) ms;
          middle = drop (length head) (take (length ms - keep_count) ms);
          prior = prior_memory middle;
          old = filter (\<lambda>m. \<not> is_memory m \<and> \<not> is_loaded m) middle;
          tail = drop (length ms - keep_count) ms in
      if old = [] \<and> prior = [] then ms
      else head @ [plain_msg RUser (memory_text (te_extract e) prior old), plain_msg RAssistant MEMORY_LOADED] @ tail)"

definition compress_context :: "trim_env \<Rightarrow> pyfloat \<Rightarrow> bool \<Rightarrow> int \<Rightarrow> msg list \<Rightarrow> msg list" where
  "compress_context e cpt force extra ms =
     (if length ms < 10 \<and> \<not> force then ms
      else if \<not> force \<and> estimate_tokens (te_dumps e) cpt ms + extra < compact_threshold (te_ctx e) then ms
      else
        let (ms1, freed) = microcompact MICROCOMPACT_KEEP ms in
        if freed \<noteq> 0 \<and> \<not> force \<and> estimate_tokens (te_dumps e) cpt ms1 + extra < compact_threshold (te_ctx e) then ms1
        else rebuild e cpt ms1)"

section \<open>The last resort\<close>

definition HARD_TRIM_KEEP_CHARS :: nat where "HARD_TRIM_KEEP_CHARS = 800"

text \<open>The ellipsis of the marker is written as the substitute character, one character like it.\<close>

definition HARD_TRIMMED :: string where
  "HARD_TRIMMED = CHR 0x0A # ''['' @ [CHR 0x1A] @
     '' truncated to fit the server'' @ [CHR 0x27] @ ''s context window , re-run the tool if you need the rest]''"

definition last_user :: "msg list \<Rightarrow> int" where
  "last_user ms = foldl (\<lambda>r i. if mg_role (ms ! i) = RUser then int i else r) (- 1) [0..<length ms]"

definition protected :: "int \<Rightarrow> nat \<Rightarrow> msg \<Rightarrow> bool" where
  "protected lu i m \<longleftrightarrow> i < HEAD_KEEP \<or> int i = lu \<or> is_memory m"

definition truncatable :: "int \<Rightarrow> nat \<Rightarrow> msg \<Rightarrow> bool" where
  "truncatable lu i m \<longleftrightarrow> is_text (mg_content m) \<and> \<not> protected lu i m \<and>
     HARD_TRIM_KEEP_CHARS + length HARD_TRIMMED < length (text_of (mg_content m))"

text \<open>\<open>max(cand)\<close>: the longest content, and of the longest the last.\<close>

definition longest_at :: "int \<Rightarrow> msg list \<Rightarrow> nat option" where
  "longest_at lu ms =
     foldl (\<lambda>b i. if truncatable lu i (ms ! i) \<and>
              (case b of None \<Rightarrow> True | Some j \<Rightarrow> length (text_of (mg_content (ms ! j))) \<le> length (text_of (mg_content (ms ! i))))
            then Some i else b) None [0..<length ms]"

definition truncated :: "msg \<Rightarrow> msg" where
  "truncated m = set_text (take HARD_TRIM_KEEP_CHARS (text_of (mg_content m)) @ HARD_TRIMMED) m"

definition text_len :: "msg list \<Rightarrow> nat" where
  "text_len ms = sum_list (map (\<lambda>m. length (text_of (mg_content m))) ms)"

lemma foldl_best_Some:
  "foldl (\<lambda>b i. if P i \<and> Q b i then Some i else b) b0 is = Some i \<Longrightarrow> b0 = Some i \<or> i \<in> set is \<and> P i"
  by (induction "is" arbitrary: b0) (auto split: if_splits)

lemma foldl_best_None:
  "foldl (\<lambda>b i. if P i \<and> Q b i then Some i else b) b0 is = None \<Longrightarrow> (\<And>i. Q None i) \<Longrightarrow> b0 = None \<and> (\<forall>i \<in> set is. \<not> P i)"
proof (induction "is" arbitrary: b0)
  case (Cons i "is")
  have "foldl (\<lambda>b i. if P i \<and> Q b i then Some i else b) (if P i \<and> Q b0 i then Some i else b0) is = None"
    using Cons.prems(1) by (simp only: foldl_Cons)
  from Cons.IH [OF this Cons.prems(2)] have "(if P i \<and> Q b0 i then Some i else b0) = None" "\<forall>i \<in> set is. \<not> P i" by blast+
  with Cons.prems(2) show ?case by (cases b0) (auto split: if_splits)
qed simp

lemma longest_at_truncatable: "longest_at lu ms = Some i \<Longrightarrow> i < length ms \<and> truncatable lu i (ms ! i)"
  unfolding longest_at_def by (drule foldl_best_Some) simp

lemma longest_at_None: "longest_at lu ms = None \<Longrightarrow> i < length ms \<Longrightarrow> \<not> truncatable lu i (ms ! i)"
  unfolding longest_at_def by (drule foldl_best_None) auto

lemma truncated_shorter:
  assumes "i < length ms" "truncatable lu i (ms ! i)"
  shows "text_len (ms[i := truncated (ms ! i)]) < text_len ms"
proof -
  have "length (text_of (mg_content (truncated (ms ! i)))) < length (text_of (mg_content (ms ! i)))"
    using assms(2) by (auto simp: truncated_def set_text_def text_of_def truncatable_def min_def)
  moreover have "ms = take i ms @ ms ! i # drop (Suc i) ms" using assms(1) by (rule id_take_nth_drop)
  then have "text_len ms = text_len (take i ms) + (length (text_of (mg_content (ms ! i))) + text_len (drop (Suc i) ms))"
    by (metis (mono_tags, lifting) text_len_def list.simps(9) map_append sum_list.Cons sum_list_append)
  ultimately show ?thesis using assms(1) by (simp add: upd_conv_take_nth_drop text_len_def)
qed

function truncate_loop :: "(call list \<Rightarrow> nat) \<Rightarrow> pyfloat \<Rightarrow> int \<Rightarrow> int \<Rightarrow> msg list \<Rightarrow> msg list" where
  "truncate_loop dumps cpt budget lu ms =
     (if estimate_tokens dumps cpt ms > budget then
        (case longest_at lu ms of
           None \<Rightarrow> ms
         | Some i \<Rightarrow> truncate_loop dumps cpt budget lu (ms[i := truncated (ms ! i)]))
      else ms)"
  by pat_completeness auto
termination
  by (relation "measure (\<lambda>(_, _, _, _, ms). text_len ms)") (auto dest!: longest_at_truncatable intro: truncated_shorter)

declare truncate_loop.simps [simp del]

text \<open>\<open>msgs.pop(drop)\<close> and the tool results that follow it.\<close>

definition drop_at :: "nat \<Rightarrow> msg list \<Rightarrow> msg list" where
  "drop_at i ms = take i ms @ dropWhile (\<lambda>m. mg_role m = RTool) (drop (Suc i) ms)"

definition first_unprotected :: "int \<Rightarrow> msg list \<Rightarrow> nat option" where
  "first_unprotected lu ms = find (\<lambda>i. \<not> protected lu i (ms ! i)) [0..<length ms]"

lemma first_unprotected_in: "first_unprotected lu ms = Some i \<Longrightarrow> i < length ms \<and> \<not> protected lu i (ms ! i)"
  by (auto simp: first_unprotected_def find_Some_iff)

lemma drop_at_shorter: "i < length ms \<Longrightarrow> length (drop_at i ms) < length ms"
proof -
  assume "i < length ms"
  moreover have "length (dropWhile (\<lambda>m. mg_role m = RTool) (drop (Suc i) ms)) \<le> length (drop (Suc i) ms)"
    by (rule length_dropWhile_le)
  ultimately show ?thesis by (auto simp: drop_at_def min_def)
qed

function drop_loop :: "(call list \<Rightarrow> nat) \<Rightarrow> pyfloat \<Rightarrow> int \<Rightarrow> int \<Rightarrow> msg list \<Rightarrow> msg list" where
  "drop_loop dumps cpt budget lu ms =
     (if estimate_tokens dumps cpt ms > budget then
        (case first_unprotected lu ms of
           None \<Rightarrow> ms
         | Some i \<Rightarrow> drop_loop dumps cpt budget lu (drop_at i ms))
      else ms)"
  by pat_completeness auto
termination
  by (relation "measure (\<lambda>(_, _, _, _, ms). length ms)") (auto dest!: first_unprotected_in intro: drop_at_shorter)

declare drop_loop.simps [simp del]

record trim_result =
  tr_needed :: int
  tr_freed :: int
  tr_met :: bool

definition trim_outcome :: "(call list \<Rightarrow> nat) \<Rightarrow> pyfloat \<Rightarrow> int \<Rightarrow> int \<Rightarrow> msg list \<Rightarrow> trim_result" where
  "trim_outcome dumps cpt bef budget ms =
     (let aft = estimate_tokens dumps cpt ms in
      \<lparr>tr_needed = max 0 (bef - budget), tr_freed = max 0 (bef - aft), tr_met = (aft \<le> budget)\<rparr>)"

definition hard_trim_to_fit :: "(call list \<Rightarrow> nat) \<Rightarrow> pyfloat \<Rightarrow> int \<Rightarrow> msg list \<Rightarrow> msg list \<times> trim_result" where
  "hard_trim_to_fit dumps cpt budget ms =
     (let bef = estimate_tokens dumps cpt ms in
      if bef \<le> budget \<or> ms = [] then (ms, \<lparr>tr_needed = 0, tr_freed = 0, tr_met = True\<rparr>)
      else
        let ms1 = fst (microcompact 0 ms) in
        if estimate_tokens dumps cpt ms1 \<le> budget then (ms1, trim_outcome dumps cpt bef budget ms1)
        else
          let lu = last_user ms1;
              ms2 = drop_loop dumps cpt budget lu (truncate_loop dumps cpt budget lu ms1) in
          (ms2, trim_outcome dumps cpt bef budget ms2))"


section \<open>The estimate stays calibrated\<close>

definition calibrated :: "calib \<Rightarrow> bool" where
  "calibrated k \<longleftrightarrow> CHARS_PER_TOKEN_MIN \<le> fst k \<and> fst k \<le> CHARS_PER_TOKEN_MAX"

lemma reset_calibrated: "calibrated reset_calibration"
  by (simp add: calibrated_def reset_calibration_def CHARS_PER_TOKEN_DEFAULT_def CHARS_PER_TOKEN_MIN_def CHARS_PER_TOKEN_MAX_def)

lemma average_between:
  fixes a b x y t :: pyfloat
  assumes "a \<le> x" "x \<le> b" "a \<le> y" "y \<le> b" "0 \<le> t" "t \<le> 1"
  shows "a \<le> (1 - t) * x + t * y \<and> (1 - t) * x + t * y \<le> b"
proof -
  have "(1 - t) * a + t * a \<le> (1 - t) * x + t * y" "(1 - t) * x + t * y \<le> (1 - t) * b + t * b"
    using assms by (intro add_mono mult_left_mono; simp)+
  then show ?thesis by (simp add: algebra_simps)
qed

lemma note_calibrated: "calibrated k \<Longrightarrow> calibrated (snd (note_real_prompt_tokens actual estimated k))"
proof -
  assume k: "calibrated k"
  have "0 \<le> CALIBRATION_ALPHA" "CALIBRATION_ALPHA \<le> 1" by (simp_all add: CALIBRATION_ALPHA_def)
  with k average_between [of CHARS_PER_TOKEN_MIN "fst k" CHARS_PER_TOKEN_MAX "of_int estimated * fst k / of_int actual" CALIBRATION_ALPHA]
  show ?thesis by (simp add: calibrated_def note_real_prompt_tokens_def Let_def)
qed

text \<open>A ratio that the samples confirm does not move.\<close>

lemma note_fixpoint:
  assumes "calibrated k" "0 < n"
  shows "fst (snd (note_real_prompt_tokens n n k)) = fst k"
  using assms by (simp add: note_real_prompt_tokens_def calibrated_def CALIBRATION_ALPHA_def Let_def)

section \<open>What clearing keeps\<close>

definition same_shape :: "msg \<Rightarrow> msg \<Rightarrow> bool" where
  "same_shape m m' \<longleftrightarrow> mg_role m' = mg_role m \<and> mg_name m' = mg_name m \<and> mg_call_id m' = mg_call_id m \<and> mg_calls m' = mg_calls m"

lemma same_shape_refl [simp]: "same_shape m m"
  by (simp add: same_shape_def)

lemma same_shape_set_text [simp]: "same_shape m (set_text s m)"
  by (simp add: same_shape_def set_text_def)

lemma microcompact_length [simp]: "length (fst (microcompact keep ms)) = length ms"
  by (simp add: microcompact_def Let_def)

lemma stale_at_in: "i \<in> set (stale_at ms) \<longleftrightarrow> i < length ms \<and> stale_result (ms ! i)"
  by (auto simp: stale_at_def)

lemma microcompact_nth:
  assumes "i < length ms"
  shows "fst (microcompact keep ms) ! i = ms ! i \<or> stale_result (ms ! i) \<and> fst (microcompact keep ms) ! i = set_text CLEARED (ms ! i)"
  using assms by (auto simp: microcompact_def Let_def dest: in_set_takeD simp: stale_at_in)

lemma CLEARED_short: "length CLEARED < MICROCOMPACT_MIN_CHARS"
  by (simp add: CLEARED_def MICROCOMPACT_MIN_CHARS_def)

lemma cleared_not_stale: "\<not> stale_result (set_text CLEARED m)"
  by (simp add: stale_result_def set_text_def text_of_def)


lemma map_upt_nth: "map f [0..<length xs] ! i = f i" if "i < length xs"
  using that by simp

lemma sum_list_update_filter:
  fixes f g :: "nat \<Rightarrow> nat"
  assumes "distinct vs" "set vs \<subseteq> set is" "distinct is" "\<And>i. i \<in> set vs \<Longrightarrow> g i \<le> f i"
  shows "sum_list (map (\<lambda>i. if i \<in> set vs then g i else f i) is) + sum_list (map (\<lambda>i. f i - g i) vs) = sum_list (map f is)"
proof -
  have "(\<Sum>i\<in>set is. if i \<in> set vs then g i else f i) = (\<Sum>i\<in>set is - set vs. f i) + (\<Sum>i\<in>set vs. g i)"
    using assms(2) by (subst sum.subset_diff [of "set vs"]) (auto intro!: arg_cong2 [of _ _ _ _ "(+)"] sum.cong)
  moreover have "(\<Sum>i\<in>set is. f i) = (\<Sum>i\<in>set is - set vs. f i) + (\<Sum>i\<in>set vs. f i)"
    using assms(2) by (subst sum.subset_diff [of "set vs"]) auto
  moreover have "(\<Sum>i\<in>set vs. f i) = (\<Sum>i\<in>set vs. g i) + (\<Sum>i\<in>set vs. f i - g i)"
    unfolding sum.distrib [symmetric] by (rule sum.cong) (use assms(4) in auto)
  ultimately show ?thesis using assms(1,3) by (simp add: sum_list_distinct_conv_sum_set)
qed

lemma victims_sub: "set (take n (stale_at ms)) \<subseteq> set [0..<length ms]"
  by (auto dest!: in_set_takeD simp: stale_at_in)

lemma distinct_stale_at [simp]: "distinct (stale_at ms)"
  by (simp add: stale_at_def)

lemma msg_chars_set_text:
  "is_text (mg_content m) \<Longrightarrow> length s \<le> length (text_of (mg_content m)) \<Longrightarrow>
     msg_chars dumps m = msg_chars dumps (set_text s m) + (length (text_of (mg_content m)) - length s)"
  by (auto simp: msg_chars_def set_text_def text_of_def is_text_def split: content.splits)

lemma stale_long: "stale_result m \<Longrightarrow> is_text (mg_content m) \<and> length CLEARED \<le> length (text_of (mg_content m))"
  using CLEARED_short by (simp add: stale_result_def)

text \<open>What clearing frees is what the estimate loses.\<close>

theorem microcompact_frees:
  "hist_chars dumps (fst (microcompact keep ms)) + snd (microcompact keep ms) = hist_chars dumps ms"
proof (cases "length (stale_at ms) \<le> keep")
  case False
  let ?v = "take (length (stale_at ms) - keep) (stale_at ms)"
  let ?g = "\<lambda>i. msg_chars dumps (set_text CLEARED (ms ! i))" and ?f = "\<lambda>i. msg_chars dumps (ms ! i)"
  have st: "stale_result (ms ! i)" if "i \<in> set ?v" for i using that by (auto dest!: in_set_takeD simp: stale_at_in)
  have d: "?f i = ?g i + (length (text_of (mg_content (ms ! i))) - length CLEARED)" if "i \<in> set ?v" for i
    using stale_long [OF st [OF that]] by (intro msg_chars_set_text) auto
  have "sum_list (map (\<lambda>i. if i \<in> set ?v then ?g i else ?f i) [0..<length ms]) + sum_list (map (\<lambda>i. ?f i - ?g i) ?v)
      = sum_list (map ?f [0..<length ms])"
    by (rule sum_list_update_filter) (use victims_sub d in auto)
  moreover have "map (\<lambda>i. ?f i - ?g i) ?v = map (\<lambda>i. length (text_of (mg_content (ms ! i))) - length CLEARED) ?v"
    using d by simp
  moreover have "map ?f [0..<length ms] = map (msg_chars dumps) ms" by (rule nth_equalityI) simp_all
  moreover have "map (msg_chars dumps) (map (\<lambda>i. if i \<in> set ?v then set_text CLEARED (ms ! i) else ms ! i) [0..<length ms])
      = map (\<lambda>i. if i \<in> set ?v then ?g i else ?f i) [0..<length ms]" by simp
  ultimately show ?thesis using False by (simp add: microcompact_def hist_chars_def Let_def del: map_map)
qed (simp add: microcompact_def)

text \<open>The latest results keep their content: after clearing at most \<open>keep\<close> of them are stale.\<close>

lemma stale_after:
  assumes "keep < length (stale_at ms)"
  shows "stale_at (fst (microcompact keep ms)) = drop (length (stale_at ms) - keep) (stale_at ms)"
proof -
  let ?n = "length (stale_at ms) - keep"
  let ?v = "take ?n (stale_at ms)"
  let ?ms = "fst (microcompact keep ms)"
  have nth: "?ms ! i = (if i \<in> set ?v then set_text CLEARED (ms ! i) else ms ! i)" if "i < length ms" for i
    using that assms by (simp add: microcompact_def Let_def)
  have f: "filter (\<lambda>i. i \<notin> V \<and> stale_result (ms ! i)) [0..<length ms] = filter (\<lambda>i. i \<notin> V) (stale_at ms)" for V
    unfolding stale_at_def filter_filter by (rule filter_cong) auto
  have "stale_at ?ms = filter (\<lambda>i. i \<notin> set ?v \<and> stale_result (ms ! i)) [0..<length ms]"
    unfolding stale_at_def [of ?ms] microcompact_length by (rule filter_cong [OF refl]) (auto simp: nth cleared_not_stale)
  also have "\<dots> = filter (\<lambda>i. i \<notin> set ?v) (stale_at ms)" by (rule f)
  also have "\<dots> = drop ?n (stale_at ms)"
  proof -
    have "filter (\<lambda>i. i \<notin> set (take n xs)) xs = drop n xs" if "distinct xs" for n and xs :: "nat list"
    proof -
      have "set (take n xs) \<inter> set (drop n xs) = {}" using that by (metis distinct_append append_take_drop_id)
      then have "filter (\<lambda>i. i \<notin> set (take n xs)) (take n xs @ drop n xs) = drop n xs"
        unfolding filter_append by (auto simp: filter_empty_conv intro!: filter_True)
      then show ?thesis by simp
    qed
    then show ?thesis by simp
  qed
  finally show ?thesis .
qed


section \<open>What the last resort keeps\<close>

definition memories :: "msg list \<Rightarrow> msg list" where
  "memories ms = filter (\<lambda>m. is_memory m \<and> mg_role m \<noteq> RTool) ms"

lemma filter_update_out: "\<not> P (xs ! i) \<Longrightarrow> \<not> P y \<Longrightarrow> filter P (xs[i := y]) = filter P xs"
proof (cases "i < length xs")
  case True
  moreover assume "\<not> P (xs ! i)" "\<not> P y"
  moreover have "filter P xs = filter P (take i xs @ xs ! i # drop (Suc i) xs)" using id_take_nth_drop [OF True] by simp
  ultimately show ?thesis by (simp add: upd_conv_take_nth_drop)
qed (simp add: list_update_beyond)

lemma truncated_not_memory: "truncatable lu i m \<Longrightarrow> \<not> is_memory (truncated m)"
  by (auto simp: truncatable_def protected_def is_memory_def truncated_def set_text_def text_of_def is_text_def
      MEMORY_MARKER_def HARD_TRIM_KEEP_CHARS_def HEAD_KEEP_def min_def)

lemma truncate_keeps:
  "length (truncate_loop dumps cpt budget lu ms) = length ms \<and>
   take HEAD_KEEP (truncate_loop dumps cpt budget lu ms) = take HEAD_KEEP ms \<and>
   memories (truncate_loop dumps cpt budget lu ms) = memories ms \<and>
   (\<forall>i < length ms. int i = lu \<longrightarrow> truncate_loop dumps cpt budget lu ms ! i = ms ! i)"
proof (induction dumps cpt budget lu ms rule: truncate_loop.induct)
  case (1 dumps cpt budget lu ms)
  show ?case
  proof (cases "estimate_tokens dumps cpt ms > budget \<and> longest_at lu ms \<noteq> None")
    case True
    then obtain i where i: "longest_at lu ms = Some i" by blast
    let ?ms = "ms[i := truncated (ms ! i)]"
    have t: "truncatable lu i (ms ! i)" using longest_at_truncatable [OF i] by simp
    then have "HEAD_KEEP \<le> i" "int i \<noteq> lu" "\<not> is_memory (ms ! i)" by (auto simp: truncatable_def protected_def)
    moreover have "memories ?ms = memories ms"
      unfolding memories_def using truncated_not_memory [OF t] \<open>\<not> is_memory (ms ! i)\<close> by (intro filter_update_out) auto
    ultimately show ?thesis using 1 [OF _ i] True i by (subst (1 2 3 4) truncate_loop.simps) (auto simp: nth_list_update)
  next
    case False
    then have "truncate_loop dumps cpt budget lu ms = ms" by (subst truncate_loop.simps) (auto split: option.splits)
    then show ?thesis by simp
  qed
qed

lemma drop_keeps:
  "take HEAD_KEEP (drop_loop dumps cpt budget lu ms) = take HEAD_KEEP ms \<and>
   memories (drop_loop dumps cpt budget lu ms) = memories ms \<and>
   (estimate_tokens dumps cpt (drop_loop dumps cpt budget lu ms) \<le> budget \<or>
    (\<forall>i < length (drop_loop dumps cpt budget lu ms). protected lu i (drop_loop dumps cpt budget lu ms ! i)))"
proof (induction dumps cpt budget lu ms rule: drop_loop.induct)
  case (1 dumps cpt budget lu ms)
  consider (fits) "estimate_tokens dumps cpt ms \<le> budget" | (stuck) "first_unprotected lu ms = None"
    | (drop) i where "estimate_tokens dumps cpt ms > budget" "first_unprotected lu ms = Some i" by fastforce
  then show ?case
  proof cases
    case drop
    then have i: "i < length ms" "\<not> protected lu i (ms ! i)" using first_unprotected_in by auto
    then have "HEAD_KEEP \<le> i" "\<not> is_memory (ms ! i)" by (auto simp: protected_def)
    then have "take HEAD_KEEP (drop_at i ms) = take HEAD_KEEP ms" using i(1) by (simp add: drop_at_def min_def)
    moreover have "memories (drop_at i ms) = memories ms"
    proof -
      have "memories (dropWhile (\<lambda>m. mg_role m = RTool) xs) = memories xs" for xs
        by (induction xs) (auto simp: memories_def)
      moreover have "memories ms = memories (take i ms) @ memories (drop (Suc i) ms)"
        using \<open>\<not> is_memory (ms ! i)\<close> by (subst id_take_nth_drop [OF i(1)]) (simp add: memories_def)
      ultimately show ?thesis by (simp add: drop_at_def) (simp add: memories_def)
    qed
    ultimately show ?thesis using 1 [OF drop] drop by (subst (1 2 3 4 5) drop_loop.simps) simp
  next
    case fits
    then have "drop_loop dumps cpt budget lu ms = ms" by (subst drop_loop.simps) simp
    with fits show ?thesis by simp
  next
    case stuck
    then have "drop_loop dumps cpt budget lu ms = ms" by (subst drop_loop.simps) simp
    with stuck show ?thesis by (auto simp: first_unprotected_def find_None_iff)
  qed
qed

lemma microcompact_memories: "memories (fst (microcompact keep ms)) = memories ms"
proof -
  have "filter P (map f [0..<length ms]) = filter P ms"
    if "\<And>i. i < length ms \<Longrightarrow> f i = ms ! i \<or> \<not> P (ms ! i) \<and> \<not> P (f i)" for f and P :: "msg \<Rightarrow> bool"
    using that
  proof (induction ms arbitrary: f rule: rev_induct)
    case (snoc m ms)
    have "filter P (map f [0..<length ms]) = filter P ms"
    proof (rule snoc.IH)
      fix i assume "i < length ms"
      with snoc.prems [of i] show "f i = ms ! i \<or> \<not> P (ms ! i) \<and> \<not> P (f i)" by (simp add: nth_append)
    qed
    with snoc.prems [of "length ms"] show ?case by auto
  qed simp
  from this [of "\<lambda>i. fst (microcompact keep ms) ! i" "\<lambda>m. is_memory m \<and> mg_role m \<noteq> RTool"]
  have "filter (\<lambda>m. is_memory m \<and> mg_role m \<noteq> RTool) (map (\<lambda>i. fst (microcompact keep ms) ! i) [0..<length ms])
      = filter (\<lambda>m. is_memory m \<and> mg_role m \<noteq> RTool) ms"
    using microcompact_nth [of _ ms keep] by (fastforce simp: stale_result_def set_text_def)
  moreover have "map (\<lambda>i. fst (microcompact keep ms) ! i) [0..<length ms] = fst (microcompact keep ms)"
    by (rule nth_equalityI) simp_all
  ultimately show ?thesis by (simp add: memories_def)
qed

text \<open>
  C29. The last resort answers the truth: when it says the request fits, the history is estimated within its budget, and
  when it says it does not, nothing that may be touched is left. The two messages of the head stay where they are, at
  most with a stale tool result cleared, and every memory block stays.
\<close>

theorem trim_answers_truth:
  assumes "hard_trim_to_fit dumps cpt budget ms = (ms', r)" "ms \<noteq> []"
  shows "(tr_met r \<longrightarrow> estimate_tokens dumps cpt ms' \<le> budget) \<and>
     (\<not> tr_met r \<longrightarrow> (\<exists>lu. \<forall>i < length ms'. protected lu i (ms' ! i))) \<and>
     (\<forall>i < min HEAD_KEEP (length ms). i < length ms' \<and> (ms' ! i = ms ! i \<or> stale_result (ms ! i) \<and> ms' ! i = set_text CLEARED (ms ! i))) \<and>
     memories ms' = memories ms"
proof -
  let ?ms1 = "fst (microcompact 0 ms)"
  let ?lu = "last_user ?ms1"
  let ?ms2 = "drop_loop dumps cpt budget ?lu (truncate_loop dumps cpt budget ?lu ?ms1)"
  consider (a) "ms' = ms" "estimate_tokens dumps cpt ms \<le> budget" "tr_met r"
    | (b) "ms' = ?ms1" "estimate_tokens dumps cpt ?ms1 \<le> budget" "tr_met r"
    | (c) "ms' = ?ms2" "tr_met r = (estimate_tokens dumps cpt ?ms2 \<le> budget)"
    using assms by (auto simp: hard_trim_to_fit_def Let_def trim_outcome_def split: if_splits)
  then show ?thesis
  proof cases
    case a
    then show ?thesis by auto
  next
    case b
    then show ?thesis using microcompact_nth [of _ ms 0] by (auto simp: microcompact_memories)
  next
    case c
    note d = drop_keeps [of dumps cpt budget ?lu "truncate_loop dumps cpt budget ?lu ?ms1"]
    note t = truncate_keeps [of dumps cpt budget ?lu ?ms1]
    have h: "take HEAD_KEEP ms' = take HEAD_KEEP ?ms1" and m: "memories ms' = memories ms"
      using d t c(1) microcompact_memories by auto
    have "i < length ms' \<and> ms' ! i = ?ms1 ! i" if "i < min HEAD_KEEP (length ms)" for i
    proof -
      have "length (take HEAD_KEEP ms') = length (take HEAD_KEEP ?ms1)" using h by simp
      with that have "i < length ms'" by (auto simp: min_def split: if_splits)
      moreover have "take HEAD_KEEP ms' ! i = take HEAD_KEEP ?ms1 ! i" using h by simp
      ultimately show ?thesis using that by simp
    qed
    then show ?thesis using c d m microcompact_nth [of _ ms 0] by fastforce
  qed
qed


text \<open>The question is protected by where it stood: once messages before it are dropped it is dropped too.\<close>

definition demo_dumps :: "call list \<Rightarrow> nat" where
  "demo_dumps cs = 40 * length cs"

definition demo_talk :: "msg list" where
  "demo_talk = [plain_msg RUser (replicate 80 CHR ''a''), plain_msg RAssistant (replicate 80 CHR ''b''),
     plain_msg RUser (replicate 80 CHR ''c''), plain_msg RAssistant (replicate 80 CHR ''d''), plain_msg RUser ''why?'']"

lemma demo_talk_texts: "map (\<lambda>m. (mg_role m, length (text_of (mg_content m)))) demo_talk
    = [(RUser, 80), (RAssistant, 80), (RUser, 80), (RAssistant, 80), (RUser, 4)]"
  by code_simp

lemma question_is_dropped:
  "fst (hard_trim_to_fit demo_dumps 4 40 demo_talk) = take 2 demo_talk"
  by code_simp

lemma trim_answers_truth_witness:
  "estimate_tokens demo_dumps 4 (fst (hard_trim_to_fit demo_dumps 4 40 demo_talk)) \<le> 40 \<and>
   memories (fst (hard_trim_to_fit demo_dumps 4 40 demo_talk)) = []"
proof -
  obtain ms r where h: "hard_trim_to_fit demo_dumps 4 40 demo_talk = (ms, r)" by (rule prod.exhaust)
  have ne: "demo_talk \<noteq> []" by (simp add: demo_talk_def)
  have m: "tr_met (snd (hard_trim_to_fit demo_dumps 4 40 demo_talk))" "memories demo_talk = []" by code_simp+
  show ?thesis using trim_answers_truth [OF h ne] m h by simp
qed

text \<open>A result is dropped while the call it answers stays in the head.\<close>

definition demo_call :: call where
  "demo_call = \<lparr>cl_id = ''c1'', cl_name = ''Bash'', cl_input = [(''command'', ''make'')]\<rparr>"

definition call_msg :: "string \<Rightarrow> call list \<Rightarrow> msg" where
  "call_msg s cs = \<lparr>mg_role = RAssistant, mg_name = [], mg_call_id = [], mg_content = CText s, mg_calls = cs\<rparr>"

definition tool_msg :: "call \<Rightarrow> string \<Rightarrow> msg" where
  "tool_msg c s = \<lparr>mg_role = RTool, mg_name = cl_name c, mg_call_id = cl_id c, mg_content = CText s, mg_calls = []\<rparr>"

fun unanswered :: "string list \<Rightarrow> msg list \<Rightarrow> string list" where
  "unanswered pend [] = pend"
| "unanswered pend (m # ms) =
     (if mg_role m = RTool then unanswered (remove1 (mg_call_id m) pend) ms
      else unanswered (pend @ map cl_id (mg_calls m)) ms)"

fun orphans :: "string list \<Rightarrow> msg list \<Rightarrow> string list" where
  "orphans pend [] = []"
| "orphans pend (m # ms) =
     (if mg_role m = RTool then (if mg_call_id m \<in> set pend then [] else [mg_call_id m]) @ orphans (remove1 (mg_call_id m) pend) ms
      else orphans (pend @ map cl_id (mg_calls m)) ms)"

definition demo_work :: "msg list" where
  "demo_work = [plain_msg RUser ''build it'', call_msg [] [demo_call], tool_msg demo_call (replicate 300 CHR ''x''),
     plain_msg RAssistant ''built'', plain_msg RUser ''test it'']"

lemma trim_leaves_call_unanswered:
  "unanswered [] demo_work = []" "unanswered [] (fst (hard_trim_to_fit demo_dumps 4 40 demo_work)) = [''c1'']"
  by code_simp+

section \<open>What a compaction keeps\<close>

lemma head_loop_le: "head_loop ratio budget spent n ms \<le> n + length ms"
  by (induction ratio budget spent n ms rule: head_loop.induct) (auto simp: Let_def)

lemma head_span_bounds: "HEAD_KEEP \<le> head_span f ms ctx cpt \<and> head_span f ms ctx cpt \<le> max HEAD_KEEP (length ms - 12)"
proof -
  have "head_loop r b 0 0 (take n ms) \<le> n" for r b n
    using head_loop_le [of r b 0 0 "take n ms"] by simp
  then have "max HEAD_KEEP (head_loop r b 0 0 (take (max HEAD_KEEP (length ms - 8 - MIN_MIDDLE_MESSAGES)) ms))
      \<le> max HEAD_KEEP (length ms - 8 - MIN_MIDDLE_MESSAGES)" for r b
    by (metis max.bounded_iff max.cobounded1)
  moreover have "length ms - 8 - MIN_MIDDLE_MESSAGES = length ms - 12" by (simp add: MIN_MIDDLE_MESSAGES_def)
  ultimately show ?thesis unfolding head_span_def Let_def by (simp only: split: if_split) simp
qed

lemma head_at_least_two: "2 \<le> head_span f ms ctx cpt"
  using head_span_bounds [of f ms ctx cpt] by (simp add: HEAD_KEEP_def)

text \<open>The last memory block of the middle, or nothing.\<close>

lemma prior_memory_cases: "prior_memory middle = [] \<or> starts_with MEMORY_MARKER (prior_memory middle)"
proof -
  have "foldl (\<lambda>p m. if is_memory m then text_of (mg_content m) else p) p middle = p \<or>
      starts_with MEMORY_MARKER (foldl (\<lambda>p m. if is_memory m then text_of (mg_content m) else p) p middle)" for p
  proof (induction middle arbitrary: p)
    case (Cons m ms)
    show ?case using Cons [of "text_of (mg_content m)"] Cons [of p] by (cases "is_memory m") (auto simp: is_memory_def)
  qed simp
  from this [of "[]"] show ?thesis by (simp add: prior_memory_def)
qed

lemma rstrip_prefix: "\<exists>t. s = rstrip s @ t"
  unfolding rstrip_def by (metis rev_append rev_rev_ident takeWhile_dropWhile_id)

lemma marker_survives: "starts_with MEMORY_MARKER s \<Longrightarrow> starts_with MEMORY_MARKER (rstrip s)"
proof -
  assume "starts_with MEMORY_MARKER s"
  then obtain u where s: "s = MEMORY_MARKER @ u" unfolding starts_with_iff by blast
  have "dropWhile py_space (rev MEMORY_MARKER) = rev MEMORY_MARKER" by (simp add: MEMORY_MARKER_def py_space_def)
  then have "rstrip s = MEMORY_MARKER @ rstrip u \<or> rstrip s = MEMORY_MARKER"
    unfolding rstrip_def s by (auto simp: dropWhile_append)
  then show ?thesis unfolding starts_with_iff by auto
qed


lemma memory_text_starts:
  "starts_with MEMORY_MARKER (memory_text f (prior_memory ms) old) \<and> starts_with (rstrip (prior_memory ms)) (memory_text f (prior_memory ms) old)"
proof (cases "prior_memory ms = []")
  case True
  then show ?thesis by (simp add: memory_text_def rstrip_def)
next
  case False
  then have "starts_with MEMORY_MARKER (rstrip (prior_memory ms))" using prior_memory_cases marker_survives by blast
  then obtain t where "rstrip (prior_memory ms) = MEMORY_MARKER @ t" unfolding starts_with_iff by blast
  with False show ?thesis by (simp add: memory_text_def)
qed

lemma tail_length: "k < length xs - c \<Longrightarrow> length (drop (length xs - c) xs) = c" for k :: nat
  by simp

lemma three_parts:
  assumes "head = take k xs" "drop (length head) (take n xs) \<noteq> []"
  shows "xs = head @ drop (length head) (take n xs) @ drop n xs \<and> length head < n \<and> length head < length xs \<and> length head = k"
proof -
  have "length head < length (take n xs)" using assms(2) by (simp add: not_le [symmetric])
  then have lt: "length head < n" "length head < length xs" by auto
  then have k: "length head = k" using assms(1) by simp
  have "take (length head) (take n xs) = head" using lt assms(1) by (simp add: min_def)
  then have "take n xs = head @ drop (length head) (take n xs)" by (metis append_take_drop_id)
  then show ?thesis using lt k by (metis append.assoc append_take_drop_id)
qed

definition compacted :: "msg list \<Rightarrow> msg list \<Rightarrow> bool" where
  "compacted ms out \<longleftrightarrow> (\<exists>head middle tail block. ms = head @ middle @ tail \<and>
      HEAD_KEEP \<le> length head \<and> middle \<noteq> [] \<and> length tail = keep_count \<and>
      out = head @ [plain_msg RUser block, plain_msg RAssistant MEMORY_LOADED] @ tail \<and>
      starts_with MEMORY_MARKER block \<and> starts_with (rstrip (prior_memory middle)) block)"

lemma rebuild_compacts:
  assumes "rebuild e cpt ms \<noteq> ms"
  shows "compacted ms (rebuild e cpt ms)"
proof -
  define n where "n = length ms - keep_count"
  define k where "k = head_span (te_frac e) ms (case te_ctx e of Some c \<Rightarrow> c | None \<Rightarrow> 0) cpt"
  define head where "head = take k ms"
  define middle where "middle = drop (length head) (take n ms)"
  define block where "block = memory_text (te_extract e) (prior_memory middle) (filter (\<lambda>m. \<not> is_memory m \<and> \<not> is_loaded m) middle)"
  have r: "rebuild e cpt ms = head @ [plain_msg RUser block, plain_msg RAssistant MEMORY_LOADED] @ drop n ms"
    and ne: "middle \<noteq> []"
    using assms unfolding rebuild_def Let_def n_def [symmetric] k_def [symmetric] head_def [symmetric] middle_def [symmetric] block_def
    by (auto simp: prior_memory_def split: if_splits)
  have parts: "ms = head @ middle @ drop n ms" "length head < n" "length head = k"
    using three_parts [of head k ms n] ne unfolding head_def middle_def by blast+
  have "HEAD_KEEP \<le> length head" unfolding parts(3) k_def using head_span_bounds by blast
  moreover have "length (drop n ms) = keep_count" unfolding n_def by (rule tail_length) (use parts(2) n_def in blast)
  moreover have "starts_with MEMORY_MARKER block \<and> starts_with (rstrip (prior_memory middle)) block"
    unfolding block_def by (rule memory_text_starts)
  ultimately show ?thesis unfolding compacted_def using r ne parts(1) by blast
qed


text \<open>A result opens the tail while the call it answers went into the memory block.\<close>

definition demo_long :: "msg list" where
  "demo_long = [plain_msg RUser ''go'', plain_msg RAssistant ''ok'', plain_msg RUser ''build'', call_msg [] [demo_call],
     tool_msg demo_call ''made''] @ concat (replicate 3 [plain_msg RAssistant ''done'', plain_msg RUser ''more'']) @ [plain_msg RAssistant ''end'']"

definition demo_trim_env :: trim_env where
  "demo_trim_env = \<lparr>te_dumps = demo_dumps, te_extract = (\<lambda>_. ''facts''), te_frac = None, te_ctx = Some 8192\<rparr>"

lemma compaction_orphans_a_result:
  "orphans [] demo_long = []" "orphans [] (compress_context demo_trim_env 4 True 0 demo_long) = [''c1'']"
  by code_simp+

end
