(* ===== verification/Tool_Policy.thy ===== *)
theory Tool_Policy
  imports Shell_Text "HOL-Library.List_Lexorder" "HOL-Library.Char_ord"
begin

text \<open>
  Who may call what in the CLI: the declarative policy of \<^verbatim>\<open>instruments/policy.py\<close>, which a delegated
  agent only gets narrowed. The names of
  instruments and the resolution of paths are arguments.
\<close>

section \<open>Policies\<close>

text \<open>A resolved path is the list of its components.\<close>

type_synonym path = "string list"

record tool_policy =
  tp_allow :: "string list option"
  tp_deny :: "string list"
  tp_roots :: "path list"

definition listed :: "string \<Rightarrow> string list \<Rightarrow> bool" where
  "listed name names \<longleftrightarrow> name \<in> set names \<or> list_ex (\<lambda>n. CHR ''*'' \<in> set n \<and> fnmatchcase name n) names"

definition permits_tool :: "tool_policy \<Rightarrow> string \<Rightarrow> bool" where
  "permits_tool p name =
     (if listed name (tp_deny p) then False
      else case tp_allow p of None \<Rightarrow> True | Some a \<Rightarrow> listed name a)"

text \<open>\<open>resolved == root or root in resolved.parents\<close>.\<close>

definition inside_root :: "path \<Rightarrow> path \<Rightarrow> bool" where
  "inside_root rt resolved \<longleftrightarrow> starts_with rt resolved"

definition permits_path :: "(string \<Rightarrow> path option) \<Rightarrow> tool_policy \<Rightarrow> string \<Rightarrow> bool" where
  "permits_path resolve p file =
     (if tp_roots p = [] then True
      else case resolve file of None \<Rightarrow> False | Some r \<Rightarrow> list_ex (\<lambda>rt. inside_root rt r) (tp_roots p))"

definition narrowed :: "tool_policy \<Rightarrow> tool_policy \<Rightarrow> tool_policy" where
  "narrowed self child =
     (let allow = (case tp_allow self of
            None \<Rightarrow> tp_allow child
          | Some a \<Rightarrow>
              (case tp_allow child of
                 None \<Rightarrow> Some a
               | Some c \<Rightarrow> Some (filter (\<lambda>n. listed n a) c @ filter (\<lambda>n. listed n c) a)));
          roots = (if tp_roots self \<noteq> [] \<and> tp_roots child \<noteq> [] then
              (let rs = filter (\<lambda>r. list_ex (\<lambda>p. inside_root p r) (tp_roots self)) (tp_roots child) in
               if rs = [] then tp_roots self else rs)
            else if tp_roots self \<noteq> [] then tp_roots self else tp_roots child) in
      \<lparr>tp_allow = allow, tp_deny = tp_deny self @ tp_deny child, tp_roots = roots\<rparr>)"

definition PERMISSIVE :: tool_policy where
  "PERMISSIVE = \<lparr>tp_allow = None, tp_deny = [], tp_roots = []\<rparr>"

datatype policy_error = UnknownAllow "string list" | UnknownDeny "string list"

definition unknown_names :: "string list \<Rightarrow> string list \<Rightarrow> string list" where
  "unknown_names known names = sort (filter (\<lambda>n. n \<notin> set known \<and> \<not> starts_with ''mcp__'' n) (remdups names))"

definition build_policy ::
  "string list \<Rightarrow> (string \<Rightarrow> path) \<Rightarrow> string list option \<Rightarrow> string list \<Rightarrow> string list \<Rightarrow> policy_error + tool_policy" where
  "build_policy known resolve tools deny roots =
     (if tools = None \<and> deny = [] \<and> roots = [] then Inr PERMISSIVE
      else
        let bad = (case tools of None \<Rightarrow> [] | Some ts \<Rightarrow> unknown_names known ts);
            bad_deny = unknown_names known deny in
        if bad \<noteq> [] then Inl (UnknownAllow bad)
        else if bad_deny \<noteq> [] then Inl (UnknownDeny bad_deny)
        else Inr \<lparr>tp_allow = tools, tp_deny = deny, tp_roots = map resolve roots\<rparr>)"

section \<open>A delegated policy is never wider\<close>

lemma listed_trans:
  assumes "listed m a" "CHR ''*'' \<in> set m" "fnmatchcase name m" "star_only m" "\<forall>n \<in> set a. star_only n"
  shows "listed name a"
proof (cases "m \<in> set a")
  case True
  with assms show ?thesis by (auto simp: listed_def list_ex_iff)
next
  case False
  then obtain n where "n \<in> set a" "CHR ''*'' \<in> set n" "fnmatchcase m n" using assms(1) by (auto simp: listed_def list_ex_iff)
  with assms(3-5) have "fnmatchcase name n" unfolding fnmatchcase_def using star_glob_trans by blast
  with \<open>n \<in> set a\<close> \<open>CHR ''*'' \<in> set n\<close> show ?thesis by (auto simp: listed_def list_ex_iff)
qed

lemma listed_filter:
  assumes "listed name (filter (\<lambda>n. listed n a) c)" "\<forall>n \<in> set a \<union> set c. star_only n"
  shows "listed name a" "listed name c"
proof -
  from assms(1) obtain m where m: "m \<in> set c" "listed m a" "name = m \<or> CHR ''*'' \<in> set m \<and> fnmatchcase name m"
    by (auto simp: listed_def list_ex_iff)
  then show "listed name a" using listed_trans [of m a name] assms(2) by auto
  show "listed name c" using m by (auto simp: listed_def list_ex_iff)
qed

lemma listed_append: "listed name (a @ b) \<longleftrightarrow> listed name a \<or> listed name b"
  by (auto simp: listed_def)

definition plain_patterns :: "tool_policy \<Rightarrow> bool" where
  "plain_patterns p \<longleftrightarrow> (case tp_allow p of None \<Rightarrow> True | Some a \<Rightarrow> list_all star_only a)"

lemma narrowed_tools:
  assumes "plain_patterns self" "plain_patterns child" "permits_tool (narrowed self child) name"
  shows "permits_tool self name" "permits_tool child name"
proof -
  from assms(3) have p: "permits_tool (narrowed self child) name" .
  then have d: "\<not> listed name (tp_deny self)" "\<not> listed name (tp_deny child)"
    by (auto simp: permits_tool_def narrowed_def listed_append split: if_splits)
  have "(case tp_allow self of None \<Rightarrow> True | Some a \<Rightarrow> listed name a) \<and> (case tp_allow child of None \<Rightarrow> True | Some c \<Rightarrow> listed name c)"
  proof (cases "tp_allow self")
    case None
    with p show ?thesis by (auto simp: permits_tool_def narrowed_def split: if_splits option.splits)
  next
    case (Some a)
    show ?thesis
    proof (cases "tp_allow child")
      case None
      with p Some show ?thesis by (auto simp: permits_tool_def narrowed_def split: if_splits)
    next
      case (Some c)
      have s: "\<forall>n \<in> set a \<union> set c. star_only n"
        using assms(1,2) \<open>tp_allow self = Some a\<close> Some by (auto simp: plain_patterns_def list_all_iff)
      then have s': "\<forall>n \<in> set c \<union> set a. star_only n" by blast
      have "listed name (filter (\<lambda>n. listed n a) c) \<or> listed name (filter (\<lambda>n. listed n c) a)"
        using p \<open>tp_allow self = Some a\<close> Some by (auto simp: permits_tool_def narrowed_def listed_append split: if_splits)
      with listed_filter [OF _ s, of name] listed_filter [OF _ s', of name] show ?thesis
        using \<open>tp_allow self = Some a\<close> Some by auto
    qed
  qed
  with d show "permits_tool self name" "permits_tool child name" by (auto simp: permits_tool_def split: option.splits)
qed

lemma narrowed_paths:
  assumes p: "permits_path resolve (narrowed self child) file"
  shows "permits_path resolve self file"
proof (cases "tp_roots self = [] \<or> tp_roots child = []")
  case True
  then have "tp_roots self = [] \<or> tp_roots (narrowed self child) = tp_roots self" by (auto simp: narrowed_def Let_def)
  with p show ?thesis by (auto simp: permits_path_def split: option.splits if_splits)
next
  case False
  let ?rs = "filter (\<lambda>r. list_ex (\<lambda>p. inside_root p r) (tp_roots self)) (tp_roots child)"
  show ?thesis
  proof (cases "?rs = []")
    case True
    with False have "tp_roots (narrowed self child) = tp_roots self" by (simp add: narrowed_def Let_def)
    with p False show ?thesis by (auto simp: permits_path_def split: option.splits)
  next
    case ne: False
    then have "tp_roots (narrowed self child) = ?rs" using False by (simp add: narrowed_def Let_def)
    with p ne obtain r rt where r: "resolve file = Some r" "rt \<in> set ?rs" "inside_root rt r"
      by (auto simp: permits_path_def list_ex_iff split: option.splits)
    then obtain rt' where "rt' \<in> set (tp_roots self)" "inside_root rt' rt" by (auto simp: list_ex_iff)
    with r(3) have "inside_root rt' r" unfolding inside_root_def using starts_with_trans by blast
    with r(1) \<open>rt' \<in> set (tp_roots self)\<close> show ?thesis by (auto simp: permits_path_def list_ex_iff)
  qed
qed

text \<open>
  C23. What a delegated agent is given is never wider than either policy in the instruments it may call, when
  the patterns of the allow lists use no wild card but the star, and never wider than the delegating policy in
  the paths it may write.
\<close>

theorem narrowed_is_never_wider:
  assumes "plain_patterns self" "plain_patterns child"
  shows "(permits_tool (narrowed self child) name \<longrightarrow> permits_tool self name \<and> permits_tool child name)
    \<and> (permits_path resolve (narrowed self child) file \<longrightarrow> permits_path resolve self file)"
  using narrowed_tools [OF assms] narrowed_paths by blast

definition demo_worker :: tool_policy where
  "demo_worker = \<lparr>tp_allow = Some [''Read'', ''mcp__github__*''], tp_deny = [''Bash''], tp_roots = [[''srv'', ''repo'']]\<rparr>"

definition demo_child :: tool_policy where
  "demo_child = \<lparr>tp_allow = Some [''Read'', ''Write'', ''mcp__*''], tp_deny = [], tp_roots = [[''srv''], [''srv'', ''repo'', ''src'']]\<rparr>"

lemma narrowed_is_never_wider_witness:
  "permits_tool (narrowed demo_worker demo_child) ''mcp__github__list'' \<and> permits_tool demo_worker ''mcp__github__list'' \<and>
   \<not> permits_tool (narrowed demo_worker demo_child) ''mcp__mail__send'' \<and>
   tp_roots (narrowed demo_worker demo_child) = [[''srv'', ''repo'', ''src'']]"
proof -
  have p: "plain_patterns demo_worker" "plain_patterns demo_child" by code_simp+
  have g: "permits_tool (narrowed demo_worker demo_child) ''mcp__github__list''" by code_simp
  have m: "\<not> permits_tool (narrowed demo_worker demo_child) ''mcp__mail__send''" by code_simp
  have r: "tp_roots (narrowed demo_worker demo_child) = [[''srv'', ''repo'', ''src'']]" by code_simp
  show ?thesis using narrowed_is_never_wider [OF p, of "''mcp__github__list''"] g m r by blast
qed

text \<open>With a bracket or a question mark the star of the child's pattern is taken for an ordinary character,
  and the child is given more than the worker has.\<close>

lemma narrowing_can_widen:
  "let worker = demo_worker\<lparr>tp_allow := Some [''mcp__[!b]*'']\<rparr>; child = demo_child\<lparr>tp_allow := Some [''mcp__*'']\<rparr> in
     permits_tool (narrowed worker child) ''mcp__bank__pay'' \<and> \<not> permits_tool worker ''mcp__bank__pay''"
  by code_simp

end
