(* ===== verification/Shell_Gate.thy ===== *)
theory Shell_Gate
  imports Shell_Text
begin

text \<open>
  The two gates the CLI puts before a shell command: \<^verbatim>\<open>instruments/safety.py\<close>, which commands run without
  asking in the two unattended modes, and \<^verbatim>\<open>instruments/concurrency.py\<close>, which tool calls may overlap.
\<close>

section \<open>Commands that run without asking\<close>

definition READONLY_CMD_PREFIXES :: "string list" where
  "READONLY_CMD_PREFIXES =
    [''ls'', ''cat'', ''head'', ''tail'', ''wc'', ''pwd'', ''echo'', ''printf'', ''date'', ''which'',
      ''type'', ''env'', ''printenv'', ''uname'', ''whoami'', ''id'', ''git log'', ''git status'',
      ''git diff'', ''git show'', ''git branch'', ''git remote'', ''git stash list'', ''git tag'',
      ''grep '', ''rg '', ''ag '', ''fd '', ''pip show'', ''pip list'', ''npm list'', ''cargo metadata'',
      ''df '', ''du '', ''free '', ''top -bn'', ''ps '', ''curl -I'', ''curl --head'']"

definition CHAIN_OPERATORS :: "string list" where
  "CHAIN_OPERATORS =
    ['';'', ''||'', ''|'', [CHR 0x60], ''$('', ''>'', [CHR 0x0A]]"

definition DESTRUCTIVE_FIND_FLAGS :: "string list" where
  "DESTRUCTIVE_FIND_FLAGS =
    [''-delete'', ''-exec'', ''-execdir'', ''-ok'', ''-okdir'', ''-fprint'', ''-fprint0'', ''-fprintf'']"

definition HARD_BLOCKED_PREFIXES :: "string list" where
  "HARD_BLOCKED_PREFIXES =
    [''git push'', ''rm -rf'', ''rm -r '', ''sudo rm'', ''sudo dd'', ''rmdir '', ''DROP '', ''DROP TABLE'',
      ''DELETE FROM'', ''kubectl delete'', ''terraform destroy'', ''shred '', ''wipe '']"

definition AUTONOMOUS_EXTRA_PREFIXES :: "string list" where
  "AUTONOMOUS_EXTRA_PREFIXES =
    [''python '', ''python3 '', ''python -m '', ''node '', ''bun '', ''deno '', ''ruby '', ''perl '',
      ''pytest'', ''py.test'', ''npm test'', ''npm run '', ''npx '', ''cargo test'', ''cargo build'',
      ''cargo run '', ''cargo check'', ''cargo clippy'', ''go test'', ''go build'', ''go run '',
      ''go vet'', ''mix test'', ''mix '', ''jest '', ''vitest '', ''mocha '', ''make '', ''cmake '',
      ''ninja '', ''./gradlew '', ''gradlew '', ''mvn '', ''./mvnw '', ''tsc '', ''esbuild '', ''vite '',
      ''pip install'', ''pip3 install'', ''pip uninstall'', ''npm install'', ''npm ci'', ''npm update'',
      ''yarn '', ''pnpm '', ''poetry install'', ''poetry run '', ''poetry add'', ''uv pip'', ''uv run '',
      ''uv sync'', ''cargo add'', ''cargo update'', ''black '', ''ruff '', ''flake8 '', ''mypy '',
      ''pylint '', ''eslint '', ''prettier '', ''tsc --'', ''rustfmt'', ''cargo fmt'', ''shellcheck '',
      ''mkdir '', ''cp '', ''mv '', ''touch '', ''git add'', ''git commit'', ''git stash'',
      ''git checkout '', ''git switch '', ''git reset --soft'', ''git reset --mixed'', ''git fetch'',
      ''git pull'', ''git merge'', ''git rebase'', ''git tag '', ''sphinx-build'', ''mkdocs '', ''pdoc '']"

definition is_safe_find :: "string \<Rightarrow> bool" where
  "is_safe_find cmd =
     (case shlex_split cmd of None \<Rightarrow> False | Some tokens \<Rightarrow> \<not> list_ex (\<lambda>t. t \<in> set DESTRUCTIVE_FIND_FLAGS) tokens)"

abbreviation starts_any :: "string list \<Rightarrow> string \<Rightarrow> bool" where
  "starts_any ps s \<equiv> list_ex (\<lambda>p. starts_with p s) ps"

definition is_part_readonly :: "string \<Rightarrow> bool" where
  "is_part_readonly part =
     (let c = strip part in
      if c = [] then True
      else if c = ''cd'' \<or> starts_with ''cd '' c then True
      else if starts_with ''find '' c \<or> c = ''find'' then is_safe_find c
      else starts_any READONLY_CMD_PREFIXES c)"

definition is_part_autonomous :: "string \<Rightarrow> bool" where
  "is_part_autonomous part =
     (let c = strip part in
      if c = [] then True
      else if c = ''cd'' \<or> starts_with ''cd '' c then True
      else if starts_any HARD_BLOCKED_PREFIXES c then False
      else if starts_with ''find '' c \<or> c = ''find'' then is_safe_find c
      else if starts_any READONLY_CMD_PREFIXES c then True
      else starts_any AUTONOMOUS_EXTRA_PREFIXES c)"

definition is_readonly_command :: "string \<Rightarrow> bool" where
  "is_readonly_command cmd =
     (let c = strip cmd in
      if list_ex (\<lambda>op. contains op c) CHAIN_OPERATORS then False
      else if contains ''&&'' c then list_all is_part_readonly (filter (\<lambda>part. strip part \<noteq> []) (py_split ''&&'' c))
      else is_part_readonly c)"

definition is_autonomous_safe :: "string \<Rightarrow> bool" where
  "is_autonomous_safe cmd =
     (let c = strip cmd in
      if list_ex (\<lambda>op. contains op c) CHAIN_OPERATORS then False
      else if starts_any HARD_BLOCKED_PREFIXES c then False
      else if contains ''&&'' c then list_all is_part_autonomous (filter (\<lambda>part. strip part \<noteq> []) (py_split ''&&'' c))
      else is_part_autonomous c)"

section \<open>Calls that may overlap\<close>

definition READ_ONLY_INSTRUMENTS :: "string list" where
  "READ_ONLY_INSTRUMENTS =
    [''Read'', ''Glob'', ''Grep'', ''Semble'', ''WebFetch'', ''WebSearch'', ''TodoRead'', ''MemoryRead'']"

definition READ_ONLY_BINARIES :: "string list" where
  "READ_ONLY_BINARIES =
    [''ls'', ''cat'', ''head'', ''tail'', ''wc'', ''grep'', ''egrep'', ''fgrep'', ''rg'', ''find'',
      ''file'', ''stat'', ''du'', ''df'', ''pwd'', ''echo'', ''printf'', ''sort'', ''uniq'', ''cut'',
      ''tr'', ''awk'', ''sed'', ''basename'', ''dirname'', ''realpath'', ''readlink'', ''which'', ''type'',
      ''date'', ''env'', ''uname'', ''nvidia-smi'', ''lsmod'', ''free'', ''ps'', ''id'', ''hostname'',
      ''column'']"

definition word_char :: "char \<Rightarrow> bool" where
  "word_char c = (let n = of_char c :: nat in 48 \<le> n \<and> n \<le> 57 \<or> 65 \<le> n \<and> n \<le> 90 \<or> 97 \<le> n \<and> n \<le> 122 \<or> n = 95)"

text \<open>The search for \<open>\bw\b\<close>; the flag says whether the character before is a word character.\<close>

fun has_word :: "string \<Rightarrow> bool \<Rightarrow> string \<Rightarrow> bool" where
  "has_word w before [] = False"
| "has_word w before (c # s) \<longleftrightarrow>
     \<not> before \<and> starts_with w (c # s) \<and> (let r = drop (length w) (c # s) in r = [] \<or> \<not> word_char (hd r)) \<or>
     has_word w (word_char c) s"

definition unsafe_shell :: "string \<Rightarrow> bool" where
  "unsafe_shell cmd \<longleftrightarrow>
     list_ex (\<lambda>op. contains op cmd) [''>>'', ''>'', ''<'', '';'', ''&&'', ''||'', ''&'', [CHR 0x60], ''$(''] \<or>
     has_word ''sudo'' False cmd \<or> has_word ''rm'' False cmd"

definition after_slash :: "string \<Rightarrow> string" where
  "after_slash s = rev (takeWhile (\<lambda>c. c \<noteq> CHR ''/'') (rev s))"

definition segment_is_read_only :: "string \<Rightarrow> bool" where
  "segment_is_read_only segment =
     (case shlex_split segment of
        None \<Rightarrow> False
      | Some [] \<Rightarrow> False
      | Some (a0 # args) \<Rightarrow>
          let binary = after_slash a0 in
          if binary \<notin> set READ_ONLY_BINARIES then False
          else if binary = ''sed'' \<and> list_ex (\<lambda>a. a = ''-i'' \<or> starts_with ''-i'' a \<and> \<not> starts_with ''-in'' a) args then False
          else if binary = ''find'' \<and> list_ex (\<lambda>a. a \<in> set [''-delete'', ''-exec'', ''-execdir'', ''-ok'', ''-fprint'']) args then False
          else True)"

definition bash_is_read_only :: "string \<Rightarrow> bool" where
  "bash_is_read_only command =
     (if command = [] \<or> unsafe_shell command then False else list_all segment_is_read_only (py_split ''|'' command))"

text \<open>What an MCP server says of a tool: nothing, or the two hints.\<close>

record mcp_schema =
  ms_name :: string
  ms_hints :: "(bool \<times> bool) option"

fun find_schema :: "string \<Rightarrow> mcp_schema list \<Rightarrow> bool" where
  "find_schema name [] = False"
| "find_schema name (m # ms) =
     (if ms_name m \<noteq> name then find_schema name ms
      else case ms_hints m of None \<Rightarrow> False | Some (read_only, destructive) \<Rightarrow> read_only \<and> \<not> destructive)"

definition mcp_declares_read_only :: "string \<Rightarrow> mcp_schema list option \<Rightarrow> bool" where
  "mcp_declares_read_only name registry =
     (case registry of None \<Rightarrow> False | Some ms \<Rightarrow> starts_with ''mcp__'' name \<and> find_schema name ms)"

record tool_call =
  tc_name :: string
  tc_command :: "string option"

definition is_concurrency_safe :: "string \<Rightarrow> string option \<Rightarrow> mcp_schema list option \<Rightarrow> bool" where
  "is_concurrency_safe name command registry =
     (if name \<in> set READ_ONLY_INSTRUMENTS then True
      else if name = ''Bash'' then (case command of None \<Rightarrow> False | Some cmd \<Rightarrow> bash_is_read_only cmd)
      else if starts_with ''mcp__'' name then mcp_declares_read_only name registry
      else False)"

fun partition_step :: "(bool \<times> 'a list) list \<Rightarrow> bool \<Rightarrow> 'a \<Rightarrow> (bool \<times> 'a list) list" where
  "partition_step batches safe tc =
     (if batches \<noteq> [] \<and> fst (last batches) \<and> safe
      then butlast batches @ [(True, snd (last batches) @ [tc])]
      else batches @ [(safe, [tc])])"

definition partition_calls :: "('a \<Rightarrow> bool) \<Rightarrow> 'a list \<Rightarrow> (bool \<times> 'a list) list" where
  "partition_calls pred calls = fold (\<lambda>tc batches. partition_step batches (pred tc) tc) calls []"

definition partition_tool_calls :: "tool_call list \<Rightarrow> mcp_schema list option \<Rightarrow> (bool \<times> tool_call list) list" where
  "partition_tool_calls calls registry = partition_calls (\<lambda>tc. is_concurrency_safe (tc_name tc) (tc_command tc) registry) calls"

section \<open>The two tiers\<close>

lemma not_both_prefixes:
  "starts_with p s \<Longrightarrow> starts_with q s \<Longrightarrow> starts_with p q \<or> starts_with q p"
  using starts_with_comparable [of p s q] starts_with_comparable [of q s p] by (cases "length p \<le> length q") auto

lemma blocked_disjoint:
  "p \<in> set (''cd'' # ''find'' # READONLY_CMD_PREFIXES) \<Longrightarrow> q \<in> set HARD_BLOCKED_PREFIXES \<Longrightarrow> \<not> starts_with p q \<and> \<not> starts_with q p"
proof -
  have "list_all (\<lambda>p. list_all (\<lambda>q. \<not> starts_with p q \<and> \<not> starts_with q p) HARD_BLOCKED_PREFIXES) (''cd'' # ''find'' # READONLY_CMD_PREFIXES)"
    by code_simp
  then show "p \<in> set (''cd'' # ''find'' # READONLY_CMD_PREFIXES) \<Longrightarrow> q \<in> set HARD_BLOCKED_PREFIXES \<Longrightarrow> \<not> starts_with p q \<and> \<not> starts_with q p"
    unfolding list_all_iff by blast
qed

text \<open>What a part approved by the read-only tier starts with.\<close>

abbreviation known_starts :: "string list" where
  "known_starts \<equiv> ''cd'' # ''find'' # READONLY_CMD_PREFIXES"

lemma readonly_part_starts:
  assumes "is_part_readonly part" "strip part \<noteq> []"
  shows "\<exists>p \<in> set known_starts. starts_with p (strip part)"
proof -
  have "starts_with ''cd'' (strip part)" if "strip part = ''cd'' \<or> starts_with ''cd '' (strip part)"
    using that starts_with_trans [of "''cd''" "''cd ''" "strip part"] by auto
  moreover have "starts_with ''find'' (strip part)" if "starts_with ''find '' (strip part) \<or> strip part = ''find''"
    using that starts_with_trans [of "''find''" "''find ''" "strip part"] by auto
  ultimately show ?thesis using assms unfolding is_part_readonly_def Let_def
    by (auto simp: list_ex_iff split: if_splits)
qed

lemma not_blocked: "p \<in> set known_starts \<Longrightarrow> starts_with p c \<Longrightarrow> \<not> starts_any HARD_BLOCKED_PREFIXES c"
  using blocked_disjoint not_both_prefixes unfolding list_ex_iff by blast

lemma part_tiers: "is_part_readonly part \<Longrightarrow> is_part_autonomous part"
proof (cases "strip part = []")
  case False
  assume r: "is_part_readonly part"
  obtain p where "p \<in> set known_starts" "starts_with p (strip part)" using readonly_part_starts [OF r False] by blast
  then have "\<not> starts_any HARD_BLOCKED_PREFIXES (strip part)" by (rule not_blocked)
  with r show ?thesis unfolding is_part_readonly_def is_part_autonomous_def Let_def by (simp split: if_splits)
qed (simp add: is_part_autonomous_def)

lemma split_first: "\<exists>a r ps. split_on sep acc s = (acc @ a) # ps \<and> s = a @ r \<and> (r = [] \<or> starts_with sep r)"
proof (induction sep acc s rule: split_on.induct)
  case (2 sep acc c s)
  show ?case
  proof (cases "sep \<noteq> [] \<and> starts_with sep (c # s)")
    case True
    then show ?thesis by (intro exI [of _ "[]"] exI [of _ "c # s"] exI [of _ "split_on sep [] (drop (length sep) (c # s))"]) simp
  next
    case False
    with 2(2) obtain a r ps where "split_on sep (acc @ [c]) s = (acc @ [c] @ a) # ps" "s = a @ r" "r = [] \<or> starts_with sep r"
      by auto
    with False show ?thesis by (intro exI [of _ "c # a"] exI [of _ r] exI [of _ ps]) auto
  qed
qed simp

lemma strip_idem [simp]: "strip (strip s) = strip s"
proof (cases "strip s = []")
  case False
  have "dropWhile py_space (strip s) = strip s" using strip_hd [OF False] by (cases "strip s") auto
  moreover have "dropWhile py_space (rev (strip s)) = rev (strip s)"
    unfolding strip_def by simp
  ultimately show ?thesis unfolding strip_def [of "strip s"] by simp
next
  case True
  show ?thesis unfolding True by (simp add: strip_def)
qed

lemma first_part_start:
  assumes "c = strip cmd" "contains ''&&'' c" "list_all is_part_readonly (filter (\<lambda>part. strip part \<noteq> []) (py_split ''&&'' c))"
  shows "\<exists>p \<in> set (''&&'' # known_starts). starts_with p c"
proof -
  obtain a r ps where s: "py_split ''&&'' c = a # ps" "c = a @ r" "r = [] \<or> starts_with ''&&'' r"
    using split_first [of "''&&''" "[]" c] by auto
  have ne: "c \<noteq> []" using assms(2) by auto
  then have h: "\<not> py_space (hd c)" using strip_hd assms(1) by simp
  show ?thesis
  proof (cases "a = []")
    case True
    with s ne show ?thesis by auto
  next
    case False
    with h s(2) have "\<not> py_space (hd a)" by simp
    with strip_starts [OF False] obtain b where b: "a = strip a @ b" by blast
    have "strip a \<noteq> []"
    proof
      assume "strip a = []"
      then have "\<forall>c \<in> set a. py_space c" using strip_decomp [of a] by auto
      with False \<open>\<not> py_space (hd a)\<close> show False by (simp add: hd_in_set)
    qed
    with assms(3) s(1) have "is_part_readonly a" by simp
    with readonly_part_starts \<open>strip a \<noteq> []\<close> obtain p where p: "p \<in> set known_starts" "starts_with p (strip a)" by blast
    have "starts_with (strip a) c" using s(2) b starts_with_iff by (metis append_assoc)
    with p starts_with_trans show ?thesis by (metis list.set_intros(2))
  qed
qed

text \<open>
  The autonomous tier approves every command the read-only tier approves: none of the prefixes that are
  always refused can hide in an approved one, not even at the head of a chain.
\<close>

theorem readonly_is_autonomous:
  assumes "is_readonly_command cmd"
  shows "is_autonomous_safe cmd"
proof -
  let ?c = "strip cmd"
  have ops: "\<not> list_ex (\<lambda>op. contains op ?c) CHAIN_OPERATORS" using assms by (auto simp: is_readonly_command_def Let_def)
  show ?thesis
  proof (cases "contains ''&&'' ?c")
    case True
    with assms ops have parts: "list_all is_part_readonly (filter (\<lambda>part. strip part \<noteq> []) (py_split ''&&'' ?c))"
      by (simp add: is_readonly_command_def Let_def)
    obtain p where p: "p \<in> set (''&&'' # known_starts)" "starts_with p ?c" using first_part_start [OF refl True parts] by blast
    have "list_all (\<lambda>q. \<not> starts_with ''&&'' q \<and> \<not> starts_with q ''&&'') HARD_BLOCKED_PREFIXES" by code_simp
    then have "\<not> starts_any HARD_BLOCKED_PREFIXES ?c"
      using p not_blocked not_both_prefixes [of "''&&''" ?c] unfolding list_ex_iff list_all_iff by (metis set_ConsD)
    moreover have "list_all is_part_autonomous (filter (\<lambda>part. strip part \<noteq> []) (py_split ''&&'' ?c))"
      using parts part_tiers by (auto simp: list_all_iff)
    ultimately show ?thesis using ops True by (simp add: is_autonomous_safe_def Let_def)
  next
    case False
    with assms ops have r: "is_part_readonly ?c" by (simp add: is_readonly_command_def Let_def)
    have "\<not> starts_any HARD_BLOCKED_PREFIXES ?c"
    proof (cases "?c = []")
      case True
      have "list_all (\<lambda>q. q \<noteq> []) HARD_BLOCKED_PREFIXES" by code_simp
      with True show ?thesis by (auto simp: list_ex_iff list_all_iff)
    next
      case ne: False
      then obtain p where "p \<in> set known_starts" "starts_with p ?c" using readonly_part_starts [OF r] by (metis strip_idem)
      then show ?thesis by (rule not_blocked)
    qed
    with ops False part_tiers [OF r] show ?thesis by (simp add: is_autonomous_safe_def Let_def)
  qed
qed

lemma readonly_is_autonomous_witness: "is_autonomous_safe ''cd /repo && git diff --stat HEAD''"
  by (rule readonly_is_autonomous) code_simp

text \<open>A single ampersand is not among the chain operators, nor is anything asked of what \<open>env\<close> runs.\<close>

lemma readonly_lets_background_through:
  "is_readonly_command ''ls & rm -rf ~''" "is_readonly_command ''env rm -rf x''"
  by code_simp+

section \<open>Batches\<close>

definition batches_ok :: "('a \<Rightarrow> bool) \<Rightarrow> 'a list \<Rightarrow> (bool \<times> 'a list) list \<Rightarrow> bool" where
  "batches_ok pred calls bs \<longleftrightarrow>
     concat (map snd bs) = calls \<and>
     (\<forall>(safe, b) \<in> set bs. b \<noteq> [] \<and> (\<forall>tc \<in> set b. pred tc = safe) \<and> (\<not> safe \<longrightarrow> length b = 1)) \<and>
     (\<forall>i. Suc i < length bs \<longrightarrow> \<not> (fst (bs ! i) \<and> fst (bs ! Suc i)))"

lemma partition_step_ok:
  assumes "batches_ok pred calls bs"
  shows "batches_ok pred (calls @ [tc]) (partition_step bs (pred tc) tc)"
proof (cases "bs \<noteq> [] \<and> fst (last bs) \<and> pred tc")
  case True
  then obtain bs0 b where bs: "bs = bs0 @ [(True, b)]" by (cases bs rule: rev_cases) auto
  have adj: "\<not> (fst ((bs0 @ [(True, b @ [tc])]) ! i) \<and> fst ((bs0 @ [(True, b @ [tc])]) ! Suc i))"
    if "Suc i < length (bs0 @ [(True, b @ [tc])])" for i
  proof -
    have "map fst (bs0 @ [(True, b @ [tc])]) = map fst bs" by (simp add: bs)
    then have "fst ((bs0 @ [(True, b @ [tc])]) ! k) = fst (bs ! k)" if "k < length bs" for k
      using that by (metis bs length_append_singleton nth_map)
    then show ?thesis using assms that unfolding batches_ok_def by (simp add: bs)
  qed
  have "partition_step bs (pred tc) tc = bs0 @ [(True, b @ [tc])]" using True by (simp add: bs)
  moreover have "batches_ok pred (calls @ [tc]) (bs0 @ [(True, b @ [tc])])"
    using assms True adj unfolding batches_ok_def by (auto simp: bs)
  ultimately show ?thesis by simp
next
  case False
  then have p: "partition_step bs (pred tc) tc = bs @ [(pred tc, [tc])]" by (simp only: partition_step.simps if_False)
  have "\<not> (fst ((bs @ [(pred tc, [tc])]) ! i) \<and> fst ((bs @ [(pred tc, [tc])]) ! Suc i))" if "Suc i < length (bs @ [(pred tc, [tc])])" for i
  proof (cases "Suc i < length bs")
    case True
    with assms show ?thesis by (simp add: batches_ok_def nth_append)
  next
    case last: False
    with that have "Suc i = length bs" by simp
    then have "bs \<noteq> []" by auto
    with \<open>Suc i = length bs\<close> have "last bs = bs ! i" by (metis diff_Suc_1 last_conv_nth)
    with False \<open>Suc i = length bs\<close> show ?thesis by (auto simp: nth_append)
  qed
  with assms show ?thesis unfolding p batches_ok_def by auto
qed

text \<open>
  The batches are the calls in their order; a batch of unsafe calls is one call, a batch of safe ones is
  as long as it can be, and what overlaps is safe.
\<close>

theorem partition_keeps_order:
  "batches_ok (\<lambda>tc. is_concurrency_safe (tc_name tc) (tc_command tc) registry) calls (partition_tool_calls calls registry)"
proof -
  have "batches_ok pred (done @ calls) (fold (\<lambda>tc bs. partition_step bs (pred tc) tc) calls bs)"
    if "batches_ok pred done bs" for pred :: "'a \<Rightarrow> bool" and "done" calls bs
    using that
  proof (induction calls arbitrary: "done" bs)
    case (Cons tc calls)
    from Cons.IH [OF partition_step_ok [OF Cons.prems, of tc]] show ?case by simp
  qed simp
  from this [of _ "[]" "[]"] show ?thesis by (simp add: partition_tool_calls_def partition_calls_def batches_ok_def)
qed

text \<open>A line break and \<open>env\<close> get a writing command past the check.\<close>

lemma overlap_lets_writers_through:
  "is_concurrency_safe ''Bash'' (Some (''ls'' @ [CHR 0x0A] @ ''touch x'')) None"
  "is_concurrency_safe ''Bash'' (Some ''env touch x'') None"
  by code_simp+

end
