(* ===== verification/Permission_Rules.thy ===== *)
theory Permission_Rules
  imports Shell_Text
begin

text \<open>
  The per-pattern allow and deny rules of \<^verbatim>\<open>core/permission_rules.py\<close>, \<open>Tool(pattern)\<close>. The home and
  working directories, the expansion of \<open>~\<close> and the host of a URL are arguments; the rule files are read
  elsewhere, and the rules are two lists.
\<close>

section \<open>Rules\<close>

text \<open>\<open>^([^()]+?)(?:\((.*)\))?$\<close>: the tool before the first parenthesis and, when the text ends with the
  one that closes it, what is between (on one line).\<close>

definition is_paren :: "char \<Rightarrow> bool" where
  "is_paren c \<longleftrightarrow> c = CHR ''('' \<or> c = CHR '')''"

definition parse_rule :: "string \<Rightarrow> string \<times> string option" where
  "parse_rule rule =
     (let s = strip rule; tool = takeWhile (\<lambda>c. \<not> is_paren c) s; r = dropWhile (\<lambda>c. \<not> is_paren c) s in
      if tool = [] then (s, None)
      else if r = [] then (strip tool, None)
      else if hd r = CHR ''('' \<and> tl r \<noteq> [] \<and> last (tl r) = CHR '')'' \<and> CHR 0x0A \<notin> set (butlast (tl r))
      then (strip tool, Some (butlast (tl r)))
      else (s, None))"

definition PATH_KEYS :: "string list" where
  "PATH_KEYS = [''file_path'', ''path'', ''notebook_path'']"

type_synonym tool_input = "(string, string) pydict"

fun path_of_keys :: "string list \<Rightarrow> tool_input \<Rightarrow> string" where
  "path_of_keys [] inp = []"
| "path_of_keys (k # ks) inp =
     (case dict_get inp k of None \<Rightarrow> path_of_keys ks inp | Some v \<Rightarrow> if v \<noteq> [] then v else path_of_keys ks inp)"

definition path_of_input :: "tool_input \<Rightarrow> string" where
  "path_of_input inp = path_of_keys PATH_KEYS inp"

section \<open>Paths\<close>

record path_env =
  px_cwd :: string
  px_expanduser :: "string \<Rightarrow> string"
  px_host :: "string \<Rightarrow> string"

definition isabs :: "string \<Rightarrow> bool" where
  "isabs p = starts_with ''/'' p"

definition path_join :: "string \<Rightarrow> string \<Rightarrow> string" where
  "path_join a b = (if isabs b then b else if a = [] \<or> last a = CHR ''/'' then a @ b else a @ ''/'' @ b)"

fun join_with :: "string \<Rightarrow> string list \<Rightarrow> string" where
  "join_with sep [] = []"
| "join_with sep [x] = x"
| "join_with sep (x # y # xs) = x @ sep @ join_with sep (y # xs)"

text \<open>\<open>os.path.normpath\<close>.\<close>

definition norm_step :: "bool \<Rightarrow> string \<Rightarrow> string list \<Rightarrow> string list" where
  "norm_step rooted part new =
     (if part = [] \<or> part = ''.'' then new
      else if part \<noteq> ''..'' \<or> (\<not> rooted \<and> new = []) \<or> (new \<noteq> [] \<and> last new = ''..'') then new @ [part]
      else if new \<noteq> [] then butlast new else new)"

definition normpath :: "string \<Rightarrow> string" where
  "normpath p =
     (if p = [] then ''.''
      else
        let slashes = (if starts_with ''//'' p \<and> \<not> starts_with ''///'' p then ''//'' else if starts_with ''/'' p then ''/'' else []);
            comps = fold (norm_step (slashes \<noteq> [])) (py_split ''/'' (dropWhile (\<lambda>c. c = CHR ''/'') p)) [];
            r = slashes @ join_with ''/'' comps in
        if r = [] then ''.'' else r)"

definition norm :: "path_env \<Rightarrow> string \<Rightarrow> string" where
  "norm env p = normpath (px_expanduser env p)"

definition after_last_slash :: "string \<Rightarrow> string" where
  "after_last_slash s = rev (takeWhile (\<lambda>c. c \<noteq> CHR ''/'') (rev s))"

definition rstrip_char :: "char \<Rightarrow> string \<Rightarrow> string" where
  "rstrip_char c s = rev (dropWhile (\<lambda>d. d = c) (rev s))"

definition path_match :: "path_env \<Rightarrow> string \<Rightarrow> string \<Rightarrow> bool" where
  "path_match env pattern path =
     (if path = [] then False
      else
        let full = norm env (if isabs (px_expanduser env path) then path else path_join (px_cwd env) path);
            pat = norm env pattern;
            pat_abs = (if isabs pat then pat else path_join (px_cwd env) pat) in
        list_ex (\<lambda>cand. list_ex (\<lambda>pp. fnmatchcase cand pp \<or> fnmatchcase cand (join_with ''/*'' (py_split ''/**'' pp))) [pat_abs, pat])
          [full, after_last_slash full]
        \<or> full = pat_abs
        \<or> starts_with (rstrip_char (CHR ''/'') (rstrip_char (CHR ''*'') pat_abs) @ ''/'') full \<and> ends_with ''**'' pattern)"

section \<open>Commands\<close>

definition SPLIT_OPS :: "string list" where
  "SPLIT_OPS = [''&&'', ''||'', '';'', ''|'', [CHR 0x0A], [CHR 0x60], ''$('', '')'']"

text \<open>\<open>re.split\<close> at the alternatives, the first that matches at a position winning.\<close>

function split_ops :: "string \<Rightarrow> string \<Rightarrow> string list" where
  "split_ops acc [] = [acc]"
| "split_ops acc (c # s) =
     (case find (\<lambda>op. starts_with op (c # s)) SPLIT_OPS of
        Some op \<Rightarrow> acc # split_ops [] (drop (length op) (c # s))
      | None \<Rightarrow> split_ops (acc @ [c]) s)"
  by pat_completeness auto

lemma split_op_nonempty: "find P SPLIT_OPS = Some op \<Longrightarrow> 0 < length op"
  by (auto simp: SPLIT_OPS_def split: if_splits)

termination split_ops
  by (relation "measure (\<lambda>(acc, s). length s)") (auto dest: split_op_nonempty)

definition segments :: "string \<Rightarrow> string list" where
  "segments cmd = filter (\<lambda>x. x \<noteq> []) (map strip (split_ops [] cmd))"

definition has_redirect :: "string \<Rightarrow> bool" where
  "has_redirect cmd \<longleftrightarrow> CHR ''<'' \<in> set cmd \<or> CHR ''>'' \<in> set cmd"

definition segment_match :: "string \<Rightarrow> string \<Rightarrow> bool" where
  "segment_match pat seg =
     (if ends_with '':*'' pat
      then (let pre = take (length pat - 2) pat in seg = pre \<or> starts_with (pre @ '' '') seg)
      else fnmatchcase seg pat)"

definition bash_match :: "string \<Rightarrow> string \<Rightarrow> bool \<Rightarrow> bool" where
  "bash_match pat cmd every =
     (let segs = segments cmd in
      if segs = [] then False
      else if every \<and> has_redirect cmd then False
      else if every then list_all (segment_match pat) segs else list_ex (segment_match pat) segs)"

definition matches :: "path_env \<Rightarrow> string \<Rightarrow> string \<Rightarrow> tool_input \<Rightarrow> bool \<Rightarrow> bool" where
  "matches env rule name inp every =
     (case parse_rule rule of (tool, pat) \<Rightarrow>
        if \<not> fnmatchcase name tool then False
        else case pat of
            None \<Rightarrow> True
          | Some pat \<Rightarrow>
              if pat = [] \<or> pat = ''*'' then True
              else if name = ''Bash'' then bash_match pat (strip (case dict_get inp ''command'' of None \<Rightarrow> [] | Some c \<Rightarrow> c)) every
              else if name = ''WebFetch'' \<and> starts_with ''domain:'' pat then
                (let host = str_lower (px_host env (case dict_get inp ''url'' of None \<Rightarrow> [] | Some u \<Rightarrow> u)); d = str_lower (drop 7 pat) in
                 host = d \<or> ends_with (''.'' @ d) host)
              else if path_of_input inp \<noteq> [] then path_match env pat (path_of_input inp)
              else fnmatchcase (case inp of [] \<Rightarrow> [] | kv # _ \<Rightarrow> snd kv) pat)"

datatype permission = Deny | Allow

record rules =
  ru_allow :: "string list"
  ru_deny :: "string list"

definition decide :: "path_env \<Rightarrow> string \<Rightarrow> tool_input \<Rightarrow> rules \<Rightarrow> permission option" where
  "decide env name inp rules =
     (if list_ex (\<lambda>r. matches env r name inp False) (ru_deny rules) then Some Deny
      else if list_ex (\<lambda>r. matches env r name inp True) (ru_allow rules) then Some Allow
      else None)"

section \<open>Chaining\<close>

text \<open>A command of two parts joined by an operator has the segments of both.\<close>

definition joins :: "string \<Rightarrow> string \<Rightarrow> string \<Rightarrow> bool" where
  "joins a op b \<longleftrightarrow> op \<in> set SPLIT_OPS \<and>
     (a = [] \<or> last a \<notin> {CHR ''&'', CHR ''|'', CHR ''$''}) \<and> (op = ''|'' \<longrightarrow> \<not> starts_with ''|'' b)"

lemma ops_cases:
  "op \<in> set SPLIT_OPS \<Longrightarrow> op = ''&&'' \<or> op = ''||'' \<or> op = '';'' \<or> op = ''|'' \<or> op = [CHR 0x0A] \<or> op = [CHR 0x60] \<or> op = ''$('' \<or> op = '')''"
  by (simp add: SPLIT_OPS_def)

lemma find_op_at:
  assumes "op \<in> set SPLIT_OPS" "op = ''|'' \<longrightarrow> \<not> starts_with ''|'' b"
  shows "find (\<lambda>o'. starts_with o' (op @ b)) SPLIT_OPS = Some op"
  using ops_cases [OF assms(1)] assms(2) by (elim disjE) (simp_all add: SPLIT_OPS_def)

lemma split_at_op:
  assumes "op \<in> set SPLIT_OPS" "op = ''|'' \<longrightarrow> \<not> starts_with ''|'' b"
  shows "split_ops acc (op @ b) = acc # split_ops [] b"
proof -
  obtain c r where "op = c # r" using ops_cases [OF assms(1)] by auto
  with find_op_at [OF assms] show ?thesis by simp
qed

lemma find_op_append:
  assumes "a = [] \<longrightarrow> c \<notin> {CHR ''&'', CHR ''|'', CHR ''$''}"
  shows "find (\<lambda>op. starts_with op (c # a @ b)) SPLIT_OPS = find (\<lambda>op. starts_with op (c # a)) SPLIT_OPS"
proof (rule find_cong [OF refl])
  fix op assume "op \<in> set SPLIT_OPS"
  from ops_cases [OF this] have op: "length op = 1 \<or> length op = 2 \<and> hd op \<in> {CHR ''&'', CHR ''|'', CHR ''$''}"
    by (elim disjE) simp_all
  show "starts_with op (c # a @ b) = starts_with op (c # a)"
  proof (cases "length op \<le> Suc (length a)")
    case True
    then have "take (length op) (c # a @ b) = take (length op) (c # a)" by (cases "length op") simp_all
    then show ?thesis by simp
  next
    case False
    with op have "a = []" "length op = 2" by (cases a; auto)+
    moreover with op assms have "hd op \<noteq> c" by auto
    ultimately show ?thesis by (cases op) (auto simp: take_Cons')
  qed
qed

lemma find_op_length: "find (\<lambda>op. starts_with op s) SPLIT_OPS = Some op \<Longrightarrow> s = op @ drop (length op) s"
  by (auto simp: find_Some_iff) (metis append_take_drop_id)

lemma split_ops_append:
  "(a = [] \<or> last a \<notin> {CHR ''&'', CHR ''|'', CHR ''$''}) \<Longrightarrow> op \<in> set SPLIT_OPS \<Longrightarrow> (op = ''|'' \<longrightarrow> \<not> starts_with ''|'' b) \<Longrightarrow>
     split_ops acc (a @ op @ b) = split_ops acc a @ split_ops [] b"
proof (induction acc a rule: split_ops.induct)
  case (1 acc)
  then show ?case by (simp add: split_at_op)
next
  case (2 acc c s)
  have f: "find (\<lambda>o'. starts_with o' (c # s @ op @ b)) SPLIT_OPS = find (\<lambda>o'. starts_with o' (c # s)) SPLIT_OPS"
    by (rule find_op_append) (use 2(3) in auto)
  show ?case
  proof (cases "find (\<lambda>o'. starts_with o' (c # s)) SPLIT_OPS")
    case None
    with 2(1) [OF None] 2(3-5) f show ?thesis by (auto split: if_splits)
  next
    case (Some o')
    have s: "c # s = o' @ drop (length o') (c # s)" by (rule find_op_length [OF Some])
    have "drop (length o') (c # s) = [] \<or> last (drop (length o') (c # s)) \<notin> {CHR ''&'', CHR ''|'', CHR ''$''}"
      using 2(3) s by (metis last_appendR list.distinct(1))
    moreover have "drop (length o') (c # s @ op @ b) = drop (length o') (c # s) @ op @ b"
      by (metis append_Cons append_eq_conv_conj append.assoc s)
    ultimately show ?thesis using 2(2) [OF Some] 2(4,5) Some f by simp
  qed
qed

lemma segments_join: "joins a op b \<Longrightarrow> segments (a @ op @ b) = segments a @ segments b"
  unfolding joins_def segments_def by (simp add: split_ops_append)

text \<open>
  Chaining neither smuggles in a command nor hides one: a chain that an allow pattern matches has both its
  parts matched by it, and a chain of which a part is matched by a deny pattern is matched by it.
\<close>

theorem chaining_is_covered:
  assumes "joins a op b"
  shows "(bash_match pat (a @ op @ b) True \<longrightarrow>
        (segments a = [] \<or> bash_match pat a True) \<and> (segments b = [] \<or> bash_match pat b True)) \<and>
     (bash_match pat a False \<or> bash_match pat b False \<longrightarrow> bash_match pat (a @ op @ b) False)"
  using segments_join [OF assms] by (auto simp: bash_match_def has_redirect_def Let_def split: if_splits)

lemma chaining_is_covered_witness:
  "\<not> bash_match ''git status:*'' (''git status'' @ '';'' @ '' rm -rf ~'') True \<and>
   bash_match ''rm -rf *'' (''ls '' @ ''&&'' @ '' rm -rf x'') False"
proof -
  have j: "joins ''git status'' '';'' '' rm -rf ~''" "joins ''ls '' ''&&'' '' rm -rf x''" by code_simp+
  have b: "segments '' rm -rf ~'' \<noteq> []" "\<not> bash_match ''git status:*'' '' rm -rf ~'' True" "bash_match ''rm -rf *'' '' rm -rf x'' False"
    by code_simp+
  show ?thesis using chaining_is_covered [OF j(1), of "''git status:*''"] chaining_is_covered [OF j(2), of "''rm -rf *''"] b by auto
qed

text \<open>A single ampersand, which also separates commands, is not an operator of the split.\<close>

definition demo_rules :: rules where
  "demo_rules = \<lparr>ru_allow = [''Bash(git status:*)''], ru_deny = [''Bash(rm -rf *)'']\<rparr>"

definition demo_path_env :: path_env where
  "demo_path_env = \<lparr>px_cwd = ''/srv/repo'', px_expanduser = \<lambda>p. p, px_host = \<lambda>u. u\<rparr>"

lemma ampersand_smuggles:
  "decide demo_path_env ''Bash'' [(''command'', ''git status & rm -rf ~'')] demo_rules = Some Allow"
  "decide demo_path_env ''Bash'' [(''command'', ''git status; rm -rf ~'')] demo_rules = Some Deny"
  by code_simp+

end
