(* ===== verification/Tool_Dispatch.thy ===== *)
theory Tool_Dispatch
  imports Tool_Policy Shell_Gate Permission_Rules
begin

text \<open>
  The dispatch of a tool call in the CLI: the blocking hooks of \<^verbatim>\<open>greenboost_cli/instruments/hooks.py\<close>, and
  \<^verbatim>\<open>instruments/dispatcher.py\<close>, which asks them, the policy, the workspace jail and the approval before it runs an
  instrument. Instruments, hook commands and the user act on a world of any type; what ran and what was logged is kept.
\<close>

section \<open>Hooks\<close>

text \<open>How the subprocess of a hook ended, and what its output parses to.\<close>

datatype hook_run = Exited int string string | HookTimeout | HookFails string

datatype hook_answer = NotJson | NotDict | HookDict bool "string option"

record hook =
  hk_matcher :: "string option"
  hk_command :: "string option"

text \<open>The hooks file: absent, two lists of hooks, or something that is no dictionary.\<close>

datatype hooks_file = NoHooks | Hooks "hook list" "hook list" | BadHooks

definition hook_matches :: "string \<Rightarrow> string \<Rightarrow> bool" where
  "hook_matches pattern tool \<longleftrightarrow> pattern = ''*'' \<or> str_lower pattern = str_lower tool"

text \<open>What a hook is told: the event, the tool, its input, and for the second kind the response.\<close>

type_synonym hook_payload = "string \<times> string \<times> tool_input \<times> string option"

datatype handled = Answer string | BadParams string | Raises string

text \<open>
  \<open>ti_handler\<close> is the table of instruments: its arguments are the name, the input, the policy a delegate inherits and
  the roots the shell is jailed to. \<open>ti_jail\<close> resolves a path, \<open>None\<close> where that raises.
\<close>

record 'w instruments =
  ti_hooks :: hooks_file
  ti_exec :: "string \<Rightarrow> hook_payload \<Rightarrow> 'w \<Rightarrow> hook_run \<times> 'w"
  ti_loads :: "string \<Rightarrow> hook_answer"
  ti_handler :: "string \<Rightarrow> tool_input \<Rightarrow> tool_policy \<Rightarrow> path list \<Rightarrow> 'w \<Rightarrow> handled \<times> 'w"
  ti_jail :: "string \<Rightarrow> path option"

definition or_else :: "string \<Rightarrow> string \<Rightarrow> string" where
  "or_else a b = (if a = [] then b else a)"

definition hook_broke :: "string \<Rightarrow> string" where
  "hook_broke e = ''a blocking hook failed to run ('' @ e @ ''), so the call was not allowed (blocking hooks fail closed)''"

definition quoted :: "string \<Rightarrow> string" where
  "quoted s = [CHR 0x27] @ s @ [CHR 0x27]"

definition hook_verdict :: "(string \<Rightarrow> hook_answer) \<Rightarrow> bool \<Rightarrow> hook_run \<Rightarrow> bool \<times> string" where
  "hook_verdict loads fail_closed r =
     (case r of
        Exited rc out err \<Rightarrow>
          if rc \<noteq> 0 then (False, take 200 (strip (or_else (or_else err out) ''hook blocked'')))
          else if strip out = [] then (True, [])
          else (case loads (strip out) of
              NotJson \<Rightarrow> (True, [])
            | NotDict \<Rightarrow> if fail_closed then (False, hook_broke ''AttributeError'') else (True, [])
            | HookDict go reason \<Rightarrow>
                if go then (True, []) else (False, case reason of Some s \<Rightarrow> s | None \<Rightarrow> ''blocked by hook''))
      | HookTimeout \<Rightarrow> if fail_closed then (False, ''a blocking hook timed out after 10s, so the call was not allowed (blocking hooks fail closed)'') else (True, [])
      | HookFails e \<Rightarrow> if fail_closed then (False, hook_broke e) else (True, []))"

text \<open>A hook without a command raises \<open>KeyError\<close>: the answer is \<open>Inl\<close>.\<close>

fun run_hooks ::
  "'w instruments \<Rightarrow> bool \<Rightarrow> string \<Rightarrow> hook_payload \<Rightarrow> hook list \<Rightarrow> 'w \<Rightarrow> (string + bool \<times> string) \<times> 'w" where
  "run_hooks ti strict tool payload [] w = (Inr (True, []), w)"
| "run_hooks ti strict tool payload (h # hs) w =
     (if hook_matches (case hk_matcher h of Some m \<Rightarrow> m | None \<Rightarrow> ''*'') tool then
        (case hk_command h of
           None \<Rightarrow> (Inl ''KeyError'', w)
         | Some cmd \<Rightarrow>
             (case ti_exec ti cmd payload w of
                (r, w') \<Rightarrow>
                  (case hook_verdict (ti_loads ti) strict r of
                     (go, reason) \<Rightarrow>
                       if strict \<and> \<not> go then (Inr (False, reason), w')
                       else run_hooks ti strict tool payload hs w')))
      else run_hooks ti strict tool payload hs w)"

definition run_pre_tool_hooks :: "'w instruments \<Rightarrow> string \<Rightarrow> tool_input \<Rightarrow> 'w \<Rightarrow> (string + bool \<times> string) \<times> 'w" where
  "run_pre_tool_hooks ti name inp w =
     (case ti_hooks ti of
        NoHooks \<Rightarrow> (Inr (True, []), w)
      | BadHooks \<Rightarrow> (Inl ''AttributeError'', w)
      | Hooks pre _ \<Rightarrow> run_hooks ti True name (''PreToolUse'', name, inp, None) pre w)"

definition run_post_tool_hooks :: "'w instruments \<Rightarrow> string \<Rightarrow> tool_input \<Rightarrow> string \<Rightarrow> 'w \<Rightarrow> 'w" where
  "run_post_tool_hooks ti name inp result w =
     (case ti_hooks ti of
        NoHooks \<Rightarrow> w
      | BadHooks \<Rightarrow> w
      | Hooks _ post \<Rightarrow> snd (run_hooks ti False name (''PostToolUse'', name, inp, Some (take 4000 result)) post w))"

text \<open>The machinery that fails has not said yes.\<close>

definition pre_gate :: "'w instruments \<Rightarrow> string \<Rightarrow> tool_input \<Rightarrow> 'w \<Rightarrow> (bool \<times> string) \<times> 'w" where
  "pre_gate ti name inp w =
     (case run_pre_tool_hooks ti name inp w of
        (Inl e, w') \<Rightarrow> ((False, ''hook machinery failed ('' @ e @ '')''), w')
      | (Inr v, w') \<Rightarrow> (v, w'))"

section \<open>How a result failed\<close>

definition TRANSIENT_MARKERS :: "string list" where
  "TRANSIENT_MARKERS = [''timed out'', ''timeout'', ''temporarily unavailable'', ''resource busy'', ''connection reset'',
     ''connection refused'', ''try again'', ''device or resource busy'', ''too many open files'', ''no buffer space'']"

datatype failure = FOk | FTransient | FSemantic | FDenied

definition first_line :: "string \<Rightarrow> string" where
  "first_line s = takeWhile (\<lambda>c. c \<noteq> CHR 0x0A) s"

definition classify_tool_failure :: "string \<Rightarrow> failure \<times> bool" where
  "classify_tool_failure result =
     (if result = [] then (FOk, False)
      else
        let head = str_lower (take 400 result) in
        if \<not> (starts_with ''error'' head \<or> starts_with ''blocked'' head \<or> contains ''permission'' (first_line head)) then (FOk, False)
        else if contains ''blocked'' head \<or> contains ''denied'' head \<or> contains ''not permitted'' head then (FDenied, False)
        else if list_ex (\<lambda>m. contains m head) TRANSIENT_MARKERS then (FTransient, True)
        else (FSemantic, False))"

section \<open>Dispatch\<close>

definition DISPATCH :: "string list" where
  "DISPATCH = [''Read'', ''Write'', ''Edit'', ''MultiEdit'', ''NotebookEdit'', ''Bash'', ''TaskOutput'', ''TaskStop'', ''Glob'', ''Grep'',
     ''Semble'', ''WebFetch'', ''WebSearch'', ''Screenshot'', ''TodoRead'', ''TodoWrite'', ''MemoryRead'', ''Skill'', ''Delegate'', ''MemoryWrite'']"

definition ALWAYS_APPROVED :: "string list" where
  "ALWAYS_APPROVED = [''Read'', ''Glob'', ''Grep'', ''Semble'', ''WebFetch'', ''WebSearch'', ''Screenshot'', ''TodoRead'', ''TodoWrite'', ''MemoryRead'']"

definition JAILED :: "string list" where
  "JAILED = [''Write'', ''Edit'', ''MultiEdit'', ''NotebookEdit'']"

datatype approval_mode = AcceptAll | Manual | Auto

datatype decision = BlockedHook | DeniedPolicy | DeniedUser | Allowed

record audit =
  au_name :: string
  au_decision :: decision
  au_outcome :: string

text \<open>One run of an instrument: its name, its input and the policy that let it run.\<close>

type_synonym run = "string \<times> tool_input \<times> tool_policy"

record 'w shop =
  sh_world :: 'w
  sh_audit :: "audit list"
  sh_ran :: "run list"

datatype outcome = Done string | Threw string

definition param :: "tool_input \<Rightarrow> string \<Rightarrow> string" where
  "param inp k = (case dict_get inp k of Some v \<Rightarrow> v | None \<Rightarrow> [])"

definition log_call :: "string \<Rightarrow> decision \<Rightarrow> string \<Rightarrow> 'w shop \<Rightarrow> 'w shop" where
  "log_call name d out s = s\<lparr>sh_audit := sh_audit s @ [\<lparr>au_name = name, au_decision = d, au_outcome = out\<rparr>]\<rparr>"

definition auto_approve :: "string \<Rightarrow> tool_input \<Rightarrow> bool" where
  "auto_approve name inp = (if name = ''Bash'' then is_readonly_command (param inp ''command'') else False)"

definition show_failure :: "failure \<Rightarrow> string" where
  "show_failure f = (case f of FOk \<Rightarrow> ''ok'' | FTransient \<Rightarrow> ''transient'' | FSemantic \<Rightarrow> ''semantic'' | FDenied \<Rightarrow> ''denied'')"

definition jailed_path :: "tool_input \<Rightarrow> string" where
  "jailed_path inp = or_else (param inp ''file_path'') (param inp ''notebook_path'')"

text \<open>The part after the gates: run the instrument, log, tell the hooks.\<close>

definition run_instrument :: "'w instruments \<Rightarrow> tool_policy \<Rightarrow> string \<Rightarrow> tool_input \<Rightarrow> 'w shop \<Rightarrow> outcome \<times> 'w shop" where
  "run_instrument ti pol name inp s =
     (if param inp ''_parse_error'' \<noteq> [] then
        (Done (''Error: the arguments for '' @ quoted name @ '' could not be read , '' @ param inp ''_parse_error''), log_call name Allowed ''semantic'' s)
      else
        case ti_handler ti name inp pol (if name = ''Bash'' then tp_roots pol else []) (sh_world s) of
          (h, w) \<Rightarrow>
            let s1 = s\<lparr>sh_world := w, sh_ran := sh_ran s @ [(name, inp, pol)]\<rparr> in
            case h of
              Raises e \<Rightarrow> (Threw e, s1)
            | BadParams e \<Rightarrow> (Done (''Error: instrument '' @ quoted name @ '' called with invalid parameters ('' @ e @ ''); check the required arguments and retry.''), log_call name Allowed ''semantic'' s1)
            | Answer r \<Rightarrow>
                let s2 = log_call name Allowed (show_failure (fst (classify_tool_failure r))) s1 in
                (Done r, s2\<lparr>sh_world := run_post_tool_hooks ti name inp r (sh_world s2)\<rparr>))"

text \<open>\<open>approval\<close> is the function that asks the user, when there is one.\<close>

definition dispatch ::
  "'w instruments \<Rightarrow> approval_mode \<Rightarrow> (string \<Rightarrow> tool_input \<Rightarrow> 'w \<Rightarrow> bool \<times> 'w) option \<Rightarrow> tool_policy option \<Rightarrow>
     string \<Rightarrow> tool_input \<Rightarrow> 'w shop \<Rightarrow> outcome \<times> 'w shop" where
  "dispatch ti mode approval policy name inp s =
     (let pol = (case policy of Some p \<Rightarrow> p | None \<Rightarrow> PERMISSIVE) in
      if name \<notin> set DISPATCH then (Done (''Error: Unknown instrument: '' @ name), s)
      else
        case pre_gate ti name inp (sh_world s) of
          ((ok, reason), w) \<Rightarrow>
            let s = s\<lparr>sh_world := w\<rparr> in
            if \<not> ok then (Done (''Blocked by hook: '' @ reason), log_call name BlockedHook [] s)
            else if \<not> permits_tool pol name then
              (Done (''Error: instrument '' @ quoted name @ '' is not in this agent'' @ [CHR 0x27] @ ''s tool policy''), log_call name DeniedPolicy [] s)
            else if name \<in> set JAILED \<and> \<not> permits_path (ti_jail ti) pol (jailed_path inp) then
              (Done (''Error: '' @ quoted (jailed_path inp) @ '' is outside this agent'' @ [CHR 0x27] @ ''s workspace''), log_call name DeniedPolicy [] s)
            else if mode \<noteq> AcceptAll \<and> name \<notin> set ALWAYS_APPROVED \<and> (mode = Manual \<or> \<not> auto_approve name inp) then
              (case approval of
                 None \<Rightarrow> run_instrument ti pol name inp s
               | Some ask \<Rightarrow>
                   (case ask name inp (sh_world s) of
                      (yes, w') \<Rightarrow>
                        if yes then run_instrument ti pol name inp (s\<lparr>sh_world := w'\<rparr>)
                        else (Done ''Denied: user rejected this operation'', log_call name DeniedUser [] (s\<lparr>sh_world := w'\<rparr>))))
            else run_instrument ti pol name inp s)"

text \<open>An MCP tool goes through the hooks and the policy; what it raises is an answer.\<close>

definition dispatch_mcp ::
  "'w instruments \<Rightarrow> (string \<Rightarrow> tool_input \<Rightarrow> 'w \<Rightarrow> (string + string) \<times> 'w) \<Rightarrow> tool_policy option \<Rightarrow>
     string \<Rightarrow> tool_input \<Rightarrow> 'w shop \<Rightarrow> string \<times> 'w shop" where
  "dispatch_mcp ti call policy name inp s =
     (let pol = (case policy of Some p \<Rightarrow> p | None \<Rightarrow> PERMISSIVE) in
      case pre_gate ti name inp (sh_world s) of
        ((ok, reason), w) \<Rightarrow>
          let s = s\<lparr>sh_world := w\<rparr> in
          if \<not> ok then (''Blocked by hook: '' @ reason, log_call name BlockedHook [] s)
          else if \<not> permits_tool pol name then
            (''Error: MCP tool '' @ quoted name @ '' is not in this agent'' @ [CHR 0x27] @ ''s tool policy'', log_call name DeniedPolicy [] s)
          else
            case call name inp (sh_world s) of
              (r, w') \<Rightarrow>
                let s1 = s\<lparr>sh_world := w', sh_ran := sh_ran s @ [(name, inp, pol)]\<rparr> in
                case r of
                  Inl e \<Rightarrow> (''Error: MCP tool '' @ quoted name @ '' failed ('' @ e @ '')'', log_call name Allowed ''error'' s1)
                | Inr text \<Rightarrow>
                    let s2 = log_call name Allowed (show_failure (fst (classify_tool_failure text))) s1 in
                    (text, s2\<lparr>sh_world := run_post_tool_hooks ti name inp text (sh_world s2)\<rparr>))"


section \<open>What runs was let through\<close>

text \<open>The gates of one call, read off the surroundings it meets.\<close>

definition approved ::
  "approval_mode \<Rightarrow> (string \<Rightarrow> tool_input \<Rightarrow> 'w \<Rightarrow> bool \<times> 'w) option \<Rightarrow> string \<Rightarrow> tool_input \<Rightarrow> 'w \<Rightarrow> bool" where
  "approved mode approval name inp w \<longleftrightarrow>
     mode = AcceptAll \<or> name \<in> set ALWAYS_APPROVED \<or> mode = Auto \<and> auto_approve name inp \<or>
     (case approval of None \<Rightarrow> True | Some ask \<Rightarrow> fst (ask name inp w))"

definition let_through :: "'w instruments \<Rightarrow> tool_policy \<Rightarrow> string \<Rightarrow> tool_input \<Rightarrow> 'w \<Rightarrow> bool" where
  "let_through ti pol name inp w \<longleftrightarrow>
     name \<in> set DISPATCH \<and> fst (fst (pre_gate ti name inp w)) \<and> permits_tool pol name \<and>
     (name \<in> set JAILED \<longrightarrow> permits_path (ti_jail ti) pol (jailed_path inp))"

lemma run_instrument_ran:
  "sh_ran (snd (run_instrument ti pol name inp s)) = sh_ran s @ (if param inp ''_parse_error'' = [] then [(name, inp, pol)] else [])"
  by (auto simp: run_instrument_def Let_def log_call_def split: prod.splits handled.splits)

lemma run_instrument_audit:
  "(\<exists>out. sh_audit (snd (run_instrument ti pol name inp s)) = sh_audit s @ [\<lparr>au_name = name, au_decision = Allowed, au_outcome = out\<rparr>]) \<or>
   (\<exists>e. fst (run_instrument ti pol name inp s) = Threw e) \<and> sh_audit (snd (run_instrument ti pol name inp s)) = sh_audit s"
  by (auto simp: run_instrument_def Let_def log_call_def split: prod.splits handled.splits)

lemma log_call_simps [simp]:
  "sh_ran (log_call n d out s) = sh_ran s" "sh_world (log_call n d out s) = sh_world s"
  "sh_audit (log_call n d out s) = sh_audit s @ [\<lparr>au_name = n, au_decision = d, au_outcome = out\<rparr>]"
  by (simp_all add: log_call_def)

text \<open>What a dispatch comes to: not through the gates, refused by the user, or run in some world.\<close>

lemma dispatch_cases:
  assumes "dispatch ti mode approval policy name inp s = (r, s')" "pol = (case policy of Some p \<Rightarrow> p | None \<Rightarrow> PERMISSIVE)"
  obtains (unknown) "name \<notin> set DISPATCH" "s' = s"
    | (gated) w d rs where "\<not> let_through ti pol name inp (sh_world s)" "r = Done rs" "d \<noteq> Allowed"
        "s' = log_call name d [] (s\<lparr>sh_world := w\<rparr>)"
    | (refused) w rs where "let_through ti pol name inp (sh_world s)" "r = Done rs" "s' = log_call name DeniedUser [] (s\<lparr>sh_world := w\<rparr>)"
    | (through) w where "let_through ti pol name inp (sh_world s)" "approved mode approval name inp (snd (pre_gate ti name inp (sh_world s)))"
        "(r, s') = run_instrument ti pol name inp (s\<lparr>sh_world := w\<rparr>)"
proof (cases "name \<in> set DISPATCH")
  case False
  with assms unknown show ?thesis by (simp add: dispatch_def)
next
  case known: True
  obtain ok reason w where g: "pre_gate ti name inp (sh_world s) = ((ok, reason), w)" by (metis prod.exhaust)
  let ?s = "s\<lparr>sh_world := w\<rparr>"
  let ?jail = "name \<in> set JAILED \<and> \<not> permits_path (ti_jail ti) pol (jailed_path inp)"
  show ?thesis
  proof (cases "ok \<and> permits_tool pol name \<and> \<not> ?jail")
    case False
    then have "\<not> let_through ti pol name inp (sh_world s)" by (auto simp: let_through_def g)
    moreover from False assms known g have "\<exists>rs d. r = Done rs \<and> d \<noteq> Allowed \<and> s' = log_call name d [] ?s"
      by (auto simp: dispatch_def Let_def split: if_splits)
    ultimately show ?thesis using gated by blast
  next
    case True
    with known have l: "let_through ti pol name inp (sh_world s)" by (auto simp: let_through_def g)
    show ?thesis
    proof (cases "mode \<noteq> AcceptAll \<and> name \<notin> set ALWAYS_APPROVED \<and> (mode = Manual \<or> \<not> auto_approve name inp)")
      case False
      with True assms known g have "(r, s') = run_instrument ti pol name inp ?s" by (auto simp: dispatch_def Let_def)
      moreover from False have "approved mode approval name inp w" by (cases mode) (auto simp: approved_def)
      ultimately show ?thesis using through l g by simp
    next
      case ask: True
      show ?thesis
      proof (cases approval)
        case None
        with ask True assms known g have "(r, s') = run_instrument ti pol name inp ?s" by (auto simp: dispatch_def Let_def)
        with None show ?thesis using through l g by (simp add: approved_def)
      next
        case (Some f)
        obtain yes w' where f: "f name inp w = (yes, w')" by (metis prod.exhaust)
        show ?thesis
        proof (cases yes)
          case yes: True
          with Some f ask True assms known g have "(r, s') = run_instrument ti pol name inp (s\<lparr>sh_world := w'\<rparr>)"
            by (auto simp: dispatch_def Let_def)
          with Some f yes show ?thesis using through l g by (simp add: approved_def)
        next
          case False
          with Some f ask True assms known g have "r = Done ''Denied: user rejected this operation''" "s' = log_call name DeniedUser [] (s\<lparr>sh_world := w'\<rparr>)"
            by (auto simp: dispatch_def Let_def)
          with refused l show ?thesis by blast
        qed
      qed
    qed
  qed
qed



definition demo_instruments :: "nat instruments" where
  "demo_instruments = \<lparr>ti_hooks = NoHooks, ti_exec = (\<lambda>_ _ w. (HookTimeout, w)), ti_loads = (\<lambda>_. NotJson),
     ti_handler = (\<lambda>name _ _ _ w. (if name = ''Bash'' then Raises ''OSError'' else Answer ''ok'', Suc w)),
     ti_jail = (\<lambda>p. Some (py_split ''/'' p))\<rparr>"

definition demo_shop :: "nat shop" where
  "demo_shop = \<lparr>sh_world = 0, sh_audit = [], sh_ran = []\<rparr>"

definition repo_policy :: tool_policy where
  "repo_policy = \<lparr>tp_allow = None, tp_deny = [''WebFetch''], tp_roots = [[[], ''repo'']]\<rparr>"


text \<open>
  The jail looks at \<open>file_path\<close> first; an edit of a notebook writes \<open>notebook_path\<close>. A call with both leaves the workspace.
\<close>

lemma notebook_escapes_jail:
  "let_through demo_instruments repo_policy ''NotebookEdit'' [(''file_path'', ''/repo/a''), (''notebook_path'', ''/etc/b.ipynb'')] (0 :: nat)"
  "\<not> let_through demo_instruments repo_policy ''NotebookEdit'' [(''notebook_path'', ''/etc/b.ipynb'')] (0 :: nat)"
  by code_simp+

text \<open>Without a function to ask, the mode that always asks runs the call; and a call that raises leaves no entry in the log.\<close>

lemma manual_without_a_user_runs:
  "sh_ran (snd (dispatch demo_instruments Manual None None ''Write'' [(''file_path'', ''/etc/a'')] demo_shop)) \<noteq> []"
  by code_simp

lemma raising_call_is_not_logged:
  "dispatch demo_instruments AcceptAll None None ''Bash'' [(''command'', ''make'')] demo_shop
     = (Threw ''OSError'', demo_shop\<lparr>sh_world := 1, sh_ran := [(''Bash'', [(''command'', ''make'')], PERMISSIVE)]\<rparr>)"
  by code_simp

section \<open>Tools of other servers\<close>

lemma dispatch_mcp_runs:
  assumes "dispatch_mcp ti call policy name inp s = (r, s')" "pol = (case policy of Some p \<Rightarrow> p | None \<Rightarrow> PERMISSIVE)"
  shows "(sh_ran s' = sh_ran s \<or> sh_ran s' = sh_ran s @ [(name, inp, pol)] \<and> permits_tool pol name \<and> fst (fst (pre_gate ti name inp (sh_world s)))) \<and>
     (\<exists>a. sh_audit s' = sh_audit s @ [a] \<and> au_name a = name \<and> (sh_ran s' \<noteq> sh_ran s \<longleftrightarrow> au_decision a = Allowed))"
proof -
  obtain ok reason w where g: "pre_gate ti name inp (sh_world s) = ((ok, reason), w)" by (metis prod.exhaust)
  show ?thesis
  proof (cases "ok \<and> permits_tool pol name")
    case False
    with assms g show ?thesis by (auto simp: dispatch_mcp_def Let_def split: if_splits)
  next
    case True
    obtain a w' where "call name inp w = (a, w')" by (metis prod.exhaust)
    with True assms g show ?thesis by (cases a) (auto simp: dispatch_mcp_def Let_def)
  qed
qed

text \<open>A hook that blocks is a gate: one that breaks or times out blocks.\<close>

lemma broken_hook_blocks:
  "\<not> fst (hook_verdict loads True HookTimeout)" "\<not> fst (hook_verdict loads True (HookFails e))"
  "rc \<noteq> 0 \<Longrightarrow> \<not> fst (hook_verdict loads True (Exited rc out err))"
  by (simp_all add: hook_verdict_def)

lemma run_hooks_all_yes:
  "run_hooks ti True tool payload hs w = (Inr (True, reason), w') \<Longrightarrow> h \<in> set hs \<Longrightarrow>
     hook_matches (case hk_matcher h of Some m \<Rightarrow> m | None \<Rightarrow> ''*'') tool \<Longrightarrow>
     \<exists>cmd wi. hk_command h = Some cmd \<and> fst (hook_verdict (ti_loads ti) True (fst (ti_exec ti cmd payload wi)))"
proof (induction hs arbitrary: w)
  case (Cons k hs)
  show ?case
  proof (cases "hook_matches (case hk_matcher k of Some m \<Rightarrow> m | None \<Rightarrow> ''*'') tool")
    case False
    with Cons show ?thesis by auto
  next
    case True
    with Cons.prems(1) obtain cmd where cmd: "hk_command k = Some cmd" by (auto split: option.splits)
    obtain r wk where e: "ti_exec ti cmd payload w = (r, wk)" by (metis prod.exhaust)
    obtain go why where v: "hook_verdict (ti_loads ti) True r = (go, why)" by (metis prod.exhaust)
    from Cons.prems(1) True cmd e v have go: go and rest: "run_hooks ti True tool payload hs wk = (Inr (True, reason), w')"
      by (auto split: if_splits)
    show ?thesis
    proof (cases "h = k")
      case True
      with cmd e v go show ?thesis by (metis fst_conv)
    next
      case False
      with Cons.IH [OF rest] Cons.prems(2,3) show ?thesis by simp
    qed
  qed
qed simp

text \<open>What passes the first gate passed every hook that matches it.\<close>

lemma pre_gate_asks_every_hook:
  assumes "fst (fst (pre_gate ti name inp w))" "ti_hooks ti = Hooks pre post" "h \<in> set pre"
    and "hook_matches (case hk_matcher h of Some m \<Rightarrow> m | None \<Rightarrow> ''*'') name"
  shows "\<exists>cmd wi. hk_command h = Some cmd \<and>
     fst (hook_verdict (ti_loads ti) True (fst (ti_exec ti cmd (''PreToolUse'', name, inp, None) wi)))"
proof -
  obtain v w' where r: "run_hooks ti True name (''PreToolUse'', name, inp, None) pre w = (v, w')" by (metis prod.exhaust)
  with assms(1,2) obtain reason where "v = Inr (True, reason)"
    by (cases v) (auto simp: pre_gate_def run_pre_tool_hooks_def)
  with r run_hooks_all_yes assms(3,4) show ?thesis by metis
qed

end
