(* ===== verification/Turn_Loop.thy ===== *)
theory Turn_Loop
  imports Context_Trim Tool_Dispatch
begin

text \<open>
  One turn of the agent, \<^verbatim>\<open>greenboost_cli/core/orchestrator.py\<close> (\<open>execute_turn\<close>): ask the model, run the tool calls of its
  answer through plan mode, rules, approval and dispatch, and ask again, until it answers without a call or a guard
  stops it. The model, the user, the servers of other tools and the instruments act on a world of any type. The calls
  of an overlapped batch are run one after the other.
\<close>

section \<open>Who may run without asking\<close>

datatype perm_mode = PAcceptAll | PManual | PAutonomous | PAuto

definition PLAN_MODE_READONLY :: "string list" where
  "PLAN_MODE_READONLY = [''Read'', ''Glob'', ''Grep'', ''WebFetch'', ''WebSearch'', ''TodoWrite'', ''TodoRead'', ''MemoryRead'', ''MemoryWrite'', ''Semble'']"

definition PLAN_MODE_MCP_DEFAULT :: "string list" where
  "PLAN_MODE_MCP_DEFAULT = [''mcp__semble__*'', ''mcp__reranker__*'', ''mcp__knowledge-rag__search_*'', ''mcp__knowledge-rag__get_*'',
     ''mcp__knowledge-rag__list_*'', ''mcp__knowledge-rag__evaluate_retrieval'', ''mcp__contextual-rag__search_docs'', ''mcp__contextual-rag__rag_status'']"

record settings =
  st_mode :: perm_mode
  st_policy :: "tool_policy option"
  st_max_turns :: int
  st_max_tokens :: int
  st_plan_mcp :: "string list"

record session =
  se_messages :: "msg list"
  se_plan_mode :: bool
  se_plan_file :: "string option"
  se_turns :: nat
  se_in :: int
  se_out :: int
  se_last_turn :: pyfloat

text \<open>The tools of the connected servers: their schemas, and the names they are registered under.\<close>

record registry =
  rg_schemas :: "mcp_schema list"
  rg_keys :: "string list"

definition normalize_tool_name :: "string list \<Rightarrow> string \<Rightarrow> string option" where
  "normalize_tool_name keys name =
     (if name \<in> set keys then Some name
      else case filter (ends_with (''__'' @ name)) keys of
          [k] \<Rightarrow> Some k
        | _ \<Rightarrow> if \<not> starts_with ''mcp__'' name \<and> ''mcp__'' @ name \<in> set keys then Some (''mcp__'' @ name) else None)"

definition has_tool :: "registry option \<Rightarrow> string \<Rightarrow> bool" where
  "has_tool reg name \<longleftrightarrow> (case reg of None \<Rightarrow> False | Some r \<Rightarrow> normalize_tool_name (rg_keys r) name \<noteq> None)"

fun read_only_hint :: "string \<Rightarrow> mcp_schema list \<Rightarrow> bool" where
  "read_only_hint key [] = False"
| "read_only_hint key (s # ss) =
     (if ms_name s = key then (case ms_hints s of None \<Rightarrow> False | Some (ro, _) \<Rightarrow> ro) else read_only_hint key ss)"

definition mcp_readonly_in_plan_mode :: "registry option \<Rightarrow> string list \<Rightarrow> string \<Rightarrow> bool" where
  "mcp_readonly_in_plan_mode reg extra name =
     (case reg of
        None \<Rightarrow> False
      | Some r \<Rightarrow>
          if \<not> starts_with ''mcp__'' name then False
          else if list_ex (fnmatchcase name) (PLAN_MODE_MCP_DEFAULT @ extra) then True
          else read_only_hint (case normalize_tool_name (rg_keys r) name of Some k \<Rightarrow> k | None \<Rightarrow> name) (rg_schemas r))"

text \<open>A character outside Latin-1 (a dash) is written as the substitute character.\<close>

definition plan_shell_text :: string where
  "plan_shell_text = ''Blocked by plan mode: Bash commands that change state are not allowed. Plan mode is read-only '' @ [CHR 0x1A] @
     '' investigate, then write your findings to the plan file instead of executing changes.''"

definition plan_file_text :: "string option \<Rightarrow> string" where
  "plan_file_text f = ''Blocked by plan mode: only the plan file ('' @ (case f of None \<Rightarrow> ''not set'' | Some p \<Rightarrow> or_else p ''not set'') @
     '') may be written. Write your plan there, then end the turn.''"

definition plan_tool_text :: "string \<Rightarrow> string" where
  "plan_tool_text name = ''Blocked by plan mode: '' @ quoted name @
     '' is not a read-only operation. Finish writing the plan instead of executing changes.'' @
     (if starts_with ''mcp__'' name
      then '' (This MCP tool doesn'' @ [CHR 0x27] @ ''t declare itself read-only; the owner can allow it with the '' @ [CHR 0x60] @
        ''plan_mode_allow_mcp'' @ [CHR 0x60] @ '' setting.)'' else [])"

definition plan_mode_block :: "registry option \<Rightarrow> settings \<Rightarrow> session \<Rightarrow> string \<Rightarrow> tool_input \<Rightarrow> string option" where
  "plan_mode_block reg st se name inp =
     (if \<not> se_plan_mode se then None
      else if name \<in> set PLAN_MODE_READONLY then None
      else if mcp_readonly_in_plan_mode reg (st_plan_mcp st) name then None
      else if name = ''Bash'' then (if is_readonly_command (param inp ''command'') then None else Some plan_shell_text)
      else if name \<in> set JAILED then
        (if se_plan_file se \<noteq> None \<and> se_plan_file se \<noteq> Some [] \<and> se_plan_file se = dict_get inp ''file_path'' then None
         else Some (plan_file_text (se_plan_file se)))
      else Some (plan_tool_text name))"

definition is_auto_approved :: "perm_mode \<Rightarrow> bool \<Rightarrow> string \<Rightarrow> tool_input \<Rightarrow> bool" where
  "is_auto_approved mode is_mcp name inp =
     (if mode = PAcceptAll then True
      else if mode = PManual then False
      else if name \<in> {''TodoWrite'', ''TodoRead''} then True
      else if mode = PAutonomous then
        (if name \<in> {''Read'', ''Glob'', ''Grep'', ''WebFetch'', ''WebSearch'', ''Screenshot'', ''Write'', ''Edit'', ''MultiEdit'', ''NotebookEdit''} then True
         else if name = ''Bash'' then is_autonomous_safe (param inp ''command'')
         else is_mcp)
      else if name \<in> {''Read'', ''Glob'', ''Grep'', ''WebFetch'', ''WebSearch'', ''Screenshot''} then True
      else if name = ''Bash'' then is_readonly_command (param inp ''command'')
      else False)"

section \<open>Stated intent\<close>

text \<open>The search for \<open>_INTENT_RE\<close> in a text in lower case; the flag is the word character before.\<close>

definition boundary :: "bool \<Rightarrow> string \<Rightarrow> bool" where
  "boundary prev s \<longleftrightarrow> prev \<noteq> (s \<noteq> [] \<and> word_char (hd s))"

definition INTENT_HEADS :: "string list" where
  "INTENT_HEADS = [''i'' @ [CHR 0x27] @ ''ll'', ''ill'', ''i will'', ''let me'', ''i'' @ [CHR 0x27] @ ''m going to'', ''im going to'', ''i am going to'']"

definition INTENT_VERBS :: "string list" where
  "INTENT_VERBS = [''build'', ''create'', ''write'', ''implement'', ''develop'', ''generate'', ''set up'', ''scaffold'', ''start building'',
     ''start working'', ''start coding'', ''check'', ''find'', ''look'', ''inspect'', ''examine'', ''explore'', ''read'', ''see'', ''verify'', ''search'']"

definition verb_at :: "bool \<Rightarrow> string \<Rightarrow> bool" where
  "verb_at prev s \<longleftrightarrow> boundary prev s \<and> list_ex (\<lambda>v. starts_with v s \<and> boundary True (drop (length v) s)) INTENT_VERBS"

fun verb_within :: "nat \<Rightarrow> bool \<Rightarrow> string \<Rightarrow> bool" where
  "verb_within n prev [] = verb_at prev []"
| "verb_within n prev (c # s) \<longleftrightarrow>
     verb_at prev (c # s) \<or> 0 < n \<and> c \<noteq> CHR ''.'' \<and> c \<noteq> CHR 0x0A \<and> verb_within (n - 1) (word_char c) s"

fun intent_from :: "bool \<Rightarrow> string \<Rightarrow> bool" where
  "intent_from prev [] = False"
| "intent_from prev (c # s) \<longleftrightarrow>
     boundary prev (c # s) \<and>
       list_ex (\<lambda>p. starts_with p (c # s) \<and> boundary True (drop (length p) (c # s)) \<and> verb_within 120 True (drop (length p) (c # s))) INTENT_HEADS \<or>
     intent_from (word_char c) s"

definition states_intent :: "string \<Rightarrow> bool" where
  "states_intent s = intent_from False (str_lower s)"

section \<open>The state of a turn\<close>

definition REPEAT_LIMIT :: nat where "REPEAT_LIMIT = 3"
definition CONSEC_ERROR_LIMIT :: nat where "CONSEC_ERROR_LIMIT = 4"
definition TRANSIENT_ERROR_LIMIT :: nat where "TRANSIENT_ERROR_LIMIT = 2"
definition INTENT_NUDGE_CAP :: nat where "INTENT_NUDGE_CAP = 2"
definition INTENT_NUDGE_MAX_LEN :: nat where "INTENT_NUDGE_MAX_LEN = 400"
definition EMPTY_RETRY_CAP :: nat where "EMPTY_RETRY_CAP = 2"

datatype guard = MaxTurns | Repeat | ConsecErrors | AutoCompact | EmptyResponse

datatype event = EvInvoked string tool_input | EvResult string string bool | EvTurn int int bool | EvAsked string tool_input bool
  | EvQuestion tool_input | EvGuard guard

datatype gen = Completed string "call list" int int | NoAnswer | Overflow int int | GenFails string

text \<open>
  The locals of \<open>execute_turn\<close>. \<open>lo_transient\<close> is \<open>None\<close> while the variable has no value: it gets one only after a
  question or a call that did not fail.
\<close>

record locals =
  lo_key :: "(string \<times> tool_input) option"
  lo_repeat :: nat
  lo_errors :: nat
  lo_transient :: "nat option"
  lo_compacted :: bool
  lo_empty :: nat
  lo_nudges :: nat

definition fresh_locals :: locals where
  "fresh_locals = \<lparr>lo_key = None, lo_repeat = 0, lo_errors = 0, lo_transient = None, lo_compacted = False, lo_empty = 0, lo_nudges = 0\<rparr>"

record 'w turn_state =
  t_shop :: "'w shop"
  t_session :: session
  t_calib :: calib
  t_events :: "event list"
  t_loc :: locals

text \<open>
  \<open>le_served\<close> is what \<open>gb_synapse_ctx\<close> says of the server's window, \<open>te_ctx\<close> of \<open>le_trim\<close> the window the compaction
  works with, which the setting \<open>context_window\<close> may override.
\<close>

record 'w turn_env =
  le_tools :: "'w instruments"
  le_registry :: "registry option"
  le_mcp_call :: "string \<Rightarrow> tool_input \<Rightarrow> 'w \<Rightarrow> (string + string) \<times> 'w"
  le_path_env :: path_env
  le_rules :: "'w \<Rightarrow> rules"
  le_generate :: "msg list \<Rightarrow> 'w \<Rightarrow> gen \<times> 'w"
  le_approve :: "string \<Rightarrow> tool_input \<Rightarrow> 'w \<Rightarrow> bool \<times> 'w"
  le_answer :: "tool_input \<Rightarrow> 'w \<Rightarrow> string option \<times> 'w"
  le_search :: "string \<Rightarrow> string"
  le_trim :: trim_env
  le_served :: "'w \<Rightarrow> int option"
  le_now :: "'w \<Rightarrow> pyfloat"
  le_fixed :: "msg list \<Rightarrow> 'w \<Rightarrow> nat"
  le_repr_len :: "string list \<Rightarrow> nat"

abbreviation t_world :: "'w turn_state \<Rightarrow> 'w" where
  "t_world s \<equiv> sh_world (t_shop s)"

definition set_world :: "'w \<Rightarrow> 'w turn_state \<Rightarrow> 'w turn_state" where
  "set_world w s = s\<lparr>t_shop := (t_shop s)\<lparr>sh_world := w\<rparr>\<rparr>"

definition emit :: "event \<Rightarrow> 'w turn_state \<Rightarrow> 'w turn_state" where
  "emit e s = s\<lparr>t_events := t_events s @ [e]\<rparr>"

definition set_messages :: "msg list \<Rightarrow> 'w turn_state \<Rightarrow> 'w turn_state" where
  "set_messages ms s = s\<lparr>t_session := (t_session s)\<lparr>se_messages := ms\<rparr>\<rparr>"

abbreviation t_messages :: "'w turn_state \<Rightarrow> msg list" where
  "t_messages s \<equiv> se_messages (t_session s)"

definition add_message :: "msg \<Rightarrow> 'w turn_state \<Rightarrow> 'w turn_state" where
  "add_message m s = set_messages (t_messages s @ [m]) s"

definition tool_message :: "call \<Rightarrow> string \<Rightarrow> string \<Rightarrow> msg" where
  "tool_message tc dflt result =
     \<lparr>mg_role = RTool, mg_name = cl_name tc, mg_call_id = or_else (cl_id tc) dflt, mg_content = CText result, mg_calls = []\<rparr>"

definition set_locals :: "(locals \<Rightarrow> locals) \<Rightarrow> 'w turn_state \<Rightarrow> 'w turn_state" where
  "set_locals f s = s\<lparr>t_loc := f (t_loc s)\<rparr>"

definition history_tokens :: "'w turn_env \<Rightarrow> 'w turn_state \<Rightarrow> int" where
  "history_tokens e s = estimate_tokens (te_dumps (le_trim e)) (fst (t_calib s)) (t_messages s)"

definition force_compact :: "'w turn_env \<Rightarrow> 'w turn_state \<Rightarrow> 'w turn_state" where
  "force_compact e s = set_messages (compress_context (le_trim e) (fst (t_calib s)) True 0 (t_messages s)) s"

section \<open>Calls that overlap\<close>

definition INTERCEPTS :: "string list" where
  "INTERCEPTS = [''AskUserQuestion'', ''ToolSearch'']"

definition eligible :: "'w turn_env \<Rightarrow> settings \<Rightarrow> session \<Rightarrow> call \<Rightarrow> bool" where
  "eligible e st se tc \<longleftrightarrow>
     cl_name tc \<notin> set INTERCEPTS \<and> plan_mode_block (le_registry e) st se (cl_name tc) (cl_input tc) = None \<and>
     is_auto_approved (st_mode st) (has_tool (le_registry e) (cl_name tc)) (cl_name tc) (cl_input tc)"

text \<open>One batch; the flag says whether a call of it raised, after all of them ran.\<close>

fun run_batch :: "'w turn_env \<Rightarrow> settings \<Rightarrow> (nat \<times> call) list \<Rightarrow> 'w shop \<Rightarrow> bool \<times> (nat \<times> string) list \<times> 'w shop" where
  "run_batch e st [] sh = (False, [], sh)"
| "run_batch e st ((i, tc) # tcs) sh =
     (case dispatch (le_tools e) AcceptAll None (st_policy st) (cl_name tc) (cl_input tc) sh of
        (r, sh1) \<Rightarrow>
          (case run_batch e st tcs sh1 of
             (bad, rs, sh2) \<Rightarrow>
               (case r of Done x \<Rightarrow> (bad, (i, x) # rs, sh2) | Threw _ \<Rightarrow> (True, rs, sh2))))"

fun run_batches ::
  "'w turn_env \<Rightarrow> settings \<Rightarrow> session \<Rightarrow> (bool \<times> (nat \<times> call) list) list \<Rightarrow> (nat \<times> string) list \<Rightarrow> 'w shop \<Rightarrow> (nat \<times> string) list \<times> 'w shop" where
  "run_batches e st se [] out sh = (out, sh)"
| "run_batches e st se ((safe, batch) # bs) out sh =
     (let runnable = filter (\<lambda>(i, tc). eligible e st se tc) batch in
      if \<not> safe \<or> length batch < 2 \<or> length runnable < 2 then run_batches e st se bs out sh
      else
        (case run_batch e st runnable sh of
           (bad, rs, sh1) \<Rightarrow> if bad then ([], sh1) else run_batches e st se bs (out @ rs) sh1))"

definition prefetch_safe_batches :: "'w turn_env \<Rightarrow> settings \<Rightarrow> session \<Rightarrow> call list \<Rightarrow> 'w shop \<Rightarrow> (nat \<times> string) list \<times> 'w shop" where
  "prefetch_safe_batches e st se calls sh =
     run_batches e st se
       (partition_calls (\<lambda>(i, tc). is_concurrency_safe (cl_name tc) (dict_get (cl_input tc) ''command'') (map_option rg_schemas (le_registry e)))
          (zip [0..<length calls] calls)) [] sh"

section \<open>One call\<close>

datatype call_step = Next | Stop | Crash string

text \<open>Plan mode, rules, approval, and the run. \<open>Inl\<close> is an exception that leaves the turn.\<close>

definition gated_run ::
  "'w turn_env \<Rightarrow> settings \<Rightarrow> (nat \<times> string) list \<Rightarrow> nat \<Rightarrow> call \<Rightarrow> 'w turn_state \<Rightarrow> (string + string \<times> bool) \<times> 'w turn_state" where
  "gated_run e st pre i tc s =
     (case plan_mode_block (le_registry e) st (t_session s) (cl_name tc) (cl_input tc) of
        Some v \<Rightarrow> (Inr (v, False), s)
      | None \<Rightarrow>
          let rule = decide (le_path_env e) (cl_name tc) (cl_input tc) (le_rules e (t_world s)) in
          if rule = Some Deny then (Inr (''Denied: blocked by a permission rule (/permissions rules)'', False), s)
          else
            (case (if rule = Some Allow \<or> is_auto_approved (st_mode st) (has_tool (le_registry e) (cl_name tc)) (cl_name tc) (cl_input tc)
                   then (True, s)
                   else (case le_approve e (cl_name tc) (cl_input tc) (t_world s) of
                       (yes, w) \<Rightarrow> (yes, emit (EvAsked (cl_name tc) (cl_input tc) yes) (set_world w s)))) of
               (False, s1) \<Rightarrow> (Inr (''Denied: user rejected this operation'', False), s1)
             | (True, s1) \<Rightarrow>
                 (case map_of pre i of
                    Some r \<Rightarrow> (Inr (r, True), s1)
                  | None \<Rightarrow>
                      if has_tool (le_registry e) (cl_name tc) then
                        (case dispatch_mcp (le_tools e) (le_mcp_call e) (st_policy st) (cl_name tc) (cl_input tc) (t_shop s1) of
                           (r, sh) \<Rightarrow> (Inr (r, True), s1\<lparr>t_shop := sh\<rparr>))
                      else
                        (case dispatch (le_tools e) AcceptAll None (st_policy st) (cl_name tc) (cl_input tc) (t_shop s1) of
                           (Done r, sh) \<Rightarrow> (Inr (r, True), s1\<lparr>t_shop := sh\<rparr>)
                         | (Threw x, sh) \<Rightarrow> (Inl x, s1\<lparr>t_shop := sh\<rparr>)))))"

definition call_key :: "call \<Rightarrow> string \<times> tool_input" where
  "call_key tc = (cl_name tc, sort_key fst (cl_input tc))"

definition is_error :: "string \<Rightarrow> bool \<Rightarrow> bool" where
  "is_error result permitted \<longleftrightarrow>
     \<not> permitted \<or> starts_with ''ERROR'' result \<or> starts_with ''Error'' result \<or> starts_with ''error:'' result"

text \<open>The counters after a result; \<open>None\<close> is the read of a variable that has no value.\<close>

definition count_errors :: "string \<Rightarrow> bool \<Rightarrow> locals \<Rightarrow> locals option" where
  "count_errors result permitted l =
     (if is_error result permitted then
        (if snd (classify_tool_failure result) then
           (case lo_transient l of
              None \<Rightarrow> None
            | Some t \<Rightarrow> Some (l\<lparr>lo_transient := Some (Suc t),
                lo_errors := (if TRANSIENT_ERROR_LIMIT < Suc t then Suc (lo_errors l) else lo_errors l)\<rparr>))
         else Some (l\<lparr>lo_errors := Suc (lo_errors l)\<rparr>))
      else Some (l\<lparr>lo_errors := 0, lo_transient := Some 0\<rparr>))"

definition mid_turn_compact :: "'w turn_env \<Rightarrow> int \<Rightarrow> 'w turn_state \<Rightarrow> 'w turn_state" where
  "mid_turn_compact e overhead s =
     (case te_ctx (le_trim e) of
        None \<Rightarrow> s
      | Some ctx \<Rightarrow>
          if \<not> lo_compacted (t_loc s) \<and> ctx \<noteq> 0 \<and> history_tokens e s + overhead > py_int (of_int ctx * (85 / 100))
          then force_compact e s else s)"

definition count_repeat :: "call \<Rightarrow> locals \<Rightarrow> locals" where
  "count_repeat tc l =
     (if lo_key l = Some (call_key tc) then l\<lparr>lo_repeat := Suc (lo_repeat l)\<rparr>
      else l\<lparr>lo_key := Some (call_key tc), lo_repeat := 1\<rparr>)"

definition one_call ::
  "'w turn_env \<Rightarrow> settings \<Rightarrow> int \<Rightarrow> (nat \<times> string) list \<Rightarrow> nat \<Rightarrow> call \<Rightarrow> 'w turn_state \<Rightarrow> call_step \<times> 'w turn_state" where
  "one_call e st overhead pre i tc s0 =
     (let s = set_locals (count_repeat tc) s0 in
      if REPEAT_LIMIT \<le> lo_repeat (t_loc s) then (Stop, emit (EvGuard Repeat) s)
      else
        let s = emit (EvInvoked (cl_name tc) (cl_input tc)) s in
        if cl_name tc = ''AskUserQuestion'' then
          (case le_answer e (cl_input tc) (t_world s) of
             (ans, w) \<Rightarrow>
               let r = (case ans of None \<Rightarrow> ''User cancelled the question '' @ [CHR 0x1A] @ '' no answer received.'' | Some a \<Rightarrow> a) in
               (Next, set_locals (\<lambda>l. l\<lparr>lo_errors := 0, lo_transient := Some 0, lo_key := None, lo_repeat := 0\<rparr>)
                 (add_message (tool_message tc ''ask'' r) (emit (EvResult (cl_name tc) r True) (emit (EvQuestion (cl_input tc)) (set_world w s))))))
        else if cl_name tc = ''ToolSearch'' then
          (let r = le_search e (param (cl_input tc) ''query'') in
           (Next, set_locals (\<lambda>l. l\<lparr>lo_errors := 0, lo_key := None, lo_repeat := 0\<rparr>)
             (add_message (tool_message tc ''toolsearch'' r) (emit (EvResult (cl_name tc) r True) s))))
        else
          (case gated_run e st pre i tc s of
             (Inl x, s1) \<Rightarrow> (Crash x, s1)
           | (Inr (r, permitted), s1) \<Rightarrow>
               (case count_errors r permitted (t_loc s1) of
                  None \<Rightarrow> (Crash ''UnboundLocalError'', s1)
                | Some l \<Rightarrow>
                    let s2 = add_message (tool_message tc [] r) (emit (EvResult (cl_name tc) r permitted) (s1\<lparr>t_loc := l\<rparr>)) in
                    if CONSEC_ERROR_LIMIT \<le> lo_errors l then (Stop, emit (EvGuard ConsecErrors) s2)
                    else (Next, mid_turn_compact e overhead s2))))"

fun run_calls ::
  "'w turn_env \<Rightarrow> settings \<Rightarrow> int \<Rightarrow> (nat \<times> string) list \<Rightarrow> nat \<Rightarrow> call list \<Rightarrow> 'w turn_state \<Rightarrow> call_step \<times> 'w turn_state" where
  "run_calls e st overhead pre i [] s = (Next, s)"
| "run_calls e st overhead pre i (tc # tcs) s =
     (case one_call e st overhead pre i tc s of
        (Next, s1) \<Rightarrow> run_calls e st overhead pre (Suc i) tcs s1
      | (stop, s1) \<Rightarrow> (stop, s1))"


section \<open>One answer of the model\<close>

datatype control = Again | Over | Raised string

definition pop_last :: "(msg \<Rightarrow> bool) \<Rightarrow> 'w turn_state \<Rightarrow> 'w turn_state" where
  "pop_last P s = (if t_messages s \<noteq> [] \<and> mg_role (last (t_messages s)) = RAssistant \<and> P (last (t_messages s))
     then set_messages (butlast (t_messages s)) s else s)"

text \<open>The server refused the request: \<open>pt\<close> tokens against a window of \<open>nc\<close>.\<close>

definition overflowed :: "'w turn_env \<Rightarrow> settings \<Rightarrow> int \<Rightarrow> int \<Rightarrow> 'w turn_state \<Rightarrow> control \<times> 'w turn_state" where
  "overflowed e st pt nc s =
     (let hist = history_tokens e s in
      if pt \<noteq> 0 \<and> nc \<noteq> 0 \<and> nc \<le> pt - hist then (Raised ''ContextOverflowError'', s)
      else if lo_compacted (t_loc s) then (Raised ''ContextOverflowError'', s)
      else
        let s2 = force_compact e (pop_last (\<lambda>_. True) s) in
        if pt \<noteq> 0 \<and> nc \<noteq> 0 then
          let fixed = max 0 (pt - hist);
              reserve = min (if st_max_tokens st = 0 then 8192 else st_max_tokens st) (max 512 (nc div 8));
              budget = nc - fixed - reserve in
          if budget \<le> 0 then (Raised ''ContextOverflowError'', s2)
          else
            (case hard_trim_to_fit (te_dumps (le_trim e)) (fst (t_calib s2)) budget (t_messages s2) of
               (ms, r) \<Rightarrow>
                 if \<not> tr_met r then (Raised ''ContextOverflowError'', set_messages ms s2)
                 else (Again, emit (EvGuard AutoCompact) (set_locals (\<lambda>l. l\<lparr>lo_compacted := True\<rparr>) (set_messages ms s2))))
        else (Again, emit (EvGuard AutoCompact) (set_locals (\<lambda>l. l\<lparr>lo_compacted := True\<rparr>) s2)))"

definition EMPTY_NUDGE :: string where
  "EMPTY_NUDGE = ''(Your last reply was empty '' @ [CHR 0x1A] @
     '' no text and no tool call. Please continue: either call a tool or give your final answer.)''"

definition INTENT_NUDGE :: string where
  "INTENT_NUDGE = ''(You described a plan but didn'' @ [CHR 0x27] @
     ''t call any tool. Start now: call the tool for the first concrete step instead of describing it.)''"

text \<open>An answer without a call: cut short by a full window, empty, an announcement, or final.\<close>

definition answered :: "'w turn_env \<Rightarrow> string \<Rightarrow> int \<Rightarrow> int \<Rightarrow> 'w turn_state \<Rightarrow> control \<times> 'w turn_state" where
  "answered e txt in_tok out_tok s =
     (let empty = strip txt = [];
          ctx = (case le_served e (t_world s) of Some c \<Rightarrow> c | None \<Rightarrow> 0) in
      if \<not> empty \<and> 0 < out_tok \<and> out_tok < 60 \<and> 0 < ctx \<and> py_int (of_int ctx * (80 / 100)) < in_tok then
        (if \<not> lo_compacted (t_loc s) then
           (Again, emit (EvGuard AutoCompact) (set_locals (\<lambda>l. l\<lparr>lo_compacted := True\<rparr>)
              (force_compact e (pop_last (\<lambda>m. mg_calls m = [] \<and> length (strip (text_of (mg_content m))) < 120) s))))
         else (Over, emit (EvGuard EmptyResponse) s))
      else if empty then
        (if lo_empty (t_loc s) < EMPTY_RETRY_CAP then
           (Again, emit (EvGuard AutoCompact) (add_message (plain_msg RUser EMPTY_NUDGE)
              (pop_last (\<lambda>m. mg_calls m = [] \<and> strip (text_of (mg_content m)) = [])
                (set_locals (\<lambda>l. l\<lparr>lo_empty := Suc (lo_empty l)\<rparr>) s))))
         else (Over, emit (EvGuard EmptyResponse) s))
      else if lo_nudges (t_loc s) < INTENT_NUDGE_CAP \<and> length (strip txt) < INTENT_NUDGE_MAX_LEN \<and> states_intent txt then
        (Again, emit (EvGuard AutoCompact) (add_message (plain_msg RUser INTENT_NUDGE)
           (set_locals (\<lambda>l. l\<lparr>lo_nudges := Suc (lo_nudges l)\<rparr>) s)))
      else (Over, s))"

definition call_tools :: "'w turn_env \<Rightarrow> settings \<Rightarrow> int \<Rightarrow> call list \<Rightarrow> 'w turn_state \<Rightarrow> control \<times> 'w turn_state" where
  "call_tools e st overhead calls s =
     (case prefetch_safe_batches e st (t_session s) calls (t_shop s) of
        (pre, sh) \<Rightarrow>
          (case run_calls e st overhead pre 0 calls (s\<lparr>t_shop := sh\<rparr>) of
             (Next, s1) \<Rightarrow> (Again, s1)
           | (Stop, s1) \<Rightarrow> (Over, s1)
           | (Crash x, s1) \<Rightarrow> (Raised x, s1)))"

definition str_len :: "'w turn_env \<Rightarrow> msg \<Rightarrow> nat" where
  "str_len e m = (case mg_content m of CText t \<Rightarrow> length t | CBlocks bs \<Rightarrow> le_repr_len e bs)"

text \<open>The tokens of an answer: the server's counts, or a quarter of the characters where it gave none.\<close>

definition token_counts :: "'w turn_env \<Rightarrow> msg list \<Rightarrow> string \<Rightarrow> int \<Rightarrow> int \<Rightarrow> int \<times> int" where
  "token_counts e ms txt in_tok out_tok =
     (if in_tok = 0 \<and> out_tok = 0 then (int (sum_list (map (str_len e) ms) div 4), int (length txt div 4)) else (in_tok, out_tok))"

definition completed ::
  "'w turn_env \<Rightarrow> settings \<Rightarrow> int \<Rightarrow> int \<Rightarrow> string \<Rightarrow> call list \<Rightarrow> int \<Rightarrow> int \<Rightarrow> 'w turn_state \<Rightarrow> control \<times> 'w turn_state" where
  "completed e st est overhead txt calls raw_in raw_out s =
     (case token_counts e (t_messages s) txt raw_in raw_out of
        (in_tok, out_tok) \<Rightarrow>
          let s1 = add_message ((plain_msg RAssistant txt)\<lparr>mg_calls := calls\<rparr>) (s\<lparr>t_calib := snd (note_real_prompt_tokens raw_in est (t_calib s))\<rparr>);
              s2 = s1\<lparr>t_session := (t_session s1)\<lparr>se_in := se_in (t_session s1) + in_tok, se_out := se_out (t_session s1) + out_tok\<rparr>\<rparr>;
              s3 = emit (EvTurn in_tok out_tok (calls = [])) s2 in
          if calls = [] then answered e txt in_tok out_tok s3 else call_tools e st overhead calls s3)"

definition turn_body :: "'w turn_env \<Rightarrow> settings \<Rightarrow> 'w turn_state \<Rightarrow> control \<times> 'w turn_state" where
  "turn_body e st s0 =
     (let now = le_now e (t_world s0);
          se = t_session s0;
          s = s0\<lparr>t_session := se\<lparr>se_turns := Suc (se_turns se),
                se_messages := fst (microcompact_if_cold now (se_last_turn se) (se_messages se)), se_last_turn := now\<rparr>\<rparr>;
          est = estimate_request_tokens (te_dumps (le_trim e)) (fst (t_calib s)) (le_fixed e (t_messages s) (t_world s)) (t_messages s);
          overhead = max 0 (est - history_tokens e s) in
      case le_generate e (t_messages s) (t_world s) of
        (g, w) \<Rightarrow>
          (case g of
             GenFails x \<Rightarrow> (Raised x, set_world w s)
           | NoAnswer \<Rightarrow> (Over, set_world w s)
           | Overflow pt nc \<Rightarrow> overflowed e st pt nc (set_world w s)
           | Completed txt calls raw_in raw_out \<Rightarrow> completed e st est overhead txt calls raw_in raw_out (set_world w s)))"

section \<open>A turn\<close>

datatype turn_end = TurnEnds | TurnRaises string

text \<open>The argument counts what is left of \<open>max_turns\<close>; at nought the guard stops the loop.\<close>

fun turns :: "'w turn_env \<Rightarrow> settings \<Rightarrow> nat \<Rightarrow> 'w turn_state \<Rightarrow> turn_end \<times> 'w turn_state" where
  "turns e st 0 s = (TurnEnds, emit (EvGuard MaxTurns) s)"
| "turns e st (Suc n) s =
     (case turn_body e st s of
        (Again, s1) \<Rightarrow> turns e st n s1
      | (Over, s1) \<Rightarrow> (TurnEnds, s1)
      | (Raised x, s1) \<Rightarrow> (TurnRaises x, s1))"

definition execute_turn :: "'w turn_env \<Rightarrow> settings \<Rightarrow> string \<Rightarrow> 'w turn_state \<Rightarrow> turn_end \<times> 'w turn_state" where
  "execute_turn e st user_message s =
     turns e st (nat (st_max_turns st)) (add_message (plain_msg RUser user_message) (s\<lparr>t_loc := fresh_locals\<rparr>))"


section \<open>What runs in a turn was allowed\<close>

text \<open>The events, the shop and the plan mode only ever move on; \<open>may_run\<close> is what holds of a call that ran.\<close>

definition may_run :: "'w turn_env \<Rightarrow> settings \<Rightarrow> session \<Rightarrow> event set \<Rightarrow> run \<Rightarrow> bool" where
  "may_run e st se evs r =
     (case r of (name, inp, pol) \<Rightarrow>
        name \<notin> set INTERCEPTS \<and>
        plan_mode_block (le_registry e) st se name inp = None \<and>
        pol = (case st_policy st of Some p \<Rightarrow> p | None \<Rightarrow> PERMISSIVE) \<and> permits_tool pol name \<and>
        (name \<in> set JAILED \<longrightarrow> has_tool (le_registry e) name \<or> permits_path (ti_jail (le_tools e)) pol (jailed_path inp)) \<and>
        (is_auto_approved (st_mode st) (has_tool (le_registry e) name) name inp \<or>
         (\<exists>w. decide (le_path_env e) name inp (le_rules e w) = Some Allow) \<or> EvAsked name inp True \<in> evs) \<and>
        ((\<exists>w. decide (le_path_env e) name inp (le_rules e w) \<noteq> Some Deny) \<or>
         is_concurrency_safe name (dict_get inp ''command'') (map_option rg_schemas (le_registry e))))"

definition moves_on :: "'w turn_env \<Rightarrow> settings \<Rightarrow> 'w turn_state \<Rightarrow> 'w turn_state \<Rightarrow> bool" where
  "moves_on e st s s' \<longleftrightarrow>
     (\<exists>evs. t_events s' = t_events s @ evs) \<and>
     se_plan_mode (t_session s') = se_plan_mode (t_session s) \<and> se_plan_file (t_session s') = se_plan_file (t_session s) \<and>
     se_turns (t_session s') = se_turns (t_session s) \<and>
     (\<exists>new. sh_ran (t_shop s') = sh_ran (t_shop s) @ new \<and> (\<forall>r \<in> set new. may_run e st (t_session s) (set (t_events s')) r))"

lemma plan_block_cong:
  "se_plan_mode se' = se_plan_mode se \<Longrightarrow> se_plan_file se' = se_plan_file se \<Longrightarrow>
     plan_mode_block reg st se' name inp = plan_mode_block reg st se name inp"
  unfolding plan_mode_block_def by (simp only:)

lemma may_run_cong:
  "se_plan_mode se' = se_plan_mode se \<Longrightarrow> se_plan_file se' = se_plan_file se \<Longrightarrow> evs \<subseteq> evs' \<Longrightarrow>
     may_run e st se' evs r \<Longrightarrow> may_run e st se evs' r"
  using plan_block_cong [of se' se] by (auto simp: may_run_def split: prod.splits)

lemma moves_on_refl [simp]: "moves_on e st s s"
  by (simp add: moves_on_def)

lemma moves_on_trans [trans]:
  assumes "moves_on e st s s1" "moves_on e st s1 s2"
  shows "moves_on e st s s2"
proof -
  from assms obtain ev1 ev2 n1 n2 where
    ev: "t_events s1 = t_events s @ ev1" "t_events s2 = t_events s1 @ ev2" and
    ran: "sh_ran (t_shop s1) = sh_ran (t_shop s) @ n1" "sh_ran (t_shop s2) = sh_ran (t_shop s1) @ n2" and
    ok: "\<forall>r \<in> set n1. may_run e st (t_session s) (set (t_events s1)) r" "\<forall>r \<in> set n2. may_run e st (t_session s1) (set (t_events s2)) r" and
    se: "se_plan_mode (t_session s1) = se_plan_mode (t_session s)" "se_plan_file (t_session s1) = se_plan_file (t_session s)"
      "se_plan_mode (t_session s2) = se_plan_mode (t_session s1)" "se_plan_file (t_session s2) = se_plan_file (t_session s1)"
      "se_turns (t_session s2) = se_turns (t_session s)"
    unfolding moves_on_def by metis
  have sub: "set (t_events s1) \<subseteq> set (t_events s2)" using ev by auto
  have "\<forall>r \<in> set (n1 @ n2). may_run e st (t_session s) (set (t_events s2)) r"
  proof
    fix r assume "r \<in> set (n1 @ n2)"
    then consider "r \<in> set n1" | "r \<in> set n2" by auto
    then show "may_run e st (t_session s) (set (t_events s2)) r"
    proof cases
      case 1
      with ok(1) show ?thesis using may_run_cong [OF refl refl sub] by blast
    next
      case 2
      with ok(2) show ?thesis using may_run_cong [OF se(1,2) subset_refl] by blast
    qed
  qed
  moreover have "sh_ran (t_shop s2) = sh_ran (t_shop s) @ (n1 @ n2)" "t_events s2 = t_events s @ (ev1 @ ev2)" using ran ev by simp_all
  ultimately have "\<exists>new. sh_ran (t_shop s2) = sh_ran (t_shop s) @ new \<and> (\<forall>r \<in> set new. may_run e st (t_session s) (set (t_events s2)) r)"
    "\<exists>evs. t_events s2 = t_events s @ evs" by blast+
  with se show ?thesis unfolding moves_on_def by simp
qed

text \<open>Steps that run nothing.\<close>

lemma quiet_moves:
  assumes "t_events s' = t_events s @ evs" "sh_ran (t_shop s') = sh_ran (t_shop s)"
    and "se_plan_mode (t_session s') = se_plan_mode (t_session s)" "se_plan_file (t_session s') = se_plan_file (t_session s)"
    and "se_turns (t_session s') = se_turns (t_session s)"
  shows "moves_on e st s s'"
  using assms by (auto simp: moves_on_def)

lemmas state_defs = set_world_def emit_def set_messages_def add_message_def set_locals_def force_compact_def pop_last_def

lemma quiet_steps [simp, intro]:
  "moves_on e st s (set_world w s)" "moves_on e st s (emit ev s)" "moves_on e st s (set_messages ms s)"
  "moves_on e st s (add_message m s)" "moves_on e st s (set_locals f s)" "moves_on e st s (force_compact te s)"
  "moves_on e st s (pop_last P s)" "moves_on e st s (s\<lparr>t_loc := l\<rparr>)" "moves_on e st s (s\<lparr>t_calib := k\<rparr>)"
  by (simp_all add: moves_on_def state_defs)

lemma quiet_compose:
  "moves_on e st s0 s \<Longrightarrow> moves_on e st s0 (set_world w s)" "moves_on e st s0 s \<Longrightarrow> moves_on e st s0 (emit ev s)"
  "moves_on e st s0 s \<Longrightarrow> moves_on e st s0 (set_messages ms s)" "moves_on e st s0 s \<Longrightarrow> moves_on e st s0 (add_message m s)"
  "moves_on e st s0 s \<Longrightarrow> moves_on e st s0 (set_locals f s)" "moves_on e st s0 s \<Longrightarrow> moves_on e st s0 (force_compact te s)"
  "moves_on e st s0 s \<Longrightarrow> moves_on e st s0 (pop_last P s)" "moves_on e st s0 s \<Longrightarrow> moves_on e st s0 (s\<lparr>t_loc := l\<rparr>)"
  by (blast intro: moves_on_trans quiet_steps)+

lemma mid_turn_moves [simp]: "moves_on e st s (mid_turn_compact te ov s)"
  by (auto simp: mid_turn_compact_def split: option.splits)

text \<open>A dispatch that was allowed for.\<close>

lemma dispatch_adds:
  assumes "dispatch ti mode approval policy name inp sh = (r, sh')" "pol = (case policy of Some p \<Rightarrow> p | None \<Rightarrow> PERMISSIVE)"
  shows "sh_ran sh' = sh_ran sh \<or> sh_ran sh' = sh_ran sh @ [(name, inp, pol)] \<and> permits_tool pol name \<and>
     (name \<in> set JAILED \<longrightarrow> permits_path (ti_jail ti) pol (jailed_path inp))"
  using assms
proof (cases rule: dispatch_cases)
  case (through w)
  have "sh_ran sh' = sh_ran sh @ (if param inp ''_parse_error'' = [] then [(name, inp, pol)] else [])"
    using run_instrument_ran [of ti pol name inp "sh\<lparr>sh_world := w\<rparr>"] through(3) [symmetric] by simp
  with through(1) show ?thesis by (auto simp: let_through_def)
qed auto

lemma run_batch_moves:
  assumes "run_batch e st tcs sh = (bad, rs, sh')"
    and "\<forall>(i, tc) \<in> set tcs. eligible e st se tc \<and> is_concurrency_safe (cl_name tc) (dict_get (cl_input tc) ''command'') (map_option rg_schemas (le_registry e))"
  shows "\<exists>new. sh_ran sh' = sh_ran sh @ new \<and> (\<forall>r \<in> set new. may_run e st se evs r)"
  using assms
proof (induction tcs arbitrary: sh bad rs sh')
  case (Cons a tcs)
  obtain i tc where a: "a = (i, tc)" by (cases a)
  let ?pol = "case st_policy st of Some p \<Rightarrow> p | None \<Rightarrow> PERMISSIVE"
  obtain r sh1 where d: "dispatch (le_tools e) AcceptAll None (st_policy st) (cl_name tc) (cl_input tc) sh = (r, sh1)" by (metis prod.exhaust)
  obtain bad2 rs2 where rest: "run_batch e st tcs sh1 = (bad2, rs2, sh')"
    using Cons.prems(1) d by (auto simp: a split: prod.splits outcome.splits)
  have ok: "eligible e st se tc" "is_concurrency_safe (cl_name tc) (dict_get (cl_input tc) ''command'') (map_option rg_schemas (le_registry e))"
    using Cons.prems(2) by (auto simp: a)
  obtain new where new: "sh_ran sh' = sh_ran sh1 @ new" "\<forall>r \<in> set new. may_run e st se evs r"
    using Cons.IH [OF rest] Cons.prems(2) by auto
  obtain one where one: "sh_ran sh1 = sh_ran sh @ one" "\<forall>r \<in> set one. may_run e st se evs r"
  proof -
    from dispatch_adds [OF d refl] consider "sh_ran sh1 = sh_ran sh" | "sh_ran sh1 = sh_ran sh @ [(cl_name tc, cl_input tc, ?pol)]"
      "may_run e st se evs (cl_name tc, cl_input tc, ?pol)"
      using ok by (auto simp: may_run_def eligible_def)
    then show ?thesis by cases (use that [of "[]"] that in auto)
  qed
  show ?case using new one by (intro exI [of _ "one @ new"]) auto
qed simp


lemma run_batches_moves:
  assumes "run_batches e st se bs out sh = (rs, sh')"
    and "\<forall>(safe, b) \<in> set bs. safe \<longrightarrow>
      (\<forall>(i, tc) \<in> set b. is_concurrency_safe (cl_name tc) (dict_get (cl_input tc) ''command'') (map_option rg_schemas (le_registry e)))"
  shows "\<exists>new. sh_ran sh' = sh_ran sh @ new \<and> (\<forall>r \<in> set new. may_run e st se evs r)"
  using assms
proof (induction bs arbitrary: out sh)
  case (Cons a bs)
  obtain safe b where a: "a = (safe, b)" by (cases a)
  let ?run = "filter (\<lambda>(i, tc). eligible e st se tc) b"
  show ?case
  proof (cases "\<not> safe \<or> length b < 2 \<or> length ?run < 2")
    case True
    then show ?thesis using Cons by (auto simp: a Let_def)
  next
    case False
    obtain bad r1 sh1 where b: "run_batch e st ?run sh = (bad, r1, sh1)" by (metis prod.exhaust)
    have "\<forall>(i, tc) \<in> set ?run. eligible e st se tc \<and>
        is_concurrency_safe (cl_name tc) (dict_get (cl_input tc) ''command'') (map_option rg_schemas (le_registry e))"
      using Cons.prems(2) False by (auto simp: a)
    from run_batch_moves [OF b this] obtain n1 where n1: "sh_ran sh1 = sh_ran sh @ n1" "\<forall>r \<in> set n1. may_run e st se evs r" by blast
    show ?thesis
    proof (cases bad)
      case True
      with False b Cons.prems(1) n1 show ?thesis by (auto simp: a Let_def)
    next
      case bad: False
      then have rest: "run_batches e st se bs (out @ r1) sh1 = (rs, sh')" using False b Cons.prems(1) by (auto simp: a Let_def)
      obtain n2 where "sh_ran sh' = sh_ran sh1 @ n2" "\<forall>r \<in> set n2. may_run e st se evs r"
        using Cons.IH [OF rest] Cons.prems(2) by auto
      with n1 show ?thesis by (intro exI [of _ "n1 @ n2"]) auto
    qed
  qed
qed simp

lemma partition_calls_safe: "(safe, b) \<in> set (partition_calls pred calls) \<Longrightarrow> safe \<Longrightarrow> \<forall>x \<in> set b. pred x"
proof -
  have "batches_ok pred (done @ calls) (fold (\<lambda>tc bs. partition_step bs (pred tc) tc) calls bs)"
    if "batches_ok pred done bs" for pred :: "'a \<Rightarrow> bool" and "done" calls bs
    using that
  proof (induction calls arbitrary: "done" bs)
    case (Cons tc calls)
    from Cons.IH [OF partition_step_ok [OF Cons.prems, of tc]] show ?case by simp
  qed simp
  from this [of pred "[]" "[]" calls] have "batches_ok pred calls (partition_calls pred calls)"
    by (simp add: partition_calls_def batches_ok_def)
  then show "(safe, b) \<in> set (partition_calls pred calls) \<Longrightarrow> safe \<Longrightarrow> ?thesis" by (auto simp: batches_ok_def)
qed

lemma prefetch_moves:
  assumes "prefetch_safe_batches e st (t_session s) calls (t_shop s) = (pre, sh)"
  shows "moves_on e st s (s\<lparr>t_shop := sh\<rparr>)"
proof -
  let ?pred = "\<lambda>(i :: nat, tc). is_concurrency_safe (cl_name tc) (dict_get (cl_input tc) ''command'') (map_option rg_schemas (le_registry e))"
  have "\<forall>(safe, b) \<in> set (partition_calls ?pred (zip [0..<length calls] calls)). safe \<longrightarrow>
      (\<forall>(i, tc) \<in> set b. is_concurrency_safe (cl_name tc) (dict_get (cl_input tc) ''command'') (map_option rg_schemas (le_registry e)))"
    using partition_calls_safe [of _ _ ?pred "zip [0..<length calls] calls"] by fastforce
  from run_batches_moves [OF assms [unfolded prefetch_safe_batches_def] this] obtain new where
    "sh_ran sh = sh_ran (t_shop s) @ new" "\<forall>r \<in> set new. may_run e st (t_session s) (set (t_events s)) r" by blast
  then show ?thesis by (auto simp: moves_on_def)
qed

lemma gated_run_moves:
  assumes "gated_run e st pre i tc s = (r, s')" "cl_name tc \<notin> set INTERCEPTS"
  shows "moves_on e st s s'"
proof (cases "plan_mode_block (le_registry e) st (t_session s) (cl_name tc) (cl_input tc)")
  case (Some v)
  with assms show ?thesis by (simp add: gated_run_def)
next
  case plan: None
  let ?rule = "decide (le_path_env e) (cl_name tc) (cl_input tc) (le_rules e (t_world s))"
  let ?auto = "is_auto_approved (st_mode st) (has_tool (le_registry e) (cl_name tc)) (cl_name tc) (cl_input tc)"
  let ?pol = "case st_policy st of Some p \<Rightarrow> p | None \<Rightarrow> PERMISSIVE"
  show ?thesis
  proof (cases "?rule = Some Deny")
    case True
    with assms plan show ?thesis by (simp add: gated_run_def Let_def)
  next
    case rule: False
    obtain yes s1 where ask: "(if ?rule = Some Allow \<or> ?auto then (True, s)
          else (case le_approve e (cl_name tc) (cl_input tc) (t_world s) of
              (yes, w) \<Rightarrow> (yes, emit (EvAsked (cl_name tc) (cl_input tc) yes) (set_world w s)))) = (yes, s1)" by (rule prod.exhaust)
    have "moves_on e st s (emit ev (set_world w s))" for ev w by (simp add: moves_on_def state_defs)
    then have m1: "moves_on e st s s1" using ask by (metis (no_types, lifting) moves_on_refl prod.case_eq_if snd_conv)
    have se: "t_session s1 = t_session s" using ask by (auto simp: state_defs split: if_splits prod.splits)
    have why: "?rule = Some Allow \<or> ?auto \<or> EvAsked (cl_name tc) (cl_input tc) True \<in> set (t_events s1)" if yes
      using ask that by (auto simp: state_defs split: if_splits prod.splits)
    have one: "moves_on e st s1 (s1\<lparr>t_shop := sh\<rparr>)"
      if yes "sh_ran sh = sh_ran (t_shop s1) \<or> sh_ran sh = sh_ran (t_shop s1) @ [(cl_name tc, cl_input tc, ?pol)] \<and> permits_tool ?pol (cl_name tc) \<and>
        (cl_name tc \<in> set JAILED \<longrightarrow> has_tool (le_registry e) (cl_name tc) \<or> permits_path (ti_jail (le_tools e)) ?pol (jailed_path (cl_input tc)))" for sh
      using that(2)
    proof (elim disjE conjE)
      assume "sh_ran sh = sh_ran (t_shop s1)"
      then show ?thesis by (simp add: moves_on_def)
    next
      assume r: "sh_ran sh = sh_ran (t_shop s1) @ [(cl_name tc, cl_input tc, ?pol)]" "permits_tool ?pol (cl_name tc)"
        "cl_name tc \<in> set JAILED \<longrightarrow> has_tool (le_registry e) (cl_name tc) \<or> permits_path (ti_jail (le_tools e)) ?pol (jailed_path (cl_input tc))"
      have "may_run e st (t_session s1) (set (t_events s1)) (cl_name tc, cl_input tc, ?pol)"
        unfolding may_run_def prod.case se
        by (intro conjI assms(2) plan refl r(2,3)) (use why [OF that(1)] rule in blast)+
      with r(1) show ?thesis by (auto simp: moves_on_def)
    qed
    show ?thesis
    proof (cases "yes \<and> map_of pre i = None")
      case False
      then have "s' = s1" using assms plan rule ask by (cases yes) (auto simp: gated_run_def Let_def split: if_splits option.splits)
      with m1 show ?thesis by simp
    next
      case True
      show ?thesis
      proof (cases "has_tool (le_registry e) (cl_name tc)")
        case mcp: True
        obtain a sh where d: "dispatch_mcp (le_tools e) (le_mcp_call e) (st_policy st) (cl_name tc) (cl_input tc) (t_shop s1) = (a, sh)"
          by (metis prod.exhaust)
        have "s' = s1\<lparr>t_shop := sh\<rparr>" using assms(1) plan rule ask True mcp d by (simp add: gated_run_def Let_def)
        moreover have "moves_on e st s1 (s1\<lparr>t_shop := sh\<rparr>)" using dispatch_mcp_runs [OF d refl] True mcp by (intro one) auto
        ultimately show ?thesis using m1 moves_on_trans by blast
      next
        case own: False
        obtain a sh where d: "dispatch (le_tools e) AcceptAll None (st_policy st) (cl_name tc) (cl_input tc) (t_shop s1) = (a, sh)"
          by (metis prod.exhaust)
        have "s' = s1\<lparr>t_shop := sh\<rparr>" using assms(1) plan rule ask True own d by (cases a) (simp_all add: gated_run_def Let_def)
        moreover have "moves_on e st s1 (s1\<lparr>t_shop := sh\<rparr>)" using dispatch_adds [OF d refl] True by (intro one) auto
        ultimately show ?thesis using m1 moves_on_trans by blast
      qed
    qed
  qed
qed


lemma one_call_moves:
  assumes "one_call e st overhead pre i tc s = (r, s')"
  shows "moves_on e st s s'"
proof -
  let ?s1 = "set_locals (count_repeat tc) s"
  let ?s2 = "emit (EvInvoked (cl_name tc) (cl_input tc)) ?s1"
  consider "REPEAT_LIMIT \<le> lo_repeat (t_loc ?s1)" | (ask) "lo_repeat (t_loc ?s1) < REPEAT_LIMIT" "cl_name tc = ''AskUserQuestion''"
    | (search) "lo_repeat (t_loc ?s1) < REPEAT_LIMIT" "cl_name tc = ''ToolSearch''"
    | (run) "lo_repeat (t_loc ?s1) < REPEAT_LIMIT" "cl_name tc \<notin> set INTERCEPTS" by (fastforce simp: INTERCEPTS_def)
  then show ?thesis
  proof cases
    case 1
    with assms have "s' = emit (EvGuard Repeat) ?s1" by (simp add: one_call_def Let_def)
    then show ?thesis by (auto intro: quiet_compose)
  next
    case ask
    with assms show ?thesis by (auto simp: one_call_def Let_def intro!: quiet_compose split: prod.splits)
  next
    case search
    with assms show ?thesis by (auto simp: one_call_def Let_def intro!: quiet_compose)
  next
    case run
    then have n: "cl_name tc \<noteq> ''AskUserQuestion''" "cl_name tc \<noteq> ''ToolSearch''" by (auto simp: INTERCEPTS_def)
    obtain a s3 where g: "gated_run e st pre i tc ?s2 = (a, s3)" by (rule prod.exhaust)
    have m: "moves_on e st s s3" using gated_run_moves [OF g run(2)] by (metis moves_on_trans quiet_steps(2,5))
    show ?thesis
    proof (cases a)
      case (Inl x)
      with assms run(1) n g m show ?thesis by (simp add: one_call_def Let_def)
    next
      case (Inr rp)
      obtain x ok where rp: "rp = (x, ok)" by (rule prod.exhaust)
      show ?thesis
      proof (cases "count_errors x ok (t_loc s3)")
        case None
        with assms run(1) n g m Inr rp show ?thesis by (simp add: one_call_def Let_def)
      next
        case (Some l)
        let ?s4 = "add_message (tool_message tc [] x) (emit (EvResult (cl_name tc) x ok) (s3\<lparr>t_loc := l\<rparr>))"
        have m4: "moves_on e st s ?s4" using m by (intro quiet_compose)
        have "s' = emit (EvGuard ConsecErrors) ?s4 \<or> s' = mid_turn_compact e overhead ?s4"
          using assms run(1) n g Inr rp Some by (auto simp: one_call_def Let_def split: if_splits)
        then show ?thesis using moves_on_trans [OF m4 quiet_steps(2)] moves_on_trans [OF m4 mid_turn_moves] by (elim disjE) simp_all
      qed
    qed
  qed
qed

lemma run_calls_moves: "run_calls e st overhead pre i tcs s = (r, s') \<Longrightarrow> moves_on e st s s'"
proof (induction tcs arbitrary: i s)
  case (Cons tc tcs)
  obtain a s1 where o: "one_call e st overhead pre i tc s = (a, s1)" by (rule prod.exhaust)
  have m: "moves_on e st s s1" by (rule one_call_moves [OF o])
  show ?case
  proof (cases a)
    case Next
    with Cons.prems o have "run_calls e st overhead pre (Suc i) tcs s1 = (r, s')" by simp
    from Cons.IH [OF this] m show ?thesis by (blast intro: moves_on_trans)
  qed (use Cons.prems o m in auto)
qed simp

lemma overflowed_moves: "overflowed e st pt nc s = (r, s') \<Longrightarrow> moves_on e st s s'"
  by (auto simp: overflowed_def Let_def intro!: quiet_compose split: if_splits prod.splits)

lemma answered_moves: "answered e txt i k s = (r, s') \<Longrightarrow> moves_on e st s s'"
  by (auto simp: answered_def Let_def intro!: quiet_compose split: if_splits option.splits)

lemma call_tools_moves:
  assumes "call_tools e st overhead calls s = (r, s')"
  shows "moves_on e st s s'"
proof -
  obtain pre sh where p: "prefetch_safe_batches e st (t_session s) calls (t_shop s) = (pre, sh)" by (rule prod.exhaust)
  obtain a s1 where c: "run_calls e st overhead pre 0 calls (s\<lparr>t_shop := sh\<rparr>) = (a, s1)" by (rule prod.exhaust)
  from assms p c have "s' = s1" by (cases a) (auto simp: call_tools_def)
  with prefetch_moves [OF p] run_calls_moves [OF c] show ?thesis by (blast intro: moves_on_trans)
qed

lemma completed_moves:
  assumes "completed e st est overhead tx calls i k s = (r, s')"
  shows "moves_on e st s s'"
proof -
  obtain i' k' where t: "token_counts e (t_messages s) tx i k = (i', k')" by (rule prod.exhaust)
  define s1 where "s1 = add_message ((plain_msg RAssistant tx)\<lparr>mg_calls := calls\<rparr>) (s\<lparr>t_calib := snd (note_real_prompt_tokens i est (t_calib s))\<rparr>)"
  define s3 where "s3 = emit (EvTurn i' k' (calls = [])) (s1\<lparr>t_session := (t_session s1)\<lparr>se_in := se_in (t_session s1) + i', se_out := se_out (t_session s1) + k'\<rparr>\<rparr>)"
  have m: "moves_on e st s s3" unfolding s3_def s1_def by (simp add: moves_on_def state_defs)
  have "(if calls = [] then answered e tx i' k' s3 else call_tools e st overhead calls s3) = (r, s')"
    using assms unfolding completed_def by (simp only: t prod.case Let_def s1_def s3_def)
  then have "moves_on e st s3 s'" by (auto split: if_splits dest: answered_moves call_tools_moves)
  with m show ?thesis by (rule moves_on_trans)
qed

text \<open>A request to the model counts as a turn of the session.\<close>

definition bump :: "nat \<Rightarrow> 'w turn_state \<Rightarrow> 'w turn_state" where
  "bump k s = s\<lparr>t_session := (t_session s)\<lparr>se_turns := se_turns (t_session s) + k\<rparr>\<rparr>"

lemma bump_bump [simp]: "bump j (bump k s) = bump (k + j) s"
  by (simp add: bump_def)

lemma bump_0 [simp]: "bump 0 s = s"
  by (simp add: bump_def)

lemma may_run_bump: "may_run e st (t_session (bump k s)) = may_run e st (t_session s)"
proof -
  have "plan_mode_block reg st (t_session (bump k s)) = plan_mode_block reg st (t_session s)" for reg
    by (intro ext plan_block_cong) (simp_all add: bump_def)
  then show ?thesis unfolding may_run_def by simp
qed

lemma bump_moves: "moves_on e st s s' \<Longrightarrow> moves_on e st (bump k s) (bump k s')"
proof -
  show "moves_on e st s s' \<Longrightarrow> ?thesis" unfolding moves_on_def may_run_bump by (simp add: bump_def)
qed

lemma turn_body_moves:
  assumes "turn_body e st s = (r, s')"
  shows "moves_on e st (bump 1 s) s'"
proof -
  define s1 where "s1 = s\<lparr>t_session := (t_session s)\<lparr>se_turns := Suc (se_turns (t_session s)),
      se_messages := fst (microcompact_if_cold (le_now e (t_world s)) (se_last_turn (t_session s)) (se_messages (t_session s))),
      se_last_turn := le_now e (t_world s)\<rparr>\<rparr>"
  obtain g w where g: "le_generate e (t_messages s1) (t_world s1) = (g, w)" by (rule prod.exhaust)
  have m: "moves_on e st (bump 1 s) (set_world w s1)" by (rule quiet_moves [of _ _ "[]"]) (simp_all add: s1_def state_defs bump_def)
  have "moves_on e st (set_world w s1) s'"
    using assms unfolding turn_body_def Let_def s1_def [symmetric] g prod.case
    by (cases g) (auto intro: completed_moves overflowed_moves)
  with m show ?thesis by (rule moves_on_trans)
qed

lemma turns_moves: "turns e st n s = (r, s') \<Longrightarrow> \<exists>k \<le> n. moves_on e st (bump k s) s'"
proof (induction n arbitrary: s)
  case 0
  then show ?case by auto
next
  case (Suc n)
  obtain c s1 where b: "turn_body e st s = (c, s1)" by (rule prod.exhaust)
  note m = turn_body_moves [OF b]
  show ?case
  proof (cases c)
    case Again
    with Suc b have "turns e st n s1 = (r, s')" by simp
    from Suc.IH [OF this] obtain k where k: "k \<le> n" "moves_on e st (bump k s1) s'" by blast
    have "moves_on e st (bump (1 + k) s) s'" using moves_on_trans [OF bump_moves [OF m, of k] k(2)] by simp
    with k(1) show ?thesis by (intro exI [of _ "1 + k"]) simp
  next
    case Over
    with Suc.prems b m show ?thesis by (intro exI [of _ 1]) auto
  next
    case (Raised x)
    with Suc.prems b m show ?thesis by (intro exI [of _ 1]) auto
  qed
qed


section \<open>No call three times in a row\<close>

fun invoked :: "event list \<Rightarrow> (string \<times> tool_input) list" where
  "invoked [] = []"
| "invoked (EvInvoked name inp # es) = (name, sort_key fst inp) # invoked es"
| "invoked (_ # es) = invoked es"

lemma invoked_append [simp]: "invoked (a @ b) = invoked a @ invoked b"
  by (induction a rule: invoked.induct) simp_all

definition no_triple :: "(string \<times> tool_input) list \<Rightarrow> bool" where
  "no_triple ks \<longleftrightarrow> (\<forall>a k b. ks = a @ [k, k, k] @ b \<longrightarrow> fst k \<in> set INTERCEPTS)"

definition repeat_inv :: "'w turn_state \<Rightarrow> bool" where
  "repeat_inv s \<longleftrightarrow>
     no_triple (invoked (t_events s)) \<and>
     (case lo_key (t_loc s) of
        None \<Rightarrow> invoked (t_events s) = [] \<or> fst (last (invoked (t_events s))) \<in> set INTERCEPTS
      | Some k \<Rightarrow> fst k \<notin> set INTERCEPTS \<and> 1 \<le> lo_repeat (t_loc s) \<and>
          (\<exists>a. invoked (t_events s) = a @ [k] \<and> (a \<noteq> [] \<and> last a = k \<longrightarrow> 2 \<le> lo_repeat (t_loc s))))"

text \<open>Steps that invoke nothing and leave the repeat counter alone.\<close>

definition still :: "'w turn_state \<Rightarrow> 'w turn_state \<Rightarrow> bool" where
  "still s s' \<longleftrightarrow> invoked (t_events s') = invoked (t_events s) \<and> lo_key (t_loc s') = lo_key (t_loc s) \<and> lo_repeat (t_loc s') = lo_repeat (t_loc s)"

lemma still_inv: "still s s' \<Longrightarrow> repeat_inv s \<Longrightarrow> repeat_inv s'"
  unfolding still_def repeat_inv_def by (simp only:)

lemma still_refl [simp]: "still s s"
  by (simp add: still_def)

lemma still_trans: "still s s1 \<Longrightarrow> still s1 s2 \<Longrightarrow> still s s2"
  by (simp add: still_def)

lemma no_triple_snoc:
  assumes "no_triple ks" "\<And>a. ks = a @ [k, k] \<Longrightarrow> fst k \<in> set INTERCEPTS"
  shows "no_triple (ks @ [k])"
  unfolding no_triple_def
proof (intro allI impI)
  fix a k' b assume eq: "ks @ [k] = a @ [k', k', k'] @ b"
  show "fst k' \<in> set INTERCEPTS"
  proof (cases b rule: rev_cases)
    case Nil
    with eq have "ks = a @ [k', k']" "k = k'" by auto
    with assms(2) show ?thesis by simp
  next
    case (snoc c x)
    with eq have "ks = a @ [k', k', k'] @ c" by auto
    with assms(1) show ?thesis unfolding no_triple_def by blast
  qed
qed

lemma gated_run_still: "gated_run e st pre i tc s = (r, s') \<Longrightarrow> still s s'"
  by (auto simp: gated_run_def Let_def still_def state_defs split: option.splits if_splits prod.splits bool.splits outcome.splits)

lemma count_errors_keys: "count_errors x ok l = Some l' \<Longrightarrow> lo_key l' = lo_key l \<and> lo_repeat l' = lo_repeat l"
  by (auto simp: count_errors_def split: if_splits option.splits)

lemma mid_turn_still [simp]: "still s (mid_turn_compact e ov s)"
  by (auto simp: mid_turn_compact_def still_def state_defs split: option.splits)

lemma one_call_repeat:
  assumes "one_call e st overhead pre i tc s = (r, s')" "repeat_inv s"
  shows "no_triple (invoked (t_events s')) \<and> (r = Next \<longrightarrow> repeat_inv s')"
proof -
  define k where "k = call_key tc"
  define s1 where "s1 = set_locals (count_repeat tc) s"
  define s2 where "s2 = emit (EvInvoked (cl_name tc) (cl_input tc)) s1"
  let ?L = "invoked (t_events s)"
  have ev1: "invoked (t_events s1) = ?L" by (simp add: s1_def state_defs)
  have ev2: "invoked (t_events s2) = ?L @ [k]" by (simp add: s2_def emit_def ev1 [symmetric] k_def call_key_def)
  have nt: "no_triple ?L" using assms(2) by (simp add: repeat_inv_def)
  have fk: "fst k = cl_name tc" by (simp add: k_def call_key_def)
  show ?thesis
  proof (cases "REPEAT_LIMIT \<le> lo_repeat (t_loc s1)")
    case True
    with assms(1) have "r = Stop" "s' = emit (EvGuard Repeat) s1" by (simp_all add: one_call_def s1_def Let_def)
    with nt ev1 show ?thesis by (simp add: emit_def)
  next
    case False
    have l1: "lo_key (t_loc s1) = Some k" "1 \<le> lo_repeat (t_loc s1)"
      by (simp_all add: s1_def state_defs count_repeat_def k_def)
    have prev: "2 \<le> lo_repeat (t_loc s1) \<and> (\<forall>a. ?L \<noteq> a @ [k, k])" if L: "?L \<noteq> []" "last ?L = k" "fst k \<notin> set INTERCEPTS"
    proof -
      obtain a where a: "lo_key (t_loc s) = Some k" "1 \<le> lo_repeat (t_loc s)" "?L = a @ [k]"
        "a \<noteq> [] \<and> last a = k \<longrightarrow> 2 \<le> lo_repeat (t_loc s)"
      proof (cases "lo_key (t_loc s)")
        case None
        with assms(2) L show ?thesis by (simp add: repeat_inv_def)
      next
        case (Some k')
        obtain a where "?L = a @ [k']" "1 \<le> lo_repeat (t_loc s)" "a \<noteq> [] \<and> last a = k' \<longrightarrow> 2 \<le> lo_repeat (t_loc s)"
          using assms(2) unfolding repeat_inv_def Some option.case by blast
        moreover from this L(2) have "k' = k" by simp
        ultimately show ?thesis using Some by (intro that [of a]) simp_all
      qed
      then have c: "lo_repeat (t_loc s1) = Suc (lo_repeat (t_loc s))" by (simp add: s1_def state_defs count_repeat_def k_def)
      show ?thesis
      proof (intro conjI allI notI)
        show "2 \<le> lo_repeat (t_loc s1)" using a(2) c by simp
        fix b assume "?L = b @ [k, k]"
        then have "a = b @ [k]" using a(3) by simp
        with a(4) have "2 \<le> lo_repeat (t_loc s)" by simp
        with c False show False by (simp add: REPEAT_LIMIT_def)
      qed
    qed
    have nt2: "no_triple (invoked (t_events s2))" unfolding ev2
    proof (rule no_triple_snoc [OF nt])
      fix a assume "?L = a @ [k, k]"
      with prev show "fst k \<in> set INTERCEPTS" by auto
    qed
    have inv2: "repeat_inv s2" if "fst k \<notin> set INTERCEPTS"
      using nt2 l1 prev that ev2 unfolding repeat_inv_def by (auto simp: s2_def emit_def)
    consider (ask) "cl_name tc = ''AskUserQuestion''" | (search) "cl_name tc = ''ToolSearch''" | (run) "cl_name tc \<notin> set INTERCEPTS"
      by (fastforce simp: INTERCEPTS_def)
    then show ?thesis
    proof cases
      case ask
      then have f: "fst k \<in> set INTERCEPTS" by (simp add: fk INTERCEPTS_def)
      from ask False assms(1) have "invoked (t_events s') = invoked (t_events s2)" "lo_key (t_loc s') = None"
        by (auto simp: one_call_def Let_def s2_def s1_def state_defs split: prod.splits)
      then show ?thesis using nt2 f ev2 by (simp add: repeat_inv_def)
    next
      case search
      then have f: "fst k \<in> set INTERCEPTS" by (simp add: fk INTERCEPTS_def)
      from search False assms(1) have "invoked (t_events s') = invoked (t_events s2)" "lo_key (t_loc s') = None"
        by (auto simp: one_call_def Let_def s2_def s1_def state_defs)
      then show ?thesis using nt2 f ev2 by (simp add: repeat_inv_def)
    next
      case run
      then have n: "cl_name tc \<noteq> ''AskUserQuestion''" "cl_name tc \<noteq> ''ToolSearch''" by (auto simp: INTERCEPTS_def)
      have i2: "repeat_inv s2" using inv2 run fk by simp
      obtain a s3 where g: "gated_run e st pre i tc s2 = (a, s3)" by (rule prod.exhaust)
      have i3: "repeat_inv s3" by (rule still_inv [OF gated_run_still [OF g] i2])
      have "repeat_inv s'"
      proof (cases "s' = s3")
        case False
        then obtain x ok l where x: "a = Inr (x, ok)" "count_errors x ok (t_loc s3) = Some l"
          using assms(1) n \<open>\<not> REPEAT_LIMIT \<le> lo_repeat (t_loc s1)\<close> g
          by (auto simp: one_call_def Let_def s2_def s1_def split: sum.splits option.splits)
        define s4 where "s4 = add_message (tool_message tc [] x) (emit (EvResult (cl_name tc) x ok) (s3\<lparr>t_loc := l\<rparr>))"
        have "still s3 s4" using count_errors_keys [OF x(2)] by (simp add: still_def s4_def state_defs)
        then have i4: "repeat_inv s4" using i3 by (rule still_inv)
        have "s' = emit (EvGuard ConsecErrors) s4 \<or> s' = mid_turn_compact e overhead s4"
          using assms(1) n \<open>\<not> REPEAT_LIMIT \<le> lo_repeat (t_loc s1)\<close> g x
          by (auto simp: one_call_def Let_def s2_def s1_def s4_def split: if_splits)
        moreover have "still s4 (emit (EvGuard ConsecErrors) s4)" by (simp add: still_def state_defs)
        ultimately show ?thesis using i4 still_inv mid_turn_still by metis
      qed (simp add: i3)
      then show ?thesis by (simp add: repeat_inv_def)
    qed
  qed
qed

lemma run_calls_repeat:
  "run_calls e st overhead pre i tcs s = (r, s') \<Longrightarrow> repeat_inv s \<Longrightarrow>
     no_triple (invoked (t_events s')) \<and> (r = Next \<longrightarrow> repeat_inv s')"
proof (induction tcs arbitrary: i s)
  case Nil
  then show ?case by (simp add: repeat_inv_def)
next
  case (Cons tc tcs)
  obtain a s1 where o: "one_call e st overhead pre i tc s = (a, s1)" by (rule prod.exhaust)
  note one = one_call_repeat [OF o Cons.prems(2)]
  show ?case
  proof (cases a)
    case Next
    with Cons.prems(1) o have "run_calls e st overhead pre (Suc i) tcs s1 = (r, s')" by simp
    from Cons.IH [OF this] one Next show ?thesis by blast
  qed (use Cons.prems(1) o one in auto)
qed

lemma completed_still:
  assumes "completed e st est overhead tx calls i k s = (r, s')"
  obtains i' k' s3 where "still s s3"
    "(if calls = [] then answered e tx i' k' s3 else call_tools e st overhead calls s3) = (r, s')"
proof -
  obtain i' k' where t: "token_counts e (t_messages s) tx i k = (i', k')" by (rule prod.exhaust)
  define s1 where "s1 = add_message ((plain_msg RAssistant tx)\<lparr>mg_calls := calls\<rparr>) (s\<lparr>t_calib := snd (note_real_prompt_tokens i est (t_calib s))\<rparr>)"
  define s3 where "s3 = emit (EvTurn i' k' (calls = [])) (s1\<lparr>t_session := (t_session s1)\<lparr>se_in := se_in (t_session s1) + i', se_out := se_out (t_session s1) + k'\<rparr>\<rparr>)"
  have "still s s3" unfolding s3_def s1_def by (simp add: still_def state_defs)
  moreover have "(if calls = [] then answered e tx i' k' s3 else call_tools e st overhead calls s3) = (r, s')"
    using assms unfolding completed_def by (simp only: t prod.case Let_def s1_def s3_def)
  ultimately show thesis by (rule that)
qed

lemma still_compose:
  "still s0 s \<Longrightarrow> still s0 (emit (EvGuard g) s)" "still s0 s \<Longrightarrow> still s0 (set_messages ms s)"
  "still s0 s \<Longrightarrow> still s0 (force_compact te s)" "still s0 s \<Longrightarrow> still s0 (pop_last P s)"
  "still s0 s \<Longrightarrow> still s0 (set_locals (\<lambda>l. l\<lparr>lo_compacted := c\<rparr>) s)"
  by (simp_all add: still_def state_defs)

lemma overflowed_still: "overflowed e st pt nc s = (r, s') \<Longrightarrow> still s s'"
  by (auto simp: overflowed_def Let_def intro!: still_compose split: if_splits prod.splits)

lemma turn_body_repeat:
  assumes "turn_body e st s = (r, s')" "repeat_inv s"
  shows "no_triple (invoked (t_events s')) \<and> (r = Again \<longrightarrow> repeat_inv s')"
proof -
  define s1 where "s1 = s\<lparr>t_session := (t_session s)\<lparr>se_turns := Suc (se_turns (t_session s)),
      se_messages := fst (microcompact_if_cold (le_now e (t_world s)) (se_last_turn (t_session s)) (se_messages (t_session s))),
      se_last_turn := le_now e (t_world s)\<rparr>\<rparr>"
  obtain g w where g: "le_generate e (t_messages s1) (t_world s1) = (g, w)" by (rule prod.exhaust)
  have "still s (set_world w s1)" by (simp add: still_def s1_def state_defs)
  then have i1: "repeat_inv (set_world w s1)" using assms(2) by (rule still_inv)
  have quiet: ?thesis if "still (set_world w s1) s'"
    using still_inv [OF that i1] by (simp add: repeat_inv_def)
  note body = assms(1) [unfolded turn_body_def Let_def s1_def [symmetric] g prod.case]
  show ?thesis
  proof (cases g)
    case (Completed tx calls i k)
    from body Completed obtain est overhead where "completed e st est overhead tx calls i k (set_world w s1) = (r, s')" by auto
    then obtain i' k' s3 where s3: "still (set_world w s1) s3"
      and c: "(if calls = [] then answered e tx i' k' s3 else call_tools e st overhead calls s3) = (r, s')"
      by (rule completed_still)
    show ?thesis
    proof (cases "calls = []")
      case True
      with c have "answered e tx i' k' s3 = (r, s')" by simp
      then have "still s3 s'" by (auto simp: answered_def Let_def still_def state_defs split: if_splits option.splits)
      with s3 quiet still_trans show ?thesis by blast
    next
      case False
      obtain pre sh where p: "prefetch_safe_batches e st (t_session s3) calls (t_shop s3) = (pre, sh)" by (rule prod.exhaust)
      obtain a s4 where rc: "run_calls e st overhead pre 0 calls (s3\<lparr>t_shop := sh\<rparr>) = (a, s4)" by (rule prod.exhaust)
      have "still s3 (s3\<lparr>t_shop := sh\<rparr>)" by (simp add: still_def)
      then have "repeat_inv (s3\<lparr>t_shop := sh\<rparr>)" using still_inv [OF s3 i1] still_inv by blast
      from run_calls_repeat [OF rc this] False c p rc show ?thesis by (cases a) (auto simp: call_tools_def)
    qed
  next
    case (Overflow pt nc)
    with body have "overflowed e st pt nc (set_world w s1) = (r, s')" by simp
    then have "still (set_world w s1) s'" by (rule overflowed_still)
    then show ?thesis by (rule quiet)
  next
    case NoAnswer
    with body show ?thesis using quiet by simp
  next
    case (GenFails x)
    with body show ?thesis using quiet by simp
  qed
qed


section \<open>Runs\<close>

text \<open>A model that gives the answers of a script, in a world that counts them.\<close>

definition script_env :: "gen list \<Rightarrow> nat turn_env" where
  "script_env answers = \<lparr>le_tools = demo_instruments\<lparr>ti_handler := (\<lambda>name _ _ _ w. (if name = ''Bash'' then Answer ''Error: command timed out after 5s'' else Answer ''ok'', w))\<rparr>,
     le_registry = Some \<lparr>rg_schemas = [\<lparr>ms_name = ''mcp__gh__issues'', ms_hints = Some (True, False)\<rparr>, \<lparr>ms_name = ''mcp__gh__pulls'', ms_hints = Some (True, False)\<rparr>],
       rg_keys = [''mcp__gh__issues'', ''mcp__gh__pulls'']\<rparr>,
     le_mcp_call = (\<lambda>_ _ w. (Inr ''served'', w)), le_path_env = demo_path_env,
     le_rules = (\<lambda>_. \<lparr>ru_allow = [], ru_deny = [''WebFetch(domain:evil.org)'']\<rparr>),
     le_generate = (\<lambda>_ w. (if w < length answers then answers ! w else NoAnswer, Suc w)),
     le_approve = (\<lambda>_ _ w. (False, w)), le_answer = (\<lambda>_ w. (None, w)), le_search = (\<lambda>_. []),
     le_trim = demo_trim_env, le_served = (\<lambda>_. Some 8192), le_now = (\<lambda>w. 1), le_fixed = (\<lambda>_ _. 400), le_repr_len = (\<lambda>bs. 0)\<rparr>"

definition demo_session :: session where
  "demo_session = \<lparr>se_messages = [], se_plan_mode = False, se_plan_file = None, se_turns = 0, se_in = 0, se_out = 0, se_last_turn = 0\<rparr>"

definition demo_turn :: "nat turn_state" where
  "demo_turn = \<lparr>t_shop = demo_shop, t_session = demo_session, t_calib = reset_calibration, t_events = [], t_loc = fresh_locals\<rparr>"

definition demo_settings :: settings where
  "demo_settings = \<lparr>st_mode = PAutonomous, st_policy = None, st_max_turns = 5, st_max_tokens = 0, st_plan_mcp = []\<rparr>"

definition mk_call :: "string \<Rightarrow> tool_input \<Rightarrow> call" where
  "mk_call name inp = \<lparr>cl_id = name, cl_name = name, cl_input = inp\<rparr>"

definition one_write :: "gen list" where
  "one_write = [Completed [] [mk_call ''Write'' [(''file_path'', ''/repo/a''), (''content'', ''x'')]] 10 10, Completed ''Written.'' [] 10 10]"



definition three_questions :: "gen list" where
  "three_questions = [Completed [] (replicate 3 (mk_call ''AskUserQuestion'' [])) 10 10, Completed ''Fine.'' [] 10 10]"


text \<open>
  The counter of transient failures has no value before a call succeeded: a turn whose first call times out raises.
\<close>

definition slow_shell :: "gen list" where
  "slow_shell = [Completed [] [mk_call ''Bash'' [(''command'', ''make'')]] 10 10, Completed ''Timed out.'' [] 10 10]"

lemma first_timeout_raises:
  "fst (execute_turn (script_env slow_shell) (demo_settings\<lparr>st_mode := PAcceptAll\<rparr>) ''build'' demo_turn) = TurnRaises ''UnboundLocalError''"
  by code_simp

text \<open>A call that a rule denies runs when it overlaps with another one; only its result is withheld.\<close>

definition two_pages :: "gen list" where
  "two_pages = [Completed [] [mk_call ''WebFetch'' [(''url'', ''evil.org'')], mk_call ''WebFetch'' [(''url'', ''good.org'')]] 10 10, Completed ''Read.'' [] 10 10]"

lemma denied_call_runs_overlapped:
  "decide (le_path_env (script_env two_pages)) ''WebFetch'' [(''url'', ''evil.org'')] (le_rules (script_env two_pages) 0) = Some Deny"
  "map fst (map snd (sh_ran (t_shop (snd (execute_turn (script_env two_pages) demo_settings ''read'' demo_turn)))))
     = [[(''url'', ''evil.org'')], [(''url'', ''good.org'')]]"
  by code_simp+

text \<open>Two reads of another server that overlap are looked up among the instruments, where they are not.\<close>

definition two_reads :: "gen list" where
  "two_reads = [Completed [] [mk_call ''mcp__gh__issues'' [], mk_call ''mcp__gh__pulls'' []] 10 10, Completed ''Read.'' [] 10 10]"

definition results :: "event list \<Rightarrow> string list" where
  "results es = concat (map (\<lambda>ev. case ev of EvResult _ r _ \<Rightarrow> [r] | _ \<Rightarrow> []) es)"

lemma overlapped_servers_are_unknown:
  "results (t_events (snd (execute_turn (script_env two_reads) demo_settings ''read'' demo_turn)))
     = [''Error: Unknown instrument: mcp__gh__issues'', ''Error: Unknown instrument: mcp__gh__pulls'']"
  "results (t_events (snd (execute_turn (script_env [Completed [] [mk_call ''mcp__gh__issues'' []] 10 10]) demo_settings ''read'' demo_turn)))
     = [''served'']"
  by code_simp+

text \<open>A tool of a server that the policy denies runs under its bare name.\<close>

definition no_github :: tool_policy where
  "no_github = \<lparr>tp_allow = None, tp_deny = [''mcp__gh__*''], tp_roots = []\<rparr>"

lemma bare_name_evades_policy:
  "map fst (sh_ran (t_shop (snd (execute_turn (script_env [Completed [] [mk_call ''issues'' []] 10 10])
     (demo_settings\<lparr>st_policy := Some no_github\<rparr>) ''list'' demo_turn)))) = [''issues'']"
  "sh_ran (t_shop (snd (execute_turn (script_env [Completed [] [mk_call ''mcp__gh__issues'' []] 10 10])
     (demo_settings\<lparr>st_policy := Some no_github\<rparr>) ''list'' demo_turn))) = []"
  by code_simp+

text \<open>In plan mode an edit of any notebook passes that names the plan as its \<open>file_path\<close>.\<close>

lemma plan_mode_lets_notebook_through:
  "plan_mode_block None demo_settings (demo_session\<lparr>se_plan_mode := True, se_plan_file := Some ''/plan.md''\<rparr>) ''NotebookEdit''
     [(''file_path'', ''/plan.md''), (''notebook_path'', ''/repo/a.ipynb'')] = None"
  by code_simp

end
