(* ===== verification/Spec2Isabelle.thy ===== *)
theory Spec2Isabelle
  imports Lease_Resume Tier_Props Thrash Prefix_Guard Prompt_Index Lease_Client Quant_DP Phase_Lock Wait Rotator
    Bounded_Lines Gguf_Plan Tuner Placement Gateway Fit_Report Serve_Plan Cluster_Map Job_Queue Turn_Loop
begin

text \<open>
  \<^bold>\<open>GreenBoost, the Python core: a verification library.\<close>

  GreenBoost lets models that are larger than a graphics card run on it: a kernel module and a CUDA shim (C, not
  modelled) add system memory (T2) and disk (T3) to the card's memory (T1), and a layer of Python decides who may use
  the card, what of a model lives where, what is evicted, what is served, and what an agent or a script may change.
  This library models that layer, function by function, and states what makes it correct. All paths below are
  relative to the source tree; a file without a directory is at its root, and \<^verbatim>\<open>cli/\<close> abbreviates
  \<^verbatim>\<open>greenboost-cli/greenboost_cli/\<close>.

  \<^bold>\<open>The parts and how they interact.\<close>

  \<^item> \<^emph>\<open>Who may use the card.\<close> \<^verbatim>\<open>gb_lease.py\<close> (\<open>Lease\<close>, \<open>Lease_Steps\<close>, \<open>Lease_Safety\<close>, \<open>Lease_Resume\<close>) is the
    arbiter: every process runs the same operations as transactions on one state file. A client asks, waits with a
    ticket, renews and releases through \<^verbatim>\<open>gb_lease_client.py\<close> (\<open>Lease_Client\<close>), which also looks up whom an unload
    would hurt. \<^verbatim>\<open>gb_phase.py\<close> (\<open>Phase_Lock\<close>) is the older, coarser lock: one heavy phase at a time by one lock file.
    Waiting anywhere goes through \<^verbatim>\<open>gb_wait.py\<close> (\<open>Wait\<close>).
  \<^item> \<^emph>\<open>What of a model lives where.\<close> \<^verbatim>\<open>gb_model_tier.py\<close> (\<open>Model_Tier\<close>, \<open>Tier_Props\<close>) moves components between
    T1, T2 and T3; its victims come from \<^verbatim>\<open>gb_evict_policy.py\<close> (\<open>Evict_Policy\<close>) and every move is seen by
    \<^verbatim>\<open>gb_thrash.py\<close> (\<open>Thrash\<close>). \<^verbatim>\<open>gb_placement.py\<close> (\<open>Placement\<close>) is the ladder for a model that does not fit, the
    apportioning of its units to nodes and the layer fit over devices. \<^verbatim>\<open>gb_synapse.py\<close> sizes a serve
    (\<open>Serve_Fit\<close>, \<open>Fit_Report\<close>) and \<^verbatim>\<open>gb_synapse_backends.py\<close> launches it (\<open>Serve_Plan\<close>).
  \<^item> \<^emph>\<open>How few bits it may keep.\<close> \<^verbatim>\<open>gb_quant_dp.py\<close> (\<open>Quant_DP\<close>) picks the bits of each layer by a knapsack;
    \<^verbatim>\<open>gb_quant_roles.py\<close> and \<^verbatim>\<open>gb_gguf_plan.py\<close> (\<open>Gguf_Plan\<close>) plan a file of tensors down to a budget without going
    below the floor of any tensor's role.
  \<^item> \<^emph>\<open>What a conversation may reuse.\<close> \<^verbatim>\<open>gb_prompt_index.py\<close> (\<open>Prompt_Index\<close>) cuts a request into chunks and routes it
    to the slot that knows its prefix; \<^verbatim>\<open>gb_prefix_guard.py\<close> (\<open>Prefix_Guard\<close>) keeps the radix tree of prefixes and
    accounts for what a compaction would throw away.
  \<^item> \<^emph>\<open>What runs unattended.\<close> \<^verbatim>\<open>gb_tuner.py\<close> (\<open>Tuner\<close>) decides which lever of the card should move;
    \<^verbatim>\<open>gb_control.py\<close> (\<open>Control\<close>) is the one place that moves one, and puts everything back;
    \<^verbatim>\<open>gb_reclaim.py\<close> (\<open>Reclaim\<close>) frees the
    card from what leaked; \<^verbatim>\<open>gb_rotator.py\<close> (\<open>Rotator\<close>) serves models in turn overnight; \<^verbatim>\<open>gb_cluster.py\<close>
    (\<open>Cluster_Map\<close>, \<open>Job_Queue\<close>) spreads work over machines.
  \<^item> \<^emph>\<open>What an agent may do.\<close> \<^verbatim>\<open>gb_actuation.py\<close> (\<open>Actuation\<close>) holds the write verbs and the gate in front of them,
    \<^verbatim>\<open>gb_a2a.py\<close> (\<open>Gateway\<close>) the HTTP server in front of that; the verbs call the levers and the reclaim. In the CLI,
    \<^verbatim>\<open>cli/instruments/safety.py\<close> and \<^verbatim>\<open>concurrency.py\<close> (\<open>Shell_Text\<close>, \<open>Shell_Gate\<close>) say which shell commands run
    without asking and which calls overlap, \<^verbatim>\<open>cli/core/permission_rules.py\<close> (\<open>Permission_Rules\<close>) which patterns are
    allowed, \<^verbatim>\<open>cli/instruments/policy.py\<close> (\<open>Tool_Policy\<close>) what a delegate inherits, and
    \<^verbatim>\<open>cli/core/bounded_lines.py\<close> (\<open>Bounded_Lines\<close>) reads what a subprocess prints.
  \<^item> \<^emph>\<open>The turn of an agent.\<close> \<^verbatim>\<open>cli/core/orchestrator.py\<close> (\<open>Turn_Loop\<close>, with the resolution of tool names of
    \<^verbatim>\<open>cli/mcp/client.py\<close>) asks the model, takes each call of the answer through plan mode, the permission rules and the
    approval, runs the read-only ones ahead, counts repeats and errors, and recovers from a full window. A call is run by
    \<^verbatim>\<open>cli/instruments/dispatcher.py\<close> (\<open>Tool_Dispatch\<close>, with \<^verbatim>\<open>hooks.py\<close> and the classification of failures in
    \<^verbatim>\<open>handlers.py\<close>), which asks the hooks, the policy and the workspace jail. \<^verbatim>\<open>cli/workflow/intelligence.py\<close>
    (\<open>Context_Trim\<close>) keeps the conversation inside the window: estimate, clearing, compaction, last resort.
\<close>

text \<open>
  \<^bold>\<open>Conventions.\<close> \<open>GB_Prelude\<close> holds the Python values: a \<open>float\<close> is an exact rational (rounding, infinities and
  NaN are outside the model; where the code divides by what may be zero the branch is written out), an \<open>int\<close> is an
  \<open>int\<close> or a \<open>nat\<close>, a \<open>dict\<close> is an association list in insertion order, a text is a \<open>string\<close>. Words of a fixed width
  appear where the code has them (\<^verbatim>\<open>ioctl\<close> numbers in \<open>Control\<close>, the bytes of UTF-8 in \<open>Bounded_Lines\<close>). An exception
  or an early return is a value (a sum, an option, an outcome datatype); the sentence of a message is a constructor that
  carries what the code interpolates, or the text itself, where a character outside ASCII is one stand-in. \<open>Py_Text\<close> and \<open>Shell_Text\<close>
  are the functions of the standard library that the code uses on text. What lies outside the Python sources (torch, NVML, the kernel, HTTP, SHA-256, subprocesses, the clock)
  is a parameter: an argument, a record of functions, or a reading made anew at every step of a run.

  \<^bold>\<open>State and operations.\<close> Each class is a record and each method a function from state to state, with the guards in
  the order of the code: \<open>LeaseArbiter\<close> is \<open>lstate\<close> under \<open>txn\<close>; \<open>ModelTierManager\<close> is \<open>tier_state\<close> with
  \<open>register\<close>, \<open>promote\<close>, \<open>demote\<close>, \<open>evict\<close>, \<open>evict_for_headroom\<close>; \<open>GbControl\<close> is \<open>ctl\<close> beside the \<open>machine\<close> it
  writes; \<open>ThrashDetector\<close>, the radix tree, the prompt index and the tuner are theirs alike. Where the code is run by
  several threads or processes the model is a step relation whose steps are the atomic actions of the code, in any
  order: \<open>lease_step\<close> (transactions of any processes), \<open>phase_step\<close> (file actions \<open>O_EXCL\<close>, write, read, unlink),
  \<open>cluster_next\<close> and \<open>jobs_next\<close> (accesses of the threads to the queues), \<open>tier_step\<close>, and in \<open>Reclaim\<close> a world that
  changes by an arbitrary function between any two calls.

  \<^bold>\<open>Interfaces.\<close> Where one part rests on another's promise the promise is a locale, with the client proved inside it
  and the provider's model as its interpretation. \<open>eviction_policy\<close> is the \<open>EvictionPolicy\<close> protocol, interpreted on
  the LRU policy and on the bucketed policy over it; \<open>eviction_policy_factory\<close> adds the construction of a bucket and
  \<open>eviction_controller\<close> is the per-tier controller over any policy, interpreted on the one the tier manager uses.
  \<open>lease_service\<close> is what the client needs of an arbiter, interpreted on the arbiter of \<open>Lease\<close> while other processes
  use it between any two calls. \<open>holder_rule\<close> is what a sharing rule needs for the admission pass to keep it,
  interpreted on the four rules of the arbiter (solo classes, tiering alone, the card's budget, a client's budget).
  \<open>sound_filter\<close>, \<open>feasible_filter\<close> and \<open>dominating_filter\<close> are what the bit planner relies on in a pruning of its
  states, interpreted on the Pareto pruning and on the beam.

  \<^bold>\<open>What the lemmas show.\<close>

  \<^item> Leases: the sharing rules, the bounded queue, no backfill, tokens that never come back to life, live holders that
    keep their lease, refusals on a damaged file, tickets by key, and the hand-over of paused models, in every state
    reachable by any operations; a client leaves no ticket behind, whatever the others do, and its wait ends.
  \<^item> Phase lock: two phases never hold the card together in any interleaving, except in the runs that \<open>Phase_Lock\<close>
    exhibits and its properties exclude by name.
  \<^item> Tiers: an eviction to disk followed by a promotion restores the weights; the headroom loop ends and says why;
    victims are never stale. The detector's counters equal the plain reading of a history.
  \<^item> Planners: the knapsack without a state limit is optimal and with one it stays feasible; byte plans come down to
    their budget and stay over every floor; the layer fit is maximal; apportioning is exact; a solved load fits what was
    promised; no engine starts with layers on the CPU unless that is allowed.
  \<^item> Control: no lever leaves its bounds or moves faster than its rate, and the baseline comes back; a tuner stays
    between its bounds over any readings.
  \<^item> Gates: nothing runs unattended that is not on the list; a delegate is never wider than its parent; a request
    without the token changes nothing; a signal is only ever sent to a target of the scope.
  \<^item> The turn: whatever the model answers, a call that ran passed every gate in front of it, the third equal call ends
    the turn, and the model is asked at most \<open>max_turns\<close> times; an instrument that ran was let through and logged; a
    compaction keeps head and tail; the last resort says truly whether the request fits.
  \<^item> Concurrency: results of a shared work queue come back in order, whatever the interleaving; a closed job queue
    settles every future.
  \<^item> Where the code falls short of what its comments say, the run that shows it is a lemma (the manifest's findings
    name it), and the properties carry the hypothesis that excludes it.

  \<^bold>\<open>Loops, fuel and termination.\<close> Recursion is structural or has its measure: \<open>truncate_loop\<close> the length of the texts,
  \<open>drop_loop\<close> the number of messages, the bisection in \<open>Placement\<close> what is left of its interval, \<open>turns\<close> what is left of
  \<open>max_turns\<close>. The headroom loop of the tier manager runs on fuel; \<open>Tier_Props\<close> proves that one round for each
  component suffices. \<open>wait_loop\<close> and \<open>poll_lease\<close> may run for ever and are \<open>partial_function (option)\<close>;
  \<open>Wait\<close> and \<open>Lease_Client\<close> prove that they return, and under what condition on the clock.

  \<^bold>\<open>Not modelled\<close>, and why: downloads, manifests on disk, subprocess life cycles and HTTP of \<^verbatim>\<open>gb_synapse*.py\<close>, the
  daemons (\<^verbatim>\<open>gb_supervisor.py\<close>, \<^verbatim>\<open>gb_orchestrator.py\<close>, \<^verbatim>\<open>gb_monitor.py\<close>) and the telemetry (\<^verbatim>\<open>gb_telemetry.py\<close>,
  \<^verbatim>\<open>gb_dataflux*.py\<close>) are input and output around the computations modelled here; \<^verbatim>\<open>gb_quant.py\<close>, \<^verbatim>\<open>gb_attn.py\<close>,
  \<^verbatim>\<open>gb_moe.py\<close> and their kind are tensor numerics in torch; \<^verbatim>\<open>gb_semantics.py\<close> scans source files with regular
  expressions; benches, diagnostics, the dashboards, the terminal of the CLI, retrieval and workflow agents print, prompt
  and call models; the instruments of the CLI, its hooks and the servers of other tools are arguments of the dispatch.
  The safe file primitives of the arbiter (\<^verbatim>\<open>O_NOFOLLOW\<close>, rename), CUDA streams and pinned copies of the tier manager, and the text that reports are printed in, are left out of the parts that are modelled. The C sources
  (kernel module, shim, eBPF), \<^verbatim>\<open>third_party\<close> and \<^verbatim>\<open>synapse_engine\<close> are other programs.
\<close>

end
